(* ===== verification/Prelude.thy ===== *)
theory Prelude
  imports Main "HOL-Library.Word"
begin

text \<open>
  What every component shares: the names of the machine types, the vector
  operations of the C++ standard library that the sources use (\<open>operator[]\<close>,
  \<open>resize\<close>), the byte image of a \<open>float\<close> as \<open>asio::buffer\<close> exposes it, the
  conversion between strings and bytes, and lemmas on lists cut into chunks.

  A read or write past the end of a vector is undefined behaviour in C++; it is the
  error \<open>Out_Of_Bounds\<close> here, never a value.
\<close>

named_theorems vec_simps
  \<comment> \<open>bounds-checked vector accesses whose index is in range\<close>

type_synonym byte = "8 word"
type_synonym u32 = "32 word"
type_synonym sample = "32 word"
  \<comment> \<open>the bit pattern of a \<open>float\<close>\<close>

subsection \<open>Errors\<close>

datatype asio_error =
    would_block | try_again | eof | connection_reset | connection_refused
  | connection_aborted | bad_descriptor | already_open | not_found | not_connected
  | broken_pipe | host_not_found | in_progress | address_in_use | invalid_argument
  | operation_aborted

text \<open>
  How a process can stop other than by returning: undefined behaviour (an index out
  of bounds, a read of an uninitialised variable), an exception of the standard
  library (\<open>Bad_Alloc\<close> when memory runs out), or the \<open>asio::system_error\<close> that the overloads of asio without an
  \<open>error_code\<close> argument throw.  \<open>Bad_Response\<close> is an answer of the operating
  system that does not fit the call; the network model never gives one.
\<close>

datatype error =
    Out_Of_Bounds
  | Uninitialised_Read
  | Std_Out_Of_Range
  | Length_Error
  | Bad_Alloc
  | Undefined_Conversion
  | Bad_Address_Cast
  | Std_Invalid_Argument
  | System_Error asio_error
  | Bad_Response

definition ebind :: "error + 'a \<Rightarrow> ('a \<Rightarrow> error + 'b) \<Rightarrow> error + 'b" where
  "ebind m f = (case m of Inl e \<Rightarrow> Inl e | Inr x \<Rightarrow> f x)"

lemma ebind_simps [simp]:
  "ebind (Inl e) f = Inl e"
  "ebind (Inr x) f = f x"
  by (simp_all add: ebind_def)

lemma ebind_eq_Inr_iff: "ebind m f = Inr y \<longleftrightarrow> (\<exists>x. m = Inr x \<and> f x = Inr y)"
  by (cases m) simp_all

subsection \<open>Vectors\<close>

definition vec_get :: "'a list \<Rightarrow> nat \<Rightarrow> error + 'a" where
  "vec_get v i = (if i < length v then Inr (v ! i) else Inl Out_Of_Bounds)"

definition vec_set :: "'a list \<Rightarrow> nat \<Rightarrow> 'a \<Rightarrow> error + 'a list" where
  "vec_set v i x = (if i < length v then Inr (v[i := x]) else Inl Out_Of_Bounds)"

definition resize :: "'a::zero list \<Rightarrow> nat \<Rightarrow> 'a list" where
  "resize v n = take n v @ replicate (n - length v) 0"

lemma vec_get_in [simp, vec_simps]: "i < length v \<Longrightarrow> vec_get v i = Inr (v ! i)"
  by (simp add: vec_get_def)

lemma vec_get_out [simp]: "length v \<le> i \<Longrightarrow> vec_get v i = Inl Out_Of_Bounds"
  by (simp add: vec_get_def)

lemma vec_set_in [simp, vec_simps]: "i < length v \<Longrightarrow> vec_set v i x = Inr (v[i := x])"
  by (simp add: vec_set_def)

lemma vec_set_out [simp]: "length v \<le> i \<Longrightarrow> vec_set v i x = Inl Out_Of_Bounds"
  by (simp add: vec_set_def)

lemma length_resize [simp]: "length (resize v n) = n"
  by (simp add: resize_def)

lemma resize_Nil_iff [simp]: "resize v n = [] \<longleftrightarrow> n = 0"
  by (metis length_0_conv length_resize)

lemma resize_shrink: "n \<le> length v \<Longrightarrow> resize v n = take n v"
  by (simp add: resize_def)

lemma resize_grow: "length v \<le> n \<Longrightarrow> resize v n = v @ replicate (n - length v) 0"
  by (simp add: resize_def)

lemma resize_same [simp]: "resize v (length v) = v"
  by (simp add: resize_def)

subsection \<open>The bytes of a float\<close>

text \<open>The executables are built for x86, so the byte image is little-endian.\<close>

definition float_bytes :: "sample \<Rightarrow> byte list" where
  "float_bytes w = [ucast w, ucast (drop_bit 8 w), ucast (drop_bit 16 w), ucast (drop_bit 24 w)]"

fun bytes_float :: "byte list \<Rightarrow> sample" where
  "bytes_float [a, b, c, d] =
     or (ucast a) (or (push_bit 8 (ucast b)) (or (push_bit 16 (ucast c)) (push_bit 24 (ucast d))))"
| "bytes_float _ = 0"

lemma length_float_bytes [simp]: "length (float_bytes w) = 4"
  by (simp add: float_bytes_def)

lemma bytes_float_float_bytes [simp]: "bytes_float (float_bytes w) = w"
proof (rule bit_word_eqI)
  fix n assume "n < LENGTH(32)"
  then have n: "n < 32" by simp
  then consider "n < 8" | "8 \<le> n \<and> n < 16" | "16 \<le> n \<and> n < 24" | "24 \<le> n" by linarith
  then show "bit (bytes_float (float_bytes w)) n = bit w n"
    by cases (use n in \<open>auto simp: float_bytes_def bit_simps\<close>)
qed

definition audio_bytes :: "sample list \<Rightarrow> byte list" where
  "audio_bytes xs = concat (map float_bytes xs)"

text \<open>The \<open>i\<close>-th element of a \<open>vector<float>\<close> whose memory holds these bytes.\<close>

definition float_at :: "byte list \<Rightarrow> nat \<Rightarrow> sample" where
  "float_at bs i = bytes_float (take 4 (drop (4 * i) bs))"

lemma audio_bytes_simps [simp]:
  "audio_bytes [] = []"
  "audio_bytes (x # xs) = float_bytes x @ audio_bytes xs"
  by (simp_all add: audio_bytes_def)

lemma audio_bytes_append [simp]: "audio_bytes (xs @ ys) = audio_bytes xs @ audio_bytes ys"
  by (simp add: audio_bytes_def)

lemma length_audio_bytes [simp]: "length (audio_bytes xs) = 4 * length xs"
  by (induction xs) simp_all

lemma audio_bytes_Nil_iff [simp]: "audio_bytes xs = [] \<longleftrightarrow> xs = []"
  by (metis audio_bytes_simps(1) length_0_conv length_audio_bytes mult_eq_0_iff
      numeral_eq_iff zero_neq_numeral)

lemma float_at_audio_bytes: "i < length xs \<Longrightarrow> float_at (audio_bytes xs @ bs) i = xs ! i"
proof (induction xs arbitrary: i)
  case Nil
  then show ?case by simp
next
  case (Cons x xs)
  show ?case
  proof (cases i)
    case 0
    then show ?thesis by (simp add: float_at_def)
  next
    case (Suc j)
    with Cons.prems have "float_at (audio_bytes xs @ bs) j = xs ! j"
      by (intro Cons.IH) simp
    then show ?thesis by (simp add: Suc float_at_def)
  qed
qed

lemma floats_of_audio_bytes:
  "map (float_at (audio_bytes xs @ bs)) [0..<length xs] = xs"
  by (rule nth_equalityI) (simp_all add: float_at_audio_bytes)

subsection \<open>Strings as bytes\<close>

definition string_bytes :: "string \<Rightarrow> byte list" where
  "string_bytes = map (\<lambda>c. word_of_nat (of_char c))"

definition bytes_string :: "byte list \<Rightarrow> string" where
  "bytes_string = map (\<lambda>b. char_of (unat b))"

lemma bytes_string_string_bytes [simp]: "bytes_string (string_bytes s) = s"
  by (simp add: bytes_string_def string_bytes_def o_def unat_of_nat)

lemma length_string_bytes [simp]: "length (string_bytes s) = length s"
  by (simp add: string_bytes_def)

lemma string_bytes_Nil_iff [simp]: "string_bytes s = [] \<longleftrightarrow> s = []"
  by (simp add: string_bytes_def)

lemma bytes_string_append [simp]: "bytes_string (a @ b) = bytes_string a @ bytes_string b"
  by (simp add: bytes_string_def)

text \<open>What \<open>operator<<\<close> prints for a number and a \<open>bool\<close>, and \<open>std::endl\<close>.\<close>

fun show_nat :: "nat \<Rightarrow> string" where
  "show_nat n = (if n < 10 then [char_of (48 + n)] else show_nat (n div 10) @ [char_of (48 + n mod 10)])"

declare show_nat.simps [simp del]

definition show_int :: "int \<Rightarrow> string" where
  "show_int i = (if i < 0 then CHR ''-'' # show_nat (nat (- i)) else show_nat (nat i))"

definition show_bool :: "bool \<Rightarrow> string" where
  "show_bool b = (if b then ''1'' else ''0'')"

definition newline :: char where "newline = CHR 0x0A"

definition endl :: string where "endl = [newline]"

subsection \<open>Lists cut into chunks\<close>

function chunks :: "nat \<Rightarrow> 'a list \<Rightarrow> 'a list list" where
  "chunks n xs = (if n = 0 \<or> xs = [] then [] else take n xs # chunks n (drop n xs))"
  by pat_completeness auto
termination
  by (relation "measure (\<lambda>(n, xs). length xs)") auto

declare chunks.simps [simp del]

lemma chunks_Nil [simp]: "chunks n [] = []"
  by (simp add: chunks.simps)

lemma chunks_step: "0 < n \<Longrightarrow> xs \<noteq> [] \<Longrightarrow> chunks n xs = take n xs # chunks n (drop n xs)"
  by (simp add: chunks.simps [of n xs])

lemma chunks_short: "xs \<noteq> [] \<Longrightarrow> length xs \<le> n \<Longrightarrow> chunks n xs = [xs]"
  using chunks_step [of n xs] by (cases "n = 0") simp_all

lemma concat_chunks [simp]: "0 < n \<Longrightarrow> concat (chunks n xs) = xs"
proof (induction n xs rule: chunks.induct)
  case (1 n xs)
  then show ?case using chunks_step [of n xs] by (cases "xs = []") simp_all
qed

subsection \<open>Sums over threads\<close>

lemma sum_list_replace:
  "i < length xs \<Longrightarrow> sum_list (map f (xs[i := x])) + f (xs ! i) = sum_list (map f xs) + (f x :: 'a :: comm_monoid_add)"
proof (induction xs arbitrary: i)
  case (Cons y xs)
  show ?case
  proof (cases i)
    case 0
    then show ?thesis by (simp add: ac_simps)
  next
    case (Suc j)
    then have "sum_list (map f (xs[j := x])) + f (xs ! j) = sum_list (map f xs) + f x" using Cons by simp
    then show ?thesis using Suc by (simp add: add.assoc)
  qed
qed simp

end
