(* ===== verification/Io_Tree.thy ===== *)
theory Io_Tree
  imports Prelude
begin

text \<open>
  The programs talk to the operating system and to each other while they run, and two
  of them never return, so a program is an interaction tree: it returns, throws, takes a
  silent step, or issues a system call and goes on with the answer.  The tree is
  coinductive, so a \<open>while(1)\<close> is an infinite tree and needs no fuel.

  The operations of the sources are built from \<open>bind_io\<close> (sequencing) and
  \<open>while_io\<close> (a loop that ends with \<open>Inr\<close> of its result).  \<open>responds t es u\<close> says
  that \<open>t\<close>, given the answers in the trace \<open>es\<close>, has become \<open>u\<close>.
\<close>

subsection \<open>System calls\<close>

text \<open>
  An endpoint is one side of the TCP port that two services share: the side that connects
  or the side that accepts.  \<open>V6\<close> and \<open>V4\<close> are the addresses that \<open>localhost\<close> may
  resolve to.
\<close>

datatype endpoint = Client nat | Server nat

datatype addr = V4 | V6

datatype event =
    Console string
  | Shell string
  | Os_resolve endpoint
  | Os_listen endpoint
  | Os_unlisten endpoint
  | Os_accept endpoint
  | Os_connect endpoint addr
  | Os_poll_connect endpoint
  | Os_so_error endpoint
  | Os_poll_read endpoint
  | Os_poll_write endpoint
  | Os_recv endpoint nat
  | Os_send endpoint "byte list"
  | Os_shutdown endpoint
  | Os_close endpoint

datatype resp =
    R_unit
  | R_error asio_error
  | R_size nat
  | R_data "byte list"
  | R_addrs "addr list"

subsection \<open>Interaction trees\<close>

codatatype 'r io = Ret 'r | Throw error | Tau "'r io" | Vis event "resp \<Rightarrow> 'r io"

primcorec bind_io :: "'a io \<Rightarrow> ('a \<Rightarrow> 'b io) \<Rightarrow> 'b io" where
  "bind_io t k = (case t of
      Ret x \<Rightarrow> (case k x of Ret y \<Rightarrow> Ret y | Throw e \<Rightarrow> Throw e | Tau u \<Rightarrow> Tau u | Vis e h \<Rightarrow> Vis e h)
    | Throw e \<Rightarrow> Throw e
    | Tau u \<Rightarrow> Tau (bind_io u k)
    | Vis e h \<Rightarrow> Vis e (\<lambda>r. bind_io (h r) k))"

primcorec loop_from :: "('s \<Rightarrow> ('s + 'r) io) \<Rightarrow> ('s + 'r) io \<Rightarrow> 'r io" where
  "loop_from body t = (case t of
      Ret z \<Rightarrow> (case z of Inl s \<Rightarrow> Tau (loop_from body (body s)) | Inr x \<Rightarrow> Ret x)
    | Throw e \<Rightarrow> Throw e
    | Tau u \<Rightarrow> Tau (loop_from body u)
    | Vis e h \<Rightarrow> Vis e (\<lambda>r. loop_from body (h r)))"

definition while_io :: "('s \<Rightarrow> ('s + 'r) io) \<Rightarrow> 's \<Rightarrow> 'r io" where
  "while_io body s = loop_from body (body s)"

text \<open>One call, its answer decoded; the value of a pure fallible computation; output.\<close>

definition lift_io :: "error + 'a \<Rightarrow> 'a io" where
  "lift_io m = (case m of Inl e \<Rightarrow> Throw e | Inr x \<Rightarrow> Ret x)"

definition print :: "string \<Rightarrow> unit io" where
  "print s = Vis (Console s) (\<lambda>_. Ret ())"

definition system :: "string \<Rightarrow> unit io" where
  "system s = Vis (Shell s) (\<lambda>_. Ret ())"

lemma bind_io_simps [simp]:
  "bind_io (Ret x) k = k x"
  "bind_io (Throw er) k = Throw er"
  "bind_io (Tau u) k = Tau (bind_io u k)"
  "bind_io (Vis e h) k = Vis e (\<lambda>r. bind_io (h r) k)"
  by (auto simp: bind_io.code split: io.split)

lemma loop_from_simps [simp]:
  "loop_from b (Ret (Inl s)) = Tau (while_io b s)"
  "loop_from b (Ret (Inr x)) = Ret x"
  "loop_from b (Throw er) = Throw er"
  "loop_from b (Tau u) = Tau (loop_from b u)"
  "loop_from b (Vis e h) = Vis e (\<lambda>r. loop_from b (h r))"
  by (auto simp: loop_from.code while_io_def split: io.split)

lemma lift_io_simps [simp]:
  "lift_io (Inl e) = Throw e"
  "lift_io (Inr x) = Ret x"
  by (simp_all add: lift_io_def)

lemma bind_io_assoc [simp]: "bind_io (bind_io t f) g = bind_io t (\<lambda>x. bind_io (f x) g)"
proof (coinduction arbitrary: t rule: io.coinduct_strong)
  case (Eq_io t)
  show ?case by (cases t) (auto simp: rel_fun_def)
qed

lemma bind_io_Ret [simp]: "bind_io t Ret = t"
proof (coinduction arbitrary: t rule: io.coinduct_strong)
  case (Eq_io t)
  show ?case by (cases t) (auto simp: rel_fun_def)
qed

lemma bind_io_if [simp]:
  "bind_io (if b then t else u) k = (if b then bind_io t k else bind_io u k)"
  by simp

lemma loop_from_bind:
  "loop_from b t = bind_io t (\<lambda>z. case z of Inl s \<Rightarrow> Tau (while_io b s) | Inr x \<Rightarrow> Ret x)"
proof (coinduction arbitrary: t rule: io.coinduct_strong)
  case (Eq_io t)
  show ?case by (cases t) (auto simp: rel_fun_def while_io_def split: sum.splits)
qed

text \<open>A loop runs its body and then either goes round again or is done.\<close>

lemma while_io_unfold:
  "while_io b s = bind_io (b s) (\<lambda>z. case z of Inl s' \<Rightarrow> Tau (while_io b s') | Inr x \<Rightarrow> Ret x)"
  unfolding while_io_def [of b s] by (rule loop_from_bind)

subsection \<open>Traces of one program\<close>

inductive responds :: "'r io \<Rightarrow> (event \<times> resp) list \<Rightarrow> 'r io \<Rightarrow> bool" where
  stop: "responds t [] t"
| skip: "responds t es u \<Longrightarrow> responds (Tau t) es u"
| answer: "responds (h r) es u \<Longrightarrow> responds (Vis e h) ((e, r) # es) u"

declare responds.stop [simp, intro]

inductive_cases responds_TauE: "responds (Tau t) es u"
inductive_cases responds_VisE: "responds (Vis e h) es u"
inductive_cases responds_RetE: "responds (Ret x) es u"
inductive_cases responds_ThrowE: "responds (Throw e) es u"

lemma responds_Ret_iff [simp]: "responds (Ret x) es u \<longleftrightarrow> es = [] \<and> u = Ret x"
  by (auto elim: responds_RetE)

lemma responds_Throw_iff [simp]: "responds (Throw e) es u \<longleftrightarrow> es = [] \<and> u = Throw e"
  by (auto elim: responds_ThrowE)

lemma responds_Tau_Ret_iff [simp]: "responds (Tau t) es (Ret x) \<longleftrightarrow> responds t es (Ret x)"
  by (auto elim: responds_TauE intro: responds.skip)

lemma responds_Vis_Ret_iff:
  "responds (Vis e h) es (Ret x) \<longleftrightarrow> (\<exists>r fs. es = (e, r) # fs \<and> responds (h r) fs (Ret x))"
  by (auto elim: responds_VisE intro: responds.answer)

lemma responds_bindI:
  "responds t es (Ret x) \<Longrightarrow> responds (k x) fs u \<Longrightarrow> responds (bind_io t k) (es @ fs) u"
proof (induction t es "Ret x :: 'a io" rule: responds.induct)
  case (skip t es)
  then show ?case by (auto intro: responds.skip)
next
  case (answer h r es e)
  then show ?case by (auto intro: responds.answer)
qed simp

lemma responds_bindE:
  assumes "responds (bind_io t k) es (Ret y)"
  obtains es1 es2 x where "es = es1 @ es2" "responds t es1 (Ret x)" "responds (k x) es2 (Ret y)"
  using assms
proof (induction "bind_io t k" es "Ret y" arbitrary: t thesis rule: responds.induct)
  case stop
  show ?case
  proof (cases t)
    case (Ret x)
    with stop.hyps stop.prems [of "[]" "[]" x] show ?thesis by simp
  qed (use stop.hyps in simp_all)
next
  case (skip u es)
  show ?case
  proof (cases t)
    case (Ret x)
    with skip.hyps(3) have "k x = Tau u" by simp
    with skip.hyps(1) have "responds (k x) es (Ret y)" by simp
    with Ret show ?thesis using skip.prems [of "[]" es x] by simp
  next
    case (Tau t')
    with skip.hyps(3) have "u = bind_io t' k" by simp
    then obtain es1 es2 x where "es = es1 @ es2" "responds t' es1 (Ret x)" "responds (k x) es2 (Ret y)"
      by (rule skip.hyps(2))
    then show ?thesis using skip.prems [of es1 es2 x] Tau by simp
  qed (use skip.hyps in simp_all)
next
  case (answer h r es e)
  show ?case
  proof (cases t)
    case (Ret x)
    with answer.hyps(3) have "k x = Vis e h" by simp
    with answer.hyps(1) have "responds (k x) ((e, r) # es) (Ret y)" by (simp add: responds.answer)
    with Ret show ?thesis using answer.prems [of "[]" "(e, r) # es" x] by simp
  next
    case (Vis e' h')
    with answer.hyps(3) have "e' = e" "h r = bind_io (h' r) k" by simp_all
    then obtain es1 es2 x where "es = es1 @ es2" "responds (h' r) es1 (Ret x)" "responds (k x) es2 (Ret y)"
      by (metis answer.hyps(2))
    then show ?thesis using answer.prems [of "(e, r) # es1" es2 x] Vis \<open>e' = e\<close> by (simp add: responds.answer)
  qed (use answer.hyps in simp_all)
qed

lemma responds_trans: "responds t es u \<Longrightarrow> responds u fs v \<Longrightarrow> responds t (es @ fs) v"
  by (induction rule: responds.induct) (auto intro: responds.intros)

lemma loop_from_RetD: "loop_from b (Ret z) = Ret x \<Longrightarrow> z = Inr x"
  by (cases z) auto

text \<open>
  The traces of a loop: rounds that go on, then one that ends.  Facts about the result of
  a loop are proved by rule induction over its rounds.
\<close>

inductive loop_runs :: "('s \<Rightarrow> ('s + 'r) io) \<Rightarrow> 's \<Rightarrow> (event \<times> resp) list \<Rightarrow> 'r \<Rightarrow> bool"
  for b where
  finish: "responds (b s) es (Ret (Inr x)) \<Longrightarrow> loop_runs b s es x"
| again: "responds (b s) es (Ret (Inl s')) \<Longrightarrow> loop_runs b s' fs x \<Longrightarrow> loop_runs b s (es @ fs) x"

lemma loop_runs_round:
  assumes "\<exists>es1 es2 z. es = es1 @ es2 \<and> responds (b s) es1 (Ret z) \<and>
    (case z of Inl s' \<Rightarrow> loop_runs b s' es2 x | Inr y \<Rightarrow> y = x \<and> es2 = [])"
  shows "loop_runs b s es x"
proof -
  from assms obtain es1 es2 z where "es = es1 @ es2" "responds (b s) es1 (Ret z)"
    "case z of Inl s' \<Rightarrow> loop_runs b s' es2 x | Inr y \<Rightarrow> y = x \<and> es2 = []" by blast
  then show ?thesis by (cases z) (auto intro: loop_runs.intros)
qed

lemma loop_from_runs:
  assumes "responds (loop_from b t) es (Ret x)"
  shows "\<exists>es1 es2 z. es = es1 @ es2 \<and> responds t es1 (Ret z) \<and>
    (case z of Inl s \<Rightarrow> loop_runs b s es2 x | Inr y \<Rightarrow> y = x \<and> es2 = [])"
  using assms
proof (induction "loop_from b t" es "Ret x" arbitrary: t rule: responds.induct)
  case stop
  then show ?case
    by (cases t) (auto split: sum.splits intro!: exI [of _ "[]"] dest!: loop_from_RetD)
next
  case (skip u es)
  show ?case
  proof (cases t)
    case (Ret z)
    then obtain s where z: "z = Inl s" "u = loop_from b (b s)"
      using skip.hyps(3) by (cases z) (auto simp: while_io_def)
    from skip.hyps(2) [OF z(2)] have "loop_runs b s es x" by (rule loop_runs_round)
    with Ret z show ?thesis by (intro exI [of _ "[]"] exI [of _ es] exI [of _ z]) simp
  next
    case (Tau t')
    with skip.hyps(2) [of t'] skip.hyps(3) show ?thesis by (auto intro: responds.skip)
  qed (use skip.hyps in simp_all)
next
  case (answer h r es e)
  show ?case
  proof (cases t)
    case (Vis e' h')
    with answer.hyps(3) have eq: "e' = e" "h r = loop_from b (h' r)" by simp_all
    from answer.hyps(2) [OF eq(2)] obtain es1 es2 z where
      "es = es1 @ es2" "responds (h' r) es1 (Ret z)"
      "case z of Inl s \<Rightarrow> loop_runs b s es2 x | Inr y \<Rightarrow> y = x \<and> es2 = []" by blast
    with Vis eq show ?thesis
      by (intro exI [of _ "(e, r) # es1"] exI [of _ es2] exI [of _ z]) (auto intro: responds.answer)
  next
    case (Ret z)
    with answer.hyps(3) show ?thesis by (cases z) simp_all
  qed (use answer.hyps in simp_all)
qed

lemma while_io_runs: "responds (while_io b s) es (Ret x) \<Longrightarrow> loop_runs b s es x"
  unfolding while_io_def by (drule loop_from_runs) (rule loop_runs_round)

end
