(* ===== verification/Asio.thy ===== *)
theory Asio
  imports Io_Tree
begin

text \<open>
  The part of the vendored asio library that the pipes call: the synchronous operations
  of a stream socket (\<open>dependencies/asio/include/asio/detail/impl/socket_ops.ipp\<close>),
  the composed operation \<open>asio::write\<close> over a single buffer (\<open>impl/write.hpp\<close>,
  \<open>detail/consuming_buffers.hpp\<close>, \<open>completion_condition.hpp\<close>) and the range
  \<open>asio::connect\<close> (\<open>impl/connect.hpp\<close>).

  A function of the library that sets an \<open>error_code\<close> returns it as the last component
  of its result: \<open>None\<close> is success.  The functions of the operating system
  (\<open>::recv\<close>, \<open>::send\<close>, \<open>::poll\<close>, \<open>::connect\<close>, \<open>::accept\<close>, ...)
  are the system calls of the interaction trees.
\<close>

subsection \<open>Socket objects\<close>

unbundle bit_operations_syntax

text \<open>
  \<open>impl.socket_\<close> and \<open>impl.state_\<close>: the descriptor is named by the endpoint it serves,
  and \<open>opened\<close> says whether it differs from \<open>invalid_socket\<close>.
\<close>

record sock =
  fd :: endpoint
  opened :: bool
  flags :: "8 word"

definition user_set_non_blocking :: "8 word" where "user_set_non_blocking = 1"
definition internal_non_blocking :: "8 word" where "internal_non_blocking = 2"
definition non_blocking :: "8 word" where
  "non_blocking = user_set_non_blocking OR internal_non_blocking"
definition enable_connection_aborted :: "8 word" where "enable_connection_aborted = 4"
definition user_set_linger :: "8 word" where "user_set_linger = 8"
definition stream_oriented :: "8 word" where "stream_oriented = 16"

definition has_flag :: "8 word \<Rightarrow> 8 word \<Rightarrow> bool" where
  "has_flag st f \<longleftrightarrow> st AND f \<noteq> 0"

lemmas flag_defs = user_set_non_blocking_def internal_non_blocking_def non_blocking_def
  enable_connection_aborted_def user_set_linger_def stream_oriented_def has_flag_def

definition construct :: "endpoint \<Rightarrow> sock" where
  "construct e = \<lparr>fd = e, opened = False, flags = 0\<rparr>"

text \<open>A stream socket in the state \<open>do_open\<close> and \<open>do_assign\<close> leave it in.\<close>

definition stream_sock :: "endpoint \<Rightarrow> sock" where
  "stream_sock e = \<lparr>fd = e, opened = True, flags = stream_oriented\<rparr>"

lemma construct_sel [simp]: "fd (construct e) = e" "\<not> opened (construct e)" "flags (construct e) = 0"
  by (simp_all add: construct_def)

lemma stream_sock_sel [simp]:
  "fd (stream_sock e) = e" "opened (stream_sock e)" "flags (stream_sock e) = stream_oriented"
  by (simp_all add: stream_sock_def)

lemma has_flag_stream [simp]:
  "has_flag stream_oriented stream_oriented"
  "\<not> has_flag stream_oriented user_set_non_blocking"
  "\<not> has_flag stream_oriented enable_connection_aborted"
  "\<not> has_flag 0 f"
  by (simp_all add: flag_defs)

definition throw_error :: "asio_error option \<Rightarrow> unit io" where
  "throw_error ec = (case ec of None \<Rightarrow> Ret () | Some e \<Rightarrow> Throw (System_Error e))"

lemma throw_error_simps [simp]:
  "throw_error None = Ret ()"
  "throw_error (Some e) = Throw (System_Error e)"
  by (simp_all add: throw_error_def)

subsection \<open>Waiting for a socket to become ready\<close>

definition poll_result :: "8 word \<Rightarrow> resp \<Rightarrow> (int \<times> asio_error option) io" where
  "poll_result st r = (case r of
      R_size n \<Rightarrow>
        Ret (int n, if n = 0 \<and> has_flag st user_set_non_blocking then Some would_block else None)
    | R_error e \<Rightarrow> Ret (- 1, Some e)
    | _ \<Rightarrow> Throw Bad_Response)"

definition poll_read :: "sock \<Rightarrow> 8 word \<Rightarrow> (int \<times> asio_error option) io" where
  "poll_read s st = (if \<not> opened s then Ret (- 1, Some bad_descriptor)
     else Vis (Os_poll_read (fd s)) (poll_result st))"

definition poll_write :: "sock \<Rightarrow> 8 word \<Rightarrow> (int \<times> asio_error option) io" where
  "poll_write s st = (if \<not> opened s then Ret (- 1, Some bad_descriptor)
     else Vis (Os_poll_write (fd s)) (poll_result st))"

text \<open>\<open>basic_socket::wait\<close> for the two events the pipes wait for.\<close>

definition wait_read :: "sock \<Rightarrow> unit io" where
  "wait_read s = bind_io (poll_read s (flags s)) (\<lambda>(_, ec). throw_error ec)"

definition wait_write :: "sock \<Rightarrow> unit io" where
  "wait_write s = bind_io (poll_write s (flags s)) (\<lambda>(_, ec). throw_error ec)"

subsection \<open>Receiving and sending on a stream\<close>

definition recv1 :: "sock \<Rightarrow> nat \<Rightarrow> (int \<times> byte list \<times> asio_error option) io" where
  "recv1 s len = Vis (Os_recv (fd s) len) (\<lambda>r. case r of
      R_data bs \<Rightarrow> if length bs \<le> len then Ret (int (length bs), bs, None) else Throw Bad_Response
    | R_error e \<Rightarrow> Ret (- 1, [], Some e)
    | _ \<Rightarrow> Throw Bad_Response)"

definition sync_recv1 :: "sock \<Rightarrow> nat \<Rightarrow> (byte list \<times> asio_error option) io" where
  "sync_recv1 s len =
     (if \<not> opened s then Ret ([], Some bad_descriptor)
      else if len = 0 \<and> has_flag (flags s) stream_oriented then Ret ([], None)
      else while_io (\<lambda>_.
        bind_io (recv1 s len) (\<lambda>(bytes, data, ec).
          if has_flag (flags s) stream_oriented \<and> bytes = 0 then Ret (Inr ([], Some eof))
          else if bytes \<ge> 0 then Ret (Inr (data, ec))
          else if has_flag (flags s) user_set_non_blocking
              \<or> (ec \<noteq> Some would_block \<and> ec \<noteq> Some try_again) then Ret (Inr ([], ec))
          else bind_io (poll_read s 0) (\<lambda>(res, ec').
            if res < 0 then Ret (Inr ([], ec')) else Ret (Inl ())))) ())"

definition send1 :: "sock \<Rightarrow> byte list \<Rightarrow> (int \<times> asio_error option) io" where
  "send1 s data = Vis (Os_send (fd s) data) (\<lambda>r. case r of
      R_size n \<Rightarrow> if n \<le> length data then Ret (int n, None) else Throw Bad_Response
    | R_error e \<Rightarrow> Ret (- 1, Some e)
    | _ \<Rightarrow> Throw Bad_Response)"

definition sync_send1 :: "sock \<Rightarrow> byte list \<Rightarrow> (nat \<times> asio_error option) io" where
  "sync_send1 s data =
     (if \<not> opened s then Ret (0, Some bad_descriptor)
      else if data = [] \<and> has_flag (flags s) stream_oriented then Ret (0, None)
      else while_io (\<lambda>_.
        bind_io (send1 s data) (\<lambda>(bytes, ec).
          if bytes \<ge> 0 then Ret (Inr (nat bytes, ec))
          else if has_flag (flags s) user_set_non_blocking
              \<or> (ec \<noteq> Some would_block \<and> ec \<noteq> Some try_again) then Ret (Inr (0, ec))
          else bind_io (poll_write s 0) (\<lambda>(res, ec').
            if res < 0 then Ret (Inr (0, ec')) else Ret (Inl ())))) ())"

text \<open>\<open>read_some\<close> of \<open>basic_stream_socket\<close>, in the overload that throws.\<close>

definition read_some :: "sock \<Rightarrow> nat \<Rightarrow> byte list io" where
  "read_some s len = bind_io (sync_recv1 s len) (\<lambda>(data, ec).
     bind_io (throw_error ec) (\<lambda>_. Ret data))"

subsection \<open>The composed write\<close>

record single_buffer =
  whole :: "byte list"
  total_consumed :: nat

definition csb_new :: "byte list \<Rightarrow> single_buffer" where
  "csb_new bs = \<lparr>whole = bs, total_consumed = 0\<rparr>"

definition csb_empty :: "single_buffer \<Rightarrow> bool" where
  "csb_empty b \<longleftrightarrow> total_consumed b \<ge> length (whole b)"

definition csb_prepare :: "single_buffer \<Rightarrow> nat \<Rightarrow> byte list" where
  "csb_prepare b max_size = take max_size (drop (total_consumed b) (whole b))"

definition csb_consume :: "single_buffer \<Rightarrow> nat \<Rightarrow> single_buffer" where
  "csb_consume b n = b\<lparr>total_consumed := total_consumed b + n\<rparr>"

definition default_max_transfer_size :: nat where
  "default_max_transfer_size = 65536"

definition transfer_all :: "asio_error option \<Rightarrow> nat \<Rightarrow> nat" where
  "transfer_all err _ = (if err \<noteq> None then 0 else default_max_transfer_size)"

definition detail_write ::
  "sock \<Rightarrow> byte list \<Rightarrow> (asio_error option \<Rightarrow> nat \<Rightarrow> nat) \<Rightarrow> (nat \<times> asio_error option) io" where
  "detail_write s data completion_condition =
     while_io (\<lambda>(tmp, ec).
       if \<not> csb_empty tmp then
         (let max_size = completion_condition ec (total_consumed tmp) in
          if max_size \<noteq> 0 then
            bind_io (sync_send1 s (csb_prepare tmp max_size)) (\<lambda>(n, ec').
              Ret (Inl (csb_consume tmp n, ec')))
          else Ret (Inr (total_consumed tmp, ec)))
       else Ret (Inr (total_consumed tmp, ec))) (csb_new data, None)"

definition write_ec :: "sock \<Rightarrow> byte list \<Rightarrow> (nat \<times> asio_error option) io" where
  "write_ec s data = detail_write s data transfer_all"

definition asio_write :: "sock \<Rightarrow> byte list \<Rightarrow> nat io" where
  "asio_write s data = bind_io (detail_write s data transfer_all) (\<lambda>(n, ec).
     bind_io (throw_error ec) (\<lambda>_. Ret n))"

subsection \<open>Connecting, accepting, closing\<close>

definition sock_shutdown :: "sock \<Rightarrow> unit io" where
  "sock_shutdown s =
     (if \<not> opened s then Throw (System_Error bad_descriptor)
      else Vis (Os_shutdown (fd s)) (\<lambda>r. case r of
          R_unit \<Rightarrow> Ret ()
        | R_error e \<Rightarrow> Throw (System_Error e)
        | _ \<Rightarrow> Throw Bad_Response))"

text \<open>
  \<open>socket_ops::close\<close>: a second attempt when the first one fails because the
  descriptor was in non-blocking mode.  The descriptor is put back into blocking mode in
  between, by a call whose result is not looked at.
\<close>

definition close_fd :: "sock \<Rightarrow> asio_error option io" where
  "close_fd s =
     Vis (Os_close (fd s)) (\<lambda>r. case r of
         R_unit \<Rightarrow> Ret None
       | R_error e \<Rightarrow>
           if e = would_block \<or> e = try_again then
             Vis (Os_close (fd s)) (\<lambda>r. case r of
                 R_unit \<Rightarrow> Ret None
               | R_error e' \<Rightarrow> Ret (Some e')
               | _ \<Rightarrow> Throw Bad_Response)
           else Ret (Some e)
       | _ \<Rightarrow> Throw Bad_Response)"

text \<open>\<open>basic_socket::close\<close>: whatever happens, the object is as new afterwards.\<close>

definition sock_close :: "sock \<Rightarrow> (sock \<times> asio_error option) io" where
  "sock_close s =
     (if opened s then bind_io (close_fd s) (\<lambda>ec. Ret (construct (fd s), ec))
      else Ret (construct (fd s), None))"

definition sync_connect :: "sock \<Rightarrow> addr \<Rightarrow> asio_error option io" where
  "sync_connect s a =
     (if \<not> opened s then Ret (Some bad_descriptor)
      else Vis (Os_connect (fd s) a) (\<lambda>r. case r of
         R_unit \<Rightarrow> Ret None
       | R_error e \<Rightarrow>
           if e \<noteq> in_progress \<and> e \<noteq> would_block then Ret (Some e)
           else Vis (Os_poll_connect (fd s)) (\<lambda>r. case r of
               R_error e' \<Rightarrow> Ret (Some e')
             | R_size _ \<Rightarrow> Vis (Os_so_error (fd s)) (\<lambda>r. case r of
                   R_unit \<Rightarrow> Ret None
                 | R_error e'' \<Rightarrow> Ret (Some e'')
                 | _ \<Rightarrow> Throw Bad_Response)
             | _ \<Rightarrow> Throw Bad_Response)
       | _ \<Rightarrow> Throw Bad_Response))"

definition sock_connect :: "sock \<Rightarrow> addr \<Rightarrow> (sock \<times> asio_error option) io" where
  "sock_connect s a =
     (let s' = (if opened s then s else stream_sock (fd s))
      in bind_io (sync_connect s' a) (\<lambda>ec. Ret (s', ec)))"

fun connect_loop :: "addr list \<Rightarrow> sock \<Rightarrow> asio_error option \<Rightarrow> (sock \<times> asio_error option) io" where
  "connect_loop [] s ec = Ret (s, if ec = None then Some not_found else ec)"
| "connect_loop (a # as) s ec =
     bind_io (sock_close s) (\<lambda>(s, _).
     bind_io (sock_connect s a) (\<lambda>(s, ec).
       if ec = None then Ret (s, None) else connect_loop as s ec))"

definition asio_connect :: "sock \<Rightarrow> addr list \<Rightarrow> sock io" where
  "asio_connect s endpoints = bind_io (connect_loop endpoints s None) (\<lambda>(s, ec).
     bind_io (throw_error ec) (\<lambda>_. Ret s))"

definition sync_accept :: "sock \<Rightarrow> asio_error option io" where
  "sync_accept acceptor =
     while_io (\<lambda>_.
       bind_io (if \<not> opened acceptor then Ret (Some bad_descriptor)
         else Vis (Os_accept (fd acceptor)) (\<lambda>r. case r of
             R_unit \<Rightarrow> Ret None
           | R_error e \<Rightarrow> Ret (Some e)
           | _ \<Rightarrow> Throw Bad_Response)) (\<lambda>ec.
         if ec = None then Ret (Inr None)
         else if ec = Some would_block \<or> ec = Some try_again then
           (if has_flag (flags acceptor) user_set_non_blocking then Ret (Inr ec)
            else bind_io (poll_read acceptor 0) (\<lambda>(res, ec').
              if res < 0 then Ret (Inr ec') else Ret (Inl ())))
         else if ec = Some connection_aborted then
           (if has_flag (flags acceptor) enable_connection_aborted then Ret (Inr ec)
            else bind_io (poll_read acceptor 0) (\<lambda>(res, ec').
              if res < 0 then Ret (Inr ec') else Ret (Inl ())))
         else Ret (Inr ec))) ()"

definition asio_accept :: "sock \<Rightarrow> sock \<Rightarrow> sock io" where
  "asio_accept acceptor peer =
     (if opened peer then Throw (System_Error already_open)
      else bind_io (sync_accept acceptor) (\<lambda>ec.
        bind_io (throw_error ec) (\<lambda>_. Ret (stream_sock (fd peer)))))"

end
