(* ===== verification/Confluence.thy ===== *)
theory Confluence
  imports Main
begin

text \<open>
  An interface for concurrent systems whose components do not disturb each other: a step
  relation with the diamond property.  If one run of such a system gets stuck after
  \<open>n\<close> steps, then every run can be continued to the same stuck state, no run is
  longer than \<open>n\<close>, and no run gets stuck elsewhere: it is enough to look at one
  schedule.
\<close>

definition stuck :: "('a \<Rightarrow> 'a \<Rightarrow> bool) \<Rightarrow> 'a \<Rightarrow> bool" where
  "stuck R s \<longleftrightarrow> (\<forall>t. \<not> R s t)"

text \<open>Every schedule from \<open>a\<close> ends, within a bounded number of steps, in \<open>b\<close>.\<close>

definition inevitable :: "('a \<Rightarrow> 'a \<Rightarrow> bool) \<Rightarrow> 'a \<Rightarrow> 'a \<Rightarrow> bool" where
  "inevitable R a b \<longleftrightarrow>
     stuck R b \<and> (\<exists>n. \<forall>m c. (R ^^ m) a c \<longrightarrow> m \<le> n \<and> R\<^sup>*\<^sup>* c b)"

lemma inevitable_stuck: "inevitable R a b \<Longrightarrow> stuck R b"
  by (simp add: inevitable_def)

lemma inevitable_reaches: "inevitable R a b \<Longrightarrow> R\<^sup>*\<^sup>* a c \<Longrightarrow> R\<^sup>*\<^sup>* c b"
  by (auto simp: inevitable_def dest: rtranclp_imp_relpowp)

lemma inevitable_unique:
  assumes "inevitable R a b" "R\<^sup>*\<^sup>* a c" "stuck R c"
  shows "c = b"
proof -
  from assms(1,2) have "R\<^sup>*\<^sup>* c b" by (rule inevitable_reaches)
  then show ?thesis
    using assms(3) by (cases rule: converse_rtranclpE) (auto simp: stuck_def)
qed

lemma inevitable_start: "inevitable R a b \<Longrightarrow> R\<^sup>*\<^sup>* a b"
  by (rule inevitable_reaches) auto

locale diamond =
  fixes R :: "'a \<Rightarrow> 'a \<Rightarrow> bool"
  assumes diamond: "R a b \<Longrightarrow> R a c \<Longrightarrow> b = c \<or> (\<exists>d. R b d \<and> R c d)"
begin

lemma strip: "(R ^^ n) a b \<Longrightarrow> stuck R b \<Longrightarrow> R a c \<Longrightarrow> \<exists>k. n = Suc k \<and> (R ^^ k) c b"
proof (induction n arbitrary: a c)
  case 0
  then show ?case by (simp add: stuck_def)
next
  case (Suc n)
  from Suc.prems(1) obtain a' where a': "R a a'" "(R ^^ n) a' b"
    using relpowp_Suc_D2 by metis
  from diamond [OF a'(1) Suc.prems(3)] show ?case
  proof
    assume "a' = c"
    with a' show ?thesis by auto
  next
    assume "\<exists>d. R a' d \<and> R c d"
    then obtain d where d: "R a' d" "R c d" by blast
    from Suc.IH [OF a'(2) Suc.prems(2) d(1)] obtain k where "n = Suc k" "(R ^^ k) d b" by blast
    with relpowp_Suc_I2 [where P = R, OF d(2)] have "(R ^^ n) c b" by simp
    then show ?thesis using \<open>n = Suc k\<close> by simp
  qed
qed

lemma random_descent:
  "(R ^^ m) a c \<Longrightarrow> (R ^^ n) a b \<Longrightarrow> stuck R b \<Longrightarrow> m \<le> n \<and> (R ^^ (n - m)) c b"
proof (induction m arbitrary: a n)
  case 0
  then show ?case by simp
next
  case (Suc m)
  from Suc.prems(1) obtain a' where a': "R a a'" "(R ^^ m) a' c"
    using relpowp_Suc_D2 by metis
  from strip [OF Suc.prems(2,3) a'(1)] obtain k where k: "n = Suc k" "(R ^^ k) a' b" by blast
  from Suc.IH [OF a'(2) k(2) Suc.prems(3)] k(1) show ?case by simp
qed

lemma one_run_decides:
  assumes "R\<^sup>*\<^sup>* a b" "stuck R b"
  shows "inevitable R a b"
proof -
  from assms(1) obtain n where n: "(R ^^ n) a b" by (auto dest: rtranclp_imp_relpowp)
  have "m \<le> n \<and> R\<^sup>*\<^sup>* c b" if "(R ^^ m) a c" for m c
    using random_descent [OF that n assms(2)] by (auto dest: relpowp_imp_rtranclp)
  with assms(2) show ?thesis by (auto simp: inevitable_def)
qed

end

end
