(* ===== verification/Network.thy ===== *)
theory Network
  imports Asio Confluence
begin

text \<open>
  The three services side by side.  A system state holds the interaction tree of each
  process and the state of the network between them; a step lets one process take a silent
  step or a system call, or lets a connecting and an accepting process meet.

  The theory is generic in the network: whatever the network, if the calls of different
  processes commute (\<open>network_contract\<close>) then the whole system has the diamond
  property.  \<open>Loopback\<close> gives the network the services run on.
\<close>

datatype pid = Gui_Proc | Dsp_Proc | Reverse_Proc

type_synonym 'r procs = "pid \<Rightarrow> 'r io"

subsection \<open>Systems over a network\<close>

inductive sys_step ::
  "(pid \<Rightarrow> 'n \<Rightarrow> event \<Rightarrow> (resp \<times> 'n) option) \<Rightarrow> (pid \<Rightarrow> pid \<Rightarrow> nat \<Rightarrow> 'n \<Rightarrow> 'n option) \<Rightarrow>
   'r procs \<times> 'n \<Rightarrow> 'r procs \<times> 'n \<Rightarrow> bool"
  for nstep npair where
  silent: "ps p = Tau t \<Longrightarrow> sys_step nstep npair (ps, n) (ps(p := t), n)"
| call: "ps p = Vis e h \<Longrightarrow> nstep p n e = Some (r, n') \<Longrightarrow>
    sys_step nstep npair (ps, n) (ps(p := h r), n')"
| meet: "ps p = Vis (Os_connect (Client q) V4) h \<Longrightarrow> ps p' = Vis (Os_accept (Server q)) h' \<Longrightarrow>
    npair p p' q n = Some n' \<Longrightarrow>
    sys_step nstep npair (ps, n) (ps(p := h R_unit, p' := h' R_unit), n')"

inductive_cases sys_step_elim: "sys_step nstep npair (ps, n) s"

lemmas sys_stepE = sys_step_elim [consumes 1, case_names silent call meet]

text \<open>The rules with the resulting processes as an equation.\<close>

lemma silentI: "ps p = Tau t \<Longrightarrow> ps' = ps(p := t) \<Longrightarrow> sys_step ns np (ps, n) (ps', n)"
  by (simp add: sys_step.silent)

lemma callI:
  "ps p = Vis e h \<Longrightarrow> ns p n e = Some (r, n') \<Longrightarrow> ps' = ps(p := h r) \<Longrightarrow>
   sys_step ns np (ps, n) (ps', n')"
  by (simp add: sys_step.call)

lemma meetI:
  "ps p = Vis (Os_connect (Client q) V4) h \<Longrightarrow> ps p' = Vis (Os_accept (Server q)) h' \<Longrightarrow>
   np p p' q n = Some n' \<Longrightarrow> ps' = ps(p := h R_unit, p' := h' R_unit) \<Longrightarrow>
   sys_step ns np (ps, n) (ps', n')"
  by (simp add: sys_step.meet)

text \<open>The laws a network must keep for the processes not to disturb each other.\<close>

locale network_contract =
  fixes nstep :: "pid \<Rightarrow> 'n \<Rightarrow> event \<Rightarrow> (resp \<times> 'n) option"
    and npair :: "pid \<Rightarrow> pid \<Rightarrow> nat \<Rightarrow> 'n \<Rightarrow> 'n option"
  assumes calls_commute:
    "p \<noteq> p' \<Longrightarrow> nstep p n e = Some (r, n1) \<Longrightarrow> nstep p' n e' = Some (r', n2) \<Longrightarrow>
     \<exists>m. nstep p' n1 e' = Some (r', m) \<and> nstep p n2 e = Some (r, m)"
  and call_meet_commute:
    "p \<noteq> p1 \<Longrightarrow> p \<noteq> p2 \<Longrightarrow> nstep p n e = Some (r, n1) \<Longrightarrow> npair p1 p2 q n = Some n2 \<Longrightarrow>
     \<exists>m. npair p1 p2 q n1 = Some m \<and> nstep p n2 e = Some (r, m)"
  and meets_commute:
    "q \<noteq> q' \<Longrightarrow> npair p1 p2 q n = Some n1 \<Longrightarrow> npair p1' p2' q' n = Some n2 \<Longrightarrow>
     \<exists>m. npair p1' p2' q' n1 = Some m \<and> npair p1 p2 q n2 = Some m"
  and meet_functional:
    "npair p1 p2 q n = Some n1 \<Longrightarrow> npair p1' p2' q n = Some n2 \<Longrightarrow> p1 = p1' \<and> p2 = p2'"
  and connect_meets: "nstep p n (Os_connect (Client q) V4) = None"
  and accept_meets: "nstep p n (Os_accept (Server q)) = None"
begin

lemma call_not_connect: "nstep p n e = Some x \<Longrightarrow> e \<noteq> Os_connect (Client q) V4"
  using connect_meets by auto

lemma call_not_accept: "nstep p n e = Some x \<Longrightarrow> e \<noteq> Os_accept (Server q)"
  using accept_meets by auto

definition joins :: "'r procs \<times> 'n \<Rightarrow> 'r procs \<times> 'n \<Rightarrow> bool" where
  "joins b c \<longleftrightarrow> b = c \<or> (\<exists>d. sys_step nstep npair b d \<and> sys_step nstep npair c d)"

lemma joins_sym: "joins b c \<Longrightarrow> joins c b"
  unfolding joins_def by blast

lemma joinsI: "sys_step nstep npair b d \<Longrightarrow> sys_step nstep npair c d \<Longrightarrow> joins b c"
  unfolding joins_def by blast

lemma joins_silent:
  assumes "ps p = Tau t" "sys_step nstep npair (ps, n) c"
  shows "joins (ps(p := t), n) c"
  using assms(2)
proof (cases rule: sys_stepE)
  case (silent p' t')
  show ?thesis
  proof (cases "p = p'")
    case True
    with silent assms(1) show ?thesis by (simp add: joins_def)
  next
    case False
    with silent assms(1) show ?thesis
      by (intro joinsI [where d = "(ps(p := t, p' := t'), n)"])
        (auto intro!: silentI simp: fun_upd_twist)
  qed
next
  case (call p' e h r n')
  with assms(1) have "p \<noteq> p'" by auto
  with call assms(1) show ?thesis
    by (intro joinsI [where d = "(ps(p := t, p' := h r), n')"])
      (auto intro: callI intro!: silentI simp: fun_upd_twist)
next
  case (meet p1 q h p2 h' n')
  with assms(1) have "p \<noteq> p1" "p \<noteq> p2" by auto
  with meet assms(1) show ?thesis
    by (intro joinsI [where d = "(ps(p := t, p1 := h R_unit, p2 := h' R_unit), n')"])
      (auto intro: meetI intro!: silentI simp: fun_upd_twist)
qed

lemma joins_call:
  assumes "ps p = Vis e h" "nstep p n e = Some (r, n1)" "sys_step nstep npair (ps, n) c"
  shows "joins (ps(p := h r), n1) c"
  using assms(3)
proof (cases rule: sys_stepE)
  case (silent p' t')
  from silent(2) have "joins (ps(p' := t'), n) (ps(p := h r), n1)"
    by (rule joins_silent) (rule callI, fact+, rule refl)
  with silent show ?thesis by (simp add: joins_sym)
next
  case (call p' e' h' r' n2)
  show ?thesis
  proof (cases "p = p'")
    case True
    with call assms show ?thesis by (simp add: joins_def)
  next
    case False
    from calls_commute [OF this assms(2) call(3)] obtain m where
      m: "nstep p' n1 e' = Some (r', m)" "nstep p n2 e = Some (r, m)" by blast
    with False call assms(1) show ?thesis
      by (intro joinsI [where d = "(ps(p := h r, p' := h' r'), m)"])
        (auto intro: callI simp: fun_upd_twist)
  qed
next
  case (meet p1 q k1 p2 k2 n2)
  from meet assms have "p \<noteq> p1" "p \<noteq> p2"
    using call_not_connect [OF assms(2)] call_not_accept [OF assms(2)] by auto
  from call_meet_commute [OF this assms(2) meet(4)] obtain m where
    m: "npair p1 p2 q n1 = Some m" "nstep p n2 e = Some (r, m)" by blast
  show ?thesis
    unfolding meet(1)
  proof (rule joinsI)
    let ?d = "(ps(p := h r, p1 := k1 R_unit, p2 := k2 R_unit), m)"
    show "sys_step nstep npair (ps(p := h r), n1) ?d"
      using meet m(1) \<open>p \<noteq> p1\<close> \<open>p \<noteq> p2\<close> by (intro meetI) auto
    show "sys_step nstep npair (ps(p1 := k1 R_unit, p2 := k2 R_unit), n2) ?d"
      using assms(1) m(2) \<open>p \<noteq> p1\<close> \<open>p \<noteq> p2\<close> by (intro callI) (auto simp: fun_upd_twist)
  qed
qed

lemma joins_meet:
  assumes "ps p = Vis (Os_connect (Client q) V4) h" "ps p' = Vis (Os_accept (Server q)) h'"
    "npair p p' q n = Some n1" "sys_step nstep npair (ps, n) c"
  shows "joins (ps(p := h R_unit, p' := h' R_unit), n1) c"
  using assms(4)
proof (cases rule: sys_stepE)
  case (silent p1 t)
  from silent(2) have "joins (ps(p1 := t), n) (ps(p := h R_unit, p' := h' R_unit), n1)"
    by (rule joins_silent) (rule meetI, fact+, rule refl)
  with silent show ?thesis by (simp add: joins_sym)
next
  case (call p1 e k r n2)
  from call(2,3) have "joins (ps(p1 := k r), n2) (ps(p := h R_unit, p' := h' R_unit), n1)"
    by (rule joins_call) (rule meetI, fact+, rule refl)
  with call show ?thesis by (simp add: joins_sym)
next
  case (meet p1 q' k1 p2 k2 n2)
  show ?thesis
  proof (cases "q = q'")
    case True
    with meet_functional [OF assms(3)] meet(4) have "p1 = p" "p2 = p'" by auto
    with meet True assms show ?thesis by (simp add: joins_def)
  next
    case False
    with meet assms have ne: "p \<noteq> p1" "p' \<noteq> p2" "p \<noteq> p2" "p' \<noteq> p1" by auto
    from meets_commute [OF False assms(3) meet(4)] obtain m where
      m: "npair p1 p2 q' n1 = Some m" "npair p p' q n2 = Some m" by blast
    show ?thesis
      unfolding meet(1)
    proof (rule joinsI)
      let ?d = "(ps(p := h R_unit, p' := h' R_unit, p1 := k1 R_unit, p2 := k2 R_unit), m)"
      show "sys_step nstep npair (ps(p := h R_unit, p' := h' R_unit), n1) ?d"
        using meet m ne by (intro meetI) auto
      show "sys_step nstep npair (ps(p1 := k1 R_unit, p2 := k2 R_unit), n2) ?d"
        using assms m ne by (intro meetI) (auto simp: fun_upd_twist fun_eq_iff)
    qed
  qed
qed

text \<open>A network that keeps the laws gives a system with the diamond property.\<close>

lemma sys_step_diamond:
  assumes "sys_step nstep npair a b" "sys_step nstep npair a c"
  shows "b = c \<or> (\<exists>d. sys_step nstep npair b d \<and> sys_step nstep npair c d)"
proof -
  obtain ps n where a: "a = (ps, n)" by force
  from assms(1) have "joins b c"
    unfolding a
    by (cases rule: sys_stepE)
      (use assms(2) a in \<open>auto intro: joins_silent joins_call joins_meet\<close>)
  then show ?thesis by (simp add: joins_def)
qed

end

sublocale network_contract \<subseteq> sys: diamond "sys_step nstep npair"
  by unfold_locales (rule sys_step_diamond)

end
