(* ===== verification/Loopback.thy ===== *)
theory Loopback
  imports Network
begin

text \<open>
  The network the services run on: loopback TCP between the process that connects to a
  port and the process that listens on it.  In this network a write hands over all its
  bytes at once, a read returns what one write handed over (or as much of it as fits), and
  a connection is set up when the server waits in \<open>accept\<close>.  TCP allows these
  schedules, and others that split and join writes or refuse a connection: what the
  programs do on any answers at all is in \<open>Stream_Traces\<close> and \<open>Pipe_Properties\<close>.
\<close>

text \<open>
  One side of a port: whether its socket is connected, the bytes on their way to it (one
  list per write of the peer), and whether it has closed its own direction.
\<close>

record side =
  conn :: bool
  inq :: "byte list list"
  fin :: bool

definition idle_side :: side where
  "idle_side = \<lparr>conn = False, inq = [], fin = False\<rparr>"

definition fresh_side :: side where
  "fresh_side = \<lparr>conn = True, inq = [], fin = False\<rparr>"

record net =
  sides :: "endpoint \<Rightarrow> side"
  listening :: "nat \<Rightarrow> bool"
  hosts :: "addr list"
  console :: "pid \<Rightarrow> string list"

fun across :: "endpoint \<Rightarrow> endpoint" where
  "across (Client q) = Server q"
| "across (Server q) = Client q"

lemma across_facts [simp]: "across (across ep) = ep" "across ep \<noteq> ep" "ep \<noteq> across ep"
  by (cases ep; simp)+

text \<open>
  Which process holds which side of which port: the GUI connects to the DSP service on
  port 5500, the DSP service to the reverse service on port 8800.
\<close>

definition owner :: "endpoint \<Rightarrow> pid option" where
  "owner ep =
     (if ep = Client 5500 then Some Gui_Proc
      else if ep = Server 5500 then Some Dsp_Proc
      else if ep = Client 8800 then Some Dsp_Proc
      else if ep = Server 8800 then Some Reverse_Proc
      else None)"

fun event_endpoint :: "event \<Rightarrow> endpoint option" where
  "event_endpoint (Console _) = None"
| "event_endpoint (Shell _) = None"
| "event_endpoint (Os_resolve ep) = Some ep"
| "event_endpoint (Os_listen ep) = Some ep"
| "event_endpoint (Os_unlisten ep) = Some ep"
| "event_endpoint (Os_accept ep) = Some ep"
| "event_endpoint (Os_connect ep _) = Some ep"
| "event_endpoint (Os_poll_connect ep) = Some ep"
| "event_endpoint (Os_so_error ep) = Some ep"
| "event_endpoint (Os_poll_read ep) = Some ep"
| "event_endpoint (Os_poll_write ep) = Some ep"
| "event_endpoint (Os_recv ep _) = Some ep"
| "event_endpoint (Os_send ep _) = Some ep"
| "event_endpoint (Os_shutdown ep) = Some ep"
| "event_endpoint (Os_close ep) = Some ep"

text \<open>A call on a connected socket: what it does to its own side and to the peer's.\<close>

fun side_step :: "side \<Rightarrow> side \<Rightarrow> event \<Rightarrow> (resp \<times> side \<times> side) option" where
  "side_step me peer (Os_poll_read _) =
     (if \<not> conn me \<or> inq me \<noteq> [] \<or> fin peer then Some (R_size 1, me, peer) else None)"
| "side_step me peer (Os_poll_write _) = Some (R_size 1, me, peer)"
| "side_step me peer (Os_recv _ n) =
     (if \<not> conn me then Some (R_error not_connected, me, peer)
      else case inq me of
        [] \<Rightarrow> if fin peer then Some (R_data [], me, peer) else None
      | seg # rest \<Rightarrow>
          if length seg \<le> n then Some (R_data seg, me\<lparr>inq := rest\<rparr>, peer)
          else Some (R_data (take n seg), me\<lparr>inq := drop n seg # rest\<rparr>, peer))"
| "side_step me peer (Os_send _ bs) =
     (if \<not> conn me then Some (R_error not_connected, me, peer)
      else if fin me then Some (R_error broken_pipe, me, peer)
      else Some (R_size (length bs), me,
        peer\<lparr>inq := inq peer @ (if bs = [] then [] else [bs])\<rparr>))"
| "side_step me peer (Os_shutdown _) =
     (if \<not> conn me then Some (R_error not_connected, me, peer)
      else Some (R_unit, me\<lparr>fin := True\<rparr>, peer))"
| "side_step me peer (Os_close _) =
     Some (R_unit, if conn me then me\<lparr>conn := False, fin := True\<rparr> else me, peer)"
| "side_step me peer _ = None"

text \<open>A call on an endpoint that the process does not hold never completes.\<close>

definition call_on :: "endpoint \<Rightarrow> net \<Rightarrow> event \<Rightarrow> (resp \<times> net) option" where
  "call_on ep n e =
     (case e of
        Os_resolve _ \<Rightarrow> Some (R_addrs (hosts n), n)
      | Os_listen (Server q) \<Rightarrow>
          Some (if listening n q then (R_error address_in_use, n)
            else (R_unit, n\<lparr>listening := (listening n)(q := True)\<rparr>))
      | Os_unlisten (Server q) \<Rightarrow> Some (R_unit, n\<lparr>listening := (listening n)(q := False)\<rparr>)
      | Os_connect (Client _) V6 \<Rightarrow> Some (R_error connection_refused, n)
      | _ \<Rightarrow> map_option (\<lambda>(r, mine, other). (r, n\<lparr>sides := (sides n)(ep := mine, across ep := other)\<rparr>))
          (side_step (sides n ep) (sides n (across ep)) e))"

definition net_step :: "pid \<Rightarrow> net \<Rightarrow> event \<Rightarrow> (resp \<times> net) option" where
  "net_step p n e =
     (case event_endpoint e of
        None \<Rightarrow> (case e of
            Console s \<Rightarrow> Some (R_unit, n\<lparr>console := (console n)(p := console n p @ [s])\<rparr>)
          | Shell s \<Rightarrow> Some (R_unit, n)
          | _ \<Rightarrow> None)
      | Some ep \<Rightarrow> if owner ep = Some p then call_on ep n e else None)"

text \<open>A connection is set up: both sockets become connected and nothing is under way.\<close>

definition open_link :: "nat \<Rightarrow> net \<Rightarrow> net" where
  "open_link q n = n\<lparr>sides := (sides n)(Client q := fresh_side, Server q := fresh_side)\<rparr>"

definition net_meet :: "pid \<Rightarrow> pid \<Rightarrow> nat \<Rightarrow> net \<Rightarrow> net option" where
  "net_meet p p' q n =
     (if owner (Client q) = Some p \<and> owner (Server q) = Some p' \<and> listening n q
         \<and> \<not> conn (sides n (Client q)) \<and> \<not> conn (sides n (Server q))
      then Some (open_link q n) else None)"

subsection \<open>The network keeps the contract\<close>

lemma side_keep [simp]: "s\<lparr>inq := inq s\<rparr> = s"
  by (cases s) simp

lemma side_upd_eq [simp]:
  "s\<lparr>inq := a\<rparr> = s\<lparr>inq := b\<rparr> \<longleftrightarrow> a = b"
  "s\<lparr>inq := a\<rparr> = s \<longleftrightarrow> a = inq s"
  "s = s\<lparr>inq := a\<rparr> \<longleftrightarrow> a = inq s"
  by (cases s; auto)+

text \<open>A call only adds to what is on its way to the peer, and nothing once its side is closed.\<close>

lemma side_step_peer:
  "side_step me peer e = Some (r, me', peer') \<Longrightarrow>
   \<exists>out. peer' = peer\<lparr>inq := inq peer @ out\<rparr> \<and> (fin me \<longrightarrow> out = [])"
proof (cases e)
  case (Os_send ep bs)
  moreover assume "side_step me peer e = Some (r, me', peer')"
  ultimately show ?thesis
    by (auto intro: exI [of _ "[]"] exI [of _ "[bs]"] split: if_splits)
qed (auto intro!: exI [of _ "[]"] split: if_splits list.splits)

text \<open>
  A call gives the same answer when the peer has in the meantime sent more or closed its
  side, as long as it did not send after closing.
\<close>

lemma side_step_frame:
  assumes "side_step me peer e = Some (r, me', peer\<lparr>inq := inq peer @ out\<rparr>)"
    "fin peer \<Longrightarrow> fin peer2 \<and> x = []"
  shows "side_step (me\<lparr>inq := inq me @ x\<rparr>) peer2 e =
    Some (r, me'\<lparr>inq := inq me' @ x\<rparr>, peer2\<lparr>inq := inq peer2 @ out\<rparr>)"
  using assms by (cases e) (auto split: if_splits list.splits)

lemma side_step_fin: "side_step me peer e = Some (r, me', peer') \<Longrightarrow> fin me \<Longrightarrow> fin me'"
  by (cases e) (auto split: if_splits list.splits)

lemma sides_commute:
  assumes "side_step me peer e = Some (r, me1, peer1)" "side_step peer me e' = Some (r', peer2, me2)"
  shows "\<exists>m p. side_step peer1 me1 e' = Some (r', p, m) \<and> side_step me2 peer2 e = Some (r, m, p)"
proof -
  obtain out where out: "peer1 = peer\<lparr>inq := inq peer @ out\<rparr>" "fin me \<Longrightarrow> out = []"
    using side_step_peer [OF assms(1)] by blast
  obtain out' where out': "me2 = me\<lparr>inq := inq me @ out'\<rparr>" "fin peer \<Longrightarrow> out' = []"
    using side_step_peer [OF assms(2)] by blast
  have "side_step me2 peer2 e = Some (r, me1\<lparr>inq := inq me1 @ out'\<rparr>, peer2\<lparr>inq := inq peer2 @ out\<rparr>)"
    unfolding out'(1)
    by (rule side_step_frame [of me peer e r me1]) (use assms out out' side_step_fin in auto)
  moreover have "side_step peer1 me1 e' = Some (r', peer2\<lparr>inq := inq peer2 @ out\<rparr>, me1\<lparr>inq := inq me1 @ out'\<rparr>)"
    unfolding out(1)
    by (rule side_step_frame [of peer me e' r' peer2]) (use assms out out' side_step_fin in auto)
  ultimately show ?thesis by blast
qed

text \<open>
  A call of a process: output, a lookup, a change of its acceptor, an attempt that is
  refused at once, or a call on one of its sockets.
\<close>

lemma call_on_cases:
  assumes "call_on ep n e = Some (r, n1)" "event_endpoint e = Some ep"
  obtains (resolve) "e = Os_resolve ep" "r = R_addrs (hosts n)" "n1 = n"
  | (listen) q b where "ep = Server q" "e = Os_listen ep" "n1 = n\<lparr>listening := (listening n)(q := True)\<rparr>"
      "b = listening n q" "r = (if b then R_error address_in_use else R_unit)"
  | (unlisten) q where "ep = Server q" "e = Os_unlisten ep" "r = R_unit"
      "n1 = n\<lparr>listening := (listening n)(q := False)\<rparr>"
  | (refused) q where "ep = Client q" "e = Os_connect ep V6" "r = R_error connection_refused" "n1 = n"
  | (side) mine other where "side_step (sides n ep) (sides n (across ep)) e = Some (r, mine, other)"
      "n1 = n\<lparr>sides := (sides n)(ep := mine, across ep := other)\<rparr>"
proof -
  consider "e = Os_resolve ep" | q where "ep = Server q" "e = Os_listen ep"
    | q where "ep = Server q" "e = Os_unlisten ep" | q where "ep = Client q" "e = Os_connect ep V6"
    | "call_on ep n e =
        map_option (\<lambda>(r, mine, other). (r, n\<lparr>sides := (sides n)(ep := mine, across ep := other)\<rparr>))
          (side_step (sides n ep) (sides n (across ep)) e)"
  proof (cases e)
    case (Os_connect ep' a)
    with assms(2) that(4,5) show thesis by (cases a; cases ep) (simp_all add: call_on_def)
  qed (use assms(2) that in \<open>cases ep; simp add: call_on_def\<close>)+
  then show thesis
  proof cases
    case 1
    with assms(1) show thesis by (intro resolve) (auto simp: call_on_def)
  next
    case (2 q)
    with assms(1) show thesis
      by (intro listen [of q "listening n q"]) (auto simp: call_on_def fun_upd_idem split: if_splits)
  next
    case (3 q)
    with assms(1) show thesis by (intro unlisten [of q]) (auto simp: call_on_def)
  next
    case (4 q)
    with assms(1) show thesis by (intro refused [of q]) (auto simp: call_on_def)
  next
    case 5
    with assms(1) obtain mine other where
      "side_step (sides n ep) (sides n (across ep)) e = Some (r, mine, other)"
      "n1 = n\<lparr>sides := (sides n)(ep := mine, across ep := other)\<rparr>" by auto
    then show thesis by (rule side)
  qed
qed

lemma call_onI:
  "event_endpoint e = Some ep \<Longrightarrow> side_step (sides n ep) (sides n (across ep)) e = Some (r, mine, other) \<Longrightarrow>
   call_on ep n e = Some (r, n\<lparr>sides := (sides n)(ep := mine, across ep := other)\<rparr>)"
  by (cases e) (auto simp: call_on_def)

lemma call_on_acceptor:
  "call_on ep n (Os_resolve ep') = Some (R_addrs (hosts n), n)"
  "call_on ep n (Os_listen (Server q)) =
     Some (if listening n q then R_error address_in_use else R_unit,
       n\<lparr>listening := (listening n)(q := True)\<rparr>)"
  "call_on ep n (Os_unlisten (Server q)) = Some (R_unit, n\<lparr>listening := (listening n)(q := False)\<rparr>)"
  "call_on ep n (Os_connect (Client q) V6) = Some (R_error connection_refused, n)"
  by (auto simp: call_on_def fun_upd_idem)

lemma net_step_cases:
  assumes "net_step p n e = Some (r, n1)"
  obtains (console) s where "e = Console s" "r = R_unit"
      "n1 = n\<lparr>console := (console n)(p := console n p @ [s])\<rparr>"
  | (shell) s where "e = Shell s" "r = R_unit" "n1 = n"
  | (on) ep where "event_endpoint e = Some ep" "owner ep = Some p" "call_on ep n e = Some (r, n1)"
proof (cases "event_endpoint e")
  case None
  then consider s where "e = Console s" | s where "e = Shell s" by (cases e) simp_all
  then show thesis
    by cases (use assms in \<open>auto simp: net_step_def intro: console shell\<close>)
next
  case (Some ep)
  with assms show thesis by (intro on [of ep]) (auto simp: net_step_def split: if_splits)
qed

lemma net_step_simps [simp]:
  "net_step p n (Console s) = Some (R_unit, n\<lparr>console := (console n)(p := console n p @ [s])\<rparr>)"
  "net_step p n (Shell s) = Some (R_unit, n)"
  by (simp_all add: net_step_def)

lemma net_step_on:
  "event_endpoint e = Some ep \<Longrightarrow> owner ep = Some p \<Longrightarrow> net_step p n e = call_on ep n e"
  by (simp add: net_step_def)

text \<open>Calls do not read what other processes printed, nor the acceptors of others.\<close>

lemma call_on_frame_console:
  assumes "call_on ep n e = Some (r, n1)" "event_endpoint e = Some ep"
  shows "call_on ep (n\<lparr>console := c\<rparr>) e = Some (r, n1\<lparr>console := c\<rparr>) \<and> console n1 = console n"
  by (cases rule: call_on_cases [OF assms])
    (use assms(2) in \<open>auto simp: call_on_acceptor call_onI fun_upd_idem\<close>)

lemma owner_across: "owner ep = Some p \<Longrightarrow> owner ep' = Some p' \<Longrightarrow> p \<noteq> p' \<Longrightarrow> ep \<noteq> ep'"
  by auto

lemma calls_on_commute:
  assumes "ep \<noteq> ep'" "event_endpoint e = Some ep" "event_endpoint e' = Some ep'"
    "call_on ep n e = Some (r, n1)" "call_on ep' n e' = Some (r', n2)"
  shows "\<exists>m. call_on ep' n1 e' = Some (r', m) \<and> call_on ep n2 e = Some (r, m)"
proof (cases rule: call_on_cases [OF assms(4,2)]; cases rule: call_on_cases [OF assms(5,3)])
  fix mine other mine' other'
  assume sd: "side_step (sides n ep) (sides n (across ep)) e = Some (r, mine, other)"
    "n1 = n\<lparr>sides := (sides n)(ep := mine, across ep := other)\<rparr>"
    and sd': "side_step (sides n ep') (sides n (across ep')) e' = Some (r', mine', other')"
    "n2 = n\<lparr>sides := (sides n)(ep' := mine', across ep' := other')\<rparr>"
  show ?thesis
  proof (cases "ep' = across ep")
    case True
    with sides_commute [OF sd(1), of e' r' mine' other'] sd'(1) obtain m k where
      "side_step other mine e' = Some (r', k, m)" "side_step other' mine' e = Some (r, m, k)" by auto
    with sd sd' True assms(1-3) show ?thesis by (auto simp: call_onI fun_upd_twist)
  next
    case False
    with assms(1) have "ep \<noteq> across ep'" "across ep \<noteq> across ep'" by (metis across_facts(1))+
    with False sd sd' assms(1-3) show ?thesis by (auto simp: call_onI fun_upd_twist)
  qed
qed (use assms(1-3) in \<open>auto simp: call_onI call_on_acceptor fun_upd_idem fun_upd_twist\<close>)

lemma net_calls_commute:
  assumes "p \<noteq> p'" "net_step p n e = Some (r, n1)" "net_step p' n e' = Some (r', n2)"
  shows "\<exists>m. net_step p' n1 e' = Some (r', m) \<and> net_step p n2 e = Some (r, m)"
proof (cases rule: net_step_cases [OF assms(2)]; cases rule: net_step_cases [OF assms(3)])
  fix ep ep'
  assume "event_endpoint e = Some ep" "owner ep = Some p" "call_on ep n e = Some (r, n1)"
    and "event_endpoint e' = Some ep'" "owner ep' = Some p'" "call_on ep' n e' = Some (r', n2)"
  moreover from this assms(1) have "ep \<noteq> ep'" by auto
  ultimately show ?thesis using calls_on_commute [of ep ep' e e' n r n1 r' n2]
    by (simp add: net_step_on)
qed (use assms in \<open>auto simp: net_step_on call_on_frame_console fun_upd_twist\<close>)

lemma net_meetD:
  "net_meet p p' q n = Some n1 \<Longrightarrow>
   owner (Client q) = Some p \<and> owner (Server q) = Some p' \<and> listening n q
   \<and> \<not> conn (sides n (Client q)) \<and> \<not> conn (sides n (Server q)) \<and> n1 = open_link q n"
  by (auto simp: net_meet_def split: if_splits)

lemma net_meetI:
  "owner (Client q) = Some p \<Longrightarrow> owner (Server q) = Some p' \<Longrightarrow> listening n q \<Longrightarrow>
   \<not> conn (sides n (Client q)) \<Longrightarrow> \<not> conn (sides n (Server q)) \<Longrightarrow>
   net_meet p p' q n = Some (open_link q n)"
  by (simp add: net_meet_def)

lemma net_call_meet_commute:
  assumes "p \<noteq> p1" "p \<noteq> p2" "net_step p n e = Some (r, n1)" "net_meet p1 p2 q n = Some n2"
  shows "\<exists>m. net_meet p1 p2 q n1 = Some m \<and> net_step p n2 e = Some (r, m)"
  using assms(3)
proof (cases rule: net_step_cases)
  case (on ep)
  note mt = net_meetD [OF assms(4)]
  from mt assms(1,2) on(2) have ep: "ep \<noteq> Client q" "ep \<noteq> Server q" by auto
  then have "across ep \<noteq> Client q" "across ep \<noteq> Server q" by (cases ep; auto)+
  with mt ep on(1,2) show ?thesis
    by (cases rule: call_on_cases [OF on(3,1)])
      (auto simp: net_step_on call_onI call_on_acceptor net_meetI open_link_def fun_upd_twist)
qed (use net_meetD [OF assms(4)] in \<open>simp_all add: net_meetI open_link_def\<close>)

text \<open>The loopback network does not let its processes disturb each other.\<close>

interpretation loopback: network_contract net_step net_meet
proof
  fix q q' p1 p2 p1' p2' n n1 n2
  assume "q \<noteq> q'" "net_meet p1 p2 q n = Some n1" "net_meet p1' p2' q' n = Some n2"
  then show "\<exists>m. net_meet p1' p2' q' n1 = Some m \<and> net_meet p1 p2 q n2 = Some m"
    using net_meetD [of p1 p2 q n n1] net_meetD [of p1' p2' q' n n2]
    by (simp add: net_meetI open_link_def fun_upd_twist)
next
  fix p1 p2 q n n1 p1' p2' n2
  assume "net_meet p1 p2 q n = Some n1" "net_meet p1' p2' q n = Some n2"
  then show "p1 = p1' \<and> p2 = p2'" by (auto dest!: net_meetD)
next
  fix p n q show "net_step p n (Os_connect (Client q) V4) = None"
    by (simp add: net_step_def call_on_def)
next
  fix p n q show "net_step p n (Os_accept (Server q)) = None"
    by (simp add: net_step_def call_on_def)
qed (fact net_calls_commute net_call_meet_commute)+

end
