(* ===== verification/Pipe.thy ===== *)
theory Pipe
  imports Asio
begin

text \<open>
  \<open>source/Pipe.hpp\<close>: the class \<open>Pipe\<close> and its two derived classes.  An
  \<open>UpstreamPipe\<close> connects to a port, a \<open>DownstreamPipe\<close> listens on one; both send
  and receive strings and stereo audio over their socket.  The fields of the base class are
  the record \<open>pipe\<close>, and the derived classes extend it.  The shared \<open>io_context\<close> is
  left out: none of the synchronous operations uses it.
\<close>

definition CHUNK_SIZE :: nat where "CHUNK_SIZE = 1024"

record pipe =
  port :: nat
  chunk_size :: nat
  connected :: bool
  socket :: sock

record upstream = pipe +
  endpoints :: "addr list"

record downstream = pipe +
  acceptor :: sock

type_synonym audio_buffer = "sample list list"
  \<comment> \<open>\<open>AudioFile<float>::AudioBuffer\<close>, a vector of channels\<close>

subsection \<open>Construction, connection and destruction\<close>

definition new_upstream :: "nat \<Rightarrow> upstream io" where
  "new_upstream provided_port =
     Vis (Os_resolve (Client provided_port)) (\<lambda>r. case r of
         R_addrs as \<Rightarrow> Ret \<lparr>port = provided_port, chunk_size = 1024, connected = False,
           socket = construct (Client provided_port), endpoints = as\<rparr>
       | R_error e \<Rightarrow> Throw (System_Error e)
       | _ \<Rightarrow> Throw Bad_Response)"

definition upstream_connect :: "upstream \<Rightarrow> (bool \<times> upstream) io" where
  "upstream_connect p = bind_io (asio_connect (socket p) (endpoints p)) (\<lambda>s.
     Ret (True, p\<lparr>socket := s, connected := True\<rparr>))"

definition upstream_disconnect :: "upstream \<Rightarrow> bool \<times> upstream" where
  "upstream_disconnect p = (False, p\<lparr>connected := False\<rparr>)"

definition new_downstream :: "nat \<Rightarrow> downstream io" where
  "new_downstream provided_port =
     Vis (Os_listen (Server provided_port)) (\<lambda>r. case r of
         R_unit \<Rightarrow> Ret \<lparr>port = provided_port, chunk_size = 1024, connected = False,
           socket = construct (Server provided_port), acceptor = stream_sock (Server provided_port)\<rparr>
       | R_error e \<Rightarrow> Throw (System_Error e)
       | _ \<Rightarrow> Throw Bad_Response)"

definition downstream_connect :: "downstream \<Rightarrow> (bool \<times> downstream) io" where
  "downstream_connect p = bind_io (asio_accept (acceptor p) (socket p)) (\<lambda>s.
     Ret (True, p\<lparr>socket := s, connected := True\<rparr>))"

definition downstream_disconnect :: "downstream \<Rightarrow> (bool \<times> downstream) io" where
  "downstream_disconnect p =
     bind_io (sock_shutdown (socket p)) (\<lambda>_.
     bind_io (sock_close (socket p)) (\<lambda>(s, ec).
     bind_io (throw_error ec) (\<lambda>_.
     Ret (False, p\<lparr>socket := s, connected := False\<rparr>))))"

text \<open>
  The implicit destructors: the members of the derived class go first, then the socket.
  Errors are ignored.
\<close>

definition destroy_socket :: "sock \<Rightarrow> unit io" where
  "destroy_socket s = (if opened s then bind_io (close_fd s) (\<lambda>_. Ret ()) else Ret ())"

definition destroy_upstream :: "upstream \<Rightarrow> unit io" where
  "destroy_upstream p = destroy_socket (socket p)"

definition destroy_downstream :: "downstream \<Rightarrow> unit io" where
  "destroy_downstream p =
     bind_io (if opened (acceptor p) then Vis (Os_unlisten (fd (acceptor p))) (\<lambda>_. Ret ())
       else Ret ()) (\<lambda>_. destroy_socket (socket p))"

subsection \<open>Messages\<close>

definition send_message :: "('a) pipe_scheme \<Rightarrow> string \<Rightarrow> nat io" where
  "send_message p message =
     bind_io (wait_write (socket p)) (\<lambda>_. asio_write (socket p) (string_bytes message))"

definition recv_message :: "('a) pipe_scheme \<Rightarrow> string io" where
  "recv_message p =
     (let receiver = resize [] (chunk_size p) in
      bind_io (wait_read (socket p)) (\<lambda>_.
      bind_io (read_some (socket p) (length receiver)) (\<lambda>data.
        let read_size = length data;
            receiver = data @ drop read_size receiver;
            receiver = resize receiver read_size
        in Ret (bytes_string receiver))))"

subsection \<open>Sending audio\<close>

text \<open>
  The inner \<open>for\<close> loop, which copies the next samples of a channel into the chunk.
  The index \<open>buffer_idx\<close> is an \<open>unsigned int\<close>.  The result is the chunk, the index and
  whether the end of the channel was reached, in which case the chunk was cut to
  \<open>buffer_idx % CHUNK_SIZE\<close>.
\<close>

function fill_chunk ::
  "sample list \<Rightarrow> nat \<Rightarrow> sample list \<Rightarrow> u32 \<Rightarrow> error + sample list \<times> u32 \<times> bool" where
  "fill_chunk ch i chunked buffer_idx =
     (if i < CHUNK_SIZE then
        ebind (vec_get ch (unat buffer_idx)) (\<lambda>x.
        ebind (vec_set chunked i x) (\<lambda>chunked.
          let buffer_idx = buffer_idx + 1 in
          if unat buffer_idx \<ge> length ch
          then Inr (resize chunked (unat (buffer_idx mod of_nat CHUNK_SIZE)), buffer_idx, True)
          else fill_chunk ch (Suc i) chunked buffer_idx))
      else Inr (chunked, buffer_idx, False))"
  by pat_completeness auto
termination
  by (relation "measure (\<lambda>(ch, i, chunked, idx). CHUNK_SIZE - i)") auto

declare fill_chunk.simps [simp del]

text \<open>
  One round of the \<open>while(1)\<close> over a channel.  The error code of the write goes to \<open>ignored_error\<close> and is not looked
  at.  The vector of the chunk is shared by the two channels.
\<close>

definition send_round ::
  "('a) pipe_scheme \<Rightarrow> sample list \<Rightarrow> sample list \<times> u32 \<Rightarrow> (sample list \<times> u32 + sample list) io" where
  "send_round p ch = (\<lambda>(chunked, buffer_idx).
     bind_io (lift_io (fill_chunk ch 0 chunked buffer_idx)) (\<lambda>(chunked, buffer_idx, write_done).
     let write_size = length chunked * 4 in
     bind_io (write_ec (socket p) (take write_size (audio_bytes chunked))) (\<lambda>_.
       Ret (if write_done then Inr chunked else Inl (chunked, buffer_idx)))))"

definition send_channel :: "('a) pipe_scheme \<Rightarrow> sample list \<Rightarrow> sample list \<Rightarrow> sample list io" where
  "send_channel p ch chunked_samples =
     while_io (send_round p ch) (resize chunked_samples CHUNK_SIZE, 0)"

definition send_audio :: "('a) pipe_scheme \<Rightarrow> audio_buffer \<Rightarrow> bool io" where
  "send_audio p samples =
     bind_io (lift_io (vec_get samples 0)) (\<lambda>left.
     bind_io (send_channel p left []) (\<lambda>chunked_samples.
     bind_io (recv_message p) (\<lambda>msg.
       if msg \<noteq> ''CONFIRMED'' then Ret False
       else
         bind_io (lift_io (vec_get samples 1)) (\<lambda>right.
         bind_io (send_channel p right chunked_samples) (\<lambda>_.
         Ret True)))))"

subsection \<open>Receiving audio\<close>

text \<open>
  A vector of floats after its first bytes were overwritten by a read.
\<close>

definition overwrite :: "sample list \<Rightarrow> byte list \<Rightarrow> sample list" where
  "overwrite v data = map (float_at (data @ drop (length data) (audio_bytes v))) [0..<length v]"

function store_floats ::
  "sample list \<Rightarrow> nat \<Rightarrow> nat \<Rightarrow> sample list \<Rightarrow> u32 \<Rightarrow> error + sample list \<times> u32" where
  "store_floats recv num_floats_read i channel buffer_idx =
     (if i < num_floats_read then
        ebind (vec_get recv i) (\<lambda>x.
        ebind (vec_set channel (unat buffer_idx) x) (\<lambda>channel.
          store_floats recv num_floats_read (Suc i) channel (buffer_idx + 1)))
      else Inr (channel, buffer_idx))"
  by pat_completeness auto
termination
  by (relation "measure (\<lambda>(recv, n, i, channel, idx). n - i)") auto

declare store_floats.simps [simp del]

definition recv_round ::
  "('a) pipe_scheme \<Rightarrow> sample list \<times> sample list \<times> u32 \<Rightarrow>
   (sample list \<times> sample list \<times> u32 + sample list \<times> sample list) io" where
  "recv_round p = (\<lambda>(channel, recv, buffer_idx).
     bind_io (read_some (socket p) (min (4 * length recv) (CHUNK_SIZE * 4))) (\<lambda>data.
     let recv = overwrite recv data;
         num_floats_read = length data div 4;
         channel = (if length channel < length channel + num_floats_read
                    then resize channel (length channel + num_floats_read) else channel)
     in bind_io (lift_io (store_floats recv num_floats_read 0 channel buffer_idx))
          (\<lambda>(channel, buffer_idx).
          Ret (if num_floats_read < CHUNK_SIZE then Inr (channel, recv)
               else Inl (channel, recv, buffer_idx)))))"

definition recv_channel ::
  "('a) pipe_scheme \<Rightarrow> sample list \<Rightarrow> (sample list \<times> sample list) io" where
  "recv_channel p recv = while_io (recv_round p) ([], resize recv CHUNK_SIZE, 0)"

definition recv_audio :: "('a) pipe_scheme \<Rightarrow> audio_buffer io" where
  "recv_audio p =
     bind_io (recv_channel p []) (\<lambda>(left, recv).
     bind_io (send_message p ''CONFIRMED'') (\<lambda>_.
     bind_io (recv_channel p recv) (\<lambda>(right, recv).
     Ret [left, right])))"

end
