(* ===== verification/Pipe_Loops.thy ===== *)
theory Pipe_Loops
  imports Pipe
begin

text \<open>
  What the loops of \<open>Pipe\<close> compute, without the socket: the chunks that
  \<open>send_channel\<close> cuts a channel into, and what \<open>recv_channel\<close> makes of one read.
\<close>

subsection \<open>Cutting a channel into chunks\<close>

lemma unat_of_nat_u32: "n < 2 ^ 32 \<Longrightarrow> unat (of_nat n :: u32) = n"
  by (simp add: unat_of_nat)

lemma of_nat_mod_chunk: "n < 2 ^ 32 \<Longrightarrow> unat ((of_nat n :: u32) mod of_nat CHUNK_SIZE) = n mod CHUNK_SIZE"
  by (simp add: unat_mod unat_of_nat CHUNK_SIZE_def)

text \<open>
  The inner loop started at sample \<open>k\<close>: a full chunk when more than a chunk is left,
  otherwise the rest, cut to the length of the channel modulo the chunk size.
\<close>

lemma fill_chunk_run:
  assumes "i \<le> CHUNK_SIZE" "k + i < length ch" "length ch < 2 ^ 32"
    "length chunked = CHUNK_SIZE" "take i chunked = take i (drop k ch)" "idx = of_nat (k + i)"
  shows "fill_chunk ch i chunked idx =
    (if k + CHUNK_SIZE < length ch then Inr (take CHUNK_SIZE (drop k ch), of_nat (k + CHUNK_SIZE), False)
     else Inr (resize (drop k ch @ drop (length ch - k) chunked) (length ch mod CHUNK_SIZE),
       of_nat (length ch), True))"
  using assms
proof (induction ch i chunked idx rule: fill_chunk.induct)
  case (1 ch i chunked idx)
  show ?case
  proof (cases "i < CHUNK_SIZE")
    case False
    with "1.prems" have "i = CHUNK_SIZE" by simp
    with "1.prems" show ?thesis by (subst fill_chunk.simps) simp
  next
    case True
    have idx3: "idx + 1 = of_nat (k + Suc i)"
      unfolding "1.prems"(6) by simp
    have idx1: "unat idx = k + i"
      unfolding "1.prems"(6) using "1.prems"(2,3) by (intro unat_of_nat_u32) simp
    have idx2: "unat (idx + 1) = Suc (k + i)"
      unfolding idx3 using "1.prems"(2,3) unat_of_nat_u32 [of "k + Suc i"] by (simp del: of_nat_add)
    note idx = idx1 idx2 idx3
    let ?ck = "chunked[i := ch ! (k + i)]"
    have ck: "length ?ck = CHUNK_SIZE" "take (Suc i) ?ck = take (Suc i) (drop k ch)"
      using "1.prems"(2,4,5) True
      by (simp_all add: take_Suc_conv_app_nth nth_append list_eq_iff_nth_eq)
    have fc: "fill_chunk ch i chunked idx =
       (if Suc (k + i) \<ge> length ch
        then Inr (resize ?ck (length ch mod CHUNK_SIZE), of_nat (length ch), True)
        else fill_chunk ch (Suc i) ?ck (idx + 1))"
    proof -
      have "unat ((idx + 1) mod of_nat CHUNK_SIZE) = Suc (k + i) mod CHUNK_SIZE"
        unfolding idx(3) using "1.prems"(2,3) of_nat_mod_chunk [of "k + Suc i"] by simp
      with True "1.prems" idx show ?thesis
        by (subst fill_chunk.simps) (simp add: Let_def le_Suc_eq)
    qed
    show ?thesis
    proof (cases "Suc (k + i) \<ge> length ch")
      case True
      with "1.prems"(2) have len: "length ch = k + Suc i" by simp
      with ck(2) have "take (Suc i) ?ck = drop k ch" by simp
      then have "?ck = drop k ch @ drop (Suc i) ?ck" by (metis append_take_drop_id)
      then have "?ck = drop k ch @ drop (length ch - k) chunked" using len by simp
      with True len \<open>i < CHUNK_SIZE\<close> fc show ?thesis by simp
    next
      case False
      then have "fill_chunk ch (Suc i) ?ck (idx + 1) =
        (if k + CHUNK_SIZE < length ch then Inr (take CHUNK_SIZE (drop k ch), of_nat (k + CHUNK_SIZE), False)
         else Inr (resize (drop k ch @ drop (length ch - k) ?ck) (length ch mod CHUNK_SIZE),
           of_nat (length ch), True))"
        using True "1.prems" ck idx by (intro "1.IH" [OF True]) auto
      moreover have "drop (length ch - k) ?ck = drop (length ch - k) chunked"
        using False by (intro drop_update_cancel) simp
      ultimately show ?thesis using False fc by simp
    qed
  qed
qed

text \<open>
  A round of the sender at sample \<open>k\<close>, for \<open>k\<close> a multiple of the chunk size: a full
  chunk, or the rest of the channel.  If exactly one full chunk is left, the rest is cut to
  nothing.
\<close>

definition last_chunk :: "nat \<Rightarrow> sample list \<Rightarrow> sample list" where
  "last_chunk k ch = (if length ch = k + CHUNK_SIZE then [] else drop k ch)"

lemma take_audio_bytes [simp]: "take (length xs * 4) (audio_bytes xs) = audio_bytes xs"
  by simp

lemma send_round_more:
  assumes "k + CHUNK_SIZE < length ch" "length ch < 2 ^ 32" "length chunked = CHUNK_SIZE"
  shows "send_round p ch (chunked, of_nat k) =
    bind_io (write_ec (socket p) (audio_bytes (take CHUNK_SIZE (drop k ch)))) (\<lambda>_.
      Ret (Inl (take CHUNK_SIZE (drop k ch), of_nat (k + CHUNK_SIZE))))"
proof -
  have "fill_chunk ch 0 chunked (of_nat k) =
      Inr (take CHUNK_SIZE (drop k ch), of_nat (k + CHUNK_SIZE), False)"
    using assms fill_chunk_run [of 0 k ch chunked "of_nat k"] by simp
  moreover have "length (take CHUNK_SIZE (drop k ch)) * 4 = length (audio_bytes (take CHUNK_SIZE (drop k ch)))"
    by simp
  ultimately show ?thesis by (simp add: send_round_def Let_def del: length_take)
qed

lemma send_round_last:
  assumes "k < length ch" "length ch \<le> k + CHUNK_SIZE" "length ch < 2 ^ 32"
    "length chunked = CHUNK_SIZE" "CHUNK_SIZE dvd k"
  shows "send_round p ch (chunked, of_nat k) =
    bind_io (write_ec (socket p) (audio_bytes (last_chunk k ch))) (\<lambda>_.
      Ret (Inr (last_chunk k ch)))"
proof -
  from assms(5) obtain j where j: "k = CHUNK_SIZE * j" by blast
  have "resize (drop k ch @ drop (length ch - k) chunked) (length ch mod CHUNK_SIZE) = last_chunk k ch"
  proof (cases "length ch = k + CHUNK_SIZE")
    case True
    then show ?thesis by (simp add: last_chunk_def resize_shrink j CHUNK_SIZE_def)
  next
    case False
    with assms(1,2) have "length ch - k < CHUNK_SIZE" "length ch = k + (length ch - k)" by simp_all
    then have "length ch mod CHUNK_SIZE = length ch - k"
      by (metis j mod_less mod_mult_self4)
    with False show ?thesis by (simp add: last_chunk_def resize_shrink)
  qed
  with assms have "fill_chunk ch 0 chunked (of_nat k) = Inr (last_chunk k ch, of_nat (length ch), True)"
    using fill_chunk_run [of 0 k ch chunked "of_nat k"] by simp
  then show ?thesis by (simp add: send_round_def Let_def)
qed

text \<open>
  What the sender puts on the wire: the channel, without its last chunk if the channel is a
  whole number of chunks.
\<close>

definition wire_channel :: "sample list \<Rightarrow> sample list" where
  "wire_channel ch = (if CHUNK_SIZE dvd length ch then take (length ch - CHUNK_SIZE) ch else ch)"

lemma wire_channel_last:
  assumes "k < length ch" "length ch \<le> k + CHUNK_SIZE" "CHUNK_SIZE dvd k"
  shows "drop k (wire_channel ch) = last_chunk k ch"
proof (cases "length ch = k + CHUNK_SIZE")
  case True
  with assms(3) show ?thesis by (simp add: wire_channel_def last_chunk_def)
next
  case False
  have "\<not> CHUNK_SIZE dvd length ch"
  proof
    assume "CHUNK_SIZE dvd length ch"
    with assms(3) have "CHUNK_SIZE dvd length ch - k" by simp
    with False assms(1,2) show False by (auto dest!: dvd_imp_le)
  qed
  with False show ?thesis by (simp add: wire_channel_def last_chunk_def)
qed

lemma wire_channel_more:
  assumes "k + CHUNK_SIZE < length ch" "CHUNK_SIZE dvd k"
  shows "drop k (wire_channel ch) = take CHUNK_SIZE (drop k ch) @ drop (k + CHUNK_SIZE) (wire_channel ch)"
proof -
  have "k + CHUNK_SIZE \<le> length (wire_channel ch)"
  proof (cases "CHUNK_SIZE dvd length ch")
    case True
    with assms(2) have "CHUNK_SIZE dvd length ch - (k + CHUNK_SIZE)" by simp
    with assms(1) have "CHUNK_SIZE \<le> length ch - (k + CHUNK_SIZE)" by (intro dvd_imp_le) auto
    then have "k + CHUNK_SIZE \<le> length ch - CHUNK_SIZE" using assms(1) by linarith
    with True show ?thesis by (simp add: wire_channel_def)
  qed (use assms(1) in \<open>simp add: wire_channel_def\<close>)
  then have "take CHUNK_SIZE (drop k (wire_channel ch)) = take CHUNK_SIZE (drop k ch)"
    by (auto simp: wire_channel_def take_drop min_absorb1)
  then show ?thesis by (metis add.commute append_take_drop_id drop_drop)
qed

lemma send_round_empty: "send_round p [] (chunked, idx) = Throw Out_Of_Bounds"
  by (simp add: send_round_def fill_chunk.simps CHUNK_SIZE_def)

subsection \<open>Storing what a read delivered\<close>

lemma length_overwrite [simp]: "length (overwrite v data) = length v"
  by (simp add: overwrite_def)

text \<open>The floats that are whole in the bytes of a read.\<close>

definition floats_of :: "byte list \<Rightarrow> sample list" where
  "floats_of data = map (float_at data) [0..<length data div 4]"

lemma length_floats_of [simp]: "length (floats_of data) = length data div 4"
  by (simp add: floats_of_def)

lemma floats_of_audio_bytes' [simp]: "floats_of (audio_bytes xs) = xs"
  using floats_of_audio_bytes [of xs "[]"] by (simp add: floats_of_def)

lemma float_at_append: "4 * Suc i \<le> length a \<Longrightarrow> float_at (a @ b) i = float_at a i"
  by (simp add: float_at_def)

lemma take_overwrite:
  assumes "length data div 4 \<le> length v"
  shows "take (length data div 4) (overwrite v data) = floats_of data"
proof (rule nth_equalityI)
  fix i assume "i < length (take (length data div 4) (overwrite v data))"
  with assms have "i < length data div 4" "i < length v" by auto
  moreover from this(1) have "4 * Suc i \<le> length data" by presburger
  ultimately show "take (length data div 4) (overwrite v data) ! i = floats_of data ! i"
    by (simp add: overwrite_def floats_of_def float_at_append)
qed (use assms in simp)

lemma floats_of_append:
  assumes "4 dvd length a"
  shows "floats_of (a @ b) = floats_of a @ floats_of b"
proof -
  obtain m where m: "length a = 4 * m" using assms by blast
  have "float_at (a @ b) i = float_at b (i - m)" if "m \<le> i" for i
    using that by (simp add: float_at_def m diff_mult_distrib2)
  moreover have "float_at (a @ b) i = float_at a i" if "i < m" for i
    using that by (intro float_at_append) (simp add: m)
  moreover have "length (a @ b) div 4 = m + length b div 4" by (simp add: m)
  ultimately show ?thesis
    by (intro nth_equalityI) (auto simp: floats_of_def m nth_append)
qed

lemma store_floats_run:
  assumes "i \<le> n" "n \<le> length recv" "length channel = b + n" "b + n < 2 ^ 32" "idx = of_nat (b + i)"
  shows "store_floats recv n i channel idx =
    Inr (take (b + i) channel @ drop i (take n recv), of_nat (b + n))"
  using assms
proof (induction recv n i channel idx rule: store_floats.induct)
  case (1 recv n i channel idx)
  show ?case
  proof (cases "i < n")
    case False
    with "1.prems" show ?thesis by (subst store_floats.simps) simp
  next
    case True
    have idx: "unat idx = b + i"
      unfolding "1.prems"(5) using True "1.prems"(4) by (intro unat_of_nat_u32) simp
    have "store_floats recv n i channel idx =
        store_floats recv n (Suc i) (channel[b + i := recv ! i]) (idx + 1)"
      using True "1.prems" idx by (subst store_floats.simps) simp
    also have "\<dots> = Inr (take (b + Suc i) (channel[b + i := recv ! i]) @ drop (Suc i) (take n recv),
        of_nat (b + n))"
      using True "1.prems" by (intro "1.IH" [OF True]) auto
    also have "take (b + Suc i) (channel[b + i := recv ! i]) = take (b + i) channel @ [recv ! i]"
      using True "1.prems"(3) by (simp add: take_Suc_conv_app_nth)
    also have "(take (b + i) channel @ [recv ! i]) @ drop (Suc i) (take n recv) =
        take (b + i) channel @ drop i (take n recv)"
      using True "1.prems"(2) by (simp add: Cons_nth_drop_Suc [symmetric] flip: Cons_nth_drop_Suc)
    finally show ?thesis .
  qed
qed

text \<open>
  A round of the receiver appends the whole floats of one read, and goes on exactly when
  the read filled the buffer.
\<close>

lemma recv_round_run:
  assumes "length recv = CHUNK_SIZE" "idx = of_nat (length channel)" "length data \<le> CHUNK_SIZE * 4"
    "length channel + length data div 4 < 2 ^ 32"
  shows "store_floats (overwrite recv data) (length data div 4) 0
      (if length channel < length channel + length data div 4
       then resize channel (length channel + length data div 4) else channel) idx =
    Inr (channel @ floats_of data, of_nat (length channel + length data div 4))"
proof -
  let ?n = "length data div 4"
  have n: "?n \<le> length recv" using assms(1,3) by simp
  have ch: "(if length channel < length channel + ?n then resize channel (length channel + ?n) else channel)
      = channel @ replicate ?n 0"
    by (auto simp: resize_grow)
  have "store_floats (overwrite recv data) ?n 0 (channel @ replicate ?n 0) idx =
      Inr (take (length channel + 0) (channel @ replicate ?n 0) @ drop 0 (take ?n (overwrite recv data)),
        of_nat (length channel + ?n))"
    by (rule store_floats_run) (use assms n in auto)
  then show ?thesis unfolding ch using n by (simp add: take_overwrite)
qed

end
