(* ===== verification/Runs.thy ===== *)
theory Runs
  imports Loopback Pipe_Loops
begin

text \<open>
  Runs of the services over the loopback network.  \<open>does p t n x n'\<close> says that process
  \<open>p\<close> alone runs \<open>t\<close> from network \<open>n\<close> to its result; the operations of the pipes are
  run with it once, and the exchanges of two processes are put together from them.
\<close>

inductive does :: "pid \<Rightarrow> 'a io \<Rightarrow> net \<Rightarrow> 'a \<Rightarrow> net \<Rightarrow> bool" for p where
  does_return: "does p (Ret x) n x n"
| does_silent: "does p t n x n' \<Longrightarrow> does p (Tau t) n x n'"
| does_call: "net_step p n e = Some (r, n1) \<Longrightarrow> does p (h r) n1 x n' \<Longrightarrow> does p (Vis e h) n x n'"

declare does_return [simp, intro]

inductive_cases does_RetE: "does p (Ret x) n y n'"

lemma does_Ret_iff: "does p (Ret x) n y n' \<longleftrightarrow> x = y \<and> n = n'"
  by (auto elim: does_RetE)

lemma does_bind:
  "does p t n x n1 \<Longrightarrow> does p (k x) n1 y n2 \<Longrightarrow> does p (bind_io t k) n y n2"
  by (induction rule: does.induct) (auto intro: does.intros)

lemma does_while_more:
  "does p (b s) n (Inl s') n1 \<Longrightarrow> does p (while_io b s') n1 x n2 \<Longrightarrow> does p (while_io b s) n x n2"
  by (subst while_io_unfold, erule does_bind) (auto intro: does_silent)

lemma does_while_end: "does p (b s) n (Inr x) n1 \<Longrightarrow> does p (while_io b s) n x n1"
  by (subst while_io_unfold) (auto intro: does_bind)

lemma does_callI:
  "net_step p n e = Some (r, n1) \<Longrightarrow> t = h r \<Longrightarrow> does p t n1 x n' \<Longrightarrow> does p (Vis e h) n x n'"
  by (auto intro: does_call)

abbreviation system_step :: "'r procs \<times> net \<Rightarrow> 'r procs \<times> net \<Rightarrow> bool" where
  "system_step \<equiv> sys_step net_step net_meet"

abbreviation system_runs :: "'r procs \<times> net \<Rightarrow> 'r procs \<times> net \<Rightarrow> bool" where
  "system_runs \<equiv> system_step\<^sup>*\<^sup>*"

lemma runs_does:
  assumes "does p t n x n'" "ps p = bind_io t k"
  shows "system_runs (ps, n) (ps(p := k x), n')"
  using assms
proof (induction arbitrary: ps rule: does.induct)
  case (does_return x n)
  then have "ps(p := k x) = ps" by auto
  then show ?case by simp
next
  case (does_silent t n x n')
  then have "system_step (ps, n) (ps(p := bind_io t k), n)" by (intro silentI [of ps p]) auto
  moreover have "system_runs (ps(p := bind_io t k), n) ((ps(p := bind_io t k))(p := k x), n')"
    by (rule does_silent.IH) simp
  ultimately show ?case by (metis fun_upd_upd converse_rtranclp_into_rtranclp)
next
  case (does_call n e r n1 h x n')
  then have "system_step (ps, n) (ps(p := bind_io (h r) k), n1)"
    by (intro callI [of ps p e "\<lambda>r. bind_io (h r) k" net_step n r n1]) auto
  moreover have "system_runs (ps(p := bind_io (h r) k), n1) ((ps(p := bind_io (h r) k))(p := k x), n')"
    by (rule does_call.IH) simp
  ultimately show ?case by (metis fun_upd_upd converse_rtranclp_into_rtranclp)
qed

lemma runs_does_to:
  "does p t n x n' \<Longrightarrow> ps p = bind_io t k \<Longrightarrow> ps' = ps(p := k x) \<Longrightarrow> system_runs (ps, n) (ps', n')"
  by (simp add: runs_does)

text \<open>A process that runs on its own without returning, for runs that end in a wait.\<close>

inductive goes :: "pid \<Rightarrow> 'a io \<Rightarrow> net \<Rightarrow> 'a io \<Rightarrow> net \<Rightarrow> bool" for p where
  goes_stop: "goes p t n t n"
| goes_silent: "goes p t n u n' \<Longrightarrow> goes p (Tau t) n u n'"
| goes_call: "net_step p n e = Some (r, n1) \<Longrightarrow> goes p (h r) n1 u n' \<Longrightarrow> goes p (Vis e h) n u n'"

declare goes_stop [simp, intro]

lemma does_bind_goes:
  "does p t n x n1 \<Longrightarrow> goes p (k x) n1 u n2 \<Longrightarrow> goes p (bind_io t k) n u n2"
  by (induction rule: does.induct) (auto intro: goes.intros)

lemma goes_bind: "goes p t n u n1 \<Longrightarrow> goes p (bind_io t k) n (bind_io u k) n1"
  by (induction rule: goes.induct) (auto intro: goes.intros)

lemma goes_while_more:
  "does p (b s) n (Inl s') n1 \<Longrightarrow> goes p (while_io b s') n1 u n2 \<Longrightarrow> goes p (while_io b s) n u n2"
  by (subst while_io_unfold, erule does_bind_goes) (auto intro: goes_silent)

lemma runs_goes:
  assumes "goes p t n u n'" "ps p = t"
  shows "system_runs (ps, n) (ps(p := u), n')"
  using assms
proof (induction arbitrary: ps rule: goes.induct)
  case (goes_stop t n)
  then have "ps(p := t) = ps" by auto
  then show ?case by simp
next
  case (goes_silent t n u n')
  then have "system_step (ps, n) (ps(p := t), n)" by (intro silentI [of ps p]) auto
  moreover have "system_runs (ps(p := t), n) ((ps(p := t))(p := u), n')"
    by (rule goes_silent.IH) simp
  ultimately show ?case by (metis fun_upd_upd converse_rtranclp_into_rtranclp)
next
  case (goes_call n e r n1 h u n')
  then have "system_step (ps, n) (ps(p := h r), n1)"
    by (intro callI [of ps p e h net_step n r n1]) auto
  moreover have "system_runs (ps(p := h r), n1) ((ps(p := h r))(p := u), n')"
    by (rule goes_call.IH) simp
  ultimately show ?case by (metis fun_upd_upd converse_rtranclp_into_rtranclp)
qed

subsection \<open>Calls on a connected socket\<close>

text \<open>Bytes handed to the network at an endpoint wait at the other one.\<close>

definition put :: "endpoint \<Rightarrow> byte list list \<Rightarrow> net \<Rightarrow> net" where
  "put ep bss n =
     n\<lparr>sides := (sides n)(across ep := (sides n (across ep))\<lparr>inq := inq (sides n (across ep)) @ bss\<rparr>)\<rparr>"

definition live :: "net \<Rightarrow> endpoint \<Rightarrow> bool" where
  "live n ep \<longleftrightarrow> conn (sides n ep) \<and> \<not> fin (sides n ep)"

definition quiet :: "net \<Rightarrow> endpoint \<Rightarrow> bool" where
  "quiet n ep \<longleftrightarrow> inq (sides n ep) = []"

lemma put_nil [simp]: "put ep [] n = n"
  by (simp add: put_def)

lemma put_put [simp]: "put ep b (put ep a n) = put ep (a @ b) n"
  by (simp add: put_def)

lemma live_put [simp]: "live (put ep bss n) ep' = live n ep'"
  by (simp add: live_def put_def)

lemma quiet_put [simp]: "quiet (put ep bss n) ep = quiet n ep"
  by (simp add: quiet_def put_def)

lemma net_send:
  assumes "owner ep = Some p" "live n ep" "bs \<noteq> []"
  shows "net_step p n (Os_send ep bs) = Some (R_size (length bs), put ep [bs] n)"
  using assms call_onI [of "Os_send ep bs" ep n]
  by (simp add: net_step_on live_def put_def fun_upd_idem)

lemma net_poll_write:
  assumes "owner ep = Some p"
  shows "net_step p n (Os_poll_write ep) = Some (R_size 1, n)"
  using assms call_onI [of "Os_poll_write ep" ep n]
  by (simp add: net_step_on fun_upd_idem)

lemma net_poll_read:
  assumes "owner ep = Some p" "bss \<noteq> []"
  shows "net_step p (put (across ep) bss n) (Os_poll_read ep) = Some (R_size 1, put (across ep) bss n)"
  using assms call_onI [of "Os_poll_read ep" ep "put (across ep) bss n"]
  by (simp add: net_step_on put_def fun_upd_idem fun_upd_twist)

lemma net_recv:
  assumes "owner ep = Some p" "live n ep" "quiet n ep" "length b \<le> len"
  shows "net_step p (put (across ep) (b # bss) n) (Os_recv ep len) =
    Some (R_data b, put (across ep) bss n)"
  using assms call_onI [of "Os_recv ep len" ep "put (across ep) (b # bss) n"]
  by (simp add: net_step_on put_def live_def quiet_def fun_upd_idem fun_upd_twist)

text \<open>A read with nothing to come waits.\<close>

lemma net_read_waits:
  assumes "owner ep = Some p" "live n ep" "quiet n ep" "\<not> fin (sides n (across ep))"
  shows "net_step p n (Os_recv ep len) = None" "net_step p n (Os_poll_read ep) = None"
  using assms by (simp_all add: net_step_on call_on_def live_def quiet_def)

subsection \<open>Operations of asio\<close>

lemma does_wait_write:
  assumes "owner ep = Some p"
  shows "does p (wait_write (stream_sock ep)) n () n"
  using assms
  by (auto simp: wait_write_def poll_write_def poll_result_def intro!: does_callI [OF net_poll_write])

lemma does_wait_read:
  assumes "owner ep = Some p" "bss \<noteq> []"
  shows "does p (wait_read (stream_sock ep)) (put (across ep) bss n) () (put (across ep) bss n)"
  using assms
  by (auto simp: wait_read_def poll_read_def poll_result_def intro!: does_callI [OF net_poll_read])

lemma does_sync_send:
  assumes "owner ep = Some p" "live n ep" "bs \<noteq> []"
  shows "does p (sync_send1 (stream_sock ep) bs) n (length bs, None) (put ep [bs] n)"
  using assms
  by (auto simp: sync_send1_def send1_def intro!: does_while_end does_callI [OF net_send])

lemma does_write_ec:
  assumes "owner ep = Some p" "live n ep" "bs \<noteq> []" "length bs \<le> default_max_transfer_size"
  shows "does p (write_ec (stream_sock ep) bs) n (length bs, None) (put ep [bs] n)"
proof -
  have prep: "csb_prepare (csb_new bs) default_max_transfer_size = bs" "\<not> csb_empty (csb_new bs)"
    "csb_empty (csb_consume (csb_new bs) (length bs))"
    "total_consumed (csb_consume (csb_new bs) (length bs)) = length bs"
    using assms(3,4) by (simp_all add: csb_prepare_def csb_new_def csb_empty_def csb_consume_def)
  have pos: "default_max_transfer_size \<noteq> 0" by (simp add: default_max_transfer_size_def)
  have "does p (while_io (\<lambda>(tmp, ec).
       if \<not> csb_empty tmp then
         (let max_size = transfer_all ec (total_consumed tmp) in
          if max_size \<noteq> 0 then
            bind_io (sync_send1 (stream_sock ep) (csb_prepare tmp max_size)) (\<lambda>(n, ec').
              Ret (Inl (csb_consume tmp n, ec')))
          else Ret (Inr (total_consumed tmp, ec)))
       else Ret (Inr (total_consumed tmp, ec))) (csb_new bs, None)) n (length bs, None) (put ep [bs] n)"
    (is "does p (while_io ?body _) _ _ _")
  proof (rule does_while_more)
    show "does p (?body (csb_new bs, None)) n (Inl (csb_consume (csb_new bs) (length bs), None)) (put ep [bs] n)"
      using assms prep pos by (auto simp: transfer_all_def Let_def intro!: does_bind [OF does_sync_send])
    show "does p (while_io ?body (csb_consume (csb_new bs) (length bs), None)) (put ep [bs] n)
        (length bs, None) (put ep [bs] n)"
      by (rule does_while_end) (simp add: prep)
  qed
  then show ?thesis by (simp add: write_ec_def detail_write_def)
qed

lemma does_write_nothing: "does p (write_ec s []) n (0, None) n"
  unfolding write_ec_def detail_write_def
  by (rule does_while_end) (simp add: csb_empty_def csb_new_def)

lemma does_asio_write:
  assumes "owner ep = Some p" "live n ep" "bs \<noteq> []" "length bs \<le> default_max_transfer_size"
  shows "does p (asio_write (stream_sock ep) bs) n (length bs) (put ep [bs] n)"
  unfolding asio_write_def write_ec_def [symmetric]
  by (rule does_bind [OF does_write_ec [OF assms]]) simp

lemma does_read_some:
  assumes "owner ep = Some p" "live n ep" "quiet n ep" "b \<noteq> []" "length b \<le> len"
  shows "does p (read_some (stream_sock ep) len) (put (across ep) (b # bss) n) b (put (across ep) bss n)"
proof -
  have "does p (sync_recv1 (stream_sock ep) len) (put (across ep) (b # bss) n) (b, None) (put (across ep) bss n)"
    using assms
    by (auto simp: sync_recv1_def recv1_def intro!: does_while_end does_callI [OF net_recv])
  then show ?thesis
    unfolding read_some_def by (rule does_bind) simp
qed

subsection \<open>Operations of the pipes\<close>

definition connected_to :: "('a) pipe_scheme \<Rightarrow> endpoint \<Rightarrow> bool" where
  "connected_to P ep \<longleftrightarrow> socket P = stream_sock ep \<and> chunk_size P = 1024"

lemma does_send_message:
  assumes "connected_to P ep" "owner ep = Some p" "live n ep" "msg \<noteq> ''''" "length msg \<le> 1024"
  shows "does p (send_message P msg) n (length msg) (put ep [string_bytes msg] n)"
  unfolding send_message_def
  using assms does_asio_write [of ep p n "string_bytes msg"]
  by (auto simp: connected_to_def default_max_transfer_size_def intro!: does_bind [OF does_wait_write])

lemma does_recv_message:
  assumes "connected_to P ep" "owner ep = Some p" "live n ep" "quiet n ep" "msg \<noteq> ''''" "length msg \<le> 1024"
  shows "does p (recv_message P) (put (across ep) (string_bytes msg # bss) n) msg (put (across ep) bss n)"
  unfolding recv_message_def Let_def
  using assms does_read_some [of ep p n "string_bytes msg" 1024 bss]
  by (auto simp: connected_to_def resize_shrink intro!: does_bind [OF does_wait_read] elim!: does_bind)

text \<open>A channel sent: one write per chunk.\<close>

lemma chunks_wire_more:
  assumes "k + CHUNK_SIZE < length ch" "CHUNK_SIZE dvd k"
  shows "chunks CHUNK_SIZE (drop k (wire_channel ch)) =
    take CHUNK_SIZE (drop k ch) # chunks CHUNK_SIZE (drop (k + CHUNK_SIZE) (wire_channel ch))"
proof -
  let ?part = "take CHUNK_SIZE (drop k ch)"
  have len: "length ?part = CHUNK_SIZE" "?part \<noteq> []" using assms(1) by (auto simp: CHUNK_SIZE_def)
  have "chunks CHUNK_SIZE (?part @ xs) = ?part # chunks CHUNK_SIZE xs" for xs
    using chunks_step [of CHUNK_SIZE "?part @ xs"] len by (simp add: CHUNK_SIZE_def)
  then show ?thesis by (simp only: wire_channel_more [OF assms])
qed

lemma does_send_loop:
  assumes "socket P = stream_sock ep" "owner ep = Some p"
  shows "live n ep \<Longrightarrow> length c = CHUNK_SIZE \<Longrightarrow> k < length ch \<Longrightarrow> length ch < 2 ^ 32 \<Longrightarrow> CHUNK_SIZE dvd k \<Longrightarrow>
    \<exists>r. does p (while_io (send_round P ch) (c, of_nat k)) n r
      (put ep (map audio_bytes (chunks CHUNK_SIZE (drop k (wire_channel ch)))) n)"
proof (induction "length ch - k" arbitrary: c k n rule: less_induct)
  case less
  have size: "CHUNK_SIZE * 4 \<le> default_max_transfer_size"
    by (simp add: CHUNK_SIZE_def default_max_transfer_size_def)
  show ?case
  proof (cases "k + CHUNK_SIZE < length ch")
    case True
    let ?part = "take CHUNK_SIZE (drop k ch)"
    let ?n = "put ep [audio_bytes ?part] n"
    have part: "length ?part = CHUNK_SIZE" "audio_bytes ?part \<noteq> []"
      using True by (auto simp: CHUNK_SIZE_def)
    have "length ch - (k + CHUNK_SIZE) < length ch - k" using True by (simp add: CHUNK_SIZE_def)
    from less.hyps [OF this, of ?n ?part] part True less.prems obtain r where
      r: "does p (while_io (send_round P ch) (?part, of_nat (k + CHUNK_SIZE))) ?n r
        (put ep (map audio_bytes (chunks CHUNK_SIZE (drop (k + CHUNK_SIZE) (wire_channel ch)))) ?n)"
      by auto
    have "length (audio_bytes ?part) \<le> default_max_transfer_size"
      using size part(1) by (simp del: length_take)
    then have "does p (send_round P ch (c, of_nat k)) n (Inl (?part, of_nat (k + CHUNK_SIZE))) ?n"
      unfolding send_round_more [OF True less.prems(4,2)] assms(1)
      by (intro does_bind [OF does_write_ec]) (use assms(2) less.prems(1) part(2) in simp_all)
    from does_while_more [OF this r] show ?thesis
      by (auto simp: chunks_wire_more [OF True less.prems(5)])
  next
    case False
    let ?part = "last_chunk k ch"
    have le: "length ch \<le> k + CHUNK_SIZE" using False by simp
    have dr: "drop k (wire_channel ch) = ?part"
      by (rule wire_channel_last) (use less.prems le in auto)
    have len: "length ?part < CHUNK_SIZE"
      using less.prems le by (auto simp: last_chunk_def CHUNK_SIZE_def)
    note rnd = send_round_last [OF less.prems(3) le less.prems(4,2,5)]
    have "does p (send_round P ch (c, of_nat k)) n (Inr ?part) (put ep (map audio_bytes (chunks CHUNK_SIZE ?part)) n)"
    proof (cases "?part = []")
      case True
      then show ?thesis unfolding rnd by (auto intro: does_bind [OF does_write_nothing])
    next
      case ne: False
      with len have "chunks CHUNK_SIZE ?part = [?part]" by (intro chunks_short) auto
      moreover have "length (audio_bytes ?part) \<le> default_max_transfer_size"
        using len size by simp
      ultimately show ?thesis unfolding rnd assms(1)
        using assms(2) less.prems(1) ne by (auto intro!: does_bind [OF does_write_ec])
    qed
    from does_while_end [where b = "send_round P ch", OF this] show ?thesis unfolding dr by blast
  qed
qed

lemma does_send_channel:
  assumes "connected_to P ep" "owner ep = Some p" "live n ep" "ch \<noteq> []" "length ch < 2 ^ 32"
  obtains r where "does p (send_channel P ch c) n r
    (put ep (map audio_bytes (chunks CHUNK_SIZE (wire_channel ch))) n)"
  using does_send_loop [of P ep p n "resize c CHUNK_SIZE" 0 ch] assms
  by (auto simp: send_channel_def connected_to_def)

text \<open>A channel received: a full read for every chunk but the last.\<close>

lemma does_recv_round:
  assumes "connected_to P ep" "owner ep = Some p" "live n ep" "quiet n ep"
    "length recv = CHUNK_SIZE" "xs \<noteq> []" "length xs \<le> CHUNK_SIZE" "length ch + length xs < 2 ^ 32"
  shows "\<exists>recv'. length recv' = CHUNK_SIZE \<and>
    does p (recv_round P (ch, recv, of_nat (length ch))) (put (across ep) (audio_bytes xs # bss) n)
      (if length xs < CHUNK_SIZE then Inr (ch @ xs, recv')
       else Inl (ch @ xs, recv', of_nat (length (ch @ xs)))) (put (across ep) bss n)"
proof -
  have m: "min (4 * CHUNK_SIZE) (CHUNK_SIZE * 4) = CHUNK_SIZE * 4" by simp
  have rd: "does p (read_some (socket P) (CHUNK_SIZE * 4)) (put (across ep) (audio_bytes xs # bss) n)
      (audio_bytes xs) (put (across ep) bss n)"
    using assms does_read_some [of ep p n "audio_bytes xs" "CHUNK_SIZE * 4" bss]
    by (simp add: connected_to_def)
  have st: "store_floats (overwrite recv (audio_bytes xs)) (length (audio_bytes xs) div 4) 0
      (if length ch < length ch + length (audio_bytes xs) div 4
       then resize ch (length ch + length (audio_bytes xs) div 4) else ch) (of_nat (length ch)) =
    Inr (ch @ floats_of (audio_bytes xs), of_nat (length ch + length (audio_bytes xs) div 4))"
    by (rule recv_round_run) (use assms in auto)
  show ?thesis
    by (rule exI [of _ "overwrite recv (audio_bytes xs)"])
      (simp only: recv_round_def Let_def split_conv assms(5) m, rule conjI, simp add: assms(5),
       rule does_bind [OF rd], simp only: st, simp)
qed

lemma does_recv_loop:
  assumes "connected_to P ep" "owner ep = Some p" "live n ep" "quiet n ep"
  shows "length recv = CHUNK_SIZE \<Longrightarrow> length acc + length xs < 2 ^ 32 \<Longrightarrow> \<not> CHUNK_SIZE dvd length xs \<Longrightarrow>
    \<exists>recv'. does p (while_io (recv_round P) (acc, recv, of_nat (length acc)))
      (put (across ep) (map audio_bytes (chunks CHUNK_SIZE xs)) n) (acc @ xs, recv') n"
proof (induction "length xs" arbitrary: xs acc recv rule: less_induct)
  case less
  let ?xs = "take CHUNK_SIZE xs"
  have ne: "xs \<noteq> []" using less.prems(3) by auto
  have ch: "chunks CHUNK_SIZE xs = ?xs # chunks CHUNK_SIZE (drop CHUNK_SIZE xs)"
    by (rule chunks_step) (use ne in \<open>simp_all add: CHUNK_SIZE_def\<close>)
  have pre: "?xs \<noteq> []" "length ?xs \<le> CHUNK_SIZE" "length acc + length ?xs < 2 ^ 32"
    using ne less.prems(2) by (simp_all add: CHUNK_SIZE_def)
  let ?n = "put (across ep) (map audio_bytes (chunks CHUNK_SIZE xs)) n"
  let ?n' = "put (across ep) (map audio_bytes (chunks CHUNK_SIZE (drop CHUNK_SIZE xs))) n"
  obtain recv' where r: "length recv' = CHUNK_SIZE"
    "does p (recv_round P (acc, recv, of_nat (length acc))) ?n
      (if length ?xs < CHUNK_SIZE then Inr (acc @ ?xs, recv')
       else Inl (acc @ ?xs, recv', of_nat (length (acc @ ?xs)))) ?n'"
    using does_recv_round [OF assms less.prems(1) pre, of "map audio_bytes (chunks CHUNK_SIZE (drop CHUNK_SIZE xs))"]
    unfolding ch list.map by blast
  show ?case
  proof (cases "length xs < CHUNK_SIZE")
    case True
    with r(2) have "does p (recv_round P (acc, recv, of_nat (length acc))) ?n (Inr (acc @ xs, recv')) n" by simp
    then show ?thesis by (blast intro: does_while_end)
  next
    case False
    then have "\<not> CHUNK_SIZE dvd length (drop CHUNK_SIZE xs)" "length (drop CHUNK_SIZE xs) < length xs"
      using less.prems(3) by (auto simp: CHUNK_SIZE_def dvd_minus_self)
    with less.hyps [OF this(2) r(1), of "acc @ ?xs"] False less.prems(2) obtain recv'' where
      "does p (while_io (recv_round P) (acc @ ?xs, recv', of_nat (length (acc @ ?xs)))) ?n'
        (acc @ ?xs @ drop CHUNK_SIZE xs, recv'') n" by auto
    with r(2) False show ?thesis by (auto intro: does_while_more)
  qed
qed

lemma does_recv_channel:
  assumes "connected_to P ep" "owner ep = Some p" "live n ep" "quiet n ep"
    "length xs < 2 ^ 32" "\<not> CHUNK_SIZE dvd length xs"
  obtains recv' where "does p (recv_channel P recv)
    (put (across ep) (map audio_bytes (chunks CHUNK_SIZE xs)) n) (xs, recv') n"
  using does_recv_loop [OF assms(1-4), of "resize recv CHUNK_SIZE" "[]" xs] assms(5,6)
  by (auto simp: recv_channel_def)

text \<open>When only full chunks were sent, the receiver ends up waiting for more.\<close>

lemma goes_recv_loop:
  assumes "connected_to P ep" "owner ep = Some p" "live n ep" "quiet n ep"
  shows "length recv = CHUNK_SIZE \<Longrightarrow> length acc + length xs < 2 ^ 32 \<Longrightarrow> CHUNK_SIZE dvd length xs \<Longrightarrow>
    \<exists>recv'. length recv' = CHUNK_SIZE \<and> goes p (while_io (recv_round P) (acc, recv, of_nat (length acc)))
      (put (across ep) (map audio_bytes (chunks CHUNK_SIZE xs)) n)
      (while_io (recv_round P) (acc @ xs, recv', of_nat (length (acc @ xs)))) n"
proof (induction "length xs" arbitrary: xs acc recv rule: less_induct)
  case less
  show ?case
  proof (cases "xs = []")
    case True
    with less.prems(1) show ?thesis by (auto intro: goes_stop)
  next
    case ne: False
    let ?xs = "take CHUNK_SIZE xs"
    have full: "CHUNK_SIZE \<le> length xs" using less.prems(3) ne by (auto intro: dvd_imp_le)
    have ch: "chunks CHUNK_SIZE xs = ?xs # chunks CHUNK_SIZE (drop CHUNK_SIZE xs)"
      by (rule chunks_step) (use ne in \<open>simp_all add: CHUNK_SIZE_def\<close>)
    have pre: "?xs \<noteq> []" "length ?xs \<le> CHUNK_SIZE" "length acc + length ?xs < 2 ^ 32"
      "\<not> length ?xs < CHUNK_SIZE"
      using ne full less.prems(2) by (simp_all add: CHUNK_SIZE_def)
    let ?n = "put (across ep) (map audio_bytes (chunks CHUNK_SIZE xs)) n"
    let ?n' = "put (across ep) (map audio_bytes (chunks CHUNK_SIZE (drop CHUNK_SIZE xs))) n"
    obtain recv' where r: "length recv' = CHUNK_SIZE"
      "does p (recv_round P (acc, recv, of_nat (length acc))) ?n
         (Inl (acc @ ?xs, recv', of_nat (length (acc @ ?xs)))) ?n'"
      using does_recv_round [OF assms less.prems(1) pre(1-3), of "map audio_bytes (chunks CHUNK_SIZE (drop CHUNK_SIZE xs))"]
      unfolding ch list.map if_not_P [OF pre(4)] by blast
    have "CHUNK_SIZE dvd length (drop CHUNK_SIZE xs)" "length (drop CHUNK_SIZE xs) < length xs"
      using less.prems(3) full by (auto simp: CHUNK_SIZE_def)
    with less.hyps [OF this(2) r(1), of "acc @ ?xs"] full less.prems(2) obtain recv'' where
      "length recv'' = CHUNK_SIZE"
      "goes p (while_io (recv_round P) (acc @ ?xs, recv', of_nat (length (acc @ ?xs)))) ?n'
        (while_io (recv_round P) (acc @ xs, recv'', of_nat (length (acc @ xs)))) n" by auto
    with r(2) show ?thesis by (blast intro: goes_while_more)
  qed
qed

lemma goes_recv_channel:
  assumes "connected_to P ep" "owner ep = Some p" "live n ep" "quiet n ep"
    "length xs < 2 ^ 32" "CHUNK_SIZE dvd length xs"
  obtains recv' where "length recv' = CHUNK_SIZE" "goes p (recv_channel P recv)
    (put (across ep) (map audio_bytes (chunks CHUNK_SIZE xs)) n)
    (while_io (recv_round P) (xs, recv', of_nat (length xs))) n"
  using goes_recv_loop [OF assms(1-4), of "resize recv CHUNK_SIZE" "[]" xs] assms(5,6)
  by (auto simp: recv_channel_def)

end
