(* ===== verification/Exchanges.thy ===== *)
theory Exchanges
  imports Runs
begin

text \<open>
  What two services do together over the loopback network: one connects and the other
  accepts, one sends a message or audio and the other receives it.  \<open>leads\<close> is
  reachability of system states when what was printed is left out.
\<close>

definition leads :: "'r procs \<Rightarrow> net \<Rightarrow> 'r procs \<Rightarrow> net \<Rightarrow> bool" where
  "leads ps n ps' n' \<longleftrightarrow>
     (\<forall>c. \<exists>c'. system_runs (ps, n\<lparr>console := c\<rparr>) (ps', n'\<lparr>console := c'\<rparr>))"

lemma leads_refl [simp, intro]: "leads ps n ps n"
  by (auto simp: leads_def)

lemma leads_trans [trans]: "leads ps n ps1 n1 \<Longrightarrow> leads ps1 n1 ps2 n2 \<Longrightarrow> leads ps n ps2 n2"
  unfolding leads_def by (meson rtranclp_trans)

lemma leads_runs: "leads ps n ps' n' \<Longrightarrow> \<exists>c. system_runs (ps, n) (ps', n'\<lparr>console := c\<rparr>)"
  unfolding leads_def by (metis net.surjective net.update_convs(4))

subsection \<open>Steps of one process\<close>

text \<open>A computation that only prints; one that changes the network whatever was printed.\<close>

definition works :: "pid \<Rightarrow> 'a io \<Rightarrow> net \<Rightarrow> 'a \<Rightarrow> net \<Rightarrow> bool" where
  "works p t n x n' \<longleftrightarrow> (\<forall>c. \<exists>c'. does p t (n\<lparr>console := c\<rparr>) x (n'\<lparr>console := c'\<rparr>))"

definition locally :: "pid \<Rightarrow> 'a io \<Rightarrow> 'a \<Rightarrow> bool" where
  "locally p t x \<longleftrightarrow> (\<forall>n. works p t n x n)"

lemma works_bind: "works p t n x n1 \<Longrightarrow> works p (k x) n1 y n2 \<Longrightarrow> works p (bind_io t k) n y n2"
  unfolding works_def by (meson does_bind)

lemma works_Ret [simp, intro]: "works p (Ret x) n x n"
  by (auto simp: works_def)

lemma works_Tau: "works p t n x n' \<Longrightarrow> works p (Tau t) n x n'"
  unfolding works_def by (meson does_silent)

lemma works_while_more:
  "works p (b s) n (Inl s') n1 \<Longrightarrow> works p (while_io b s') n1 x n2 \<Longrightarrow> works p (while_io b s) n x n2"
  unfolding works_def by (meson does_while_more)

lemma works_while_end: "works p (b s) n (Inr x) n1 \<Longrightarrow> works p (while_io b s) n x n1"
  unfolding works_def by (meson does_while_end)

lemma locally_works: "locally p t x \<Longrightarrow> works p t n x n"
  by (simp add: locally_def)

lemma locally_Ret [simp, intro]: "locally p (Ret x) x"
  by (simp add: locally_def)

lemma locally_bind: "locally p t x \<Longrightarrow> locally p (k x) y \<Longrightarrow> locally p (bind_io t k) y"
  by (auto simp: locally_def intro: works_bind)

lemma locally_while_more:
  "locally p (b s) (Inl s') \<Longrightarrow> locally p (while_io b s') x \<Longrightarrow> locally p (while_io b s) x"
  by (auto simp: locally_def intro: works_while_more)

lemma locally_while_end: "locally p (b s) (Inr x) \<Longrightarrow> locally p (while_io b s) x"
  by (auto simp: locally_def intro: works_while_end)

lemma locally_print [simp, intro]: "locally p (print s) ()"
  by (auto simp: locally_def works_def print_def intro!: exI does_callI)

lemma locally_system [simp, intro]: "locally p (system s) ()"
  by (auto simp: locally_def works_def system_def intro!: exI does_callI)

lemma locally_print_then: "locally p (k ()) y \<Longrightarrow> locally p (bind_io (print s) k) y"
  by (rule locally_bind [OF locally_print])

lemma leads_works:
  assumes "works p t n x n'" "ps p = bind_io t k" "ps' = ps(p := k x)"
  shows "leads ps n ps' n'"
  using assms unfolding works_def leads_def by (metis runs_does)

lemma leads_locally:
  "locally p t x \<Longrightarrow> ps p = bind_io t k \<Longrightarrow> ps' = ps(p := k x) \<Longrightarrow> leads ps n ps' n"
  by (rule leads_works [OF locally_works])

lemma leads_silent: "ps p = Tau t \<Longrightarrow> ps' = ps(p := t) \<Longrightarrow> leads ps n ps' n"
  unfolding leads_def by (blast intro: silentI)

subsection \<open>Connections\<close>

definition linked :: "net \<Rightarrow> endpoint \<Rightarrow> bool" where
  "linked n ep \<longleftrightarrow> sides n ep = fresh_side \<and> sides n (across ep) = fresh_side"

lemma linked_across: "linked n (across ep) = linked n ep"
  by (auto simp: linked_def)

lemma linked_facts:
  assumes "linked n ep"
  shows "live n ep" "live n (across ep)" "quiet n ep" "quiet n (across ep)"
    "\<not> fin (sides n ep)" "\<not> fin (sides n (across ep))"
  using assms by (simp_all add: linked_def live_def quiet_def fresh_side_def)

lemma linked_console [simp]: "linked (n\<lparr>console := c\<rparr>) ep = linked n ep"
  by (simp add: linked_def)

lemma linked_open_link [simp]:
  "linked (open_link q n) (Client q)" "linked (open_link q n) (Server q)"
  "q \<noteq> q' \<Longrightarrow> linked (open_link q n) (Client q') = linked n (Client q')"
  "q \<noteq> q' \<Longrightarrow> linked (open_link q n) (Server q') = linked n (Server q')"
  by (auto simp: linked_def open_link_def)

lemma open_link_sides [simp]:
  "sides (open_link q n) ep = (if ep = Client q \<or> ep = Server q then fresh_side else sides n ep)"
  "listening (open_link q n) = listening n"
  "hosts (open_link q n) = hosts n"
  "(open_link q n)\<lparr>console := c\<rparr> = open_link q (n\<lparr>console := c\<rparr>)"
  by (simp_all add: open_link_def)

text \<open>What a process closes before it connects again.\<close>

definition hang_up :: "endpoint \<Rightarrow> net \<Rightarrow> net" where
  "hang_up ep n = n\<lparr>sides := (sides n)(ep :=
     (if conn (sides n ep) then (sides n ep)\<lparr>conn := False, fin := True\<rparr> else sides n ep))\<rparr>"

lemma hang_up_twice [simp]: "hang_up ep (hang_up ep n) = hang_up ep n"
  by (simp add: hang_up_def fun_upd_idem)

lemma hang_up_closed [simp]: "\<not> conn (sides n ep) \<Longrightarrow> hang_up ep n = n"
  by (simp add: hang_up_def fun_upd_idem)

lemma hang_up_not_conn [simp]: "\<not> conn (sides (hang_up ep n) ep)"
  by (simp add: hang_up_def)

lemma hang_up_other [simp]:
  "ep \<noteq> ep' \<Longrightarrow> sides (hang_up ep n) ep' = sides n ep'"
  "listening (hang_up ep n) = listening n" "hosts (hang_up ep n) = hosts n"
  "(hang_up ep n)\<lparr>console := c\<rparr> = hang_up ep (n\<lparr>console := c\<rparr>)"
  by (simp_all add: hang_up_def)

lemma linked_hang_up [simp]:
  "ep \<noteq> ep' \<Longrightarrow> ep \<noteq> across ep' \<Longrightarrow> linked (hang_up ep n) ep' = linked n ep'"
  by (simp add: linked_def hang_up_def)

lemma linked_conn: "linked n ep \<Longrightarrow> conn (sides n ep) \<and> conn (sides n (across ep))"
  by (simp add: linked_def fresh_side_def)

lemma open_link_hang_up [simp]: "open_link q (hang_up (Client q) n) = open_link q n"
  by (simp add: open_link_def hang_up_def fun_upd_twist)

lemma net_close:
  assumes "owner ep = Some p"
  shows "net_step p n (Os_close ep) = Some (R_unit, hang_up ep n)"
  using assms call_onI [of "Os_close ep" ep n]
  by (simp add: net_step_on hang_up_def fun_upd_idem fun_upd_twist)

lemma does_sock_close:
  assumes "owner ep = Some p" "fd s = ep" "opened s \<or> \<not> conn (sides n ep)"
  shows "does p (sock_close s) n (construct ep, None) (hang_up ep n)"
  using assms by (auto simp: sock_close_def close_fd_def intro: does_callI [OF net_close])

text \<open>
  The connecting side tries the addresses of \<open>localhost\<close> in turn: the server listens on
  IPv4 only, so every attempt over IPv6 is refused, and the first one over IPv4 waits for
  the server.
\<close>

lemma goes_connect_loop:
  assumes "owner (Client q) = Some p"
  shows "V4 \<in> set as \<Longrightarrow> fd s = Client q \<Longrightarrow> opened s \<or> \<not> conn (sides n (Client q)) \<Longrightarrow>
    \<exists>h. goes p (connect_loop as s ec) n (Vis (Os_connect (Client q) V4) h) (hang_up (Client q) n) \<and>
      h R_unit = Ret (stream_sock (Client q), None)"
proof (induction as arbitrary: s ec n)
  case (Cons a as)
  note close = does_sock_close [OF assms Cons.prems(2,3)]
  show ?case
  proof (cases a)
    case V4
    show ?thesis
      unfolding V4 connect_loop.simps
      by (rule exI, rule conjI, rule does_bind_goes [OF close],
        simp add: sock_connect_def sync_connect_def Let_def, rule goes_stop, simp)
  next
    case V6
    let ?n = "hang_up (Client q) n"
    have refused: "net_step p ?n (Os_connect (Client q) V6) = Some (R_error connection_refused, ?n)"
      using assms by (simp add: net_step_on call_on_acceptor)
    from Cons.IH [of "stream_sock (Client q)" ?n "Some connection_refused"] Cons.prems V6 obtain h where
      h: "goes p (connect_loop as (stream_sock (Client q)) (Some connection_refused)) ?n
        (Vis (Os_connect (Client q) V4) h) ?n" "h R_unit = Ret (stream_sock (Client q), None)"
      by auto
    have "goes p (connect_loop (a # as) s ec) n (Vis (Os_connect (Client q) V4) h) ?n"
      unfolding V6 connect_loop.simps
      by (rule does_bind_goes [OF close])
        (use h(1) in \<open>auto simp: sock_connect_def sync_connect_def Let_def intro!: goes_call [OF refused]\<close>)
    with h(2) show ?thesis by blast
  qed
qed simp

lemma goes_upstream_connect:
  assumes "owner (Client q) = Some p" "V4 \<in> set (endpoints U)" "fd (socket U) = Client q"
    "opened (socket U) \<or> \<not> conn (sides n (Client q))"
  obtains h where
    "goes p (upstream_connect U) n (Vis (Os_connect (Client q) V4) h) (hang_up (Client q) n)"
    "h R_unit = Ret (True, U\<lparr>socket := stream_sock (Client q), connected := True\<rparr>)"
proof -
  from goes_connect_loop [OF assms, of None] obtain h where h:
    "goes p (connect_loop (endpoints U) (socket U) None) n (Vis (Os_connect (Client q) V4) h) (hang_up (Client q) n)"
    "h R_unit = Ret (stream_sock (Client q), None)" by blast
  have "goes p (upstream_connect U) n (bind_io (Vis (Os_connect (Client q) V4) h) (\<lambda>(s, ec).
      bind_io (throw_error ec) (\<lambda>_. Ret (True, U\<lparr>socket := s, connected := True\<rparr>)))) (hang_up (Client q) n)"
    using goes_bind [OF h(1)] by (simp add: upstream_connect_def asio_connect_def split_def)
  then show thesis
    unfolding bind_io_simps by (rule that) (simp add: h(2))
qed

lemma downstream_connect_waits:
  assumes "acceptor D = stream_sock (Server q)" "socket D = construct (Server q)"
  obtains h where "downstream_connect D = Vis (Os_accept (Server q)) h"
    "h R_unit = Ret (True, D\<lparr>socket := stream_sock (Server q), connected := True\<rparr>)"
proof -
  show thesis
    by (rule that, simp add: downstream_connect_def asio_accept_def sync_accept_def assms,
      subst while_io_unfold, simp, simp)
qed

lemma leads_meet:
  assumes "ps p = bind_io (upstream_connect U) k" "ps p' = bind_io (downstream_connect D) k'" "p \<noteq> p'"
    "owner (Client q) = Some p" "owner (Server q) = Some p'"
    "V4 \<in> set (endpoints U)" "fd (socket U) = Client q" "opened (socket U) \<or> \<not> conn (sides n (Client q))"
    "acceptor D = stream_sock (Server q)" "socket D = construct (Server q)"
    "listening n q" "\<not> conn (sides n (Server q))"
    "ps' = ps(p := k (True, U\<lparr>socket := stream_sock (Client q), connected := True\<rparr>),
              p' := k' (True, D\<lparr>socket := stream_sock (Server q), connected := True\<rparr>))"
  shows "leads ps n ps' (open_link q n)"
  unfolding leads_def
proof (intro allI exI)
  fix c
  let ?n = "n\<lparr>console := c\<rparr>"
  have "opened (socket U) \<or> \<not> conn (sides ?n (Client q))" using assms(8) by simp
  from goes_upstream_connect [OF assms(4,6,7) this] obtain h where h:
    "goes p (upstream_connect U) ?n (Vis (Os_connect (Client q) V4) h) (hang_up (Client q) ?n)"
    "h R_unit = Ret (True, U\<lparr>socket := stream_sock (Client q), connected := True\<rparr>)" .
  from downstream_connect_waits [OF assms(9,10)] obtain h' where h':
    "downstream_connect D = Vis (Os_accept (Server q)) h'"
    "h' R_unit = Ret (True, D\<lparr>socket := stream_sock (Server q), connected := True\<rparr>)" .
  let ?ps = "ps(p := Vis (Os_connect (Client q) V4) (\<lambda>r. bind_io (h r) k))"
  from goes_bind [OF h(1), of k] have "system_runs (ps, ?n) (?ps, hang_up (Client q) ?n)"
    using assms(1) by (intro runs_goes) simp_all
  also have "system_step (?ps, hang_up (Client q) ?n) (ps', open_link q ?n)"
  proof (rule meetI)
    show "?ps p = Vis (Os_connect (Client q) V4) (\<lambda>r. bind_io (h r) k)" by simp
    show "?ps p' = Vis (Os_accept (Server q)) (\<lambda>r. bind_io (h' r) k')"
      using assms(2,3) by (simp add: h'(1))
    show "net_meet p p' q (hang_up (Client q) ?n) = Some (open_link q ?n)"
      using net_meetI [of q p p' "hang_up (Client q) ?n"] assms(4,5,11,12) by simp
  qed (simp add: assms(13) h(2) h'(2))
  finally show "system_runs (ps, ?n) (ps', (open_link q n)\<lparr>console := c\<rparr>)" by simp
qed

subsection \<open>Messages and audio\<close>

lemma leads_two:
  assumes "does p t n x n1" "does p' t' n1 y n2" "ps p = bind_io t k" "ps p' = bind_io t' k'" "p \<noteq> p'"
  shows "system_runs (ps, n) (ps(p := k x, p' := k' y), n2)"
proof -
  from runs_does [of p t n x n1 ps k] assms have "system_runs (ps, n) (ps(p := k x), n1)" by simp
  also from runs_does [of p' t' n1 y n2 "ps(p := k x)" k'] assms
  have "system_runs (ps(p := k x), n1) (ps(p := k x, p' := k' y), n2)" by simp
  finally show ?thesis .
qed

lemma leads_message:
  assumes "ps p = bind_io (send_message P msg) k" "ps p' = bind_io (recv_message Q) k'" "p \<noteq> p'"
    "owner ep = Some p" "owner (across ep) = Some p'" "connected_to P ep" "connected_to Q (across ep)"
    "linked n ep" "msg \<noteq> ''''" "length msg \<le> 1024" "ps' = ps(p := k (length msg), p' := k' msg)"
  shows "leads ps n ps' n"
  unfolding leads_def
proof (intro allI exI)
  fix c
  have linked: "linked (n\<lparr>console := c\<rparr>) ep" using assms(8) by simp
  note lf = linked_facts [OF linked]
  have "does p (send_message P msg) (n\<lparr>console := c\<rparr>) (length msg) (put ep [string_bytes msg] (n\<lparr>console := c\<rparr>))"
    by (rule does_send_message) (use assms lf in auto)
  moreover have "does p' (recv_message Q) (put ep [string_bytes msg] (n\<lparr>console := c\<rparr>)) msg (n\<lparr>console := c\<rparr>)"
    using does_recv_message [of Q "across ep" p' "n\<lparr>console := c\<rparr>" msg "[]"] assms lf by simp
  ultimately show "system_runs (ps, n\<lparr>console := c\<rparr>) (ps', n\<lparr>console := c\<rparr>)"
    unfolding assms(11) by (rule leads_two) (use assms in auto)
qed

definition sendable :: "sample list \<Rightarrow> bool" where
  "sendable ch \<longleftrightarrow> \<not> CHUNK_SIZE dvd length ch \<and> length ch < 2 ^ 32"

lemma sendable_rev [simp]: "sendable (rev ch) = sendable ch"
  by (simp add: sendable_def)

lemma sendable_short: "ch \<noteq> [] \<Longrightarrow> length ch < CHUNK_SIZE \<Longrightarrow> sendable ch"
  by (auto simp: sendable_def CHUNK_SIZE_def nat_dvd_not_less)

lemma sendable_facts:
  assumes "sendable ch"
  shows "ch \<noteq> []" "length ch < 2 ^ 32" "\<not> CHUNK_SIZE dvd length ch" "wire_channel ch = ch"
  using assms by (auto simp: sendable_def wire_channel_def)

lemma runs_channel:
  assumes "ps p = bind_io (send_channel P ch c) k" "ps p' = bind_io (recv_channel Q r) k'" "p \<noteq> p'"
    "owner ep = Some p" "owner (across ep) = Some p'" "connected_to P ep" "connected_to Q (across ep)"
    "linked n ep" "sendable ch"
  shows "\<exists>c' r'. system_runs (ps, n) (ps(p := k c', p' := k' (ch, r')), n)"
proof -
  note lf = linked_facts [OF assms(8)] and sf = sendable_facts [OF assms(9)]
  obtain c' where s: "does p (send_channel P ch c) n c' (put ep (map audio_bytes (chunks CHUNK_SIZE ch)) n)"
    using does_send_channel [OF assms(6,4) lf(1) sf(1,2), of c] sf(4) by auto
  obtain r' where r: "does p' (recv_channel Q r) (put ep (map audio_bytes (chunks CHUNK_SIZE ch)) n) (ch, r') n"
    using does_recv_channel [OF assms(7,5) lf(2,4) sf(2,3), of r] by auto
  from leads_two [OF s r assms(1-3)] show ?thesis by blast
qed

lemma runs_channel_to:
  assumes "ps p = bind_io (send_channel P ch c) k" "ps p' = bind_io (recv_channel Q r) k'" "p \<noteq> p'"
    "owner ep = Some p" "owner (across ep) = Some p'" "connected_to P ep" "connected_to Q (across ep)"
    "linked n ep" "sendable ch" "\<And>c' r'. ps' = ps(p := k c', p' := k' (ch, r'))"
  shows "system_runs (ps, n) (ps', n)"
proof -
  obtain c' r' where "system_runs (ps, n) (ps(p := k c', p' := k' (ch, r')), n)"
    using runs_channel [OF assms(1-9)] by blast
  with assms(10) [of c' r'] show ?thesis by simp
qed

lemma leads_audio:
  assumes "ps p = bind_io (send_audio P (left # right # rest)) k" "ps p' = bind_io (recv_audio Q) k'" "p \<noteq> p'"
    "owner ep = Some p" "owner (across ep) = Some p'" "connected_to P ep" "connected_to Q (across ep)"
    "linked n ep" "sendable left" "sendable right" "ps' = ps(p := k True, p' := k' [left, right])"
  shows "leads ps n ps' n"
  unfolding leads_def
proof (intro allI exI)
  fix c
  let ?n = "n\<lparr>console := c\<rparr>"
  have linked: "linked ?n ep" using assms(8) by simp
  note lf = linked_facts [OF linked]
  let ?k1 = "\<lambda>c. bind_io (recv_message P) (\<lambda>msg. bind_io (if msg \<noteq> ''CONFIRMED'' then Ret False
       else bind_io (send_channel P right c) (\<lambda>_. Ret True)) k)"
  let ?k1' = "\<lambda>(l, r). bind_io (send_message Q ''CONFIRMED'') (\<lambda>_. bind_io (recv_channel Q r)
       (\<lambda>(right, r). k' [l, right]))"
  have "ps p = bind_io (send_channel P left []) ?k1" "ps p' = bind_io (recv_channel Q []) ?k1'"
    using assms(1,2) by (simp_all add: send_audio_def recv_audio_def split_def cong: if_cong)
  from runs_channel [OF this assms(3-7) linked assms(9)] obtain c1 r1 where
    run1: "system_runs (ps, ?n) (ps(p := ?k1 c1, p' := ?k1' (left, r1)), ?n)" by blast
  let ?ps1 = "ps(p := ?k1 c1, p' := ?k1' (left, r1))"
  let ?k2 = "\<lambda>msg. bind_io (if msg \<noteq> ''CONFIRMED'' then Ret False
       else bind_io (send_channel P right c1) (\<lambda>_. Ret True)) k"
  let ?k2' = "\<lambda>_ :: nat. bind_io (recv_channel Q r1) (\<lambda>(right, r). k' [left, right])"
  have "does p' (send_message Q ''CONFIRMED'') ?n (length ''CONFIRMED'') (put (across ep) [string_bytes ''CONFIRMED''] ?n)"
    by (rule does_send_message) (use assms lf in auto)
  moreover have "does p (recv_message P) (put (across ep) [string_bytes ''CONFIRMED''] ?n) ''CONFIRMED'' ?n"
    using does_recv_message [of P ep p ?n "''CONFIRMED''" "[]"] assms lf by simp
  ultimately have "system_runs (?ps1, ?n) (?ps1(p' := ?k2' 9, p := ?k2 ''CONFIRMED''), ?n)"
    using leads_two [of p' "send_message Q ''CONFIRMED''" ?n "length ''CONFIRMED''" _ p "recv_message P" "''CONFIRMED''" ?n ?ps1 ?k2' ?k2]
      assms(3) by simp
  moreover let ?ps2 = "?ps1(p' := ?k2' 9, p := ?k2 ''CONFIRMED'')"
  have "?ps2 p = bind_io (send_channel P right c1) (\<lambda>_. k True)"
    "?ps2 p' = bind_io (recv_channel Q r1) (\<lambda>(right, r). k' [left, right])"
    using assms(3) by simp_all
  then have "system_runs (?ps2, ?n) (ps', ?n)"
    by (rule runs_channel_to [OF _ _ assms(3-7) linked assms(10)])
      (use assms(3) in \<open>auto simp: assms(11)\<close>)
  ultimately show "system_runs (ps, ?n) (ps', ?n)" using run1 by (meson rtranclp_trans)
qed

subsection \<open>Listening, closing\<close>

definition set_listening :: "nat \<Rightarrow> bool \<Rightarrow> net \<Rightarrow> net" where
  "set_listening q b n = n\<lparr>listening := (listening n)(q := b)\<rparr>"

lemma set_listening_facts [simp]:
  "sides (set_listening q b n) = sides n" "hosts (set_listening q b n) = hosts n"
  "listening (set_listening q b n) q' = (if q = q' then b else listening n q')"
  "(set_listening q b n)\<lparr>console := c\<rparr> = set_listening q b (n\<lparr>console := c\<rparr>)"
  "linked (set_listening q b n) ep = linked n ep"
  by (simp_all add: set_listening_def linked_def)

definition down_of :: "nat \<Rightarrow> bool \<Rightarrow> sock \<Rightarrow> downstream" where
  "down_of q c s = \<lparr>port = q, chunk_size = 1024, connected = c, socket = s,
     acceptor = stream_sock (Server q)\<rparr>"

definition up_of :: "nat \<Rightarrow> bool \<Rightarrow> sock \<Rightarrow> addr list \<Rightarrow> upstream" where
  "up_of q c s as = \<lparr>port = q, chunk_size = 1024, connected = c, socket = s, endpoints = as\<rparr>"

lemma down_of_facts [simp]:
  "socket (down_of q c s) = s" "acceptor (down_of q c s) = stream_sock (Server q)"
  "chunk_size (down_of q c s) = 1024" "connected (down_of q c s) = c"
  "(down_of q c s)\<lparr>socket := s'\<rparr> = down_of q c s'"
  "(down_of q c s)\<lparr>connected := c'\<rparr> = down_of q c' s"
  "(down_of q c s)\<lparr>socket := s', connected := c'\<rparr> = down_of q c' s'"
  "connected_to (down_of q c (stream_sock ep)) ep"
  by (simp_all add: down_of_def connected_to_def)

lemma up_of_facts [simp]:
  "socket (up_of q c s as) = s" "endpoints (up_of q c s as) = as"
  "chunk_size (up_of q c s as) = 1024" "connected (up_of q c s as) = c"
  "(up_of q c s as)\<lparr>connected := c'\<rparr> = up_of q c' s as"
  "(up_of q c s as)\<lparr>socket := s'\<rparr> = up_of q c s' as"
  "(up_of q c s as)\<lparr>socket := s', connected := c'\<rparr> = up_of q c' s' as"
  "connected_to (up_of q c (stream_sock ep) as) ep"
  by (simp_all add: up_of_def connected_to_def)

lemma works_new_downstream:
  assumes "owner (Server q) = Some p" "\<not> listening n q"
  shows "works p (new_downstream q) n (down_of q False (construct (Server q))) (set_listening q True n)"
proof -
  have "net_step p (n\<lparr>console := c\<rparr>) (Os_listen (Server q)) = Some (R_unit, set_listening q True (n\<lparr>console := c\<rparr>))" for c
    using assms by (simp add: net_step_on call_on_acceptor set_listening_def)
  then show ?thesis
    by (auto simp: works_def new_downstream_def down_of_def intro!: exI does_callI)
qed

lemma works_new_upstream:
  assumes "owner (Client q) = Some p"
  shows "works p (new_upstream q) n (up_of q False (construct (Client q)) (hosts n)) n"
proof -
  have "net_step p (n\<lparr>console := c\<rparr>) (Os_resolve (Client q)) = Some (R_addrs (hosts n), n\<lparr>console := c\<rparr>)" for c
    using assms by (simp add: net_step_on call_on_acceptor)
  then show ?thesis
    by (auto simp: works_def new_upstream_def up_of_def intro!: exI does_callI)
qed

text \<open>A socket shut down in one direction by its owner.\<close>

definition shut :: "endpoint \<Rightarrow> net \<Rightarrow> net" where
  "shut ep n = n\<lparr>sides := (sides n)(ep := (sides n ep)\<lparr>fin := True\<rparr>)\<rparr>"

lemma hang_up_shut [simp]:
  "conn (sides n ep) \<Longrightarrow> hang_up ep (shut ep n) = hang_up ep n"
  "(shut ep n)\<lparr>console := c\<rparr> = shut ep (n\<lparr>console := c\<rparr>)"
  by (simp_all add: hang_up_def shut_def)

lemma works_close:
  assumes "owner ep = Some p"
  shows "works p (destroy_socket (stream_sock ep)) n () (hang_up ep n)"
  using assms by (auto simp: works_def destroy_socket_def close_fd_def intro!: exI does_callI [OF net_close])

lemma works_downstream_disconnect:
  assumes "owner ep = Some p" "conn (sides n ep)"
  shows "works p (downstream_disconnect (down_of q c (stream_sock ep))) n
    (False, down_of q False (construct ep)) (hang_up ep n)"
proof -
  have "does p (sock_shutdown (stream_sock ep)) m () (shut ep m)" if "conn (sides m ep)" for m
    using that assms(1) call_onI [of "Os_shutdown ep" ep m]
    by (auto simp: sock_shutdown_def net_step_on shut_def fun_upd_idem fun_upd_twist
        intro!: does_callI)
  note sd = this
  have cl: "does p (sock_close (stream_sock ep)) (shut ep m) (construct ep, None) (hang_up ep m)"
    if "conn (sides m ep)" for m
    using that does_sock_close [OF assms(1), of "stream_sock ep" "shut ep m"]
    by simp
  have "does p (downstream_disconnect (down_of q c (stream_sock ep))) m
    (False, down_of q False (construct ep)) (hang_up ep m)" if "conn (sides m ep)" for m
    unfolding downstream_disconnect_def down_of_facts(1)
    by (rule does_bind [OF sd [OF that]], rule does_bind [OF cl [OF that]]) simp
  then have "does p (downstream_disconnect (down_of q c (stream_sock ep))) (n\<lparr>console := cc\<rparr>)
    (False, down_of q False (construct ep)) ((hang_up ep n)\<lparr>console := cc\<rparr>)" for cc
    using assms(2) by simp
  then show ?thesis unfolding works_def by blast
qed

lemma works_destroy_downstream:
  assumes "owner (Server q) = Some p"
  shows "works p (destroy_downstream (down_of q c (construct ep))) n () (set_listening q False n)"
proof -
  have "net_step p (n\<lparr>console := cc\<rparr>) (Os_unlisten (Server q)) = Some (R_unit, set_listening q False (n\<lparr>console := cc\<rparr>))" for cc
    using assms by (simp add: net_step_on call_on_acceptor set_listening_def)
  then show ?thesis
    by (auto simp: works_def destroy_downstream_def destroy_socket_def intro!: exI does_callI)
qed

end
