(* ===== verification/Reverse_Service.thy ===== *)
theory Reverse_Service
  imports Pipe
begin

text \<open>
  \<open>source/reverse.cpp\<close>: the reverse service.  Each round of its main loop listens on
  port 8800 with a new pipe, serves one command and closes the pipe.
\<close>

text \<open>The loop over the channels; \<open>std::reverse\<close> on a whole vector is \<open>rev\<close>.\<close>

function reverse_from :: "nat \<Rightarrow> audio_buffer \<Rightarrow> audio_buffer io" where
  "reverse_from channel buffer =
     (if channel < length buffer then
        bind_io (print (''reversing channel '' @ show_nat channel @ endl)) (\<lambda>_.
          reverse_from (Suc channel) (buffer[channel := rev (buffer ! channel)]))
      else Ret buffer)"
  by pat_completeness auto
termination
  by (relation "measure (\<lambda>(channel, buffer). length buffer - channel)") auto

declare reverse_from.simps [simp del]

definition reverse_audio :: "audio_buffer \<Rightarrow> audio_buffer io" where
  "reverse_audio buffer = reverse_from 0 buffer"

text \<open>One round of \<open>while(1)\<close>: \<open>Inl\<close> goes round again, \<open>Inr\<close> is the exit status.\<close>

definition reverse_serve :: "downstream \<Rightarrow> (unit + int) io" where
  "reverse_serve pipe =
     bind_io (recv_message pipe) (\<lambda>receiver.
     if receiver = ''run'' then
       bind_io (send_message pipe ''ready'') (\<lambda>_.
       bind_io (recv_audio pipe) (\<lambda>audio.
       bind_io (reverse_audio audio) (\<lambda>audio.
       bind_io (send_message pipe ''done'') (\<lambda>_.
       bind_io (recv_message pipe) (\<lambda>receiver.
       bind_io (if receiver = ''ready'' then send_audio pipe audio else Ret True) (\<lambda>_.
       bind_io (downstream_disconnect pipe) (\<lambda>(_, pipe).
       bind_io (destroy_downstream pipe) (\<lambda>_.
       Ret (Inl ())))))))))
     else if receiver = ''exit'' then
       bind_io (print (''Exit'' @ endl)) (\<lambda>_.
       bind_io (downstream_disconnect pipe) (\<lambda>(_, pipe).
       bind_io (destroy_downstream pipe) (\<lambda>_.
       Ret (Inr 0))))
     else
       bind_io (destroy_downstream pipe) (\<lambda>_. Ret (Inl ())))"

definition reverse_round :: "unit \<Rightarrow> (unit + int) io" where
  "reverse_round _ =
     bind_io (new_downstream 8800) (\<lambda>pipe.
     bind_io (downstream_connect pipe) (\<lambda>(ok, pipe).
     bind_io (print (show_bool ok @ endl)) (\<lambda>_.
     reverse_serve pipe)))"

definition reverse_main :: "int io" where
  "reverse_main = while_io reverse_round ()"

end
