(* ===== verification/Dsp_Service.thy ===== *)
theory Dsp_Service
  imports Pipe
begin

text \<open>
  \<open>source/dsp.cpp\<close>: the signal-processing service.  It accepts the GUI on port 5500 and
  serves its commands; \<open>reverse\<close> is passed on to the reverse service on port 8800.
\<close>

text \<open>One round of \<open>while(1)\<close>, over the two pipes.\<close>

definition dsp_reverse :: "downstream \<Rightarrow> upstream \<Rightarrow> ((downstream \<times> upstream) + int) io" where
  "dsp_reverse gui_pipe rev_pipe =
     bind_io (send_message gui_pipe ''ready'') (\<lambda>_.
     bind_io (recv_audio gui_pipe) (\<lambda>audio.
     bind_io (lift_io (vec_get audio 0)) (\<lambda>left.
     bind_io (print (''received '' @ show_nat (length left) @ '' samples per channel '' @ endl)) (\<lambda>_.
     bind_io (upstream_connect rev_pipe) (\<lambda>(_, rev_pipe).
     bind_io (send_message rev_pipe ''run'') (\<lambda>_.
     bind_io (recv_message rev_pipe) (\<lambda>receiver.
     bind_io (if receiver = ''ready'' then send_audio rev_pipe audio else Ret True) (\<lambda>_.
     bind_io (recv_message rev_pipe) (\<lambda>receiver.
     bind_io (send_message rev_pipe ''ready'') (\<lambda>_.
     bind_io (recv_audio rev_pipe) (\<lambda>audio.
     bind_io (lift_io (vec_get audio 0)) (\<lambda>left.
     bind_io (print (''received '' @ show_nat (length left)
       @ '' samples per channel from reverse service'' @ endl)) (\<lambda>_.
     let rev_pipe = snd (upstream_disconnect rev_pipe) in
     bind_io (send_audio gui_pipe audio) (\<lambda>_.
     Ret (Inl (gui_pipe, rev_pipe))))))))))))))))"

definition dsp_exit :: "downstream \<Rightarrow> upstream \<Rightarrow> ((downstream \<times> upstream) + int) io" where
  "dsp_exit gui_pipe rev_pipe =
     bind_io (print (''Exiting...'' @ endl)) (\<lambda>_.
     bind_io (upstream_connect rev_pipe) (\<lambda>(_, rev_pipe).
     bind_io (send_message rev_pipe ''exit'') (\<lambda>_.
     bind_io (downstream_disconnect gui_pipe) (\<lambda>(_, gui_pipe).
     bind_io (destroy_upstream rev_pipe) (\<lambda>_.
     bind_io (destroy_downstream gui_pipe) (\<lambda>_.
     Ret (Inr 0)))))))"

definition dsp_round :: "downstream \<times> upstream \<Rightarrow> ((downstream \<times> upstream) + int) io" where
  "dsp_round = (\<lambda>(gui_pipe, rev_pipe).
     bind_io (recv_message gui_pipe) (\<lambda>receiver.
     if receiver = ''shift'' then
       bind_io (print (''shift'' @ endl)) (\<lambda>_. Ret (Inl (gui_pipe, rev_pipe)))
     else if receiver = ''stretch'' then
       bind_io (print (''stretch'' @ endl)) (\<lambda>_. Ret (Inl (gui_pipe, rev_pipe)))
     else if receiver = ''reverse'' then dsp_reverse gui_pipe rev_pipe
     else if take 4 receiver = ''exit'' then dsp_exit gui_pipe rev_pipe
     else Ret (Inl (gui_pipe, rev_pipe))))"

definition dsp_main :: "int io" where
  "dsp_main =
     bind_io (new_downstream 5500) (\<lambda>gui_pipe.
     bind_io (downstream_connect gui_pipe) (\<lambda>(_, gui_pipe).
     bind_io (new_upstream 8800) (\<lambda>rev_pipe.
     while_io dsp_round (gui_pipe, rev_pipe))))"

end
