(* ===== verification/Gui.thy ===== *)
theory Gui
  imports Pipe
begin

text \<open>
  \<open>source/Gui.hpp\<close> and \<open>source/gui.cpp\<close>: the console front end.  The class
  \<open>AudioFile<float>\<close> comes from a git submodule that the repository does not hold, so
  it is a parameter: a record \<open>audiofile_lib\<close> of its operations over an unknown type of
  audio files.

  A menu function is a C++ function pointer; \<open>menu_function\<close> names the ten functions
  that the program has, and \<open>run_menu_function\<close> calls them.  The last two fields of
  \<open>gui\<close> are not members of the class: they are what is left on standard input and the
  files of the file system.
\<close>

subsection \<open>State\<close>

type_synonym files = "string \<Rightarrow> byte list option"

record 'af audiofile_lib =
  af_new :: 'af
  af_load :: "string \<Rightarrow> files \<Rightarrow> 'af \<Rightarrow> 'af"
  af_save :: "string \<Rightarrow> 'af \<Rightarrow> files \<Rightarrow> files"
  af_num_channels :: "'af \<Rightarrow> int"
  af_samples :: "'af \<Rightarrow> audio_buffer"
  af_set_buffer :: "audio_buffer \<Rightarrow> 'af \<Rightarrow> 'af"

datatype menu_function =
    main_menu_exit_program
  | main_menu_file_options
  | main_menu_audio_effects
  | file_options_main_menu
  | file_options_load_file
  | file_options_save_file
  | audio_effects_main_menu
  | audio_effects_reverse
  | audio_effects_stretch
  | audio_effects_repitch

record menu =
  num_options :: int
  menu_name :: string
  menu_options :: "string list"
  menu_functions :: "menu_function list"

record 'af gui =
  exit_status :: bool
  current_menu :: int
  file_loaded_status :: bool
  audio_file :: 'af
  filename_display_alias :: string
  header :: "string list"
  menus :: "menu list"
  num_menus :: int
  gui_pipe :: upstream
  stdin :: string
  disk :: files

text \<open>Vector access with an \<open>int\<close> index: a negative one becomes a huge \<open>size_t\<close>.\<close>

definition vec_at :: "'a list \<Rightarrow> int \<Rightarrow> error + 'a" where
  "vec_at v i = (if 0 \<le> i then vec_get v (nat i) else Inl Out_Of_Bounds)"

lemma vec_at_in [simp, vec_simps]: "0 \<le> i \<Longrightarrow> i < int (length v) \<Longrightarrow> vec_at v i = Inr (v ! nat i)"
  by (simp add: vec_at_def nat_less_iff)

subsection \<open>Menus\<close>

definition create_menu :: "string \<Rightarrow> string list \<Rightarrow> menu_function list \<Rightarrow> menu" where
  "create_menu name options functions =
     \<lparr>num_options = int (length options), menu_name = name, menu_options = options,
      menu_functions = functions\<rparr>"

fun show_options :: "nat \<Rightarrow> string list \<Rightarrow> unit io" where
  "show_options option_number [] = Ret ()"
| "show_options option_number (opt # opts) =
     bind_io (print (''['' @ show_nat option_number @ ''] '' @ opt @ endl)) (\<lambda>_.
       show_options (Suc option_number) opts)"

definition menu_print :: "menu \<Rightarrow> unit io" where
  "menu_print m = bind_io (print (menu_name m @ endl)) (\<lambda>_. show_options 0 (menu_options m))"

subsection \<open>Construction and small setters\<close>

definition new_gui :: "'af audiofile_lib \<Rightarrow> string \<Rightarrow> files \<Rightarrow> 'af gui io" where
  "new_gui A input fs =
     bind_io (new_upstream 5500) (\<lambda>pipe.
     Ret \<lparr>exit_status = False, current_menu = 0, file_loaded_status = False, audio_file = af_new A,
       filename_display_alias = ''No file loaded'', header = [''''], menus = [], num_menus = 0,
       gui_pipe = pipe, stdin = input, disk = fs\<rparr>)"

definition set_header :: "string list \<Rightarrow> 'af gui \<Rightarrow> 'af gui" where
  "set_header new_header g = g\<lparr>header := new_header\<rparr>"

definition add_menu :: "menu \<Rightarrow> 'af gui \<Rightarrow> 'af gui" where
  "add_menu new_menu g = g\<lparr>menus := menus g @ [new_menu], num_menus := num_menus g + 1\<rparr>"

definition set_exit_status :: "bool \<Rightarrow> 'af gui \<Rightarrow> 'af gui" where
  "set_exit_status new_exit_status g = g\<lparr>exit_status := new_exit_status\<rparr>"

definition set_current_menu :: "int \<Rightarrow> 'af gui \<Rightarrow> 'af gui" where
  "set_current_menu menu_number g =
     (let menu_number = (if menu_number > num_menus g then num_menus g else menu_number);
          menu_number = (if menu_number < 0 then 0 else menu_number)
      in g\<lparr>current_menu := menu_number\<rparr>)"

definition set_filename_display_alias :: "string \<Rightarrow> 'af gui \<Rightarrow> 'af gui" where
  "set_filename_display_alias name g = g\<lparr>filename_display_alias := name\<rparr>"

subsection \<open>Display\<close>

definition print_header :: "'af gui \<Rightarrow> unit io" where
  "print_header g =
     bind_io (lift_io (vec_get (header g) 0)) (\<lambda>line0.
     bind_io (print (line0 @ endl)) (\<lambda>_.
     bind_io (lift_io (vec_get (header g) 1)) (\<lambda>line1.
     bind_io (print (line1 @ filename_display_alias g @ endl)) (\<lambda>_.
     bind_io (lift_io (vec_get (header g) 2)) (\<lambda>line2.
     print (line2 @ endl))))))"

fun print_named_menu :: "menu list \<Rightarrow> string \<Rightarrow> unit io" where
  "print_named_menu [] name = Ret ()"
| "print_named_menu (m # ms) name =
     (if menu_name m = name then menu_print m else print_named_menu ms name)"

definition print_menu :: "string \<Rightarrow> 'af gui \<Rightarrow> unit io" where
  "print_menu menu_to_print g =
     bind_io (print_header g) (\<lambda>_. print_named_menu (menus g) menu_to_print)"

definition display :: "'af gui \<Rightarrow> unit io" where
  "display g =
     bind_io (system ''CLS'') (\<lambda>_.
     bind_io (print_header g) (\<lambda>_.
     bind_io (lift_io (vec_at (menus g) (current_menu g))) (\<lambda>m.
     menu_print m)))"

subsection \<open>Reading from standard input\<close>

text \<open>\<open>cin.ignore(max, '\n')\<close>: what is left after the first newline.\<close>

fun ignore_line :: "string \<Rightarrow> string" where
  "ignore_line [] = []"
| "ignore_line (c # cs) = (if c = newline then cs else ignore_line cs)"

definition is_space :: "char \<Rightarrow> bool" where
  "is_space c \<longleftrightarrow> c \<in> {CHR '' '', CHR 0x09, CHR 0x0A, CHR 0x0B, CHR 0x0C, CHR 0x0D}"

definition is_digit :: "char \<Rightarrow> bool" where
  "is_digit c \<longleftrightarrow> 48 \<le> (of_char c :: nat) \<and> (of_char c :: nat) \<le> 57"

definition digits_value :: "string \<Rightarrow> nat" where
  "digits_value = foldl (\<lambda>n c. 10 * n + (of_char c - 48)) 0"

definition INT_MAX :: int where "INT_MAX = 2147483647"
definition INT_MIN :: int where "INT_MIN = - 2147483648"

text \<open>
  \<open>cin >> choice\<close> on an \<open>int\<close>: blanks are skipped; at the end of the input the
  variable is left alone (\<open>None\<close>); otherwise an optional sign and digits are read.  A
  field with no digits stores 0, one out of range stores the nearest \<open>int\<close>.
\<close>

definition read_int :: "string \<Rightarrow> int option \<times> string" where
  "read_int input =
     (let rest = dropWhile is_space input in
      if rest = [] then (None, [])
      else
        let sign = (hd rest = CHR ''-'');
            body = (if hd rest = CHR ''-'' \<or> hd rest = CHR ''+'' then tl rest else rest);
            ds = takeWhile is_digit body;
            v = int (digits_value ds);
            v = (if sign then - v else v);
            v = (if v > INT_MAX then INT_MAX else if v < INT_MIN then INT_MIN else v)
        in (Some v, dropWhile is_digit body))"

text \<open>\<open>cin >> user_input\<close> on a string that starts empty.\<close>

definition read_word :: "string \<Rightarrow> string \<times> string" where
  "read_word input =
     (let rest = dropWhile is_space input in
      (takeWhile (\<lambda>c. \<not> is_space c) rest, dropWhile (\<lambda>c. \<not> is_space c) rest))"

text \<open>
  The recursion on a choice out of bounds is a tail call.  A choice that the input does
  not set is an uninitialised \<open>int\<close>.
\<close>

definition get_int_from_user :: "int \<Rightarrow> int \<Rightarrow> 'af gui \<Rightarrow> (int \<times> 'af gui) io" where
  "get_int_from_user lowerbound upperbound g =
     while_io (\<lambda>g.
       bind_io (print (''Enter ('' @ show_int lowerbound @ ''-'' @ show_int upperbound @ ''): '')) (\<lambda>_.
       case read_int (ignore_line (stdin g)) of
         (None, rest) \<Rightarrow> Throw Uninitialised_Read
       | (Some choice, rest) \<Rightarrow>
           let g = g\<lparr>stdin := rest\<rparr> in
           if choice < lowerbound \<or> choice > upperbound then
             bind_io (print (endl @ ''Error: choice out of bounds!'' @ endl)) (\<lambda>_. Ret (Inl g))
           else Ret (Inr (choice, g)))) g"

definition get_str_from_user :: "'af gui \<Rightarrow> string \<times> 'af gui" where
  "get_str_from_user g =
     (case read_word (ignore_line (stdin g)) of
        (user_input, rest) \<Rightarrow> (user_input, g\<lparr>stdin := rest\<rparr>))"

subsection \<open>Loading and saving\<close>

definition load_audio_file :: "'af audiofile_lib \<Rightarrow> 'af gui \<Rightarrow> 'af gui io" where
  "load_audio_file A g =
     while_io (\<lambda>g.
       bind_io (print ''Enter Load Filepath: '') (\<lambda>_.
       case get_str_from_user g of
         (path, g) \<Rightarrow>
           let g = g\<lparr>audio_file := af_load A path (disk g) (audio_file g)\<rparr> in
           if af_num_channels A (audio_file g) = 2
           then Ret (Inr (g\<lparr>filename_display_alias := path, file_loaded_status := True\<rparr>))
           else Ret (Inl g))) g"

definition save_audio_file :: "'af audiofile_lib \<Rightarrow> 'af gui \<Rightarrow> 'af gui io" where
  "save_audio_file A g =
     bind_io (print ''Enter Save Filepath: '') (\<lambda>_.
     case get_str_from_user g of
       (path, g) \<Rightarrow>
         if disk g path \<noteq> None then
           bind_io (print (''WARNING: This file already exists. Overwrite?'' @ endl)) (\<lambda>_.
           bind_io (print (''[0] Cancel'' @ endl)) (\<lambda>_.
           bind_io (print (''[1] Overwrite'' @ endl)) (\<lambda>_.
           bind_io (get_int_from_user 0 1 g) (\<lambda>(choice, g).
             if choice = 0 then Ret g
             else if choice = 1 then Ret (g\<lparr>disk := af_save A path (audio_file g) (disk g)\<rparr>)
             else Ret g))))
         else Ret (g\<lparr>disk := af_save A path (audio_file g) (disk g)\<rparr>))"

subsection \<open>Communication\<close>

definition gui_send_message :: "string \<Rightarrow> 'af gui \<Rightarrow> unit io" where
  "gui_send_message msg g = bind_io (send_message (gui_pipe g) msg) (\<lambda>_. Ret ())"

definition gui_recv_message :: "'af gui \<Rightarrow> string io" where
  "gui_recv_message g = recv_message (gui_pipe g)"

definition gui_send_audio :: "'af audiofile_lib \<Rightarrow> 'af gui \<Rightarrow> unit io" where
  "gui_send_audio A g = bind_io (send_audio (gui_pipe g) (af_samples A (audio_file g))) (\<lambda>_. Ret ())"

definition gui_recv_audio :: "'af audiofile_lib \<Rightarrow> 'af gui \<Rightarrow> 'af gui io" where
  "gui_recv_audio A g = bind_io (recv_audio (gui_pipe g)) (\<lambda>manipulated_audio.
     Ret (g\<lparr>audio_file := af_set_buffer A manipulated_audio (audio_file g)\<rparr>))"

definition gui_connect :: "'af gui \<Rightarrow> 'af gui io" where
  "gui_connect g = bind_io (upstream_connect (gui_pipe g)) (\<lambda>(_, pipe). Ret (g\<lparr>gui_pipe := pipe\<rparr>))"

subsection \<open>The menu functions\<close>

text \<open>
  The mark that the shown name ends in after an edit.  \<open>alias.length()-1\<close> of an empty
  string wraps around, and \<open>compare\<close> throws.
\<close>

definition mark_alias :: "string \<Rightarrow> error + string" where
  "mark_alias alias =
     (if alias = [] then Inl Std_Out_Of_Range
      else if last alias \<noteq> CHR ''*'' then Inr (alias @ ''*'') else Inr alias)"

definition exit_program :: "'af gui \<Rightarrow> 'af gui io" where
  "exit_program g = bind_io (gui_send_message ''exit'' g) (\<lambda>_. Ret (set_exit_status True g))"

definition effects_reverse :: "'af audiofile_lib \<Rightarrow> 'af gui \<Rightarrow> 'af gui io" where
  "effects_reverse A g =
     (if file_loaded_status g = False then Ret g
      else
        bind_io (print (''sending message to dsp service'' @ endl)) (\<lambda>_.
        bind_io (gui_send_message ''reverse'' g) (\<lambda>_.
        bind_io (print (''message sent'' @ endl)) (\<lambda>_.
        bind_io (gui_recv_message g) (\<lambda>str.
        bind_io (gui_send_audio A g) (\<lambda>_.
        bind_io (gui_recv_audio A g) (\<lambda>g.
        bind_io (lift_io (mark_alias (filename_display_alias g))) (\<lambda>alias.
        Ret (set_filename_display_alias alias g)))))))))"

fun run_menu_function :: "'af audiofile_lib \<Rightarrow> menu_function \<Rightarrow> 'af gui \<Rightarrow> 'af gui io" where
  "run_menu_function A main_menu_exit_program g = exit_program g"
| "run_menu_function A main_menu_file_options g = Ret (set_current_menu 1 g)"
| "run_menu_function A main_menu_audio_effects g = Ret (set_current_menu 2 g)"
| "run_menu_function A file_options_main_menu g = Ret (set_current_menu 0 g)"
| "run_menu_function A file_options_load_file g = load_audio_file A g"
| "run_menu_function A file_options_save_file g = save_audio_file A g"
| "run_menu_function A audio_effects_main_menu g = Ret (set_current_menu 0 g)"
| "run_menu_function A audio_effects_reverse g = effects_reverse A g"
| "run_menu_function A audio_effects_stretch g =
     bind_io (gui_send_message ''stretch'' g) (\<lambda>_. Ret g)"
| "run_menu_function A audio_effects_repitch g =
     bind_io (gui_send_message ''shift'' g) (\<lambda>_. Ret g)"

definition execute :: "'af audiofile_lib \<Rightarrow> 'af gui \<Rightarrow> 'af gui io" where
  "execute A g =
     bind_io (lift_io (vec_at (menus g) (current_menu g))) (\<lambda>m.
     bind_io (get_int_from_user 0 (num_options m - 1) g) (\<lambda>(choice, g).
     bind_io (lift_io (vec_at (menu_functions m) choice)) (\<lambda>f.
     run_menu_function A f g)))"

subsection \<open>Building the menus and the main loop\<close>

definition rule_line :: string where
  "rule_line = replicate 60 (CHR ''-'')"

definition main_menu :: menu where
  "main_menu = create_menu ''Main Menu''
     [''Exit Program'', ''File Options'', ''Audio Effects'']
     [main_menu_exit_program, main_menu_file_options, main_menu_audio_effects]"

definition file_options :: menu where
  "file_options = create_menu ''File Options''
     [''Main Menu'', ''Load File'', ''Save File'']
     [file_options_main_menu, file_options_load_file, file_options_save_file]"

definition audio_effects :: menu where
  "audio_effects = create_menu ''Audio Effects''
     [''Main Menu'', ''Reverse Audio'', ''Stretch Audio'', ''Repitch Audio'']
     [audio_effects_main_menu, audio_effects_reverse, audio_effects_stretch, audio_effects_repitch]"

definition create_wavetech_gui :: "'af audiofile_lib \<Rightarrow> string \<Rightarrow> files \<Rightarrow> 'af gui io" where
  "create_wavetech_gui A input fs =
     bind_io (new_gui A input fs) (\<lambda>g.
     Ret (add_menu audio_effects (add_menu file_options (add_menu main_menu
       (set_header [rule_line, ''File: '', rule_line] g)))))"

definition gui_round :: "'af audiofile_lib \<Rightarrow> 'af gui \<Rightarrow> ('af gui + 'af gui) io" where
  "gui_round A g =
     (if exit_status g then Ret (Inr g)
      else bind_io (display g) (\<lambda>_. bind_io (execute A g) (\<lambda>g. Ret (Inl g))))"

text \<open>The exit status, with the state at the end.\<close>

definition gui_main :: "'af audiofile_lib \<Rightarrow> string \<Rightarrow> files \<Rightarrow> (int \<times> 'af gui) io" where
  "gui_main A input fs =
     bind_io (create_wavetech_gui A input fs) (\<lambda>g.
     bind_io (print (''connecting to dsp microservice'' @ endl)) (\<lambda>_.
     bind_io (gui_connect g) (\<lambda>g.
     bind_io (print (''connected to dsp microservice'' @ endl)) (\<lambda>_.
     bind_io (while_io (gui_round A) (set_current_menu 0 g)) (\<lambda>g.
     bind_io (destroy_upstream (gui_pipe g)) (\<lambda>_.
     Ret (0, g)))))))"

end
