(* ===== verification/Session.thy ===== *)
theory Session
  imports Exchanges Reverse_Service Dsp_Service Gui
begin

text \<open>
  The three services run against each other over the loopback network: an edit requested
  by the user, from the GUI through the DSP service to the reverse service and back, and
  the shutdown of the whole program.
\<close>

named_theorems exchange
  \<comment> \<open>what one service, or two together, do next\<close>

definition procs :: "'r io \<Rightarrow> 'r io \<Rightarrow> 'r io \<Rightarrow> 'r procs" where
  "procs g d r = (\<lambda>p. case p of Gui_Proc \<Rightarrow> g | Dsp_Proc \<Rightarrow> d | Reverse_Proc \<Rightarrow> r)"

lemma procs_simps [simp]:
  "procs g d r Gui_Proc = g" "procs g d r Dsp_Proc = d" "procs g d r Reverse_Proc = r"
  "(procs g d r)(Gui_Proc := x) = procs x d r"
  "(procs g d r)(Dsp_Proc := x) = procs g x r"
  "(procs g d r)(Reverse_Proc := x) = procs g d x"
  by (auto simp: procs_def fun_eq_iff split: pid.split)

lemma owner_simps [simp]:
  "owner (Client 5500) = Some Gui_Proc" "owner (Server 5500) = Some Dsp_Proc"
  "owner (Client 8800) = Some Dsp_Proc" "owner (Server 8800) = Some Reverse_Proc"
  by (simp_all add: owner_def)

subsection \<open>One service alone\<close>

lemma then_works:
  "works Gui_Proc t n x n1 \<Longrightarrow> leads (procs (k x) d r) n1 ps n' \<Longrightarrow> leads (procs (bind_io t k) d r) n ps n'"
  "works Dsp_Proc t n x n1 \<Longrightarrow> leads (procs g (k x) r) n1 ps n' \<Longrightarrow> leads (procs g (bind_io t k) r) n ps n'"
  "works Reverse_Proc t n x n1 \<Longrightarrow> leads (procs g d (k x)) n1 ps n' \<Longrightarrow> leads (procs g d (bind_io t k)) n ps n'"
  by (rule leads_trans, rule leads_works, assumption, simp, rule refl, simp)+

lemmas then_locally =
  then_works(1) [OF locally_works] then_works(2) [OF locally_works] then_works(3) [OF locally_works]

lemma then_print [exchange]:
  "leads (procs (k ()) d r) n ps n' \<Longrightarrow> leads (procs (bind_io (print s) k) d r) n ps n'"
  "leads (procs g (k ()) r) n ps n' \<Longrightarrow> leads (procs g (bind_io (print s) k) r) n ps n'"
  "leads (procs g d (k ())) n ps n' \<Longrightarrow> leads (procs g d (bind_io (print s) k)) n ps n'"
  by (rule then_locally [OF locally_print], assumption)+

lemma then_silent [exchange]:
  "leads (procs t d r) n ps n' \<Longrightarrow> leads (procs (Tau t) d r) n ps n'"
  "leads (procs g t r) n ps n' \<Longrightarrow> leads (procs g (Tau t) r) n ps n'"
  "leads (procs g d t) n ps n' \<Longrightarrow> leads (procs g d (Tau t)) n ps n'"
  using leads_trans [OF leads_silent [of "procs (Tau t) d r" Gui_Proc t "procs t d r" n]]
    leads_trans [OF leads_silent [of "procs g (Tau t) r" Dsp_Proc t "procs g t r" n]]
    leads_trans [OF leads_silent [of "procs g d (Tau t)" Reverse_Proc t "procs g d t" n]]
  by simp_all

subsection \<open>Two services together\<close>

lemma linked_server [simp]: "linked n (Server q) = linked n (Client q)"
  using linked_across [of n "Client q"] by simp

lemma message_then:
  assumes "ps p = bind_io (send_message P msg) k" "ps p' = bind_io (recv_message Q) k'" "p \<noteq> p'"
    "owner ep = Some p" "owner (across ep) = Some p'" "connected_to P ep" "connected_to Q (across ep)"
    "linked n ep" "msg \<noteq> ''''" "length msg \<le> 1024"
    "leads (ps(p := k (length msg), p' := k' msg)) n ps' n'"
  shows "leads ps n ps' n'"
  using leads_message [OF assms(1-10) refl] assms(11) by (rule leads_trans)

lemma audio_then:
  assumes "ps p = bind_io (send_audio P [left, right]) k" "ps p' = bind_io (recv_audio Q) k'" "p \<noteq> p'"
    "owner ep = Some p" "owner (across ep) = Some p'" "connected_to P ep" "connected_to Q (across ep)"
    "linked n ep" "sendable left" "sendable right"
    "leads (ps(p := k True, p' := k' [left, right])) n ps' n'"
  shows "leads ps n ps' n'"
  using leads_audio [OF assms(1-10) refl] assms(11) by (rule leads_trans)

lemma gui_tells_dsp [exchange]:
  assumes "connected_to P (Client 5500)" "connected_to Q (Server 5500)" "linked n (Client 5500)"
    "msg \<noteq> ''''" "length msg \<le> 1024" "leads (procs (k (length msg)) (k' msg) r) n ps n'"
  shows "leads (procs (bind_io (send_message P msg) k) (bind_io (recv_message Q) k') r) n ps n'"
  by (rule message_then [where p = Gui_Proc and k = k and p' = Dsp_Proc and k' = k' and ep = "Client 5500"])
    (use assms in simp_all)

lemma dsp_tells_gui [exchange]:
  assumes "connected_to P (Server 5500)" "connected_to Q (Client 5500)" "linked n (Client 5500)"
    "msg \<noteq> ''''" "length msg \<le> 1024" "leads (procs (k' msg) (k (length msg)) r) n ps n'"
  shows "leads (procs (bind_io (recv_message Q) k') (bind_io (send_message P msg) k) r) n ps n'"
  by (rule message_then [where p = Dsp_Proc and k = k and p' = Gui_Proc and k' = k' and ep = "Server 5500"])
    (use assms in simp_all)

lemma dsp_tells_reverse [exchange]:
  assumes "connected_to P (Client 8800)" "connected_to Q (Server 8800)" "linked n (Client 8800)"
    "msg \<noteq> ''''" "length msg \<le> 1024" "leads (procs g (k (length msg)) (k' msg)) n ps n'"
  shows "leads (procs g (bind_io (send_message P msg) k) (bind_io (recv_message Q) k')) n ps n'"
  by (rule message_then [where p = Dsp_Proc and k = k and p' = Reverse_Proc and k' = k' and ep = "Client 8800"])
    (use assms in simp_all)

lemma reverse_tells_dsp [exchange]:
  assumes "connected_to P (Server 8800)" "connected_to Q (Client 8800)" "linked n (Client 8800)"
    "msg \<noteq> ''''" "length msg \<le> 1024" "leads (procs g (k' msg) (k (length msg))) n ps n'"
  shows "leads (procs g (bind_io (recv_message Q) k') (bind_io (send_message P msg) k)) n ps n'"
  by (rule message_then [where p = Reverse_Proc and k = k and p' = Dsp_Proc and k' = k' and ep = "Server 8800"])
    (use assms in simp_all)

lemma gui_plays_dsp [exchange]:
  assumes "connected_to P (Client 5500)" "connected_to Q (Server 5500)" "linked n (Client 5500)"
    "sendable left" "sendable right" "leads (procs (k True) (k' [left, right]) r) n ps n'"
  shows "leads (procs (bind_io (send_audio P [left, right]) k) (bind_io (recv_audio Q) k') r) n ps n'"
  by (rule audio_then [where p = Gui_Proc and k = k and p' = Dsp_Proc and k' = k' and ep = "Client 5500"])
    (use assms in simp_all)

lemma dsp_plays_gui [exchange]:
  assumes "connected_to P (Server 5500)" "connected_to Q (Client 5500)" "linked n (Client 5500)"
    "sendable left" "sendable right" "leads (procs (k' [left, right]) (k True) r) n ps n'"
  shows "leads (procs (bind_io (recv_audio Q) k') (bind_io (send_audio P [left, right]) k) r) n ps n'"
  by (rule audio_then [where p = Dsp_Proc and k = k and p' = Gui_Proc and k' = k' and ep = "Server 5500"])
    (use assms in simp_all)

lemma dsp_plays_reverse [exchange]:
  assumes "connected_to P (Client 8800)" "connected_to Q (Server 8800)" "linked n (Client 8800)"
    "sendable left" "sendable right" "leads (procs g (k True) (k' [left, right])) n ps n'"
  shows "leads (procs g (bind_io (send_audio P [left, right]) k) (bind_io (recv_audio Q) k')) n ps n'"
  by (rule audio_then [where p = Dsp_Proc and k = k and p' = Reverse_Proc and k' = k' and ep = "Client 8800"])
    (use assms in simp_all)

lemma reverse_plays_dsp [exchange]:
  assumes "connected_to P (Server 8800)" "connected_to Q (Client 8800)" "linked n (Client 8800)"
    "sendable left" "sendable right" "leads (procs g (k' [left, right]) (k True)) n ps n'"
  shows "leads (procs g (bind_io (recv_audio Q) k') (bind_io (send_audio P [left, right]) k)) n ps n'"
  by (rule audio_then [where p = Reverse_Proc and k = k and p' = Dsp_Proc and k' = k' and ep = "Server 8800"])
    (use assms in simp_all)

text \<open>The DSP service connects to the reverse service, which has started to listen.\<close>

lemma meet_then:
  assumes "ps p = bind_io (upstream_connect (up_of q c s as)) k"
    "ps p' = bind_io (downstream_connect (down_of q c' (construct (Server q)))) k'" "p \<noteq> p'"
    "owner (Client q) = Some p" "owner (Server q) = Some p'"
    "V4 \<in> set as" "fd s = Client q" "opened s \<or> \<not> conn (sides n (Client q))"
    "listening n q" "\<not> conn (sides n (Server q))"
    "leads (ps(p := k (True, up_of q True (stream_sock (Client q)) as),
               p' := k' (True, down_of q True (stream_sock (Server q))))) (open_link q n) ps' n'"
  shows "leads ps n ps' n'"
proof -
  have "leads ps n (ps(p := k (True, up_of q True (stream_sock (Client q)) as),
      p' := k' (True, down_of q True (stream_sock (Server q))))) (open_link q n)"
    by (rule leads_meet [OF assms(1-5)]) (use assms in simp_all)
  from this assms(11) show ?thesis by (rule leads_trans)
qed

lemma gui_meets_dsp:
  assumes "V4 \<in> set as" "fd s = Client 5500" "opened s \<or> \<not> conn (sides n (Client 5500))"
    "listening n 5500" "\<not> conn (sides n (Server 5500))"
    "leads (procs (k (True, up_of 5500 True (stream_sock (Client 5500)) as))
      (k' (True, down_of 5500 True (stream_sock (Server 5500)))) r) (open_link 5500 n) ps' n'"
  shows "leads (procs (bind_io (upstream_connect (up_of 5500 c s as)) k)
    (bind_io (downstream_connect (down_of 5500 c' (construct (Server 5500)))) k') r) n ps' n'"
  by (rule meet_then [where p = Gui_Proc and k = k and p' = Dsp_Proc and k' = k' and q = 5500])
    (use assms in simp_all)

lemma dsp_meets_reverse:
  assumes "V4 \<in> set as" "fd s = Client 8800" "opened s \<or> \<not> conn (sides n (Client 8800))"
    "listening n 8800" "\<not> conn (sides n (Server 8800))"
    "leads (procs g (k (True, up_of 8800 True (stream_sock (Client 8800)) as))
      (k' (True, down_of 8800 True (stream_sock (Server 8800))))) (open_link 8800 n) ps' n'"
  shows "leads (procs g (bind_io (upstream_connect (up_of 8800 c s as)) k)
    (bind_io (downstream_connect (down_of 8800 c' (construct (Server 8800)))) k')) n ps' n'"
  by (rule meet_then [where p = Dsp_Proc and k = k and p' = Reverse_Proc and k' = k' and q = 8800])
    (use assms in simp_all)

text \<open>
  The reverse service starts a round: it listens, and once the DSP service connects the
  two are linked.
\<close>

definition reverse_idle :: "net \<Rightarrow> bool" where
  "reverse_idle n \<longleftrightarrow> \<not> listening n 8800 \<and> \<not> conn (sides n (Server 8800))"

lemma dsp_finds_reverse:
  assumes "V4 \<in> set as" "fd s = Client 8800" "opened s \<or> \<not> conn (sides n (Client 8800))" "reverse_idle n"
    "leads (procs g (k (True, up_of 8800 True (stream_sock (Client 8800)) as))
      (bind_io (reverse_serve (down_of 8800 True (stream_sock (Server 8800)))) kr))
      (open_link 8800 (set_listening 8800 True n)) ps' n'"
  shows "leads (procs g (bind_io (upstream_connect (up_of 8800 c s as)) k)
    (bind_io (reverse_round ()) kr)) n ps' n'"
  unfolding reverse_round_def bind_io_assoc
  by (rule then_works(3) [OF works_new_downstream], use assms(4) in \<open>simp_all add: reverse_idle_def\<close>)
    (rule dsp_meets_reverse, use assms in \<open>simp_all add: reverse_idle_def split_def then_print\<close>)

lemma works_reverse_from: "locally p (reverse_from i buf) (take i buf @ map rev (drop i buf))"
proof (induction "length buf - i" arbitrary: i buf)
  case 0
  then show ?case by (subst reverse_from.simps) simp
next
  case (Suc m)
  then have i: "i < length buf" by simp
  have "take (Suc i) (buf[i := rev (buf ! i)]) @ map rev (drop (Suc i) (buf[i := rev (buf ! i)])) =
      take i buf @ map rev (drop i buf)"
    using i by (simp add: take_Suc_conv_app_nth flip: Cons_nth_drop_Suc)
  moreover have "locally p (reverse_from (Suc i) (buf[i := rev (buf ! i)]))
      (take (Suc i) (buf[i := rev (buf ! i)]) @ map rev (drop (Suc i) (buf[i := rev (buf ! i)])))"
    by (rule Suc.hyps) (use Suc.hyps(2) in simp)
  ultimately show ?case
    using i by (subst reverse_from.simps) (simp add: locally_print_then)
qed

lemma locally_reverse_audio: "locally p (reverse_audio buf) (map rev buf)"
  using works_reverse_from [of p 0 buf] by (simp add: reverse_audio_def)

text \<open>The ends of a round: a pipe is closed, an acceptor stops to listen.\<close>

lemma set_listening_order [simp]:
  "open_link q (set_listening q' b n) = set_listening q' b (open_link q n)"
  "hang_up ep (set_listening q' b n) = set_listening q' b (hang_up ep n)"
  "set_listening q b (set_listening q c n) = set_listening q b n"
  by (simp_all add: set_listening_def open_link_def hang_up_def)

lemma reverse_disconnects [exchange]:
  assumes "conn (sides n (Server 8800))"
    "leads (procs g d (k (False, down_of 8800 False (construct (Server 8800))))) (hang_up (Server 8800) n) ps' n'"
  shows "leads (procs g d (bind_io (downstream_disconnect (down_of 8800 c (stream_sock (Server 8800)))) k)) n ps' n'"
  by (rule then_works(3) [OF works_downstream_disconnect]) (use assms in simp_all)

lemma dsp_disconnects [exchange]:
  assumes "conn (sides n (Server 5500))"
    "leads (procs g (k (False, down_of 5500 False (construct (Server 5500)))) r) (hang_up (Server 5500) n) ps' n'"
  shows "leads (procs g (bind_io (downstream_disconnect (down_of 5500 c (stream_sock (Server 5500)))) k) r) n ps' n'"
  by (rule then_works(2) [OF works_downstream_disconnect]) (use assms in simp_all)

lemma reverse_unlistens [exchange]:
  assumes "leads (procs g d (k ())) (set_listening 8800 False n) ps' n'"
  shows "leads (procs g d (bind_io (destroy_downstream (down_of 8800 c (construct (Server 8800)))) k)) n ps' n'"
  by (rule then_works(3) [OF works_destroy_downstream]) (use assms in simp_all)

lemma dsp_unlistens [exchange]:
  assumes "leads (procs g (k ()) r) (set_listening 5500 False n) ps' n'"
  shows "leads (procs g (bind_io (destroy_downstream (down_of 5500 c (construct (Server 5500)))) k) r) n ps' n'"
  by (rule then_works(2) [OF works_destroy_downstream]) (use assms in simp_all)

lemma gui_closes [exchange]:
  assumes "leads (procs (k ()) d r) (hang_up (Client 5500) n) ps' n'"
  shows "leads (procs (bind_io (destroy_upstream (up_of 5500 c (stream_sock (Client 5500)) as)) k) d r) n ps' n'"
  unfolding destroy_upstream_def up_of_facts
  by (rule then_works(1) [OF works_close]) (use assms in simp_all)

lemma dsp_closes [exchange]:
  assumes "leads (procs g (k ()) r) (hang_up (Client 8800) n) ps' n'"
  shows "leads (procs g (bind_io (destroy_upstream (up_of 8800 c (stream_sock (Client 8800)) as)) k) r) n ps' n'"
  unfolding destroy_upstream_def up_of_facts
  by (rule then_works(2) [OF works_close]) (use assms in simp_all)

subsection \<open>An edit\<close>

lemma dsp_round_apply:
  "dsp_round (D, U) =
     bind_io (recv_message D) (\<lambda>receiver.
     if receiver = ''shift'' then
       bind_io (print (''shift'' @ endl)) (\<lambda>_. Ret (Inl (D, U)))
     else if receiver = ''stretch'' then
       bind_io (print (''stretch'' @ endl)) (\<lambda>_. Ret (Inl (D, U)))
     else if receiver = ''reverse'' then dsp_reverse D U
     else if take 4 receiver = ''exit'' then dsp_exit D U
     else Ret (Inl (D, U)))"
  by (simp add: dsp_round_def)

definition dsp_ready :: "addr list \<Rightarrow> upstream \<Rightarrow> net \<Rightarrow> bool" where
  "dsp_ready as U n \<longleftrightarrow> (\<exists>c s. U = up_of 8800 c s as \<and> fd s = Client 8800 \<and>
     (opened s \<or> \<not> conn (sides n (Client 8800)))) \<and> V4 \<in> set as"

lemma reverse_session:
  assumes "connected_to (gui_pipe g) (Client 5500)" "linked n (Client 5500)" "reverse_idle n"
    "dsp_ready as U n" "file_loaded_status g" "af_samples A (audio_file g) = [left, right]"
    "sendable left" "sendable right" "mark_alias (filename_display_alias g) = Inr name"
    "D = down_of 5500 True (stream_sock (Server 5500))"
  shows "leads (procs (bind_io (effects_reverse A g) kg) (bind_io (while_io dsp_round (D, U)) kd)
      (bind_io (while_io reverse_round ()) kr)) n
    (procs (kg (g\<lparr>audio_file := af_set_buffer A [rev left, rev right] (audio_file g),
        filename_display_alias := name\<rparr>))
      (bind_io (while_io dsp_round (D, up_of 8800 False (stream_sock (Client 8800)) as)) kd)
      (bind_io (while_io reverse_round ()) kr))
    (set_listening 8800 False (hang_up (Server 8800) (open_link 8800 n)))"
proof -
  obtain c s where U: "U = up_of 8800 c s as" "fd s = Client 8800"
    "opened s \<or> \<not> conn (sides n (Client 8800))" "V4 \<in> set as"
    using assms(4) by (auto simp: dsp_ready_def)
  show ?thesis
    using U(3)
    by (subst while_io_unfold [of dsp_round], subst while_io_unfold [of reverse_round])
      (auto simp: effects_reverse_def gui_send_message_def gui_recv_message_def gui_send_audio_def
        gui_recv_audio_def dsp_round_apply dsp_reverse_def reverse_serve_def upstream_disconnect_def
        set_filename_display_alias_def assms U(1,2,4) fresh_side_def cong: if_cong
        intro!: exchange dsp_finds_reverse then_locally(3) [OF locally_reverse_audio])
qed

subsection \<open>The shutdown\<close>

lemma hang_up_order: "hang_up a (hang_up b n) = hang_up b (hang_up a n)"
  by (cases "a = b") (simp_all add: hang_up_def fun_upd_twist)

lemma set_listening_twist:
  "q \<noteq> q' \<Longrightarrow> set_listening q b (set_listening q' c n) = set_listening q' c (set_listening q b n)"
  by (simp add: set_listening_def fun_upd_twist)

definition all_closed :: "net \<Rightarrow> net" where
  "all_closed n = set_listening 5500 False (set_listening 8800 False
     (hang_up (Client 8800) (hang_up (Server 8800) (hang_up (Server 5500) n))))"

lemma exit_session:
  assumes "connected_to (gui_pipe g) (Client 5500)" "linked n (Client 5500)" "reverse_idle n"
    "dsp_ready as U n" "D = down_of 5500 True (stream_sock (Server 5500))"
  shows "leads (procs (bind_io (exit_program g) kg) (bind_io (while_io dsp_round (D, U)) kd)
      (bind_io (while_io reverse_round ()) kr)) n
    (procs (kg (g\<lparr>exit_status := True\<rparr>)) (kd 0) (kr 0)) (all_closed (open_link 8800 n))"
proof -
  obtain c s where U: "U = up_of 8800 c s as" "fd s = Client 8800"
    "opened s \<or> \<not> conn (sides n (Client 8800))" "V4 \<in> set as"
    using assms(4) by (auto simp: dsp_ready_def)
  show ?thesis
    using U(3) linked_conn [OF assms(2)]
    by (subst while_io_unfold [of dsp_round], subst while_io_unfold [of reverse_round])
      (auto simp: exit_program_def gui_send_message_def dsp_round_apply dsp_exit_def reverse_serve_def
        set_exit_status_def all_closed_def hang_up_order set_listening_twist
        assms U(1,2,4) fresh_side_def cong: if_cong
        intro!: exchange dsp_finds_reverse)
qed

end
