(* ===== verification/Gui_Runs.thy ===== *)
theory Gui_Runs
  imports Session
begin

text \<open>
  The GUI driven by what a user types, against the other two services: the rounds of its
  main loop, and the whole program from the start of its three processes to their ends.
\<close>

subsection \<open>What the user types\<close>

definition typed :: "string list \<Rightarrow> string" where
  "typed ls = concat (map (\<lambda>l. l @ endl) ls)"

lemma typed_simps: "typed [] = []" "typed (l # ls) = l @ endl @ typed ls"
  by (simp_all add: typed_def)

lemma ignore_newline [simp]: "ignore_line (endl @ s) = s" "ignore_line (newline # s) = s"
  by (simp_all add: endl_def)

lemma space_newline [simp]: "is_space newline"
  by (simp add: is_space_def newline_def)

lemma digit_newline [simp]: "\<not> is_digit newline"
  by (simp add: is_digit_def newline_def)

lemma read_digit:
  "read_int (CHR ''0'' # endl @ s) = (Some 0, endl @ s)"
  "read_int (CHR ''1'' # endl @ s) = (Some 1, endl @ s)"
  "read_int (CHR ''2'' # endl @ s) = (Some 2, endl @ s)"
  by (simp_all add: read_int_def is_space_def is_digit_def digits_value_def INT_MAX_def INT_MIN_def
      endl_def newline_def)

definition word :: "string \<Rightarrow> bool" where
  "word w \<longleftrightarrow> w \<noteq> '''' \<and> list_all (\<lambda>c. \<not> is_space c) w"

lemma read_word_word: "word w \<Longrightarrow> read_word (w @ endl @ s) = (w, endl @ s)"
  by (cases w) (auto simp: word_def read_word_def endl_def takeWhile_tail dropWhile_append3 list_all_iff)

subsection \<open>Rounds of the main loop\<close>

definition all_menus :: "menu list" where
  "all_menus = [main_menu, file_options, audio_effects]"

definition well_formed :: "'af gui \<Rightarrow> bool" where
  "well_formed g \<longleftrightarrow> menus g = all_menus \<and> num_menus g = 3 \<and> 0 \<le> current_menu g \<and> current_menu g \<le> 2
     \<and> header g = [rule_line, ''File: '', rule_line]"

lemma locally_show_options: "locally p (show_options i opts) ()"
  by (induction opts arbitrary: i) (auto intro: locally_print_then)

lemma locally_display: "well_formed g \<Longrightarrow> locally p (display g) ()"
  by (auto simp: display_def print_header_def well_formed_def all_menus_def menu_print_def
      intro!: locally_bind [OF locally_system] locally_print_then locally_show_options)

lemma locally_get_int:
  assumes "read_int (ignore_line (stdin g)) = (Some k, rest)" "lo \<le> k" "k \<le> hi"
  shows "locally p (get_int_from_user lo hi g) (k, g\<lparr>stdin := rest\<rparr>)"
  unfolding get_int_from_user_def
  by (rule locally_while_end) (use assms in \<open>auto simp: Let_def intro!: locally_print_then\<close>)

text \<open>A choice within the menu that is shown runs the menu function of that number.\<close>

lemma user_chooses:
  assumes "well_formed g" "\<not> exit_status g" "read_int (ignore_line (stdin g)) = (Some k, rest)"
    "m = all_menus ! nat (current_menu g)" "0 \<le> k" "k < num_options m" "f = menu_functions m ! nat k"
    "leads (procs (bind_io (run_menu_function A f (g\<lparr>stdin := rest\<rparr>))
      (\<lambda>g. Tau (bind_io (while_io (gui_round A) g) kg))) d r) n ps' n'"
  shows "leads (procs (bind_io (while_io (gui_round A) g) kg) d r) n ps' n'"
proof -
  have m: "m \<in> set all_menus"
    unfolding assms(4) by (rule nth_mem) (use assms(1) in \<open>simp add: well_formed_def all_menus_def nat_less_iff\<close>)
  then have len: "num_options m = int (length (menu_functions m))"
    by (auto simp: all_menus_def main_menu_def file_options_def audio_effects_def create_menu_def)
  have at: "vec_at (menus g) (current_menu g) = Inr m"
    using assms(1,4) by (simp add: well_formed_def all_menus_def)
  have fn: "vec_at (menu_functions m) k = Inr f"
    using assms(5-7) len by simp
  have "leads (procs (bind_io (execute A g) (\<lambda>g. Tau (bind_io (while_io (gui_round A) g) kg))) d r) n ps' n'"
    unfolding execute_def bind_io_assoc at lift_io_simps bind_io_simps
    by (rule then_locally(1) [OF locally_get_int [OF assms(3)]])
      (use assms(5,6,8) fn in \<open>simp_all\<close>)
  then show ?thesis
    by (subst while_io_unfold)
      (use assms(2) in \<open>auto simp: gui_round_def intro!: then_locally(1) [OF locally_display [OF assms(1)]]\<close>)
qed

lemma well_formed_simps [simp]:
  "well_formed (g\<lparr>stdin := x\<rparr>) = well_formed g"
  "well_formed (g\<lparr>audio_file := a\<rparr>) = well_formed g"
  "well_formed (g\<lparr>filename_display_alias := y\<rparr>) = well_formed g"
  "well_formed (g\<lparr>file_loaded_status := b\<rparr>) = well_formed g"
  "well_formed (g\<lparr>exit_status := b\<rparr>) = well_formed g"
  "well_formed (g\<lparr>gui_pipe := u\<rparr>) = well_formed g"
  "well_formed (g\<lparr>disk := fs\<rparr>) = well_formed g"
  by (simp_all add: well_formed_def)

lemma well_formed_current [simp]:
  "well_formed (g\<lparr>current_menu := c\<rparr>) \<longleftrightarrow> well_formed (g\<lparr>current_menu := 0\<rparr>) \<and> 0 \<le> c \<and> c \<le> 2"
  by (auto simp: well_formed_def)

lemma well_formed_zero: "well_formed g \<Longrightarrow> well_formed (g\<lparr>current_menu := 0\<rparr>)"
  by (simp add: well_formed_def)

lemma set_current_menu_within:
  "well_formed g \<Longrightarrow> 0 \<le> c \<Longrightarrow> c \<le> 3 \<Longrightarrow> set_current_menu c g = g\<lparr>current_menu := c\<rparr>"
  by (simp add: set_current_menu_def well_formed_def)

lemma menu_contents [simp]:
  "all_menus ! 0 = main_menu" "all_menus ! Suc 0 = file_options" "all_menus ! 2 = audio_effects"
  "num_options main_menu = 3" "num_options file_options = 3" "num_options audio_effects = 4"
  "menu_functions main_menu = [main_menu_exit_program, main_menu_file_options, main_menu_audio_effects]"
  "menu_functions file_options = [file_options_main_menu, file_options_load_file, file_options_save_file]"
  "menu_functions audio_effects = [audio_effects_main_menu, audio_effects_reverse,
     audio_effects_stretch, audio_effects_repitch]"
  by (simp_all add: all_menus_def main_menu_def file_options_def audio_effects_def create_menu_def)

text \<open>A load that succeeds at the first attempt.\<close>

lemma locally_load:
  assumes "stdin g = endl @ path @ endl @ rest" "word path"
    "af_num_channels A (af_load A path (disk g) (audio_file g)) = 2"
  shows "locally p (load_audio_file A g)
    (g\<lparr>stdin := endl @ rest, audio_file := af_load A path (disk g) (audio_file g),
       filename_display_alias := path, file_loaded_status := True\<rparr>)"
  unfolding load_audio_file_def
  by (rule locally_while_end)
    (use assms in \<open>auto simp: get_str_from_user_def read_word_word Let_def intro!: locally_print_then\<close>)

text \<open>Edits: \<open>k\<close> times \<open>Reverse Audio\<close> in the menu of the audio effects.\<close>

definition edit :: "'af audiofile_lib \<Rightarrow> 'af \<Rightarrow> 'af" where
  "edit A f = af_set_buffer A (map rev (af_samples A f)) f"

definition stereo :: "'af audiofile_lib \<Rightarrow> 'af \<Rightarrow> bool" where
  "stereo A f \<longleftrightarrow> (\<exists>left right. af_samples A f = [left, right] \<and> sendable left \<and> sendable right)"

definition stores_buffer :: "'af audiofile_lib \<Rightarrow> bool" where
  "stores_buffer A \<longleftrightarrow> (\<forall>b f. af_samples A (af_set_buffer A b f) = b)"

lemma stereo_edit: "stores_buffer A \<Longrightarrow> stereo A f \<Longrightarrow> stereo A (edit A f)"
  by (auto simp: stereo_def stores_buffer_def edit_def)

definition starred :: "nat \<Rightarrow> string \<Rightarrow> string" where
  "starred k name = (if k = 0 \<or> last name = CHR ''*'' then name else name @ ''*'')"

definition edited :: "'af audiofile_lib \<Rightarrow> nat \<Rightarrow> 'af gui \<Rightarrow> 'af gui" where
  "edited A k g = g\<lparr>audio_file := (edit A ^^ k) (audio_file g),
     filename_display_alias := starred k (filename_display_alias g)\<rparr>"

definition session_net :: "nat \<Rightarrow> net \<Rightarrow> net" where
  "session_net k n = (if k = 0 then n
     else set_listening 8800 False (hang_up (Server 8800) (open_link 8800 n)))"

definition session_pipe :: "nat \<Rightarrow> addr list \<Rightarrow> upstream \<Rightarrow> upstream" where
  "session_pipe k as U = (if k = 0 then U else up_of 8800 False (stream_sock (Client 8800)) as)"

lemma open_link_again [simp]:
  "open_link q (open_link q n) = open_link q n"
  "open_link q (hang_up (Server q) n) = open_link q n"
  by (simp_all add: open_link_def hang_up_def fun_upd_twist)

lemma session_again:
  "session_net k (session_net (Suc 0) n) = session_net (Suc k) n"
  "session_pipe k as (up_of 8800 False (stream_sock (Client 8800)) as) = session_pipe (Suc k) as U"
  by (simp_all add: session_net_def session_pipe_def)

lemma session_net_facts:
  assumes "reverse_idle n" "linked n (Client 5500)"
  shows "reverse_idle (session_net k n)" "linked (session_net k n) (Client 5500)"
    "hosts (session_net k n) = hosts n"
  using assms by (simp_all add: session_net_def reverse_idle_def)

lemma dsp_ready_session: "dsp_ready as U n \<Longrightarrow> dsp_ready as (session_pipe k as U) (session_net k n)"
  by (cases "k = 0") (auto simp: dsp_ready_def session_pipe_def session_net_def
      intro!: exI [of _ False] exI [of _ "stream_sock (Client 8800)"])

lemma edited_again: "starred 1 name = name' \<Longrightarrow> starred k name' = starred (Suc k) name"
  by (auto simp: starred_def split: if_splits)

lemma user_edits:
  assumes "stores_buffer A" "D = down_of 5500 True (stream_sock (Server 5500))"
  shows "well_formed g \<Longrightarrow> current_menu g = 2 \<Longrightarrow> \<not> exit_status g \<Longrightarrow> file_loaded_status g \<Longrightarrow>
    stdin g = endl @ typed (replicate k ''1'' @ ls) \<Longrightarrow> stereo A (audio_file g) \<Longrightarrow>
    filename_display_alias g \<noteq> '''' \<Longrightarrow>
    connected_to (gui_pipe g) (Client 5500) \<Longrightarrow> linked n (Client 5500) \<Longrightarrow> reverse_idle n \<Longrightarrow> dsp_ready as U n \<Longrightarrow>
    leads (procs (bind_io (while_io (gui_round A) g) kg) (bind_io (while_io dsp_round (D, U)) kd)
      (bind_io (while_io reverse_round ()) kr)) n
    (procs (bind_io (while_io (gui_round A) (edited A k g\<lparr>stdin := endl @ typed ls\<rparr>)) kg)
      (bind_io (while_io dsp_round (D, session_pipe k as U)) kd)
      (bind_io (while_io reverse_round ()) kr)) (session_net k n)"
proof (induction k arbitrary: g n U)
  case 0
  then have "edited A 0 g\<lparr>stdin := endl @ typed ls\<rparr> = g"
    by (simp add: edited_def starred_def)
  then show ?case by (simp add: session_pipe_def session_net_def)
next
  case (Suc k)
  obtain left right where lr: "af_samples A (audio_file g) = [left, right]" "sendable left" "sendable right"
    using Suc.prems(6) by (auto simp: stereo_def)
  let ?rest = "endl @ typed (replicate k ''1'' @ ls)"
  let ?g = "g\<lparr>stdin := ?rest\<rparr>"
  let ?name = "starred 1 (filename_display_alias g)"
  let ?g' = "?g\<lparr>audio_file := edit A (audio_file g), filename_display_alias := ?name\<rparr>"
  let ?U' = "up_of 8800 False (stream_sock (Client 8800)) as"
  have rd: "read_int (ignore_line (stdin g)) = (Some 1, ?rest)"
    using Suc.prems(5) by (simp add: typed_simps read_digit)
  have mk: "mark_alias (filename_display_alias ?g) = Inr ?name"
    using Suc.prems(7) by (simp add: mark_alias_def starred_def)
  have upd: "?g\<lparr>audio_file := af_set_buffer A [rev left, rev right] (audio_file ?g), filename_display_alias := ?name\<rparr> = ?g'"
    using lr(1) by (simp add: edit_def)
  have "leads (procs (bind_io (run_menu_function A audio_effects_reverse ?g)
      (\<lambda>g. Tau (bind_io (while_io (gui_round A) g) kg))) (bind_io (while_io dsp_round (D, U)) kd)
      (bind_io (while_io reverse_round ()) kr)) n
    (procs (Tau (bind_io (while_io (gui_round A) ?g') kg))
      (bind_io (while_io dsp_round (D, ?U')) kd) (bind_io (while_io reverse_round ()) kr)) (session_net 1 n)"
    using reverse_session [of ?g n as U A left right ?name D "\<lambda>g. Tau (bind_io (while_io (gui_round A) g) kg)" kd kr]
      Suc.prems lr mk assms(2) unfolding upd by (simp add: session_net_def)
  also have "leads (procs (Tau (bind_io (while_io (gui_round A) ?g') kg))
      (bind_io (while_io dsp_round (D, ?U')) kd) (bind_io (while_io reverse_round ()) kr)) (session_net 1 n)
    (procs (bind_io (while_io (gui_round A) (edited A k ?g'\<lparr>stdin := endl @ typed ls\<rparr>)) kg)
      (bind_io (while_io dsp_round (D, session_pipe k as ?U')) kd)
      (bind_io (while_io reverse_round ()) kr)) (session_net k (session_net 1 n))"
    by (rule then_silent, rule Suc.IH)
      (use Suc.prems stereo_edit [OF assms(1)] session_net_facts [of n 1] dsp_ready_session [of as U n 1]
       in \<open>simp_all add: session_pipe_def starred_def\<close>)
  finally have run: "leads (procs (bind_io (run_menu_function A audio_effects_reverse ?g)
      (\<lambda>g. Tau (bind_io (while_io (gui_round A) g) kg))) (bind_io (while_io dsp_round (D, U)) kd)
      (bind_io (while_io reverse_round ()) kr)) n
    (procs (bind_io (while_io (gui_round A) (edited A (Suc k) g\<lparr>stdin := endl @ typed ls\<rparr>)) kg)
      (bind_io (while_io dsp_round (D, session_pipe (Suc k) as U)) kd)
      (bind_io (while_io reverse_round ()) kr)) (session_net (Suc k) n)"
    using edited_again [where name = "filename_display_alias g" and k = k, OF refl] session_again(1) [of k n] session_again(2) [of k as U]
    by (simp add: edited_def funpow_swap1)
  show ?case
    by (rule user_chooses [OF Suc.prems(1,3) rd refl _ _ refl])
      (use run Suc.prems(2) in simp_all)
qed

subsection \<open>The whole program\<close>

text \<open>The GUI once it is connected, with what the user can change left open.\<close>

definition gui_state ::
  "bool \<Rightarrow> int \<Rightarrow> bool \<Rightarrow> 'af \<Rightarrow> string \<Rightarrow> addr list \<Rightarrow> files \<Rightarrow> string \<Rightarrow> 'af gui" where
  "gui_state ex cur loaded af name as fs input =
     \<lparr>exit_status = ex, current_menu = cur, file_loaded_status = loaded, audio_file = af,
      filename_display_alias = name, header = [rule_line, ''File: '', rule_line], menus = all_menus,
      num_menus = 3, gui_pipe = up_of 5500 True (stream_sock (Client 5500)) as, stdin = input, disk = fs\<rparr>"

lemma gui_state_simps [simp]:
  "exit_status (gui_state ex cur loaded af name as fs input) = ex"
  "current_menu (gui_state ex cur loaded af name as fs input) = cur"
  "file_loaded_status (gui_state ex cur loaded af name as fs input) = loaded"
  "audio_file (gui_state ex cur loaded af name as fs input) = af"
  "filename_display_alias (gui_state ex cur loaded af name as fs input) = name"
  "gui_pipe (gui_state ex cur loaded af name as fs input) = up_of 5500 True (stream_sock (Client 5500)) as"
  "stdin (gui_state ex cur loaded af name as fs input) = input"
  "disk (gui_state ex cur loaded af name as fs input) = fs"
  "(gui_state ex cur loaded af name as fs input)\<lparr>exit_status := ex'\<rparr> = gui_state ex' cur loaded af name as fs input"
  "(gui_state ex cur loaded af name as fs input)\<lparr>current_menu := cur'\<rparr> = gui_state ex cur' loaded af name as fs input"
  "(gui_state ex cur loaded af name as fs input)\<lparr>stdin := input'\<rparr> = gui_state ex cur loaded af name as fs input'"
  "well_formed (gui_state ex cur loaded af name as fs input) \<longleftrightarrow> 0 \<le> cur \<and> cur \<le> 2"
  by (auto simp: gui_state_def well_formed_def)

lemma set_current_menu_state [simp]:
  "0 \<le> c \<Longrightarrow> c \<le> 3 \<Longrightarrow>
   set_current_menu c (gui_state ex cur loaded af name as fs input) = gui_state ex c loaded af name as fs input"
  by (simp add: set_current_menu_def gui_state_def)

text \<open>The start of the three processes, each with what it does when it has returned.\<close>

definition start_net :: "addr list \<Rightarrow> net" where
  "start_net as = \<lparr>sides = \<lambda>_. idle_side, listening = \<lambda>_. False, hosts = as, console = \<lambda>_. []\<rparr>"

lemma start_net_simps [simp]:
  "sides (start_net as) ep = idle_side" "\<not> listening (start_net as) q" "hosts (start_net as) = as"
  "\<not> conn idle_side"
  by (simp_all add: start_net_def idle_side_def)

lemma start_up:
  assumes "V4 \<in> set as"
    "leads (procs (bind_io (while_io (gui_round A) (gui_state False 0 False (af_new A) ''No file loaded'' as fs input))
        (\<lambda>g. bind_io (destroy_upstream (gui_pipe g)) (\<lambda>_. kg (0, g))))
      (bind_io (while_io dsp_round (down_of 5500 True (stream_sock (Server 5500)),
        up_of 8800 False (construct (Client 8800)) as)) kd) r)
      (open_link 5500 (set_listening 5500 True (start_net as))) ps' n'"
  shows "leads (procs (bind_io (gui_main A input fs) kg) (bind_io dsp_main kd) r) (start_net as) ps' n'"
proof -
  have g: "set_current_menu 0 \<lparr>exit_status = False, current_menu = 0, file_loaded_status = False,
      audio_file = af_new A, filename_display_alias = ''No file loaded'',
      header = [rule_line, ''File: '', rule_line], menus = [main_menu, file_options, audio_effects],
      num_menus = 3, gui_pipe = up_of 5500 True (stream_sock (Client 5500)) as, stdin = input, disk = fs\<rparr>
    = gui_state False 0 False (af_new A) ''No file loaded'' as fs input"
    by (simp add: gui_state_def all_menus_def set_current_menu_def)
  show ?thesis
    unfolding gui_main_def dsp_main_def create_wavetech_gui_def new_gui_def bind_io_assoc
    by (rule then_works(1) [OF works_new_upstream], simp,
        rule then_works(2) [OF works_new_downstream], simp, simp,
        simp add: gui_connect_def add_menu_def set_header_def, rule then_print, rule gui_meets_dsp)
      (use assms in \<open>simp_all add: g then_print then_works(2) [OF works_new_upstream]\<close>)
qed

text \<open>The last round: the GUI leaves its loop and closes its socket.\<close>

lemma gui_leaves:
  "exit_status g \<Longrightarrow> leads (procs (kg g) d r) n ps' n' \<Longrightarrow>
   leads (procs (bind_io (while_io (gui_round A) g) kg) d r) n ps' n'"
  by (subst while_io_unfold) (simp add: gui_round_def)

text \<open>A menu entry that only changes the menu.\<close>

lemma user_switches:
  assumes "0 \<le> cur" "cur \<le> 2" "read_int (ignore_line input) = (Some k, rest)" "0 \<le> k"
    "k < num_options (all_menus ! nat cur)" "0 \<le> c" "c \<le> 2"
    "\<And>g. run_menu_function A (menu_functions (all_menus ! nat cur) ! nat k) g = Ret (set_current_menu c g)"
    "leads (procs (bind_io (while_io (gui_round A) (gui_state False c loaded af name as fs rest)) kg) d r) n ps' n'"
  shows "leads (procs (bind_io (while_io (gui_round A) (gui_state False cur loaded af name as fs input)) kg) d r) n ps' n'"
proof (rule user_chooses [OF _ _ _ refl _ _ refl])
  show "leads (procs (bind_io (run_menu_function A
      (menu_functions (all_menus ! nat (current_menu (gui_state False cur loaded af name as fs input))) ! nat k)
      (gui_state False cur loaded af name as fs input\<lparr>stdin := rest\<rparr>))
    (\<lambda>g. Tau (bind_io (while_io (gui_round A) g) kg))) d r) n ps' n'"
    unfolding gui_state_simps assms(8) using assms(6,7,9) by (simp add: then_silent)
qed (use assms(1-5) in simp_all)

lemma user_loads:
  assumes "word path" "af_num_channels A (af_load A path fs af) = 2"
    "leads (procs (bind_io (while_io (gui_round A) (gui_state False 1 True (af_load A path fs af) path as fs (endl @ rest))) kg) d r)
      n ps' n'"
  shows "leads (procs (bind_io (while_io (gui_round A)
      (gui_state False 1 loaded af name as fs (endl @ CHR ''1'' # endl @ path @ endl @ rest))) kg) d r) n ps' n'"
proof (rule user_chooses [where k = 1 and rest = "endl @ path @ endl @ rest" and f = file_options_load_file
    and m = file_options])
  let ?g = "gui_state False 1 loaded af name as fs (endl @ path @ endl @ rest)"
  have "?g\<lparr>stdin := endl @ rest, audio_file := af_load A path fs af, filename_display_alias := path,
      file_loaded_status := True\<rparr> = gui_state False 1 True (af_load A path fs af) path as fs (endl @ rest)"
    by (simp add: gui_state_def)
  with assms locally_load [of ?g path rest A Gui_Proc] have load: "locally Gui_Proc (load_audio_file A ?g)
      (gui_state False 1 True (af_load A path fs af) path as fs (endl @ rest))" by simp
  show "leads (procs (bind_io (run_menu_function A file_options_load_file
      (gui_state False 1 loaded af name as fs (endl @ CHR ''1'' # endl @ path @ endl @ rest)
        \<lparr>stdin := endl @ path @ endl @ rest\<rparr>))
      (\<lambda>g. Tau (bind_io (while_io (gui_round A) g) kg))) d r) n ps' n'"
    unfolding gui_state_simps run_menu_function.simps
    by (rule then_locally(1) [OF load], rule then_silent, rule assms(3))
qed (simp_all add: read_digit)

lemma session_menus:
  assumes "word path" "af_num_channels A (af_load A path fs (af_new A)) = 2"
  shows "leads (procs (bind_io (while_io (gui_round A) (gui_state False 0 False (af_new A) ''No file loaded'' as fs
        (typed (['''', ''1'', ''1'', path, ''0'', ''2''] @ ls)))) kg) d r) n
      (procs (bind_io (while_io (gui_round A)
        (gui_state False 2 True (af_load A path fs (af_new A)) path as fs (endl @ typed ls))) kg) d r) n"
proof (rule user_switches [where cur = 0 and c = 1 and k = 1])
  let ?G = "\<lambda>g. bind_io (while_io (gui_round A) g) kg"
  let ?af = "af_load A path fs (af_new A)"
  let ?g = "gui_state False 2 True ?af path as fs (endl @ typed ls)"
  have two: "leads (procs (?G (gui_state False 0 True ?af path as fs (endl @ typed (''2'' # ls)))) d r) n
      (procs (?G ?g) d r) n"
    by (rule user_switches [where cur = 0 and c = 2 and k = 2, OF _ _ _ _ _ _ _ _ leads_refl])
      (simp_all add: typed_simps read_digit)
  have zero: "leads (procs (?G (gui_state False 1 True ?af path as fs (endl @ typed ([''0'', ''2''] @ ls)))) d r) n
      (procs (?G ?g) d r) n"
    by (rule user_switches [where cur = 1 and c = 0 and k = 0, OF _ _ _ _ _ _ _ _ two])
      (simp_all add: typed_simps read_digit)
  show "leads (procs (?G (gui_state False 1 False (af_new A) ''No file loaded'' as fs
      (endl @ typed ([''1'', path, ''0'', ''2''] @ ls)))) d r) n (procs (?G ?g) d r) n"
    using user_loads [OF assms zero] by (simp add: typed_simps)
qed (simp_all add: typed_simps read_digit)

lemma whole_session:
  assumes "V4 \<in> set as" "word path" "af_num_channels A (af_load A path fs (af_new A)) = 2"
    "stereo A (af_load A path fs (af_new A))" "stores_buffer A"
  shows "\<exists>n'. leads
    (procs (bind_io (gui_main A (typed (['''', ''1'', ''1'', path, ''0'', ''2''] @ replicate k ''1'' @ [''0'', ''0''])) fs) kg)
      (bind_io dsp_main kd) (bind_io reverse_main kr)) (start_net as)
    (procs (kg (0, gui_state True 0 True ((edit A ^^ k) (af_load A path fs (af_new A))) (starred k path) as fs endl))
      (kd 0) (kr 0)) n'"
proof -
  let ?af = "af_load A path fs (af_new A)"
  let ?D = "down_of 5500 True (stream_sock (Server 5500))"
  let ?U = "up_of 8800 False (construct (Client 8800)) as"
  let ?n = "open_link 5500 (set_listening 5500 True (start_net as))"
  let ?in = "\<lambda>ls. endl @ typed ls"
  let ?kg = "\<lambda>g. bind_io (destroy_upstream (gui_pipe g)) (\<lambda>_. kg (0, g))"
  let ?G = "\<lambda>g. bind_io (while_io (gui_round A) g) ?kg"
  let ?R = "bind_io (while_io reverse_round ()) kr"
  let ?dsp = "\<lambda>U. bind_io (while_io dsp_round (?D, U)) kd"
  let ?g = "gui_state False 2 True ?af path as fs (?in (replicate k ''1'' @ [''0'', ''0'']))"
  let ?g' = "\<lambda>c ls. gui_state False c True ((edit A ^^ k) ?af) (starred k path) as fs (?in ls)"
  let ?final = "procs (kg (0, gui_state True 0 True ((edit A ^^ k) ?af) (starred k path) as fs endl)) (kd 0) (kr 0)"
  have idle: "reverse_idle ?n" by (simp add: reverse_idle_def)
  have ready: "dsp_ready as ?U ?n"
    using assms(1) by (auto simp: dsp_ready_def intro!: exI [of _ False] exI [of _ "construct (Client 8800)"])
  have linked: "linked ?n (Client 5500)" by simp
  have menus: "leads (procs (?G (gui_state False 0 False (af_new A) ''No file loaded'' as fs
        (typed (['''', ''1'', ''1'', path, ''0'', ''2''] @ replicate k ''1'' @ [''0'', ''0''])))) (?dsp ?U) ?R) ?n
      (procs (?G ?g) (?dsp ?U) ?R) ?n"
    by (rule session_menus [OF assms(2,3)])
  have edits: "leads (procs (?G ?g) (?dsp ?U) ?R) ?n
      (procs (?G (?g' 2 [''0'', ''0''])) (?dsp (session_pipe k as ?U)) ?R) (session_net k ?n)"
  proof -
    have "edited A k ?g\<lparr>stdin := endl @ typed [''0'', ''0'']\<rparr> = ?g' 2 [''0'', ''0'']"
      by (simp add: edited_def gui_state_def)
    with user_edits [OF assms(5) refl, of ?g k "[''0'', ''0'']" ?n as ?U ?kg kd kr] assms(2,4) idle ready linked
    show ?thesis by (simp add: word_def)
  qed
  let ?n' = "all_closed (open_link 8800 (session_net k ?n))"
  have leave: "leads (procs (?G (?g' 2 [''0'', ''0''])) (?dsp (session_pipe k as ?U)) ?R) (session_net k ?n)
      ?final (hang_up (Client 5500) ?n')"
  proof (rule user_switches [where cur = 2 and c = 0 and k = 0])
    let ?g'' = "gui_state False 0 True ((edit A ^^ k) ?af) (starred k path) as fs endl"
    have "leads (procs (bind_io (exit_program ?g'') (\<lambda>g. Tau (?G g))) (?dsp (session_pipe k as ?U)) ?R) (session_net k ?n)
        (procs (Tau (?G (?g''\<lparr>exit_status := True\<rparr>))) (kd 0) (kr 0)) ?n'"
      by (rule exit_session [OF _ _ _ dsp_ready_session [OF ready] refl])
        (use session_net_facts [OF idle linked] in simp_all)
    also have "leads (procs (Tau (?G (?g''\<lparr>exit_status := True\<rparr>))) (kd 0) (kr 0)) ?n' ?final (hang_up (Client 5500) ?n')"
      by (rule then_silent, rule gui_leaves) (simp_all add: gui_closes)
    finally show "leads (procs (?G (?g' 0 [''0''])) (?dsp (session_pipe k as ?U)) ?R) (session_net k ?n)
        ?final (hang_up (Client 5500) ?n')"
      by (intro user_chooses [where k = 0 and rest = endl and m = main_menu and f = main_menu_exit_program])
        (simp_all add: typed_simps read_digit(1) [of "[]", simplified])
  qed (simp_all add: typed_simps read_digit)
  have "leads (procs (bind_io (gui_main A (typed (['''', ''1'', ''1'', path, ''0'', ''2''] @ replicate k ''1'' @ [''0'', ''0''])) fs) kg)
      (bind_io dsp_main kd) ?R) (start_net as) ?final (hang_up (Client 5500) ?n')"
    by (rule start_up [OF assms(1)])
      (rule leads_trans [OF menus leads_trans [OF edits leave]])
  then show ?thesis unfolding reverse_main_def by blast
qed

end
