(* ===== verification/Deadlock.thy ===== *)
theory Deadlock
  imports Gui_Runs
begin

text \<open>
  An edit of audio whose left channel is a whole number of chunks: the sender cuts its last
  chunk to nothing, the receiver never sees a short read, and all three services end up
  waiting.
\<close>

definition waits :: "'r procs \<times> net \<Rightarrow> pid \<Rightarrow> bool" where
  "waits s p \<longleftrightarrow> (\<exists>e h. fst s p = Vis e h \<and> net_step p (snd s) e = None)"

text \<open>The sender waits for the confirmation, the receiver for more audio.\<close>

lemma recv_message_calls:
  assumes "connected_to P ep"
  shows "\<exists>h. bind_io (recv_message P) k = Vis (Os_poll_read ep) h"
  using assms by (simp add: recv_message_def wait_read_def poll_read_def connected_to_def Let_def)

lemma recv_loop_calls:
  assumes "connected_to Q ep" "length recv = CHUNK_SIZE"
  shows "\<exists>h. bind_io (while_io (recv_round Q) (acc, recv, idx)) k = Vis (Os_recv ep 4096) h"
  using assms
  by (subst while_io_unfold) (simp add: recv_round_def read_some_def sync_recv1_def recv1_def
      connected_to_def Let_def CHUNK_SIZE_def while_io_unfold [of _ "()"])

lemma runs_overlong_audio:
  assumes "ps p = bind_io (send_audio P (left # rest)) k" "ps p' = bind_io (recv_audio Q) k'" "p \<noteq> p'"
    "owner ep = Some p" "owner (across ep) = Some p'" "connected_to P ep" "connected_to Q (across ep)"
    "linked n ep" "left \<noteq> []" "CHUNK_SIZE dvd length left" "length left < 2 ^ 32"
  shows "\<exists>h h'. system_runs (ps, n)
    (ps(p := Vis (Os_poll_read ep) h, p' := Vis (Os_recv (across ep) 4096) h'), n)"
proof -
  note lf = linked_facts [OF assms(8)]
  let ?w = "wire_channel left"
  let ?k1 = "\<lambda>c. bind_io (recv_message P) (\<lambda>msg. bind_io (if msg \<noteq> ''CONFIRMED'' then Ret False
       else bind_io (lift_io (vec_get (left # rest) 1)) (\<lambda>right. bind_io (send_channel P right c) (\<lambda>_. Ret True))) k)"
  let ?k1' = "\<lambda>(l, r). bind_io (send_message Q ''CONFIRMED'') (\<lambda>_. bind_io (recv_channel Q r)
       (\<lambda>(right, r). k' [l, right]))"
  have ps: "ps p = bind_io (send_channel P left []) ?k1" "ps p' = bind_io (recv_channel Q []) ?k1'"
    using assms(1,2) by (simp_all add: send_audio_def recv_audio_def split_def cong: if_cong)
  obtain c where c: "does p (send_channel P left []) n c (put ep (map audio_bytes (chunks CHUNK_SIZE ?w)) n)"
    using does_send_channel [OF assms(6,4) lf(1) assms(9,11), of "[]"] by blast
  have w: "CHUNK_SIZE dvd length ?w" "length ?w < 2 ^ 32"
    using assms(10,11) by (simp_all add: wire_channel_def)
  obtain recv' where recv': "length recv' = CHUNK_SIZE"
    "goes p' (recv_channel Q []) (put ep (map audio_bytes (chunks CHUNK_SIZE ?w)) n)
      (while_io (recv_round Q) (?w, recv', of_nat (length ?w))) n"
    using goes_recv_channel [OF assms(7,5) lf(2,4) w(2,1), of "[]"] by auto
  obtain h where h: "?k1 c = Vis (Os_poll_read ep) h"
    using recv_message_calls [OF assms(6)] by blast
  obtain h' where h': "bind_io (while_io (recv_round Q) (?w, recv', of_nat (length ?w))) ?k1' = Vis (Os_recv (across ep) 4096) h'"
    using recv_loop_calls [OF assms(7) recv'(1)] by blast
  let ?ps1 = "ps(p := Vis (Os_poll_read ep) h)"
  let ?n1 = "put ep (map audio_bytes (chunks CHUNK_SIZE ?w)) n"
  from runs_does [of p _ n c ?n1 ps ?k1, OF c ps(1)] have "system_runs (ps, n) (?ps1, ?n1)" by (simp only: h)
  also from goes_bind [OF recv'(2), of ?k1'] have "system_runs (?ps1, ?n1) (?ps1(p' := Vis (Os_recv (across ep) 4096) h'), n)"
    unfolding h' by (rule runs_goes) (use ps(2) assms(3) in simp)
  finally show ?thesis by blast
qed

text \<open>The reverse service listens and waits in \<open>accept\<close>.\<close>

lemma reverse_accepts:
  assumes "reverse_idle n"
  shows "\<exists>h. leads (procs g d (bind_io (while_io reverse_round ()) kr)) n
    (procs g d (Vis (Os_accept (Server 8800)) h)) (set_listening 8800 True n)"
proof -
  obtain h where h: "downstream_connect (down_of 8800 False (construct (Server 8800))) = Vis (Os_accept (Server 8800)) h"
    by (rule downstream_connect_waits [of "down_of 8800 False (construct (Server 8800))" 8800]) simp_all
  show ?thesis
    by (rule exI, subst while_io_unfold, simp add: reverse_round_def,
      rule then_works(3) [OF works_new_downstream], simp, use assms in \<open>simp add: reverse_idle_def\<close>,
      simp add: h, rule leads_refl)
qed

text \<open>The GUI asks for the edit and starts to send.\<close>

lemma edit_starts:
  assumes "connected_to (gui_pipe g) (Client 5500)" "linked n (Client 5500)"
    "file_loaded_status g" "af_samples A (audio_file g) = left # rest"
    "D = down_of 5500 True (stream_sock (Server 5500))"
  shows "\<exists>kg' kd'. leads (procs (bind_io (effects_reverse A g) kg) (bind_io (while_io dsp_round (D, U)) kd) r) n
    (procs (bind_io (send_audio (gui_pipe g) (left # rest)) kg') (bind_io (recv_audio D) kd') r) n"
  by (intro exI, subst while_io_unfold [of dsp_round], simp add: effects_reverse_def gui_send_message_def
      gui_recv_message_def gui_send_audio_def dsp_round_apply dsp_reverse_def assms(3-5) cong: if_cong,
    rule then_print, rule gui_tells_dsp, use assms in \<open>simp_all add: dsp_reverse_def\<close>,
    rule then_print, rule dsp_tells_gui, simp_all, rule leads_refl)

lemma edit_deadlocks:
  assumes "connected_to (gui_pipe g) (Client 5500)" "linked n (Client 5500)" "reverse_idle n"
    "file_loaded_status g" "af_samples A (audio_file g) = left # rest"
    "left \<noteq> []" "CHUNK_SIZE dvd length left" "length left < 2 ^ 32"
    "D = down_of 5500 True (stream_sock (Server 5500))"
  shows "\<exists>ps n'. system_runs (procs (bind_io (effects_reverse A g) kg) (bind_io (while_io dsp_round (D, U)) kd)
      (bind_io (while_io reverse_round ()) kr), n) (ps, n') \<and> stuck system_step (ps, n') \<and> (\<forall>p. waits (ps, n') p)"
proof -
  obtain kg' kd' where "leads (procs (bind_io (effects_reverse A g) kg) (bind_io (while_io dsp_round (D, U)) kd)
      (bind_io (while_io reverse_round ()) kr)) n
    (procs (bind_io (send_audio (gui_pipe g) (left # rest)) kg') (bind_io (recv_audio D) kd')
      (bind_io (while_io reverse_round ()) kr)) n"
    using edit_starts [OF assms(1,2,4,5,9)] by blast
  also obtain h'' where "leads (procs (bind_io (send_audio (gui_pipe g) (left # rest)) kg') (bind_io (recv_audio D) kd')
      (bind_io (while_io reverse_round ()) kr)) n
    (procs (bind_io (send_audio (gui_pipe g) (left # rest)) kg') (bind_io (recv_audio D) kd')
      (Vis (Os_accept (Server 8800)) h'')) (set_listening 8800 True n)"
    using reverse_accepts [OF assms(3)] by blast
  finally obtain c where run: "system_runs (procs (bind_io (effects_reverse A g) kg) (bind_io (while_io dsp_round (D, U)) kd)
      (bind_io (while_io reverse_round ()) kr), n)
    (procs (bind_io (send_audio (gui_pipe g) (left # rest)) kg') (bind_io (recv_audio D) kd')
      (Vis (Os_accept (Server 8800)) h''), (set_listening 8800 True n)\<lparr>console := c\<rparr>)"
    using leads_runs by blast
  let ?ps = "procs (bind_io (send_audio (gui_pipe g) (left # rest)) kg') (bind_io (recv_audio D) kd')
      (Vis (Os_accept (Server 8800)) h'')"
  let ?n = "(set_listening 8800 True n)\<lparr>console := c\<rparr>"
  have linked: "linked ?n (Client 5500)" using assms(2) by simp
  have "\<exists>h h'. system_runs (?ps, ?n) (?ps(Gui_Proc := Vis (Os_poll_read (Client 5500)) h,
      Dsp_Proc := Vis (Os_recv (across (Client 5500)) 4096) h'), ?n)"
    by (rule runs_overlong_audio [OF _ _ _ _ _ assms(1) _ linked assms(6-8)]) (simp add: assms(9))+
  then obtain h h' where "system_runs (?ps, ?n) (procs (Vis (Os_poll_read (Client 5500)) h)
      (Vis (Os_recv (Server 5500) 4096) h') (Vis (Os_accept (Server 8800)) h''), ?n)"
    by auto
  with run have run: "system_runs (procs (bind_io (effects_reverse A g) kg) (bind_io (while_io dsp_round (D, U)) kd)
      (bind_io (while_io reverse_round ()) kr), n) (procs (Vis (Os_poll_read (Client 5500)) h)
      (Vis (Os_recv (Server 5500) 4096) h') (Vis (Os_accept (Server 8800)) h''), ?n)" by (rule rtranclp_trans)
  let ?final = "(procs (Vis (Os_poll_read (Client 5500)) h) (Vis (Os_recv (Server 5500) 4096) h')
    (Vis (Os_accept (Server 8800)) h''), ?n)"
  note lf = linked_facts [OF linked]
  have none: "net_step Gui_Proc ?n (Os_poll_read (Client 5500)) = None"
    "net_step Dsp_Proc ?n (Os_recv (Server 5500) 4096) = None"
    "net_step Reverse_Proc ?n (Os_accept (Server 8800)) = None"
    using net_read_waits [of "Client 5500" Gui_Proc ?n] net_read_waits [of "Server 5500" Dsp_Proc ?n] lf
      loopback.accept_meets by simp_all
  have waits: "waits ?final p" for p
    using none by (cases p) (auto simp: waits_def)
  have "stuck system_step ?final"
    unfolding stuck_def
  proof (intro allI notI)
    fix t assume "system_step ?final t"
    then show False
    proof (cases rule: sys_stepE)
      case (silent p t')
      then show False by (cases p) simp_all
    next
      case (call p e h r n')
      then show False using none by (cases p) auto
    next
      case (meet p q h p' h' n')
      then show False by (cases p) simp_all
    qed
  qed
  with run waits show ?thesis by blast
qed

lemma session_deadlocks:
  assumes "V4 \<in> set as" "word path" "af_num_channels A (af_load A path fs (af_new A)) = 2"
    "af_samples A (af_load A path fs (af_new A)) = left # rest"
    "left \<noteq> []" "CHUNK_SIZE dvd length left" "length left < 2 ^ 32"
  shows "\<exists>ps n'. system_runs
    (procs (bind_io (gui_main A (typed (['''', ''1'', ''1'', path, ''0'', ''2''] @ ''1'' # ls)) fs) kg)
      (bind_io dsp_main kd) (bind_io reverse_main kr), start_net as) (ps, n') \<and>
    stuck system_step (ps, n') \<and> (\<forall>p. waits (ps, n') p)"
proof -
  let ?af = "af_load A path fs (af_new A)"
  let ?D = "down_of 5500 True (stream_sock (Server 5500))"
  let ?U = "up_of 8800 False (construct (Client 8800)) as"
  let ?n = "open_link 5500 (set_listening 5500 True (start_net as))"
  let ?kg = "\<lambda>g. bind_io (destroy_upstream (gui_pipe g)) (\<lambda>_. kg (0, g))"
  let ?G = "\<lambda>g. bind_io (while_io (gui_round A) g) ?kg"
  let ?R = "bind_io (while_io reverse_round ()) kr"
  let ?d = "bind_io (while_io dsp_round (?D, ?U)) kd"
  let ?g = "\<lambda>ls. gui_state False 2 True ?af path as fs (endl @ typed ls)"
  let ?start = "procs (bind_io (effects_reverse A (?g ls)) (\<lambda>g. Tau (?G g))) ?d ?R"
  have "leads (procs (?G (?g (''1'' # ls))) ?d ?R) ?n ?start ?n"
    by (rule user_chooses [where k = 1 and rest = "endl @ typed ls" and m = audio_effects and f = audio_effects_reverse])
      (simp_all add: typed_simps read_digit)
  from leads_trans [OF session_menus [OF assms(2,3)] this]
  have "leads (procs (bind_io (gui_main A (typed (['''', ''1'', ''1'', path, ''0'', ''2''] @ ''1'' # ls)) fs) kg)
      (bind_io dsp_main kd) ?R) (start_net as) ?start ?n"
    by (rule start_up [OF assms(1)])
  then obtain c where run: "system_runs (procs (bind_io (gui_main A (typed (['''', ''1'', ''1'', path, ''0'', ''2''] @ ''1'' # ls)) fs) kg)
      (bind_io dsp_main kd) ?R, start_net as) (?start, ?n\<lparr>console := c\<rparr>)"
    using leads_runs by blast
  have "\<exists>ps n'. system_runs (?start, ?n\<lparr>console := c\<rparr>) (ps, n') \<and> stuck system_step (ps, n') \<and> (\<forall>p. waits (ps, n') p)"
    by (rule edit_deadlocks) (use assms(4-7) in \<open>simp_all add: reverse_idle_def\<close>)
  with run show ?thesis
    unfolding reverse_main_def by (meson rtranclp_trans)
qed

end
