(* ===== verification/Stream_Traces.thy ===== *)
theory Stream_Traces
  imports Pipe_Loops
begin

text \<open>
  What the operations of asio and of the pipes do on every trace of answers of the
  operating system: retries, short reads and partial writes included.  \<open>sent\<close> and
  \<open>received\<close> are the bytes that a trace moved.
\<close>

fun sent_by :: "event \<times> resp \<Rightarrow> byte list" where
  "sent_by (Os_send ep bs, R_size n) = take n bs"
| "sent_by _ = []"

fun received_by :: "event \<times> resp \<Rightarrow> byte list" where
  "received_by (Os_recv ep n, R_data bs) = bs"
| "received_by _ = []"

fun delivered_by :: "event \<times> resp \<Rightarrow> byte list list" where
  "delivered_by (Os_recv ep n, R_data bs) = [bs]"
| "delivered_by _ = []"

text \<open>The results of the single reads, in order.\<close>

definition deliveries :: "(event \<times> resp) list \<Rightarrow> byte list list" where
  "deliveries es = concat (map delivered_by es)"

definition sent :: "(event \<times> resp) list \<Rightarrow> byte list" where
  "sent es = concat (map sent_by es)"

definition received :: "(event \<times> resp) list \<Rightarrow> byte list" where
  "received es = concat (map received_by es)"

definition no_errors :: "(event \<times> resp) list \<Rightarrow> bool" where
  "no_errors es \<longleftrightarrow> list_all (\<lambda>(e, r). case r of R_error _ \<Rightarrow> False | _ \<Rightarrow> True) es"

lemma trace_simps [simp]:
  "sent [] = []" "sent (x # es) = sent_by x @ sent es" "sent (es @ fs) = sent es @ sent fs"
  "received [] = []" "received (x # es) = received_by x @ received es"
  "received (es @ fs) = received es @ received fs"
  "deliveries [] = []" "deliveries (x # es) = delivered_by x @ deliveries es"
  "deliveries (es @ fs) = deliveries es @ deliveries fs"
  by (simp_all add: sent_def received_def deliveries_def)

lemma concat_deliveries: "concat (deliveries es) = received es"
proof (induction es)
  case (Cons x es)
  then show ?case by (cases x rule: received_by.cases) simp_all
qed simp

lemma no_errors_simps [simp]:
  "no_errors []"
  "no_errors ((e, r) # es) \<longleftrightarrow> (case r of R_error _ \<Rightarrow> False | _ \<Rightarrow> True) \<and> no_errors es"
  "no_errors (es @ fs) \<longleftrightarrow> no_errors es \<and> no_errors fs"
  by (simp_all add: no_errors_def)

subsection \<open>Single calls\<close>

lemma poll_result_trace: "responds (poll_result st r) es (Ret v) \<Longrightarrow> es = []"
  by (auto simp: poll_result_def split: resp.splits)

lemma poll_trace:
  "responds (poll_read s st) es (Ret v) \<Longrightarrow> sent es = [] \<and> deliveries es = [] \<and> received es = []"
  "responds (poll_write s st) es (Ret v) \<Longrightarrow> sent es = [] \<and> deliveries es = [] \<and> received es = []"
  by (auto simp: poll_read_def poll_write_def responds_Vis_Ret_iff split: if_splits dest!: poll_result_trace)

lemma throw_error_trace: "responds (throw_error ec) es (Ret v) \<Longrightarrow> es = [] \<and> ec = None"
  by (cases ec) auto

lemma wait_trace:
  "responds (wait_read s) es (Ret v) \<Longrightarrow> sent es = [] \<and> deliveries es = [] \<and> received es = []"
  "responds (wait_write s) es (Ret v) \<Longrightarrow> sent es = [] \<and> deliveries es = [] \<and> received es = []"
  by (auto simp: wait_read_def wait_write_def split: prod.splits
      elim!: responds_bindE dest!: poll_trace throw_error_trace)

lemma recv1_trace:
  assumes "responds (recv1 s len) es (Ret (b, data, ec))"
  obtains "es = [(Os_recv (fd s) len, R_data data)]" "b = int (length data)" "length data \<le> len" "ec = None"
  | e where "es = [(Os_recv (fd s) len, R_error e)]" "b = - 1" "data = []" "ec = Some e"
proof -
  from assms obtain r fs where r: "es = (Os_recv (fd s) len, r) # fs"
    "responds (case r of
      R_data bs \<Rightarrow> if length bs \<le> len then Ret (int (length bs), bs, None) else Throw Bad_Response
    | R_error e \<Rightarrow> Ret (- 1, [], Some e)
    | _ \<Rightarrow> Throw Bad_Response) fs (Ret (b, data, ec))"
    by (auto simp: recv1_def responds_Vis_Ret_iff)
  show thesis
    by (cases r) (use r that in \<open>auto split: if_splits\<close>)
qed

lemma send1_trace:
  assumes "responds (send1 s data) es (Ret (b, ec))"
  obtains n where "es = [(Os_send (fd s) data, R_size n)]" "b = int n" "n \<le> length data" "ec = None"
  | e where "es = [(Os_send (fd s) data, R_error e)]" "b = - 1" "ec = Some e"
proof -
  from assms obtain r fs where r: "es = (Os_send (fd s) data, r) # fs"
    "responds (case r of
      R_size n \<Rightarrow> if n \<le> length data then Ret (int n, None) else Throw Bad_Response
    | R_error e \<Rightarrow> Ret (- 1, Some e)
    | _ \<Rightarrow> Throw Bad_Response) fs (Ret (b, ec))"
    by (auto simp: send1_def responds_Vis_Ret_iff)
  show thesis
    by (cases r) (use r that in \<open>auto split: if_splits\<close>)
qed

lemma poll_result_fail: "responds (poll_result st r) es (Ret (res, ec)) \<Longrightarrow> res < 0 \<Longrightarrow> \<exists>e. ec = Some e \<and> r = R_error e"
  by (cases r) (auto simp: poll_result_def)

lemma poll_fail:
  "responds (poll_read s st) es (Ret (res, ec)) \<Longrightarrow> res < 0 \<Longrightarrow> ec \<noteq> None"
  "responds (poll_write s st) es (Ret (res, ec)) \<Longrightarrow> res < 0 \<Longrightarrow> ec \<noteq> None"
  by (auto simp: poll_read_def poll_write_def responds_Vis_Ret_iff split: if_splits dest!: poll_result_fail)

subsection \<open>The retry loops\<close>

text \<open>A receive delivers what the last call delivered, at most as much as was asked for.\<close>

definition recv_attempt :: "sock \<Rightarrow> nat \<Rightarrow> unit \<Rightarrow> (unit + byte list \<times> asio_error option) io" where
  "recv_attempt s len = (\<lambda>_.
        bind_io (recv1 s len) (\<lambda>(bytes, data, ec).
          if has_flag (flags s) stream_oriented \<and> bytes = 0 then Ret (Inr ([], Some eof))
          else if bytes \<ge> 0 then Ret (Inr (data, ec))
          else if has_flag (flags s) user_set_non_blocking
              \<or> (ec \<noteq> Some would_block \<and> ec \<noteq> Some try_again) then Ret (Inr ([], ec))
          else bind_io (poll_read s 0) (\<lambda>(res, ec').
            if res < 0 then Ret (Inr ([], ec')) else Ret (Inl ()))))"

lemma recv_attempt_trace:
  assumes "responds (recv_attempt s len u) es (Ret z)"
  shows "case z of Inl _ \<Rightarrow> sent es = [] \<and> received es = [] \<and> deliveries es = []
    | Inr (data, ec) \<Rightarrow> received es = data \<and> (ec = None \<longrightarrow> deliveries es = [data]) \<and> sent es = [] \<and> length data \<le> len \<and>
        (ec = None \<longrightarrow> has_flag (flags s) stream_oriented \<longrightarrow> data \<noteq> [])"
proof -
  from assms obtain es1 es2 b data ec where tr: "es = es1 @ es2"
    "responds (recv1 s len) es1 (Ret (b, data, ec))"
    "responds (if has_flag (flags s) stream_oriented \<and> b = 0 then Ret (Inr ([], Some eof))
          else if b \<ge> 0 then Ret (Inr (data, ec))
          else if has_flag (flags s) user_set_non_blocking
              \<or> (ec \<noteq> Some would_block \<and> ec \<noteq> Some try_again) then Ret (Inr ([], ec))
          else bind_io (poll_read s 0) (\<lambda>(res, ec').
            if res < 0 then Ret (Inr ([], ec')) else Ret (Inl ()))) es2 (Ret z)"
    unfolding recv_attempt_def by (auto elim!: responds_bindE)
  from tr(2) show ?thesis
  proof (cases rule: recv1_trace)
    case 1
    with tr(1,3) show ?thesis by (auto split: if_splits)
  next
    case (2 e)
    with tr(1,3) show ?thesis
      by (auto split: if_splits sum.splits prod.splits elim!: responds_bindE
          dest: poll_trace poll_fail)
  qed
qed

lemma sync_recv1_trace:
  assumes "responds (sync_recv1 s len) es (Ret (data, ec))"
  shows "received es = data \<and> (ec = None \<longrightarrow> has_flag (flags s) stream_oriented \<longrightarrow> 0 < len \<longrightarrow> deliveries es = [data]) \<and>
    sent es = [] \<and> length data \<le> len \<and>
    (ec = None \<longrightarrow> has_flag (flags s) stream_oriented \<longrightarrow> 0 < len \<longrightarrow> data \<noteq> [])"
proof -
  have loop: "received es = data \<and> (ec = None \<longrightarrow> deliveries es = [data]) \<and> sent es = [] \<and> length data \<le> len \<and>
      (ec = None \<longrightarrow> has_flag (flags s) stream_oriented \<longrightarrow> data \<noteq> [])"
    if "loop_runs (recv_attempt s len) u es (data, ec)" for u es
    using that
  proof (induction u es "(data, ec)" rule: loop_runs.induct)
    case (finish u es)
    from recv_attempt_trace [OF finish] show ?case by simp
  next
    case (again u es u' fs)
    from recv_attempt_trace [OF again(1)] again(3) show ?case by simp
  qed
  show ?thesis
    using assms loop while_io_runs [of "recv_attempt s len"]
    by (auto simp: sync_recv1_def recv_attempt_def [symmetric] split: if_splits)
qed

text \<open>A send hands over a prefix of its buffer, all retries together.\<close>

definition send_attempt :: "sock \<Rightarrow> byte list \<Rightarrow> unit \<Rightarrow> (unit + nat \<times> asio_error option) io" where
  "send_attempt s data = (\<lambda>_.
        bind_io (send1 s data) (\<lambda>(bytes, ec).
          if bytes \<ge> 0 then Ret (Inr (nat bytes, ec))
          else if has_flag (flags s) user_set_non_blocking
              \<or> (ec \<noteq> Some would_block \<and> ec \<noteq> Some try_again) then Ret (Inr (0, ec))
          else bind_io (poll_write s 0) (\<lambda>(res, ec').
            if res < 0 then Ret (Inr (0, ec')) else Ret (Inl ()))))"

lemma send_attempt_trace:
  assumes "responds (send_attempt s data u) es (Ret z)"
  shows "case z of Inl _ \<Rightarrow> sent es = [] \<and> received es = []
    | Inr (n, ec) \<Rightarrow> sent es = take n data \<and> received es = [] \<and> n \<le> length data \<and>
        (ec \<noteq> None \<longrightarrow> n = 0 \<and> \<not> no_errors es)"
proof -
  from assms obtain es1 es2 b ec where tr: "es = es1 @ es2"
    "responds (send1 s data) es1 (Ret (b, ec))"
    "responds (if b \<ge> 0 then Ret (Inr (nat b, ec))
          else if has_flag (flags s) user_set_non_blocking
              \<or> (ec \<noteq> Some would_block \<and> ec \<noteq> Some try_again) then Ret (Inr (0, ec))
          else bind_io (poll_write s 0) (\<lambda>(res, ec').
            if res < 0 then Ret (Inr (0, ec')) else Ret (Inl ()))) es2 (Ret z)"
    unfolding send_attempt_def by (auto elim!: responds_bindE)
  from tr(2) show ?thesis
  proof (cases rule: send1_trace)
    case (1 n)
    with tr(1,3) show ?thesis by (auto split: if_splits)
  next
    case (2 e)
    with tr(1,3) show ?thesis
      by (auto split: if_splits sum.splits prod.splits elim!: responds_bindE
          dest: poll_trace poll_fail)
  qed
qed

lemma sync_send1_trace:
  assumes "responds (sync_send1 s data) es (Ret (n, ec))"
  shows "sent es = take n data \<and> received es = [] \<and> n \<le> length data \<and>
    (ec \<noteq> None \<longrightarrow> n = 0 \<and> (opened s \<longrightarrow> \<not> no_errors es))"
proof -
  have loop: "sent es = take n data \<and> received es = [] \<and> n \<le> length data \<and>
      (ec \<noteq> None \<longrightarrow> n = 0 \<and> \<not> no_errors es)"
    if "loop_runs (send_attempt s data) u es (n, ec)" for u es
    using that
  proof (induction u es "(n, ec)" rule: loop_runs.induct)
    case (finish u es)
    from send_attempt_trace [OF finish] show ?case by simp
  next
    case (again u es u' fs)
    from send_attempt_trace [OF again(1)] again(3) show ?case by simp
  qed
  show ?thesis
    using assms loop while_io_runs [of "send_attempt s data"]
    by (auto simp: sync_send1_def send_attempt_def [symmetric] split: if_splits)
qed

subsection \<open>The composed write\<close>

definition write_part ::
  "sock \<Rightarrow> single_buffer \<times> asio_error option \<Rightarrow>
   (single_buffer \<times> asio_error option + nat \<times> asio_error option) io" where
  "write_part s = (\<lambda>(tmp, ec).
       if \<not> csb_empty tmp then
         (let max_size = transfer_all ec (total_consumed tmp) in
          if max_size \<noteq> 0 then
            bind_io (sync_send1 s (csb_prepare tmp max_size)) (\<lambda>(n, ec').
              Ret (Inl (csb_consume tmp n, ec')))
          else Ret (Inr (total_consumed tmp, ec)))
       else Ret (Inr (total_consumed tmp, ec)))"

lemma write_part_trace:
  assumes "responds (write_part s (tmp, ec)) es (Ret z)"
    "total_consumed tmp \<le> length (whole tmp)"
  shows "case z of
      Inl (tmp', ec') \<Rightarrow> ec = None \<and> whole tmp' = whole tmp \<and> total_consumed tmp' \<le> length (whole tmp) \<and>
        (\<exists>n. total_consumed tmp' = total_consumed tmp + n \<and>
          sent es = take n (drop (total_consumed tmp) (whole tmp))) \<and> received es = [] \<and>
        (ec' \<noteq> None \<longrightarrow> opened s \<longrightarrow> \<not> no_errors es)
    | Inr (n, ec') \<Rightarrow> es = [] \<and> ec' = ec \<and> n = total_consumed tmp \<and>
        (ec = None \<longrightarrow> total_consumed tmp = length (whole tmp))"
proof (cases "csb_empty tmp \<or> ec \<noteq> None")
  case True
  with assms show ?thesis
    by (auto simp: write_part_def csb_empty_def transfer_all_def Let_def split: if_splits)
next
  case False
  with assms(1) obtain n ec' where n: "z = Inl (csb_consume tmp n, ec')"
    "responds (sync_send1 s (csb_prepare tmp default_max_transfer_size)) es (Ret (n, ec'))"
    by (auto simp: write_part_def transfer_all_def default_max_transfer_size_def Let_def
        elim!: responds_bindE)
  from sync_send1_trace [OF n(2)] False n(1) assms(2) show ?thesis
    by (auto simp: csb_prepare_def csb_consume_def intro!: exI [of _ n])
qed

lemma write_ec_trace:
  assumes "responds (write_ec s data) es (Ret (n, ec))"
  shows "sent es = take n data \<and> received es = [] \<and> n \<le> length data \<and>
    (ec = None \<longrightarrow> sent es = data \<and> n = length data) \<and>
    (no_errors es \<longrightarrow> opened s \<longrightarrow> sent es = data)"
proof -
  have loop: "fst st = tmp \<Longrightarrow> snd st = ec0 \<Longrightarrow> whole tmp = data \<Longrightarrow> total_consumed tmp \<le> length data \<Longrightarrow>
      take (total_consumed tmp) data @ sent es = take n data \<and> received es = [] \<and> n \<le> length data \<and>
      (ec = None \<longrightarrow> n = length data) \<and> (ec0 = None \<longrightarrow> no_errors es \<longrightarrow> opened s \<longrightarrow> n = length data)"
    if "loop_runs (write_part s) st es (n, ec)" for st tmp ec0 es
    using that
  proof (induction st es "(n, ec)" arbitrary: tmp ec0 rule: loop_runs.induct)
    case (finish st es)
    from finish(1) finish(2-) have "responds (write_part s (tmp, ec0)) es (Ret (Inr (n, ec)))"
      by (metis prod.collapse)
    from write_part_trace [OF this] finish(2-) show ?case by auto
  next
    case (again st es st' fs)
    from again(1,4,5) have "responds (write_part s (tmp, ec0)) es (Ret (Inl (fst st', snd st')))"
      by (metis prod.collapse)
    from write_part_trace [OF this] again(4-) have wp: "ec0 = None" "whole (fst st') = data"
      "total_consumed (fst st') \<le> length data" "received es = []"
      "take (total_consumed tmp) data @ sent es = take (total_consumed (fst st')) data"
      "snd st' \<noteq> None \<longrightarrow> opened s \<longrightarrow> \<not> no_errors es"
      by (auto simp: take_add)
    from again(3) [OF refl refl wp(2,3)] have ih:
      "take (total_consumed (fst st')) data @ sent fs = take n data" "received fs = []" "n \<le> length data"
      "ec = None \<longrightarrow> n = length data"
      "snd st' = None \<longrightarrow> no_errors fs \<longrightarrow> opened s \<longrightarrow> n = length data" by auto
    have "take (total_consumed tmp) data @ sent (es @ fs) = take n data"
      using wp(5) ih(1) by (metis append.assoc trace_simps(3))
    with wp ih show ?case by auto
  qed
  from assms have "loop_runs (write_part s) (csb_new data, None) es (n, ec)"
    unfolding write_ec_def detail_write_def write_part_def [symmetric] by (rule while_io_runs)
  from loop [OF this, of "csb_new data" None] show ?thesis
    by (auto simp: csb_new_def)
qed

lemma asio_write_trace:
  assumes "responds (asio_write s data) es (Ret n)"
  shows "sent es = data \<and> received es = [] \<and> n = length data"
proof -
  from assms have "responds (write_ec s data) es (Ret (n, None))"
    unfolding asio_write_def write_ec_def
    by (auto elim!: responds_bindE dest!: throw_error_trace)
  from write_ec_trace [OF this] show ?thesis by simp
qed

lemma read_some_trace:
  assumes "responds (read_some s len) es (Ret data)"
  shows "received es = data \<and> (has_flag (flags s) stream_oriented \<longrightarrow> 0 < len \<longrightarrow> deliveries es = [data]) \<and>
    sent es = [] \<and> length data \<le> len \<and>
    (has_flag (flags s) stream_oriented \<longrightarrow> 0 < len \<longrightarrow> data \<noteq> [])"
proof -
  from assms have "responds (sync_recv1 s len) es (Ret (data, None))"
    unfolding read_some_def by (auto elim!: responds_bindE dest!: throw_error_trace)
  from sync_recv1_trace [OF this] show ?thesis by simp
qed

subsection \<open>Messages\<close>

lemma send_message_trace:
  assumes "responds (send_message p msg) es (Ret n)"
  shows "sent es = string_bytes msg \<and> received es = [] \<and> n = length msg"
  using assms unfolding send_message_def
  by (auto elim!: responds_bindE dest!: asio_write_trace wait_trace)

lemma recv_message_trace:
  assumes "responds (recv_message p) es (Ret msg)"
  shows "msg = bytes_string (received es) \<and> sent es = [] \<and> length msg \<le> chunk_size p \<and>
    (has_flag (flags (socket p)) stream_oriented \<longrightarrow> 0 < chunk_size p \<longrightarrow> msg \<noteq> '''')"
proof -
  from assms obtain es1 es2 data where tr: "es = es1 @ es2" "responds (wait_read (socket p)) es1 (Ret ())"
    "responds (read_some (socket p) (chunk_size p)) es2 (Ret data)"
    "msg = bytes_string (resize (data @ drop (length data) (resize [] (chunk_size p))) (length data))"
    unfolding recv_message_def by (auto simp: Let_def elim!: responds_bindE)
  from read_some_trace [OF tr(3)] wait_trace(1) [OF tr(2)] tr(1,4) show ?thesis
    by (auto simp: resize_shrink bytes_string_def)
qed

subsection \<open>A channel of audio, received\<close>

lemma recv_round_trace:
  assumes "responds (recv_round p (channel, recv, idx)) es (Ret z)" "length recv = CHUNK_SIZE"
    "idx = of_nat (length channel)" "length channel + length (received es) div 4 < 2 ^ 32"
  shows "\<exists>data recv'. received es = data \<and> sent es = [] \<and> length data \<le> CHUNK_SIZE * 4 \<and>
    length recv' = CHUNK_SIZE \<and>
    (has_flag (flags (socket p)) stream_oriented \<longrightarrow> deliveries es = [data] \<and> data \<noteq> []) \<and>
    z = (if length data < CHUNK_SIZE * 4 then Inr (channel @ floats_of data, recv')
      else Inl (channel @ floats_of data, recv', of_nat (length (channel @ floats_of data))))"
proof -
  let ?n = "\<lambda>data :: byte list. length data div 4"
  let ?ch = "\<lambda>data. if length channel < length channel + ?n data
    then resize channel (length channel + ?n data) else channel"
  have m: "min (4 * CHUNK_SIZE) (CHUNK_SIZE * 4) = CHUNK_SIZE * 4" by simp
  from assms(1) have "responds (bind_io (read_some (socket p) (CHUNK_SIZE * 4)) (\<lambda>data.
     bind_io (lift_io (store_floats (overwrite recv data) (?n data) 0 (?ch data) idx))
       (\<lambda>(channel, buffer_idx). Ret (if ?n data < CHUNK_SIZE then Inr (channel, overwrite recv data)
               else Inl (channel, overwrite recv data, buffer_idx))))) es (Ret z)"
    by (simp only: recv_round_def Let_def assms(2) m split_conv)
  then obtain es1 es2 data where tr: "es = es1 @ es2"
    "responds (read_some (socket p) (CHUNK_SIZE * 4)) es1 (Ret data)"
    "responds (bind_io (lift_io (store_floats (overwrite recv data) (?n data) 0 (?ch data) idx))
       (\<lambda>(channel, buffer_idx). Ret (if ?n data < CHUNK_SIZE then Inr (channel, overwrite recv data)
               else Inl (channel, overwrite recv data, buffer_idx)))) es2 (Ret z)"
    by (rule responds_bindE)
  note rd = read_some_trace [OF tr(2)]
  have le: "length data \<le> CHUNK_SIZE * 4" using rd by simp
  have "es2 = []" using tr(3) by (auto split: prod.splits elim!: responds_bindE simp: lift_io_def split: sum.splits)
  with tr(1) rd assms(4) have "length channel + ?n data < 2 ^ 32" by simp
  from recv_round_run [OF assms(2,3) le this] tr(3) have
    "z = (if ?n data < CHUNK_SIZE then Inr (channel @ floats_of data, overwrite recv data)
      else Inl (channel @ floats_of data, overwrite recv data, of_nat (length channel + ?n data)))"
    by simp
  moreover have "?n data < CHUNK_SIZE \<longleftrightarrow> length data < CHUNK_SIZE * 4" by linarith
  ultimately show ?thesis
    using rd tr(1) \<open>es2 = []\<close> assms(2) le
    by (intro exI [of _ data] exI [of _ "overwrite recv data"]) (auto simp: CHUNK_SIZE_def)
qed

text \<open>
  The reads that make up a channel: all but the last fill the buffer, the last does not.
\<close>

definition ends_short :: "byte list list \<Rightarrow> bool" where
  "ends_short ds \<longleftrightarrow> ds \<noteq> [] \<and> list_all (\<lambda>d. length d = CHUNK_SIZE * 4) (butlast ds)
     \<and> length (last ds) < CHUNK_SIZE * 4"

lemma ends_short_simps:
  "ends_short [d] \<longleftrightarrow> length d < CHUNK_SIZE * 4"
  "ds \<noteq> [] \<Longrightarrow> ends_short (d # ds) \<longleftrightarrow> length d = CHUNK_SIZE * 4 \<and> ends_short ds"
  by (auto simp: ends_short_def)

lemma recv_channel_loop:
  assumes "loop_runs (recv_round p) st es r" "length (fst (snd st)) = CHUNK_SIZE"
    "snd (snd st) = of_nat (length (fst st))" "length (fst st) + length (received es) div 4 < 2 ^ 32"
  shows "fst r = fst st @ floats_of (received es) \<and> sent es = [] \<and> length (snd r) = CHUNK_SIZE \<and>
    (has_flag (flags (socket p)) stream_oriented \<longrightarrow> ends_short (deliveries es))"
  using assms
proof (induction rule: loop_runs.induct)
  case (finish st es r)
  obtain ch recv idx where st: "st = (ch, recv, idx)" by (cases st)
  from finish have "responds (recv_round p (ch, recv, idx)) es (Ret (Inr r))" "length recv = CHUNK_SIZE"
    "idx = of_nat (length ch)" "length ch + length (received es) div 4 < 2 ^ 32" by (simp_all add: st)
  from recv_round_trace [OF this] show ?case
    by (auto simp: st ends_short_simps split: if_splits)
next
  case (again st es st' fs r)
  obtain ch recv idx where st: "st = (ch, recv, idx)" by (cases st)
  from again have "responds (recv_round p (ch, recv, idx)) es (Ret (Inl st'))" "length recv = CHUNK_SIZE"
    "idx = of_nat (length ch)" "length ch + length (received es) div 4 < 2 ^ 32" by (simp_all add: st)
  from recv_round_trace [OF this] obtain recv' where r: "sent es = []"
    "length (received es) = CHUNK_SIZE * 4" "length recv' = CHUNK_SIZE"
    "has_flag (flags (socket p)) stream_oriented \<longrightarrow> deliveries es = [received es]"
    "st' = (ch @ floats_of (received es), recv', of_nat (length (ch @ floats_of (received es))))"
    by (auto split: if_splits)
  have fl: "floats_of (received es @ received fs) = floats_of (received es) @ floats_of (received fs)"
    by (rule floats_of_append) (simp add: r(2))
  have "length (ch @ floats_of (received es)) + length (received fs) div 4 < 2 ^ 32"
    using again(6) r(2) by (simp add: st)
  with again(3) r have ih: "fst r = ch @ floats_of (received es) @ floats_of (received fs)" "sent fs = []"
    "length (snd r) = CHUNK_SIZE"
    "has_flag (flags (socket p)) stream_oriented \<longrightarrow> ends_short (deliveries fs)" by auto
  then have "has_flag (flags (socket p)) stream_oriented \<longrightarrow> ends_short (deliveries (es @ fs))"
    using r(2,4) by (auto simp: ends_short_simps) (auto simp: ends_short_def)
  with ih r show ?case by (simp add: st fl)
qed

lemma recv_channel_trace:
  assumes "responds (recv_channel p recv) es (Ret (ch, recv'))" "length (received es) div 4 < 2 ^ 32"
  shows "ch = floats_of (received es) \<and> sent es = [] \<and> length recv' = CHUNK_SIZE \<and>
    (has_flag (flags (socket p)) stream_oriented \<longrightarrow> ends_short (deliveries es))"
  using recv_channel_loop [OF while_io_runs, of p "([], resize recv CHUNK_SIZE, 0)" es "(ch, recv')"] assms
  by (simp add: recv_channel_def)

subsection \<open>A channel of audio, sent\<close>

lemma send_channel_loop:
  assumes "loop_runs (send_round p ch) st es r"
    "length (fst st) = CHUNK_SIZE" "snd st = of_nat k" "k < length ch" "length ch < 2 ^ 32"
    "CHUNK_SIZE dvd k" "no_errors es" "opened (socket p)"
  shows "sent es = audio_bytes (drop k (wire_channel ch)) \<and> received es = []"
  using assms
proof (induction arbitrary: k rule: loop_runs.induct)
  case (finish st es r)
  obtain c i where st: "st = (c, i)" by (cases st)
  show ?case
  proof (cases "k + CHUNK_SIZE < length ch")
    case True
    from finish True have "responds (bind_io (write_ec (socket p) (audio_bytes (take CHUNK_SIZE (drop k ch))))
      (\<lambda>_. Ret (Inl (take CHUNK_SIZE (drop k ch), of_nat (k + CHUNK_SIZE)) :: (sample list \<times> u32 + sample list)))) es (Ret (Inr r))"
      by (simp add: st send_round_more del: of_nat_add)
    then show ?thesis by (auto elim!: responds_bindE)
  next
    case False
    from finish False have "responds (bind_io (write_ec (socket p) (audio_bytes (last_chunk k ch)))
      (\<lambda>_. Ret (Inr (last_chunk k ch) :: (sample list \<times> u32 + _)))) es (Ret (Inr r))"
      by (simp add: st send_round_last)
    then obtain n ec where "responds (write_ec (socket p) (audio_bytes (last_chunk k ch))) es (Ret (n, ec))"
      "r = last_chunk k ch" by (auto elim!: responds_bindE)
    then show ?thesis using False finish.prems wire_channel_last [of k ch]
      by (auto dest!: write_ec_trace)
  qed
next
  case (again st es st' fs r)
  obtain c i where st: "st = (c, i)" by (cases st)
  have more: "k + CHUNK_SIZE < length ch"
  proof (rule ccontr)
    assume "\<not> k + CHUNK_SIZE < length ch"
    with again have "responds (bind_io (write_ec (socket p) (audio_bytes (last_chunk k ch)))
      (\<lambda>_. Ret (Inr (last_chunk k ch) :: (sample list \<times> u32 + _)))) es (Ret (Inl st'))"
      by (simp add: st send_round_last)
    then show False by (auto elim!: responds_bindE)
  qed
  let ?part = "take CHUNK_SIZE (drop k ch)"
  from again more have "responds (bind_io (write_ec (socket p) (audio_bytes ?part))
      (\<lambda>_. Ret (Inl (?part, of_nat (k + CHUNK_SIZE)) :: (sample list \<times> u32 + sample list) ))) es (Ret (Inl st'))"
    by (simp add: st send_round_more del: of_nat_add)
  then obtain n ec where w: "responds (write_ec (socket p) (audio_bytes ?part)) es (Ret (n, ec))"
    "st' = (?part, of_nat (k + CHUNK_SIZE))" by (auto elim!: responds_bindE)
  have "sent fs = audio_bytes (drop (k + CHUNK_SIZE) (wire_channel ch)) \<and> received fs = []"
    using again.prems more w(2) by (intro again.IH) auto
  moreover have "sent es = audio_bytes ?part" "received es = []"
    using write_ec_trace [OF w(1)] again.prems(6,7) unfolding no_errors_simps by blast+
  ultimately show ?case unfolding wire_channel_more [OF more again.prems(5)] by simp
qed

lemma send_channel_trace:
  assumes "responds (send_channel p ch chunked) es (Ret r)" "ch \<noteq> []" "length ch < 2 ^ 32"
    "no_errors es" "opened (socket p)"
  shows "sent es = audio_bytes (wire_channel ch) \<and> received es = []"
  using send_channel_loop [OF while_io_runs, of p ch "(resize chunked CHUNK_SIZE, 0)" es r 0] assms
  by (simp add: send_channel_def)

end
