(* ===== verification/Pipe_Properties.thy ===== *)
theory Pipe_Properties
  imports Stream_Traces Exchanges
begin

text \<open>
  The properties of the pipes and of the asio operations under them, on every trace of
  answers of the operating system, with concrete traces as witnesses.
\<close>

named_theorems trace_eval
  \<comment> \<open>rules that check a concrete trace\<close>

lemma responds_eval [trace_eval]:
  "responds (Vis e h) [] (Ret x) \<longleftrightarrow> False"
  "responds (Vis e h) ((e', r) # es) (Ret x) \<longleftrightarrow> e' = e \<and> responds (h r) es (Ret x)"
  by (auto simp: responds_Vis_Ret_iff)

lemma responds_while [trace_eval]:
  "responds (while_io b s) es (Ret x) \<longleftrightarrow>
   responds (bind_io (b s) (\<lambda>z. case z of Inl s' \<Rightarrow> Tau (while_io b s') | Inr x \<Rightarrow> Ret x)) es (Ret x)"
  "responds (bind_io (while_io b s) k) es (Ret y) \<longleftrightarrow>
   responds (bind_io (b s) (\<lambda>z. bind_io (case z of Inl s' \<Rightarrow> Tau (while_io b s') | Inr x \<Rightarrow> Ret x) k)) es (Ret y)"
  by (simp_all add: while_io_unfold [of b s])

lemma connected_to_flags:
  "connected_to P ep \<Longrightarrow> has_flag (flags (socket P)) stream_oriented \<and> opened (socket P) \<and> chunk_size P = 1024"
  by (simp add: connected_to_def)

text \<open>A client pipe for the concrete traces.\<close>

definition demo :: upstream where
  "demo = up_of 5500 True (stream_sock (Client 5500)) [V4]"

lemma demo_simps [simp]:
  "connected_to demo (Client 5500)" "socket demo = stream_sock (Client 5500)" "chunk_size demo = 1024"
  by (simp_all add: demo_def)

subsection \<open>Reading and writing\<close>

text \<open>
  C8: A composed write that returns has handed all its bytes to the socket, in order, and
  says so, however often the socket took only a part or was not ready; it reads nothing.
\<close>

theorem write_sends_everything:
  assumes "responds (asio_write s data) es (Ret n)"
  shows "sent es = data \<and> received es = [] \<and> n = length data"
  using assms by (rule asio_write_trace)

lemma write_sends_everything_witness:
  "sent [(Os_send (Client 1) [1, 2, 3], R_size 1), (Os_send (Client 1) [2, 3], R_error would_block),
     (Os_poll_write (Client 1), R_size 1), (Os_send (Client 1) [2, 3], R_size 2)] = [1, 2, 3 :: byte]"
proof -
  have "responds (asio_write (stream_sock (Client 1)) [1, 2, 3])
    [(Os_send (Client 1) [1, 2, 3], R_size 1), (Os_send (Client 1) [2, 3], R_error would_block),
     (Os_poll_write (Client 1), R_size 1), (Os_send (Client 1) [2, 3], R_size 2)] (Ret 3)"
    by (simp add: asio_write_def detail_write_def csb_empty_def csb_new_def csb_prepare_def csb_consume_def
        transfer_all_def default_max_transfer_size_def sync_send1_def send1_def poll_write_def poll_result_def
        trace_eval)
  from write_sends_everything [OF this] show ?thesis by blast
qed

text \<open>
  C9: When the \<open>error_code\<close> overload reports success it has sent everything; when it
  reports an error it has sent a prefix of the length it returns.
\<close>

theorem write_ec_sends_prefix:
  assumes "responds (write_ec s data) es (Ret (n, ec))"
  shows "sent es = take n data \<and> n \<le> length data \<and> (ec = None \<longrightarrow> n = length data)"
  using write_ec_trace [OF assms] by blast

lemma write_ec_sends_prefix_witness:
  "sent [(Os_send (Client 1) [1, 2, 3], R_size 1), (Os_send (Client 1) [2, 3], R_error broken_pipe)] =
    take 1 [1, 2, 3 :: byte]"
proof -
  have "responds (write_ec (stream_sock (Client 1)) [1, 2, 3])
    [(Os_send (Client 1) [1, 2, 3], R_size 1), (Os_send (Client 1) [2, 3], R_error broken_pipe)]
    (Ret (1, Some broken_pipe))"
    by (simp add: write_ec_def detail_write_def csb_empty_def csb_new_def csb_prepare_def csb_consume_def
        transfer_all_def default_max_transfer_size_def sync_send1_def send1_def poll_write_def poll_result_def
        trace_eval)
  from write_ec_sends_prefix [OF this] show ?thesis by blast
qed

text \<open>
  A read on a stream that returns has made exactly one successful call, whose bytes it
  returns: at least one and at most as many as were asked for.
\<close>

theorem read_some_delivers:
  assumes "responds (read_some s len) es (Ret data)" "has_flag (flags s) stream_oriented" "0 < len"
  shows "deliveries es = [data] \<and> data \<noteq> [] \<and> length data \<le> len \<and> sent es = []"
  using read_some_trace [OF assms(1)] assms(2,3) by blast

lemma read_some_delivers_witness:
  "deliveries [(Os_recv (Client 1) 10, R_error try_again), (Os_poll_read (Client 1), R_size 1),
     (Os_recv (Client 1) 10, R_data [7, 8 :: byte])] = [[7, 8]]"
proof -
  have "responds (read_some (stream_sock (Client 1)) 10)
    [(Os_recv (Client 1) 10, R_error try_again), (Os_poll_read (Client 1), R_size 1),
     (Os_recv (Client 1) 10, R_data [7, 8])] (Ret [7, 8])"
    by (simp add: read_some_def sync_recv1_def recv1_def poll_read_def poll_result_def trace_eval)
  from read_some_delivers [OF this] show ?thesis by simp
qed

subsection \<open>Messages\<close>

text \<open>\<open>send_message\<close> puts the bytes of the message on the wire, and nothing else.\<close>

theorem send_message_sends:
  assumes "responds (send_message P msg) es (Ret n)"
  shows "sent es = string_bytes msg \<and> received es = [] \<and> n = length msg"
  using assms by (rule send_message_trace)

lemma send_message_sends_witness:
  "sent [(Os_poll_write (Client 5500), R_size 1), (Os_send (Client 5500) (string_bytes ''run''), R_size 3)] =
    string_bytes ''run''"
proof -
  have "responds (send_message demo ''run'')
    [(Os_poll_write (Client 5500), R_size 1), (Os_send (Client 5500) (string_bytes ''run''), R_size 3)] (Ret 3)"
    by (simp add: send_message_def wait_write_def asio_write_def detail_write_def csb_empty_def csb_new_def
        csb_prepare_def csb_consume_def transfer_all_def default_max_transfer_size_def sync_send1_def send1_def
        poll_write_def poll_result_def trace_eval)
  from send_message_sends [OF this] show ?thesis by blast
qed

text \<open>
  \<open>recv_message\<close> returns the bytes of one read as a string, at most \<open>chunk_size\<close> of
  them and at least one: a message is whatever one read delivers.
\<close>

theorem recv_message_reads:
  assumes "connected_to P ep" "responds (recv_message P) es (Ret msg)"
  shows "msg = bytes_string (received es) \<and> msg \<noteq> '''' \<and> length msg \<le> 1024 \<and> sent es = []"
  using recv_message_trace [OF assms(2)] connected_to_flags [OF assms(1)] by auto

lemma recv_message_reads_witness:
  "bytes_string (received [(Os_poll_read (Client 5500), R_size 1),
     (Os_recv (Client 5500) 1024, R_data (string_bytes ''ready''))]) = ''ready''"
proof -
  have "responds (recv_message demo) [(Os_poll_read (Client 5500), R_size 1),
     (Os_recv (Client 5500) 1024, R_data (string_bytes ''ready''))] (Ret ''ready'')"
    by (simp add: recv_message_def Let_def wait_read_def read_some_def sync_recv1_def recv1_def poll_read_def
        poll_result_def resize_shrink trace_eval)
  from recv_message_reads [OF _ this] show ?thesis by simp
qed

subsection \<open>Audio\<close>

text \<open>
  C4: Without write errors, sending a channel puts the bytes of all its samples on the
  wire, in order, except that the last chunk is missing when the channel is a whole number
  of chunks.
\<close>

theorem send_channel_sends:
  assumes "responds (send_channel P ch c) es (Ret r)" "connected_to P ep"
    "ch \<noteq> []" "length ch < 2 ^ 32" "no_errors es"
  shows "sent es = audio_bytes (if CHUNK_SIZE dvd length ch then take (length ch - CHUNK_SIZE) ch else ch)
    \<and> received es = []"
  using send_channel_trace [OF assms(1,3,4,5)] connected_to_flags [OF assms(2)]
  by (simp add: wire_channel_def)

lemma send_short_channel:
  assumes "connected_to P ep" "ch \<noteq> []" "length ch < CHUNK_SIZE"
  shows "responds (send_channel P ch c) [(Os_send ep (audio_bytes ch), R_size (4 * length ch))] (Ret ch)"
    "responds (send_channel P ch c) [(Os_send ep (audio_bytes ch), R_error e)] (Ret ch) \<or>
      e = would_block \<or> e = try_again"
proof -
  have "send_round P ch (resize c CHUNK_SIZE, of_nat 0) =
      bind_io (write_ec (stream_sock ep) (audio_bytes ch)) (\<lambda>_. Ret (Inr ch))"
    using send_round_last [of 0 ch "resize c CHUNK_SIZE" P] assms
    by (simp add: last_chunk_def connected_to_def CHUNK_SIZE_def)
  then have eq: "send_channel P ch c = bind_io (write_ec (stream_sock ep) (audio_bytes ch)) (\<lambda>_. Ret ch)"
    unfolding send_channel_def by (subst while_io_unfold) simp
  have len: "length (audio_bytes ch) \<le> default_max_transfer_size" "0 < length ch"
    using assms(2,3) by (simp_all add: CHUNK_SIZE_def default_max_transfer_size_def)
  note write_defs = write_ec_def detail_write_def csb_empty_def csb_new_def csb_prepare_def
    csb_consume_def transfer_all_def sync_send1_def send1_def poll_write_def poll_result_def
  show "responds (send_channel P ch c) [(Os_send ep (audio_bytes ch), R_size (4 * length ch))] (Ret ch)"
    unfolding eq using len assms(2) by (simp add: write_defs trace_eval default_max_transfer_size_def)
  show "responds (send_channel P ch c) [(Os_send ep (audio_bytes ch), R_error e)] (Ret ch) \<or>
      e = would_block \<or> e = try_again"
    unfolding eq using len assms(2) by (simp add: write_defs trace_eval default_max_transfer_size_def)
qed

lemma send_channel_sends_witness:
  "sent [(Os_send (Client 5500) (audio_bytes [5, 6]), R_size 8)] = audio_bytes [5, 6]"
  using send_channel_sends [OF send_short_channel(1) [of demo "Client 5500" "[5, 6]" "[]"]]
  by (simp add: CHUNK_SIZE_def)

text \<open>
  The sender does not look at the result of its writes: if the connection is broken it
  still returns as if the channel had been sent.
\<close>

theorem send_channel_ignores_errors:
  assumes "connected_to P ep" "ch \<noteq> []" "length ch < CHUNK_SIZE" "e \<noteq> would_block" "e \<noteq> try_again"
  shows "\<exists>es r. responds (send_channel P ch c) es (Ret r) \<and> sent es = []"
  using send_short_channel(2) [OF assms(1-3), of c e] assms(4,5)
  by (intro exI [of _ "[(Os_send ep (audio_bytes ch), R_error e)]"] exI [of _ ch]) simp

lemma send_channel_ignores_errors_witness:
  "\<exists>es r. responds (send_channel demo [1] []) es (Ret r) \<and> sent es = []"
  by (rule send_channel_ignores_errors [of demo "Client 5500" "[1]" broken_pipe "[]"])
    (simp_all add: CHUNK_SIZE_def)

text \<open>
  C5: A channel that \<open>recv_channel\<close> returns consists of the whole samples of the bytes
  that were read, and the reads end with the first one that does not fill the buffer.
\<close>

theorem recv_channel_reads:
  assumes "responds (recv_channel P v) es (Ret (ch, v'))" "connected_to P ep"
    "length (received es) div 4 < 2 ^ 32"
  shows "ch = floats_of (received es) \<and> sent es = [] \<and>
    (\<exists>full last. deliveries es = full @ [last] \<and> list_all (\<lambda>d. length d = 4096) full \<and> length last < 4096)"
proof -
  note tr = recv_channel_trace [OF assms(1,3)] connected_to_flags [OF assms(2)]
  then have "ends_short (deliveries es)" by simp
  then have "deliveries es = butlast (deliveries es) @ [last (deliveries es)]"
    "list_all (\<lambda>d. length d = 4096) (butlast (deliveries es))" "length (last (deliveries es)) < 4096"
    by (simp_all add: ends_short_def CHUNK_SIZE_def)
  with tr show ?thesis by blast
qed

text \<open>One short read is enough to make \<open>recv_channel\<close> return.\<close>

lemma recv_short_channel:
  assumes "connected_to P ep" "data \<noteq> []" "length data < 4096"
  shows "\<exists>v'. responds (recv_channel P v) [(Os_recv ep 4096, R_data data)] (Ret (floats_of data, v'))"
proof -
  let ?v = "resize v CHUNK_SIZE"
  have st: "store_floats (overwrite ?v data) (length data div 4) 0
      (if length ([] :: sample list) < length ([] :: sample list) + length data div 4
       then resize [] (length ([] :: sample list) + length data div 4) else []) 0 =
    Inr ([] @ floats_of data, of_nat (length ([] :: sample list) + length data div 4))"
    by (rule recv_round_run) (use assms in \<open>simp_all add: CHUNK_SIZE_def\<close>)
  have m: "min (4 * CHUNK_SIZE) (CHUNK_SIZE * 4) = 4096" by (simp add: CHUNK_SIZE_def)
  have n: "length data div 4 < CHUNK_SIZE" using assms(3) by (simp add: CHUNK_SIZE_def)
  have eq: "recv_round P ([], ?v, 0) = bind_io (read_some (stream_sock ep) 4096) (\<lambda>data.
     bind_io (lift_io (store_floats (overwrite ?v data) (length data div 4) 0
      (if length ([] :: sample list) < length ([] :: sample list) + length data div 4
       then resize [] (length ([] :: sample list) + length data div 4) else []) 0)) (\<lambda>(channel, buffer_idx).
          Ret (if length data div 4 < CHUNK_SIZE then Inr (channel, overwrite ?v data)
               else Inl (channel, overwrite ?v data, buffer_idx))))"
    using assms(1) by (simp only: recv_round_def Let_def split_conv length_resize m connected_to_def)
  have "responds (recv_round P ([], ?v, 0)) [(Os_recv ep 4096, R_data data)]
    (Ret (Inr (floats_of data, overwrite ?v data)))"
    unfolding eq using assms st n
    by (simp add: read_some_def sync_recv1_def recv1_def trace_eval del: list.size)
  from responds_bindI [OF this, of "\<lambda>z. case z of Inl s' \<Rightarrow> Tau (while_io (recv_round P) s') | Inr x \<Rightarrow> Ret x" "[]"]
  show ?thesis unfolding recv_channel_def by (subst while_io_unfold) auto
qed

lemma recv_channel_reads_witness:
  "\<exists>es ch v. responds (recv_channel demo []) es (Ret (ch, v)) \<and> ch = [9, 8] \<and> sent es = []"
proof -
  obtain v where tr: "responds (recv_channel demo [])
      [(Os_recv (Client 5500) 4096, R_data (audio_bytes [9, 8]))] (Ret (floats_of (audio_bytes [9, 8]), v))"
    using recv_short_channel [of demo "Client 5500" "audio_bytes [9, 8]" "[]"] by (auto simp del: audio_bytes_simps)
  from recv_channel_reads [OF this] have
    "floats_of (audio_bytes [9, 8]) = floats_of (received [(Os_recv (Client 5500) 4096, R_data (audio_bytes [9, 8]))])
      \<and> sent [(Os_recv (Client 5500) 4096, R_data (audio_bytes [9, 8]))] = []" by simp
  with tr show ?thesis
    by (intro exI [of _ "[(Os_recv (Client 5500) 4096, R_data (audio_bytes [9, 8]))]"] exI [of _ "[9, 8]"] exI [of _ v])
      (simp del: audio_bytes_simps)
qed

text \<open>
  C3: What one pipe sends without errors is what the other one gets if all of it is read:
  the channel comes through unchanged unless it is a whole number of chunks.
\<close>

theorem channel_round_trip:
  assumes "responds (send_channel P ch c) es (Ret r)" "connected_to P ep"
    "ch \<noteq> []" "length ch < 2 ^ 32" "no_errors es"
    "responds (recv_channel Q v) fs (Ret (ch', v'))" "received fs = sent es"
    "\<not> CHUNK_SIZE dvd length ch"
  shows "ch' = ch"
proof -
  have "sent es = audio_bytes ch"
    using send_channel_trace [OF assms(1,3,4,5)] connected_to_flags [OF assms(2)] assms(8)
    by (simp add: wire_channel_def)
  with recv_channel_trace [OF assms(6)] assms(4,7) show ?thesis by simp
qed

lemma channel_round_trip_witness:
  "\<exists>fs v. responds (recv_channel demo []) fs (Ret ([4, 5, 6], v)) \<and>
     received fs = sent [(Os_send (Client 5500) (audio_bytes [4, 5, 6]), R_size 12)]"
proof -
  let ?bs = "audio_bytes [4, 5, 6]"
  have s: "responds (send_channel demo [4, 5, 6] []) [(Os_send (Client 5500) ?bs, R_size (4 * length [4, 5, 6 :: sample]))]
      (Ret [4, 5, 6])"
    by (rule send_short_channel(1)) (simp_all add: CHUNK_SIZE_def)
  obtain v where r: "responds (recv_channel demo []) [(Os_recv (Client 5500) 4096, R_data ?bs)] (Ret (floats_of ?bs, v))"
    using recv_short_channel [of demo "Client 5500" ?bs "[]"] by (auto simp del: audio_bytes_simps)
  have "floats_of ?bs = [4, 5, 6]"
    by (rule channel_round_trip [where ep = "Client 5500", OF s _ _ _ _ r]) (simp_all add: CHUNK_SIZE_def nat_dvd_not_less)
  with r show ?thesis
    by (intro exI [of _ "[(Os_recv (Client 5500) 4096, R_data ?bs)]"] exI [of _ v]) simp
qed

text \<open>
  C12: TCP may deliver any part of what was sent.  If the first read delivers \<open>m\<close> bytes,
  fewer than the buffer holds, then the receiver takes the whole samples among them for the
  channel and confirms it; the rest stays in the socket.
\<close>

theorem split_read_truncates:
  assumes "connected_to P ep" "0 < m" "m < 4096" "m \<le> 4 * length ch"
  shows "\<exists>v'. responds (recv_channel P v) [(Os_recv ep 4096, R_data (take m (audio_bytes ch)))]
    (Ret (take (m div 4) ch, v'))"
proof -
  let ?data = "take m (audio_bytes ch)"
  have "float_at ?data i = ch ! i" if "i < m div 4" for i
  proof -
    have "float_at (?data @ drop m (audio_bytes ch)) i = float_at ?data i"
      using that assms(4) by (intro float_at_append) simp
    then show ?thesis using float_at_audio_bytes [of i ch "[]"] that assms(4) by simp
  qed
  then have "floats_of ?data = take (m div 4) ch"
    using assms(4) by (intro nth_equalityI) (auto simp: floats_of_def)
  with recv_short_channel [OF assms(1), of ?data v] assms(2-4) show ?thesis by (cases "ch = []") auto
qed

lemma split_read_truncates_witness:
  "\<exists>v'. responds (recv_channel demo []) [(Os_recv (Client 5500) 4096, R_data (take 5 (audio_bytes [1, 2, 3])))]
    (Ret ([1], v'))"
  using split_read_truncates [of demo "Client 5500" 5 "[1, 2, 3]" "[]"] by (simp del: audio_bytes_simps)

text \<open>
  C6: The protocol of \<open>send_audio\<close>: the left channel, then a message that must be
  \<open>CONFIRMED\<close>, then the right channel; the result says whether it was confirmed, and
  nothing of the right channel is sent otherwise.
\<close>

theorem send_audio_protocol:
  assumes "responds (send_audio P (left # right # rest)) es (Ret ok)" "connected_to P ep"
    "left \<noteq> []" "length left < 2 ^ 32" "right \<noteq> []" "length right < 2 ^ 32" "no_errors es"
  shows "\<exists>es1 es2 es3. es = es1 @ es2 @ es3 \<and>
    sent es1 = audio_bytes (wire_channel left) \<and> received es1 = [] \<and>
    sent es2 = [] \<and> ok = (bytes_string (received es2) = ''CONFIRMED'') \<and>
    sent es3 = (if ok then audio_bytes (wire_channel right) else []) \<and> received es3 = []"
proof -
  from assms(1) obtain es1 fs c where 1: "es = es1 @ fs" "responds (send_channel P left []) es1 (Ret c)"
    "responds (bind_io (recv_message P) (\<lambda>msg.
       if msg \<noteq> ''CONFIRMED'' then Ret False
       else bind_io (lift_io (vec_get (left # right # rest) 1)) (\<lambda>right.
         bind_io (send_channel P right c) (\<lambda>_. Ret True)))) fs (Ret ok)"
    unfolding send_audio_def by (auto elim: responds_bindE)
  from 1(3) obtain es2 es3 msg where 2: "fs = es2 @ es3" "responds (recv_message P) es2 (Ret msg)"
    "responds (if msg \<noteq> ''CONFIRMED'' then Ret False
       else bind_io (lift_io (vec_get (left # right # rest) 1)) (\<lambda>right.
         bind_io (send_channel P right c) (\<lambda>_. Ret True))) es3 (Ret ok)"
    by (rule responds_bindE)
  have ne: "no_errors es1" "no_errors es3" "opened (socket P)"
    using assms(7) connected_to_flags [OF assms(2)] by (simp_all add: 1(1) 2(1))
  have m: "msg = bytes_string (received es2)" "sent es2 = []"
    using recv_message_trace [OF 2(2)] by simp_all
  have "ok = (msg = ''CONFIRMED'') \<and> sent es3 = (if ok then audio_bytes (wire_channel right) else []) \<and> received es3 = []"
    using 2(3) ne assms(5,6) by (auto split: if_splits elim!: responds_bindE dest: send_channel_trace)
  with send_channel_trace [OF 1(2) assms(3,4) ne(1,3)] m 1(1) 2(1) show ?thesis by blast
qed

text \<open>A stereo file of one sample per channel, sent and confirmed.\<close>

definition demo_sent :: "(event \<times> resp) list" where
  "demo_sent = [(Os_send (Client 5500) (audio_bytes [3]), R_size 4)] @
     [(Os_poll_read (Client 5500), R_size 1), (Os_recv (Client 5500) 1024, R_data (string_bytes ''CONFIRMED''))] @
     [(Os_send (Client 5500) (audio_bytes [7]), R_size 4)]"

lemma demo_recv:
  "msg \<noteq> '''' \<Longrightarrow> length msg \<le> 1024 \<Longrightarrow> responds (recv_message demo)
     [(Os_poll_read (Client 5500), R_size 1), (Os_recv (Client 5500) 1024, R_data (string_bytes msg))] (Ret msg)"
  by (simp add: recv_message_def Let_def wait_read_def read_some_def sync_recv1_def recv1_def poll_read_def
      poll_result_def resize_shrink trace_eval)

lemma demo_sent_responds: "responds (send_audio demo [[3], [7]]) demo_sent (Ret True)"
proof -
  have s: "responds (send_channel demo [x] c) [(Os_send (Client 5500) (audio_bytes [x]), R_size 4)] (Ret [x])" for x c
    using send_short_channel(1) [of demo "Client 5500" "[x]" c] by (simp add: CHUNK_SIZE_def)
  have "responds (bind_io (send_channel demo [7] [3]) (\<lambda>_. Ret True))
      ([(Os_send (Client 5500) (audio_bytes [7]), R_size 4)] @ []) (Ret True)"
    by (rule responds_bindI [OF s]) simp
  then show ?thesis
    unfolding send_audio_def demo_sent_def
    by (simp del: append.simps append_Cons audio_bytes_simps One_nat_def)
      (rule responds_bindI [OF s], rule responds_bindI [OF demo_recv], simp_all)
qed

lemma send_audio_protocol_witness:
  "\<exists>es1 es2 es3. demo_sent = es1 @ es2 @ es3 \<and> sent es1 = audio_bytes [3] \<and> sent es3 = audio_bytes [7]"
proof -
  have "no_errors demo_sent" by (simp add: demo_sent_def)
  from send_audio_protocol [OF demo_sent_responds _ _ _ _ _ this, of "Client 5500"] show ?thesis
    by (simp add: wire_channel_def CHUNK_SIZE_def del: audio_bytes_simps) blast
qed

text \<open>
  C7: The protocol of \<open>recv_audio\<close>: a channel is read, confirmed, and a second one is
  read; the result has exactly these two channels.
\<close>

theorem recv_audio_protocol:
  assumes "responds (recv_audio P) es (Ret audio)" "length (received es) div 4 < 2 ^ 32"
  shows "\<exists>es1 es2 es3. es = es1 @ es2 @ es3 \<and>
    audio = [floats_of (received es1), floats_of (received es3)] \<and>
    sent es1 = [] \<and> sent es2 = string_bytes ''CONFIRMED'' \<and> received es2 = [] \<and> sent es3 = []"
proof -
  from assms(1) obtain es1 es2 es3 left v n right v' where tr: "es = es1 @ es2 @ es3"
    "responds (recv_channel P []) es1 (Ret (left, v))" "responds (send_message P ''CONFIRMED'') es2 (Ret n)"
    "responds (recv_channel P v) es3 (Ret (right, v'))" "audio = [left, right]"
    unfolding recv_audio_def by (auto elim!: responds_bindE)
  have "length (received es1) div 4 < 2 ^ 32" "length (received es3) div 4 < 2 ^ 32"
    using assms(2) by (auto simp: tr(1))
  with recv_channel_trace [OF tr(2)] recv_channel_trace [OF tr(4)] send_message_trace [OF tr(3)] tr
  show ?thesis by (intro exI [of _ es1] exI [of _ es2] exI [of _ es3]) simp
qed

lemma recv_audio_protocol_witness:
  "\<exists>es es1 es2 es3. responds (recv_audio demo) es (Ret [[3], [7]]) \<and> es = es1 @ es2 @ es3 \<and>
    [[3], [7]] = [floats_of (received es1), floats_of (received es3)] \<and> sent es2 = string_bytes ''CONFIRMED''"
proof -
  let ?r = "\<lambda>x. [(Os_recv (Client 5500) 4096, R_data (audio_bytes [x]))]"
  let ?s = "[(Os_poll_write (Client 5500), R_size 1), (Os_send (Client 5500) (string_bytes ''CONFIRMED''), R_size 9)]"
  have r: "\<exists>v'. responds (recv_channel demo v) (?r x) (Ret ([x], v'))" for x v
    using recv_short_channel [of demo "Client 5500" "audio_bytes [x]" v] by (simp del: audio_bytes_simps)
  obtain v where v: "responds (recv_channel demo []) (?r 3) (Ret ([3], v))" using r by blast
  obtain v' where v': "responds (recv_channel demo v) (?r 7) (Ret ([7], v'))" using r by blast
  have s: "responds (send_message demo ''CONFIRMED'') ?s (Ret 9)"
    by (simp add: send_message_def wait_write_def asio_write_def detail_write_def csb_empty_def csb_new_def
        csb_prepare_def csb_consume_def transfer_all_def default_max_transfer_size_def sync_send1_def send1_def
        poll_write_def poll_result_def trace_eval)
  have tr: "responds (recv_audio demo) (?r 3 @ ?s @ ?r 7 @ []) (Ret [[3], [7]])"
    unfolding recv_audio_def
    by (rule responds_bindI [OF v], simp only: split_conv, rule responds_bindI [OF s],
      rule responds_bindI [OF v'], simp)
  have len: "length (received (?r 3 @ ?s @ ?r 7 @ [])) div 4 < 2 ^ 32" by simp
  obtain es1 es2 es3 where "?r 3 @ ?s @ ?r 7 @ [] = es1 @ es2 @ es3"
    "[[3], [7]] = [floats_of (received es1), floats_of (received es3)]" "sent es2 = string_bytes ''CONFIRMED''"
    using recv_audio_protocol [OF tr len] by (elim exE conjE)
  with tr show ?thesis
    by (intro exI [of _ "?r 3 @ ?s @ ?r 7 @ []"] exI [of _ es1] exI [of _ es2] exI [of _ es3] conjI)
qed

subsection \<open>Edge cases of sending\<close>


lemma fill_chunk_endless:
  "2 ^ 32 \<le> length ch \<Longrightarrow> fill_chunk ch i chunked idx \<noteq> Inr (c, j, True)"
proof (induction ch i chunked idx rule: fill_chunk.induct)
  case (1 ch i chunked idx)
  have lt: "unat (w :: u32) < length ch" for w
    using unsigned_less [of w, where 'a = nat] "1.prems" by simp
  show ?case
  proof (cases "i < CHUNK_SIZE \<and> i < length chunked")
    case True
    have "fill_chunk ch i chunked idx = fill_chunk ch (Suc i) (chunked[i := ch ! unat idx]) (idx + 1)"
      using True lt [of idx] lt [of "idx + 1"] by (subst fill_chunk.simps) (simp add: Let_def)
    moreover have "\<not> length ch \<le> unat (idx + 1)" using lt [of "idx + 1"] by simp
    moreover have "fill_chunk ch (Suc i) (chunked[i := ch ! unat idx]) (idx + 1) \<noteq> Inr (c, j, True)"
      by (rule "1.IH") (use True "1.prems" lt [of idx] lt [of "idx + 1"] in auto)
    ultimately show ?thesis by simp
  next
    case False
    then show ?thesis using lt [of idx] by (subst fill_chunk.simps) auto
  qed
qed



subsection \<open>Connecting\<close>

fun connects_by :: "event \<times> resp \<Rightarrow> addr list" where
  "connects_by (Os_connect ep a, r) = [a]"
| "connects_by _ = []"

definition connects :: "(event \<times> resp) list \<Rightarrow> addr list" where
  "connects es = concat (map connects_by es)"

lemma connects_simps [simp]:
  "connects [] = []" "connects (x # es) = connects_by x @ connects es"
  "connects (es @ fs) = connects es @ connects fs"
  by (simp_all add: connects_def)

lemma close_trace:
  "responds (sock_close s) es (Ret (s', ec)) \<Longrightarrow> s' = construct (fd s) \<and> connects es = []"
proof (cases "opened s")
  case True
  assume "responds (sock_close s) es (Ret (s', ec))"
  with True obtain es1 ec' where es1: "responds (close_fd s) es1 (Ret ec')" "es = es1" "s' = construct (fd s)"
    by (auto simp: sock_close_def elim!: responds_bindE)
  from es1(1) obtain r fs where r: "es1 = (Os_close (fd s), r) # fs" "responds (case r of
         R_unit \<Rightarrow> Ret None
       | R_error e \<Rightarrow>
           if e = would_block \<or> e = try_again then
             Vis (Os_close (fd s)) (\<lambda>r. case r of
                 R_unit \<Rightarrow> Ret None
               | R_error e' \<Rightarrow> Ret (Some e')
               | _ \<Rightarrow> Throw Bad_Response)
           else Ret (Some e)
       | _ \<Rightarrow> Throw Bad_Response) fs (Ret ec')"
    by (auto simp: close_fd_def responds_Vis_Ret_iff)
  have "connects fs = []"
  proof (cases r)
    case (R_error e)
    show ?thesis
    proof (cases "e = would_block \<or> e = try_again")
      case True
      with r(2) R_error obtain r' gs where "fs = (Os_close (fd s), r') # gs"
        "responds (case r' of R_unit \<Rightarrow> Ret None | R_error e' \<Rightarrow> Ret (Some e') | _ \<Rightarrow> Throw Bad_Response) gs (Ret ec')"
        by (auto simp: responds_Vis_Ret_iff)
      then show ?thesis by (cases r') simp_all
    qed (use r(2) R_error in simp)
  qed (use r(2) in simp_all)
  with es1 r(1) show ?thesis by simp
qed (simp add: sock_close_def)

lemma sync_connect_trace:
  "responds (sync_connect s a) es (Ret ec) \<Longrightarrow> opened s \<Longrightarrow> connects es = [a]"
proof -
  assume tr: "responds (sync_connect s a) es (Ret ec)" and "opened s"
  then obtain r fs where r: "es = (Os_connect (fd s) a, r) # fs" "responds (case r of
         R_unit \<Rightarrow> Ret None
       | R_error e \<Rightarrow>
           if e \<noteq> in_progress \<and> e \<noteq> would_block then Ret (Some e)
           else Vis (Os_poll_connect (fd s)) (\<lambda>r. case r of
               R_error e' \<Rightarrow> Ret (Some e')
             | R_size _ \<Rightarrow> Vis (Os_so_error (fd s)) (\<lambda>r. case r of
                   R_unit \<Rightarrow> Ret None
                 | R_error e'' \<Rightarrow> Ret (Some e'')
                 | _ \<Rightarrow> Throw Bad_Response)
             | _ \<Rightarrow> Throw Bad_Response)
       | _ \<Rightarrow> Throw Bad_Response) fs (Ret ec)"
    by (auto simp: sync_connect_def responds_Vis_Ret_iff)
  have so: "connects hs = []" if "responds (Vis (Os_so_error (fd s)) (\<lambda>r. case r of
      R_unit \<Rightarrow> Ret None | R_error e'' \<Rightarrow> Ret (Some e'') | _ \<Rightarrow> Throw Bad_Response)) hs (Ret ec)" for hs
  proof -
    from that obtain r'' ks where k: "hs = (Os_so_error (fd s), r'') # ks" "responds (case r'' of
      R_unit \<Rightarrow> Ret None | R_error e'' \<Rightarrow> Ret (Some e'') | _ \<Rightarrow> Throw Bad_Response) ks (Ret ec)"
      by (auto simp: responds_Vis_Ret_iff)
    then show ?thesis by (cases r'') simp_all
  qed
  have "connects fs = []"
  proof (cases r)
    case (R_error e)
    show ?thesis
    proof (cases "e \<noteq> in_progress \<and> e \<noteq> would_block")
      case True
      with r(2) R_error show ?thesis by simp
    next
      case False
      with r(2) R_error obtain r' gs where g: "fs = (Os_poll_connect (fd s), r') # gs" "responds (case r' of
               R_error e' \<Rightarrow> Ret (Some e')
             | R_size _ \<Rightarrow> Vis (Os_so_error (fd s)) (\<lambda>r. case r of
                   R_unit \<Rightarrow> Ret None
                 | R_error e'' \<Rightarrow> Ret (Some e'')
                 | _ \<Rightarrow> Throw Bad_Response)
             | _ \<Rightarrow> Throw Bad_Response) gs (Ret ec)"
        by (auto simp: responds_Vis_Ret_iff)
      then show ?thesis by (cases r') (use g so in simp_all)
    qed
  qed (use r(2) in simp_all)
  with r(1) show ?thesis by simp
qed

lemma connect_loop_trace:
  "responds (connect_loop as s ec0) es (Ret (s', ec)) \<Longrightarrow>
   if ec = None then \<exists>bs a cs. as = bs @ a # cs \<and> connects es = bs @ [a] \<and> s' = stream_sock (fd s)
   else connects es = as"
proof (induction as s ec0 arbitrary: es rule: connect_loop.induct)
  case (1 s ec0)
  then show ?case by (auto split: if_splits)
next
  case (2 a as s ec0)
  from 2(2) obtain es1 es2 es3 s1 ec1 s2 ec2 where tr: "es = es1 @ es2 @ es3"
    "responds (sock_close s) es1 (Ret (s1, ec1))" "responds (sock_connect s1 a) es2 (Ret (s2, ec2))"
    "responds (if ec2 = None then Ret (s2, None) else connect_loop as s2 ec2) es3 (Ret (s', ec))"
    by (auto elim!: responds_bindE)
  have c: "s1 = construct (fd s)" "connects es1 = []" using close_trace [OF tr(2)] by simp_all
  from tr(3) have d: "s2 = stream_sock (fd s)" "responds (sync_connect (stream_sock (fd s)) a) es2 (Ret ec2)"
    by (auto simp: sock_connect_def Let_def c(1) elim!: responds_bindE)
  from sync_connect_trace [OF d(2)] have e: "connects es2 = [a]" by simp
  show ?case
  proof (cases "ec2 = None")
    case True
    with tr(4) have "es3 = []" "s' = s2" "ec = None" by auto
    with tr(1) c e d(1) show ?thesis by (auto intro: exI [of _ "[]"])
  next
    case False
    with tr(4) have tr4: "responds (connect_loop as s2 ec2) es3 (Ret (s', ec))" by simp
    from "2.IH" [OF False tr4] have ih: "if ec = None
      then \<exists>bs b cs. as = bs @ b # cs \<and> connects es3 = bs @ [b] \<and> s' = stream_sock (fd s2)
      else connects es3 = as" .
    show ?thesis
    proof (cases "ec = None")
      case True
      with ih obtain bs b cs where "as = bs @ b # cs" "connects es3 = bs @ [b]" "s' = stream_sock (fd s2)" by auto
      with True tr(1) c e d(1) show ?thesis by (auto intro!: exI [of _ "a # bs"])
    next
      case False
      with ih tr(1) c e show ?thesis by auto
    qed
  qed
qed

text \<open>
  \<open>asio::connect\<close> tries the resolved addresses in order and stops at the first one
  that accepts: when it returns, the socket is an open stream socket and the attempts were
  the addresses up to that one.
\<close>

theorem connect_tries_in_order:
  assumes "responds (asio_connect s as) es (Ret s')"
  shows "s' = stream_sock (fd s) \<and> (\<exists>bs a cs. as = bs @ a # cs \<and> connects es = bs @ [a])"
proof -
  from assms have "responds (connect_loop as s None) es (Ret (s', None))"
    unfolding asio_connect_def by (auto elim!: responds_bindE dest!: throw_error_trace)
  from connect_loop_trace [OF this] show ?thesis by auto
qed

lemma connect_tries_in_order_witness:
  "connects [(Os_connect (Client 5500) V6, R_error connection_refused), (Os_close (Client 5500), R_unit),
     (Os_connect (Client 5500) V4, R_unit)] = [V6, V4]"
proof -
  have "responds (asio_connect (construct (Client 5500)) [V6, V4])
    [(Os_connect (Client 5500) V6, R_error connection_refused), (Os_close (Client 5500), R_unit),
     (Os_connect (Client 5500) V4, R_unit)] (Ret (stream_sock (Client 5500)))"
    by (simp add: asio_connect_def sock_close_def close_fd_def sock_connect_def
        sync_connect_def Let_def trace_eval)
  from connect_tries_in_order [OF this] show ?thesis by simp
qed

end
