(* ===== verification/Service_Properties.thy ===== *)
theory Service_Properties
  imports Pipe_Properties Reverse_Service Dsp_Service
begin

text \<open>
  The properties of the reverse service and of the DSP service taken alone.
\<close>

lemma reverse_from_trace:
  "responds (reverse_from i buf) es (Ret out) \<longleftrightarrow> out = take i buf @ map rev (drop i buf) \<and>
     map fst es = map (\<lambda>c. Console (''reversing channel '' @ show_nat c @ endl)) [i..<length buf]"
proof (induction "length buf - i" arbitrary: i buf es)
  case 0
  then show ?case by (subst reverse_from.simps) auto
next
  case (Suc m)
  then have i: "i < length buf" by simp
  let ?buf = "buf[i := rev (buf ! i)]"
  have out: "take (Suc i) ?buf @ map rev (drop (Suc i) ?buf) = take i buf @ map rev (drop i buf)"
    using i by (simp add: take_Suc_conv_app_nth flip: Cons_nth_drop_Suc)
  have ih: "responds (reverse_from (Suc i) ?buf) fs (Ret out) \<longleftrightarrow> out = take i buf @ map rev (drop i buf) \<and>
      map fst fs = map (\<lambda>c. Console (''reversing channel '' @ show_nat c @ endl)) [Suc i..<length buf]" for fs
    using Suc.hyps(1) [of ?buf "Suc i" fs] Suc.hyps(2) unfolding out by simp
  have "responds (reverse_from i buf) es (Ret out) \<longleftrightarrow>
      (\<exists>r fs. es = (Console (''reversing channel '' @ show_nat i @ endl), r) # fs \<and>
        responds (reverse_from (Suc i) ?buf) fs (Ret out))"
    using i by (subst reverse_from.simps) (simp add: print_def responds_Vis_Ret_iff)
  also have "\<dots> \<longleftrightarrow> out = take i buf @ map rev (drop i buf) \<and>
      map fst es = map (\<lambda>c. Console (''reversing channel '' @ show_nat c @ endl)) [i..<length buf]"
    unfolding ih using i by (cases es) (auto simp: upt_conv_Cons)
  finally show ?case .
qed

text \<open>
  C11: \<open>reverse\<close> announces every channel in order and returns the buffer with each channel
  reversed; there is no other run.
\<close>

theorem reverse_reverses_channels:
  "responds (reverse_audio buf) es (Ret out) \<longleftrightarrow> out = map rev buf \<and>
     map fst es = map (\<lambda>c. Console (''reversing channel '' @ show_nat c @ endl)) [0..<length buf]"
  by (simp only: reverse_audio_def reverse_from_trace take_0 drop_0 append_Nil)

definition dsp_dispatch :: "downstream \<Rightarrow> upstream \<Rightarrow> string \<Rightarrow> ((downstream \<times> upstream) + int) io" where
  "dsp_dispatch D U msg =
     (if msg = ''shift'' then
       bind_io (print (''shift'' @ endl)) (\<lambda>_. Ret (Inl (D, U)))
     else if msg = ''stretch'' then
       bind_io (print (''stretch'' @ endl)) (\<lambda>_. Ret (Inl (D, U)))
     else if msg = ''reverse'' then dsp_reverse D U
     else if take 4 msg = ''exit'' then dsp_exit D U
     else Ret (Inl (D, U)))"

lemma dsp_round_dispatch: "dsp_round (D, U) = bind_io (recv_message D) (dsp_dispatch D U)"
  unfolding dsp_round_def dsp_dispatch_def [abs_def] split_conv ..

lemma dsp_round_responds:
  assumes "responds (recv_message D) es (Ret msg)" "responds (dsp_dispatch D U msg) fs (Ret z)"
  shows "responds (dsp_round (D, U)) (es @ fs) (Ret z)"
  unfolding dsp_round_dispatch
  using responds_bindI [of "recv_message D" es msg "dsp_dispatch D U" fs "Ret z"] assms by blast

text \<open>
  The DSP service has no effect called \<open>stretch\<close> or \<open>shift\<close>: it prints the
  command and waits for the next one, and it sends nothing.
\<close>

theorem effects_only_printed:
  assumes "responds (recv_message D) es (Ret msg)" "msg = ''stretch'' \<or> msg = ''shift''"
  shows "responds (dsp_round (D, U)) (es @ [(Console (msg @ endl), R_unit)]) (Ret (Inl (D, U)))"
  using assms(2) by (intro dsp_round_responds [OF assms(1)]) (auto simp: dsp_dispatch_def print_def responds_Vis_Ret_iff)

text \<open>A pipe of the DSP service for the concrete traces.\<close>

definition dsp_demo :: downstream where
  "dsp_demo = down_of 5500 True (stream_sock (Server 5500))"

lemma dsp_demo_recv:
  assumes "bs \<noteq> []" "length bs \<le> 1024"
  shows "responds (recv_message dsp_demo)
    [(Os_poll_read (Server 5500), R_size 1), (Os_recv (Server 5500) 1024, R_data bs)] (Ret (bytes_string bs))"
  using assms by (simp add: dsp_demo_def recv_message_def Let_def wait_read_def read_some_def sync_recv1_def
      recv1_def poll_read_def poll_result_def resize_shrink trace_eval)

lemma effects_only_printed_witness:
  "responds (dsp_round (dsp_demo, demo)) ([(Os_poll_read (Server 5500), R_size 1),
     (Os_recv (Server 5500) 1024, R_data (string_bytes ''stretch''))] @ [(Console (''stretch'' @ endl), R_unit)])
     (Ret (Inl (dsp_demo, demo)))"
  using effects_only_printed [OF dsp_demo_recv [of "string_bytes ''stretch''"], of demo] by simp

text \<open>
  A message that is not a command is dropped.  In particular two commands that TCP
  hands over in one read are both lost.
\<close>

theorem unknown_commands_dropped:
  assumes "responds (recv_message D) es (Ret msg)"
    "msg \<notin> {''shift'', ''stretch'', ''reverse''}" "take 4 msg \<noteq> ''exit''"
  shows "responds (dsp_round (D, U)) es (Ret (Inl (D, U)))"
  using dsp_round_responds [OF assms(1), of U "[]" "Inl (D, U)"] assms(2,3) by (simp add: dsp_dispatch_def)

lemma unknown_commands_dropped_witness:
  "responds (dsp_round (dsp_demo, demo)) [(Os_poll_read (Server 5500), R_size 1),
     (Os_recv (Server 5500) 1024, R_data (string_bytes ''stretch'' @ string_bytes ''exit''))]
     (Ret (Inl (dsp_demo, demo)))"
  by (rule unknown_commands_dropped [OF dsp_demo_recv [of "string_bytes ''stretch'' @ string_bytes ''exit''"]])
    simp_all

end
