(* ===== verification/Gui_Properties.thy ===== *)
theory Gui_Properties
  imports Gui_Runs Pipe_Properties
begin

text \<open>
  The properties of the GUI taken alone: what it reads from the user, what its menus can
  reach, and what happens to the files.
\<close>

subsection \<open>Programs that end\<close>

text \<open>Every run of the tree is finite, whatever is answered.\<close>

inductive halts :: "'r io \<Rightarrow> bool" where
  halts_return: "halts (Ret x)"
| halts_throw: "halts (Throw e)"
| halts_silent: "halts t \<Longrightarrow> halts (Tau t)"
| halts_call: "(\<And>r. halts (h r)) \<Longrightarrow> halts (Vis e h)"

lemma halts_bind: "halts t \<Longrightarrow> (\<And>x. halts (k x)) \<Longrightarrow> halts (bind_io t k)"
  by (induction rule: halts.induct) (auto intro: halts.intros)

lemma halts_print [simp, intro]: "halts (print s)"
  by (auto simp: print_def intro: halts.intros)

lemma halts_while:
  assumes "\<And>s. P s \<Longrightarrow> (\<exists>t :: unit io. b s = bind_io t (\<lambda>_. Throw e) \<and> halts t)
      \<or> (\<exists>(t :: unit io) x. b s = bind_io t (\<lambda>_. Ret (Inr x)) \<and> halts t)
      \<or> (\<exists>(t :: unit io) s'. b s = bind_io t (\<lambda>_. Ret (Inl s')) \<and> halts t \<and> P s' \<and> m s' < (m s :: nat))"
    "P s"
  shows "halts (while_io b s)"
  using assms(2)
proof (induction "m s" arbitrary: s rule: less_induct)
  case less
  from assms(1) [OF less.prems] consider
      t :: "unit io" where "b s = bind_io t (\<lambda>_. Throw e)" "halts t"
    | t :: "unit io" and x where "b s = bind_io t (\<lambda>_. Ret (Inr x))" "halts t"
    | t :: "unit io" and s' where "b s = bind_io t (\<lambda>_. Ret (Inl s'))" "halts t" "P s'" "m s' < m s"
    by blast
  then show ?case
  proof cases
    case 3
    have "halts (Tau (while_io b s'))" by (intro halts_silent less.hyps) (use 3 in simp_all)
    with 3 show ?thesis by (subst while_io_unfold) (auto intro!: halts_bind)
  qed (subst while_io_unfold, auto intro!: halts_bind halts_return halts_throw)+
qed

subsection \<open>Numbers from the user\<close>

lemma ignore_line_length: "length (ignore_line s) \<le> length s"
  by (induction s) auto

lemma ignore_line_shorter: "s \<noteq> [] \<Longrightarrow> length (ignore_line s) < length s"
  by (cases s) (auto simp: less_Suc_eq_le ignore_line_length)

lemma read_int_length: "read_int s = (Some v, rest) \<Longrightarrow> length rest \<le> length s \<and> s \<noteq> []"
proof -
  assume rd: "read_int s = (Some v, rest)"
  have dw: "length (dropWhile P xs) \<le> length xs" for P and xs :: string
    by (rule length_dropWhile_le)
  from rd have ne: "dropWhile is_space s \<noteq> []" and
    rest: "rest = dropWhile is_digit (if hd (dropWhile is_space s) = CHR ''-'' \<or> hd (dropWhile is_space s) = CHR ''+''
      then tl (dropWhile is_space s) else dropWhile is_space s)"
    by (auto simp: read_int_def Let_def split: if_splits)
  have "length rest \<le> length (dropWhile is_space s)"
    unfolding rest using dw [of is_digit "tl (dropWhile is_space s)"] dw [of is_digit "dropWhile is_space s"]
    by (simp, linarith)
  with dw [of is_space s] ne show ?thesis by auto
qed

definition int_attempt :: "int \<Rightarrow> int \<Rightarrow> 'af gui \<Rightarrow> ('af gui + int \<times> 'af gui) io" where
  "int_attempt lowerbound upperbound = (\<lambda>g.
       bind_io (print (''Enter ('' @ show_int lowerbound @ ''-'' @ show_int upperbound @ ''): '')) (\<lambda>_.
       case read_int (ignore_line (stdin g)) of
         (None, rest) \<Rightarrow> Throw Uninitialised_Read
       | (Some choice, rest) \<Rightarrow>
           let g = g\<lparr>stdin := rest\<rparr> in
           if choice < lowerbound \<or> choice > upperbound then
             bind_io (print (endl @ ''Error: choice out of bounds!'' @ endl)) (\<lambda>_. Ret (Inl g))
           else Ret (Inr (choice, g))))"

lemma get_int_attempts: "get_int_from_user lo hi g = while_io (int_attempt lo hi) g"
  by (simp add: get_int_from_user_def int_attempt_def)

text \<open>
  \<open>get_int_from_user\<close> ends on every input: it returns a number or the input runs out
  and an uninitialised variable is read.
\<close>

theorem get_int_halts: "halts (get_int_from_user lo hi g)"
  unfolding get_int_attempts
proof (rule halts_while [where P = "\<lambda>_. True" and m = "\<lambda>g. length (stdin g)" and e = Uninitialised_Read])
  fix g :: "'a gui"
  let ?p = "print (''Enter ('' @ show_int lo @ ''-'' @ show_int hi @ ''): '')"
  obtain c rest where rd: "read_int (ignore_line (stdin g)) = (c, rest)" by (cases "read_int (ignore_line (stdin g))")
  show "(\<exists>t :: unit io. int_attempt lo hi g = bind_io t (\<lambda>_. Throw Uninitialised_Read) \<and> halts t)
      \<or> (\<exists>(t :: unit io) x. int_attempt lo hi g = bind_io t (\<lambda>_. Ret (Inr x)) \<and> halts t)
      \<or> (\<exists>(t :: unit io) s'. int_attempt lo hi g = bind_io t (\<lambda>_. Ret (Inl s')) \<and> halts t \<and> True
          \<and> length (stdin s') < length (stdin g))"
  proof (cases c)
    case None
    with rd have "int_attempt lo hi g = bind_io ?p (\<lambda>_. Throw Uninitialised_Read)"
      by (simp add: int_attempt_def)
    then show ?thesis by blast
  next
    case (Some v)
    let ?g = "g\<lparr>stdin := rest\<rparr>"
    from rd Some read_int_length [of "ignore_line (stdin g)" v rest]
    have ne: "length rest \<le> length (ignore_line (stdin g))" "ignore_line (stdin g) \<noteq> []" by auto
    then have "stdin g \<noteq> []" by (cases "stdin g") auto
    with ignore_line_shorter [of "stdin g"] ne have lt: "length (stdin ?g) < length (stdin g)" by simp
    show ?thesis
    proof (cases "v < lo \<or> v > hi")
      case True
      with rd Some have "int_attempt lo hi g =
          bind_io (bind_io ?p (\<lambda>_. print (endl @ ''Error: choice out of bounds!'' @ endl))) (\<lambda>_. Ret (Inl ?g))"
        by (simp add: int_attempt_def)
      then show ?thesis using lt by (blast intro: halts_bind)
    next
      case False
      with rd Some have "int_attempt lo hi g = bind_io ?p (\<lambda>_. Ret (Inr (v, ?g)))"
        by (simp add: int_attempt_def)
      then show ?thesis by blast
    qed
  qed
qed simp

lemma get_int_loop:
  "loop_runs (int_attempt lo hi) g es (c, g') \<Longrightarrow> lo \<le> c \<and> c \<le> hi \<and> g' = g\<lparr>stdin := stdin g'\<rparr>"
proof (induction g es "(c, g')" rule: loop_runs.induct)
  case (finish g es)
  then show ?case
    by (auto simp: int_attempt_def Let_def elim!: responds_bindE split: option.splits prod.splits if_splits)
next
  case (again g es g1 fs)
  from again(1) have "g1 = g\<lparr>stdin := stdin g1\<rparr>"
    by (auto simp: int_attempt_def Let_def elim!: responds_bindE split: option.splits prod.splits if_splits)
  with again(3) show ?case by (metis gui.update_convs(10) gui.surjective)
qed

lemma get_int_trace:
  "responds (get_int_from_user lo hi g) es (Ret (c, g')) \<Longrightarrow> lo \<le> c \<and> c \<le> hi \<and> g' = g\<lparr>stdin := stdin g'\<rparr>"
  unfolding get_int_attempts by (rule get_int_loop [OF while_io_runs])

text \<open>
  A number that \<open>get_int_from_user\<close> returns lies within the bounds, and only the input
  has changed.
\<close>

theorem get_int_in_bounds:
  assumes "responds (get_int_from_user lo hi g) es (Ret (c, g'))"
  shows "lo \<le> c \<and> c \<le> hi \<and> g' = g\<lparr>stdin := stdin g'\<rparr>"
  using assms by (rule get_int_trace)

text \<open>A GUI for the concrete runs.\<close>

definition gui_demo :: "int \<Rightarrow> string \<Rightarrow> nat gui" where
  "gui_demo cur input = gui_state False cur False 0 ''No file loaded'' [V4] (\<lambda>_. None) input"

lemma gui_demo_simps [simp]:
  "stdin (gui_demo cur input) = input" "(gui_demo cur input)\<lparr>stdin := s\<rparr> = gui_demo cur s"
  "disk (gui_demo cur input) = (\<lambda>_. None)" "current_menu (gui_demo cur input) = cur"
  "well_formed (gui_demo cur input) \<longleftrightarrow> 0 \<le> cur \<and> cur \<le> 2"
  "file_loaded_status (gui_demo cur input) = False" "audio_file (gui_demo cur input) = 0"
  by (simp_all add: gui_demo_def)

lemma responds_print [trace_eval]:
  "responds (bind_io (print s) k) es (Ret x) \<longleftrightarrow> (\<exists>r fs. es = (Console s, r) # fs \<and> responds (k ()) fs (Ret x))"
  by (simp add: print_def responds_Vis_Ret_iff)

lemma demo_typed: "typed ['''', ''9'', ''1''] = endl @ CHR ''9'' # endl @ CHR ''1'' # endl"
  by (simp add: typed_simps)

lemma get_int_in_bounds_witness:
  "0 \<le> (1 :: int) \<and> (1 :: int) \<le> 2 \<and> gui_demo 0 endl = gui_demo 0 (typed ['''', ''9'', ''1''])\<lparr>stdin := endl\<rparr>"
proof -
  let ?p = "(Console (''Enter ('' @ show_int 0 @ ''-'' @ show_int 2 @ ''): ''), R_unit)"
  have nine: "read_int (CHR ''9'' # endl @ s) = (Some 9, endl @ s)" for s
    by (simp add: read_int_def is_space_def is_digit_def digits_value_def INT_MAX_def INT_MIN_def endl_def newline_def)
  have "responds (get_int_from_user 0 2 (gui_demo 0 (typed ['''', ''9'', ''1''])))
    [?p, (Console (endl @ ''Error: choice out of bounds!'' @ endl), R_unit), ?p] (Ret (1, gui_demo 0 endl))"
    by (simp add: get_int_from_user_def demo_typed nine read_digit(2) [of "[]", simplified] trace_eval Let_def)
  from get_int_in_bounds [OF this] show ?thesis by simp
qed

text \<open>
  An answer that is not a number counts as 0, which in the main menu is the choice
  that exits the program.
\<close>

theorem no_number_means_exit:
  assumes "stdin g = endl @ c # rest" "\<not> is_space c" "\<not> is_digit c" "c \<noteq> CHR ''-''" "c \<noteq> CHR ''+''"
  shows "\<exists>es. responds (get_int_from_user 0 2 g) es (Ret (0, g\<lparr>stdin := c # rest\<rparr>))
    \<and> menu_functions main_menu ! 0 = main_menu_exit_program"
proof -
  have "read_int (ignore_line (stdin g)) = (Some 0, c # rest)"
    using assms by (simp add: read_int_def digits_value_def INT_MAX_def INT_MIN_def)
  then have "responds (get_int_from_user 0 2 g)
      [(Console (''Enter ('' @ show_int 0 @ ''-'' @ show_int 2 @ ''): ''), R_unit)] (Ret (0, g\<lparr>stdin := c # rest\<rparr>))"
    by (simp add: get_int_from_user_def trace_eval Let_def)
  then have "\<exists>es. responds (get_int_from_user 0 2 g) es (Ret (0, g\<lparr>stdin := c # rest\<rparr>))" by (rule exI)
  then show ?thesis by simp
qed

lemma no_number_means_exit_witness:
  "\<exists>es. responds (get_int_from_user 0 2 (gui_demo 0 (endl @ ''load'' @ endl))) es
     (Ret (0, gui_demo 0 (''load'' @ endl)))"
  using no_number_means_exit [of "gui_demo 0 (endl @ ''load'' @ endl)" "CHR ''l''" "''oad'' @ endl"]
  by (simp add: is_space_def is_digit_def)

subsection \<open>The menu that is shown\<close>

text \<open>
  \<open>set_current_menu\<close> accepts one number too many: a GUI asked for the menu after its
  last one, or for any higher number, runs out of bounds as soon as it is displayed.
\<close>

theorem menu_after_last_undefined:
  assumes "well_formed g" "3 \<le> k"
  shows "current_menu (set_current_menu k g) = num_menus g \<and>
    (\<exists>es. responds (display (set_current_menu k g)) es (Throw Out_Of_Bounds))"
proof -
  let ?g = "set_current_menu k g"
  have cur: "current_menu ?g = 3" "num_menus g = 3" "menus ?g = all_menus" "header ?g = [rule_line, ''File: '', rule_line]"
    using assms by (simp_all add: set_current_menu_def well_formed_def)
  have at: "vec_at (menus ?g) (current_menu ?g) = Inl Out_Of_Bounds"
    by (simp add: cur vec_at_def all_menus_def)
  have p: "responds (bind_io (print s) k) ((Console s, R_unit) # es) u" if "responds (k ()) es u" for s k es and u :: "unit io"
    using that by (simp add: print_def responds.answer)
  have "responds (display ?g) [(Shell ''CLS'', R_unit), (Console (rule_line @ endl), R_unit),
      (Console (''File: '' @ filename_display_alias ?g @ endl), R_unit), (Console (rule_line @ endl), R_unit)]
    (Throw Out_Of_Bounds)"
    unfolding display_def system_def bind_io_simps
    by (rule responds.answer) (simp add: print_header_def cur(4) at p)
  then have "\<exists>es. responds (display ?g) es (Throw Out_Of_Bounds)" by (rule exI)
  with cur(1,2) show ?thesis by simp
qed

lemma menu_after_last_undefined_witness:
  "current_menu (set_current_menu 7 (gui_demo 0 [])) = num_menus (gui_demo 0 [])"
  using menu_after_last_undefined [of "gui_demo 0 []" 7] by simp

subsection \<open>Files\<close>

definition load_attempt :: "'af audiofile_lib \<Rightarrow> 'af gui \<Rightarrow> ('af gui + 'af gui) io" where
  "load_attempt A = (\<lambda>g.
       bind_io (print ''Enter Load Filepath: '') (\<lambda>_.
       case get_str_from_user g of
         (path, g) \<Rightarrow>
           let g = g\<lparr>audio_file := af_load A path (disk g) (audio_file g)\<rparr> in
           if af_num_channels A (audio_file g) = 2
           then Ret (Inr (g\<lparr>filename_display_alias := path, file_loaded_status := True\<rparr>))
           else Ret (Inl g)))"

lemma load_attempts: "load_audio_file A g = while_io (load_attempt A) g"
  by (simp add: load_audio_file_def load_attempt_def)

lemma get_str_frame: "get_str_from_user g = (path, g1) \<Longrightarrow> g1 = g\<lparr>stdin := stdin g1\<rparr>"
  by (auto simp: get_str_from_user_def split: prod.splits)

lemma load_attempt_trace:
  assumes "responds (load_attempt A g) es (Ret z)"
  shows "\<exists>path rest af. af = af_load A path (disk g) (audio_file g) \<and>
    get_str_from_user g = (path, g\<lparr>stdin := rest\<rparr>) \<and> sent es = [] \<and>
    z = (if af_num_channels A af = 2
      then Inr (g\<lparr>stdin := rest, audio_file := af, filename_display_alias := path, file_loaded_status := True\<rparr>)
      else Inl (g\<lparr>stdin := rest, audio_file := af\<rparr>))"
proof -
  obtain path g1 where gs: "get_str_from_user g = (path, g1)" by (cases "get_str_from_user g")
  define rest where "rest = stdin g1"
  from get_str_frame [OF gs] have g1: "g1 = g\<lparr>stdin := rest\<rparr>" by (simp add: rest_def)
  from assms show ?thesis
    by (auto simp: load_attempt_def gs g1 Let_def trace_eval intro!: exI [of _ path] exI [of _ rest])
qed

lemma load_loop:
  "loop_runs (load_attempt A) g es g' \<Longrightarrow>
   af_num_channels A (audio_file g') = 2 \<and> file_loaded_status g' \<and> sent es = [] \<and>
   (\<exists>a. audio_file g' = af_load A (filename_display_alias g') (disk g) a) \<and>
   g' = g\<lparr>stdin := stdin g', audio_file := audio_file g', filename_display_alias := filename_display_alias g',
     file_loaded_status := True\<rparr>"
proof (induction rule: loop_runs.induct)
  case (finish g es g')
  from load_attempt_trace [OF finish] show ?case by (auto split: if_splits)
next
  case (again g es g1 fs g')
  from load_attempt_trace [OF again(1)] obtain af rest where
    g1: "g1 = g\<lparr>stdin := rest, audio_file := af\<rparr>" "sent es = []" by (auto split: if_splits)
  from again(3) g1 show ?case by (auto simp: g1(1))
qed

lemma load_trace:
  "responds (load_audio_file A g) es (Ret g') \<Longrightarrow>
   af_num_channels A (audio_file g') = 2 \<and> file_loaded_status g' \<and> sent es = [] \<and>
   (\<exists>a. audio_file g' = af_load A (filename_display_alias g') (disk g) a) \<and>
   g' = g\<lparr>stdin := stdin g', audio_file := audio_file g', filename_display_alias := filename_display_alias g',
     file_loaded_status := True\<rparr>"
  unfolding load_attempts by (rule load_loop [OF while_io_runs])

text \<open>
  When \<open>load_audio_file\<close> returns, a file with two channels was loaded from the path
  that is now shown, and nothing but the input, the file, the name and the status changed.
\<close>

theorem load_succeeds:
  assumes "responds (load_audio_file A g) es (Ret g')"
  shows "af_num_channels A (audio_file g') = 2 \<and> file_loaded_status g' \<and>
   (\<exists>a. audio_file g' = af_load A (filename_display_alias g') (disk g) a) \<and>
   g' = g\<lparr>stdin := stdin g', audio_file := audio_file g', filename_display_alias := filename_display_alias g',
     file_loaded_status := True\<rparr>"
  using load_trace [OF assms] by blast

text \<open>A library whose files are numbers of channels: \<open>mono.wav\<close> has one, every other two.\<close>

definition count_lib :: "nat audiofile_lib" where
  "count_lib = \<lparr>af_new = 0, af_load = \<lambda>path fs a. if path = ''mono.wav'' then 1 else if path = '''' then 0 else 2,
     af_save = \<lambda>path a fs. fs(path \<mapsto> [of_nat a]), af_num_channels = int, af_samples = \<lambda>a. [], af_set_buffer = \<lambda>b a. a\<rparr>"

lemma load_succeeds_witness:
  "af_num_channels count_lib 2 = 2 \<and>
   (\<exists>g' :: nat gui. filename_display_alias g' = ''a.wav'' \<and> (\<exists>a. audio_file g' = af_load count_lib ''a.wav'' (\<lambda>_. None) a))"
proof -
  let ?g = "gui_demo 1 (typed ['''', ''mono.wav'', ''a.wav''])"
  let ?g' = "?g\<lparr>stdin := endl, audio_file := 2, filename_display_alias := ''a.wav'', file_loaded_status := True\<rparr>"
  let ?p = "(Console ''Enter Load Filepath: '', R_unit)"
  have w: "word ''mono.wav''" "word ''a.wav''" by (simp_all add: word_def is_space_def)
  have "responds (load_audio_file count_lib ?g) [?p, ?p] (Ret ?g')"
    using read_word_word [OF w(1), of "''a.wav'' @ endl"] read_word_word [OF w(2), of "[]"]
    by (simp add: load_audio_file_def get_str_from_user_def typed_simps Let_def count_lib_def trace_eval)
  from load_succeeds [OF this] show ?thesis by (auto simp: count_lib_def intro!: exI [of _ ?g'])
qed



text \<open>
  The runs of \<open>save_audio_file\<close>: the file is new, or it exists and the user is asked.
\<close>

lemma save_cases:
  assumes "responds (save_audio_file A g) es (Ret g')" "get_str_from_user g = (path, g1)"
  obtains "disk g1 path = None" "g' = g1\<lparr>disk := af_save A path (audio_file g1) (disk g1)\<rparr>" "sent es = []"
  | fs choice g2 where "disk g1 path \<noteq> None" "responds (get_int_from_user 0 1 g1) fs (Ret (choice, g2))"
      "choice = 0 \<and> g' = g2 \<or> choice = 1 \<and> g' = g2\<lparr>disk := af_save A path (audio_file g2) (disk g2)\<rparr>"
      "sent es = sent fs"
proof (cases "disk g1 path = None")
  case True
  with assms that(1) show thesis by (auto simp: save_audio_file_def responds_print)
next
  case False
  with assms obtain fs0 fs1 where pre: "sent es = sent fs1"
    "responds (bind_io (get_int_from_user 0 1 g1) (\<lambda>(choice, g).
         if choice = 0 then Ret g
         else if choice = 1 then Ret (g\<lparr>disk := af_save A path (audio_file g) (disk g)\<rparr>)
         else Ret g)) fs1 (Ret g')"
    by (simp add: save_audio_file_def responds_print) (elim exE conjE, simp)
  from pre(2) show thesis
  proof (rule responds_bindE)
    fix es1 es2 x
    assume a: "fs1 = es1 @ es2" "responds (get_int_from_user 0 1 g1) es1 (Ret x)"
      "responds (case x of (choice, g) \<Rightarrow>
         if choice = 0 then Ret g
         else if choice = 1 then Ret (g\<lparr>disk := af_save A path (audio_file g) (disk g)\<rparr>)
         else Ret g) es2 (Ret g')"
    obtain choice g2 where x: "x = (choice, g2)" by (cases x)
    from a(2) x have c: "responds (get_int_from_user 0 1 g1) es1 (Ret (choice, g2))" by simp
    from get_int_trace [OF c] have "choice = 0 \<or> choice = 1" by arith
    with a(3) x have "es2 = []"
      "choice = 0 \<and> g' = g2 \<or> choice = 1 \<and> g' = g2\<lparr>disk := af_save A path (audio_file g2) (disk g2)\<rparr>"
      by auto
    with that(2) [OF False c] pre(1) a(1) show thesis by simp
  qed
qed

text \<open>
  C38: \<open>save_audio_file\<close> writes a new file without asking, and overwrites an existing one
  only if the user answers 1; otherwise the files stay as they were.
\<close>

theorem save_asks_before_overwriting:
  assumes "responds (save_audio_file A g) es (Ret g')" "get_str_from_user g = (path, g1)"
  shows "if disk g path = None then g' = g1\<lparr>disk := af_save A path (audio_file g) (disk g)\<rparr>
    else \<exists>fs choice g2. responds (get_int_from_user 0 1 g1) fs (Ret (choice, g2)) \<and>
      (choice = 0 \<and> g' = g2 \<and> disk g' = disk g
       \<or> choice = 1 \<and> g' = g2\<lparr>disk := af_save A path (audio_file g) (disk g)\<rparr>)"
proof -
  note g1 = get_str_frame [OF assms(2)]
  have g1_disk: "disk g1 = disk g" "audio_file g1 = audio_file g" by (subst g1, simp)+
  from assms show ?thesis
  proof (cases rule: save_cases)
    case 1
    with g1_disk show ?thesis by simp
  next
    case (2 fs choice g2)
    have g2: "g2 = g1\<lparr>stdin := stdin g2\<rparr>" using get_int_trace [OF 2(2)] by auto
    have "disk g2 = disk g" "audio_file g2 = audio_file g" using g1_disk by (subst g2, simp)+
    with 2 g1_disk show ?thesis by auto
  qed
qed

lemma save_asks_before_overwriting_witness:
  "disk (gui_demo 1 endl\<lparr>disk := af_save count_lib ''x'' 0 (\<lambda>_. None)\<rparr>) ''x'' = Some [0]"
proof -
  let ?g = "gui_demo 1 (typed ['''', ''x''])"
  have str: "get_str_from_user ?g = (''x'', gui_demo 1 endl)"
    using read_word_word [of "''x''" "[]"] by (simp add: get_str_from_user_def typed_simps word_def is_space_def)
  have "responds (save_audio_file count_lib ?g) [(Console ''Enter Save Filepath: '', R_unit)]
    (Ret (gui_demo 1 endl\<lparr>disk := af_save count_lib ''x'' 0 (\<lambda>_. None)\<rparr>))"
    by (simp add: save_audio_file_def str trace_eval)
  from save_asks_before_overwriting [OF this str] show ?thesis by (simp add: count_lib_def)
qed

subsection \<open>The name with its mark\<close>

text \<open>
  The mark is added once: a marked name ends in it, and marking again changes nothing;
  only the empty name cannot be marked.
\<close>

theorem mark_alias_once:
  "(mark_alias name = Inl Std_Out_Of_Range \<longleftrightarrow> name = '''') \<and>
   (mark_alias name = Inr name' \<longrightarrow> last name' = CHR ''*'' \<and> mark_alias name' = Inr name')"
  by (auto simp: mark_alias_def)

lemma mark_alias_once_witness: "mark_alias ''a.wav*'' = Inr ''a.wav*''"
  using mark_alias_once [of "''a.wav''" "''a.wav*''"] by (simp add: mark_alias_def)

subsection \<open>The main loop\<close>

lemma get_int_silent_loop:
  "loop_runs (int_attempt lo hi) g es z \<Longrightarrow> sent es = []"
proof (induction rule: loop_runs.induct)
  case (finish g es z)
  then show ?case
    by (auto simp: int_attempt_def trace_eval Let_def split: option.splits prod.splits if_splits)
next
  case (again g es g1 fs z)
  from again(1) have "sent es = []"
    by (auto simp: int_attempt_def trace_eval Let_def split: option.splits prod.splits if_splits)
  with again(3) show ?case by simp
qed

lemma get_int_silent: "responds (get_int_from_user lo hi g) es (Ret z) \<Longrightarrow> sent es = []"
  unfolding get_int_attempts by (rule get_int_silent_loop [OF while_io_runs])

lemma save_frame:
  assumes "responds (save_audio_file A g) es (Ret g')"
  shows "\<exists>s d. g' = g\<lparr>stdin := s, disk := d\<rparr>" "sent es = []"
proof -
  obtain path g1 where gs: "get_str_from_user g = (path, g1)" by (cases "get_str_from_user g")
  define s where "s = stdin g1"
  from get_str_frame [OF gs] have "g1 = g\<lparr>stdin := s\<rparr>" by (simp add: s_def)
  then have g1: "g1 = g\<lparr>stdin := s, disk := disk g\<rparr>" by simp
  from assms gs have "(\<exists>s d. g' = g\<lparr>stdin := s, disk := d\<rparr>) \<and> sent es = []"
  proof (cases rule: save_cases)
    case 1
    with g1 show ?thesis by auto
  next
    case (2 fs choice g2)
    define s' where "s' = stdin g2"
    have "g2 = g1\<lparr>stdin := s'\<rparr>" using get_int_trace [OF 2(2)] by (auto simp: s'_def)
    then have g2: "g2 = g\<lparr>stdin := s', disk := disk g\<rparr>" unfolding g1 by simp
    then have "g2\<lparr>disk := d\<rparr> = g\<lparr>stdin := s', disk := d\<rparr>" for d by simp
    with g2 2(3,4) get_int_silent [OF 2(2)] show ?thesis by metis
  qed
  then show "\<exists>s d. g' = g\<lparr>stdin := s, disk := d\<rparr>" "sent es = []" by blast+
qed

lemma set_current_menu_keeps:
  "well_formed g \<Longrightarrow> 0 \<le> c \<Longrightarrow> c \<le> 2 \<Longrightarrow>
   well_formed (set_current_menu c g) \<and> exit_status (set_current_menu c g) = exit_status g"
  by (simp add: set_current_menu_within well_formed_def)

lemma recv_audio_keeps:
  "responds (gui_recv_audio A g) es (Ret g') \<Longrightarrow> well_formed g' = well_formed g \<and> exit_status g' = exit_status g"
  unfolding gui_recv_audio_def by (erule responds_bindE) simp

lemma effects_reverse_keeps:
  assumes "responds (effects_reverse A g) es (Ret g')" "well_formed g"
  shows "well_formed g' \<and> exit_status g' = exit_status g"
proof (cases "file_loaded_status g = False")
  case True
  with assms show ?thesis by (simp add: effects_reverse_def)
next
  case False
  from assms(1) show ?thesis
    unfolding effects_reverse_def if_not_P [OF False]
  proof (elim responds_bindE)
    fix g1 name fs hs
    assume r: "responds (gui_recv_audio A g) fs (Ret g1)"
      "responds (Ret (set_filename_display_alias name g1)) hs (Ret g')"
    from r(2) have "g' = g1\<lparr>filename_display_alias := name\<rparr>" by (simp add: set_filename_display_alias_def)
    with recv_audio_keeps [OF r(1)] assms(2) show ?thesis by simp
  qed
qed

lemma menu_function_keeps:
  assumes "responds (run_menu_function A f g) es (Ret g')" "well_formed g"
  shows "well_formed g' \<and>
    (if f = main_menu_exit_program then exit_status g' \<and> sent es = string_bytes ''exit''
     else exit_status g' = exit_status g)"
proof (cases f)
  case main_menu_exit_program
  with assms show ?thesis
    by (auto simp: exit_program_def gui_send_message_def set_exit_status_def
        elim!: responds_bindE dest: send_message_trace)
next
  case file_options_load_file
  with load_trace [of A g es g'] assms obtain i a n where
    "g' = g\<lparr>stdin := i, audio_file := a, filename_display_alias := n, file_loaded_status := True\<rparr>" by auto
  with file_options_load_file assms(2) show ?thesis by simp
next
  case file_options_save_file
  with save_frame(1) [of A g es g'] assms show ?thesis by auto
next
  case audio_effects_reverse
  with effects_reverse_keeps assms show ?thesis by simp
next
  case audio_effects_stretch
  with assms show ?thesis by (auto elim!: responds_bindE)
next
  case audio_effects_repitch
  with assms show ?thesis by (auto elim!: responds_bindE)
qed (use assms set_current_menu_keeps [of g] in simp_all)

text \<open>Programs that send nothing over the connection.\<close>

definition silent :: "'r io \<Rightarrow> bool" where
  "silent t \<longleftrightarrow> (\<forall>es x. responds t es (Ret x) \<longrightarrow> sent es = [])"

lemma silentD: "silent t \<Longrightarrow> responds t es (Ret x) \<Longrightarrow> sent es = []"
  by (auto simp: silent_def)

lemma silent_done: "silent (Ret x)" "silent (Throw e)"
  by (simp_all add: silent_def)

lemma silent_call:
  assumes "\<And>r. sent_by (e, r) = [] \<and> silent (h r)"
  shows "silent (Vis e h)"
  unfolding silent_def responds_Vis_Ret_iff using assms silentD by fastforce

lemma silent_bind:
  assumes "silent t" "\<And>x. silent (k x)"
  shows "silent (bind_io t k)"
  unfolding silent_def
proof (intro allI impI, elim responds_bindE)
  fix es y es1 es2 x
  assume "es = es1 @ es2" "responds t es1 (Ret x)" "responds (k x) es2 (Ret y)"
  with silentD [OF assms(1)] silentD [OF assms(2)] show "sent es = []" by simp
qed

lemma silent_output: "silent (print s)" "silent (system s)"
  by (auto simp: print_def system_def intro!: silent_call silent_done)

lemma silent_lift: "silent (lift_io m)"
  by (cases m) (simp_all add: silent_done)

lemmas silent_rules = silent_done silent_call silent_bind silent_output silent_lift

lemma silent_options: "silent (show_options i opts)"
  by (induction opts arbitrary: i) (auto intro: silent_rules)

lemma silent_display: "silent (display g)"
  unfolding display_def print_header_def menu_print_def by (intro silent_rules silent_options)

lemma silent_close: "silent (close_fd s)"
  unfolding close_fd_def by (auto intro!: silent_rules split: resp.split)

lemma silent_destroy: "silent (destroy_upstream p)"
  unfolding destroy_upstream_def destroy_socket_def by (auto intro!: silent_rules silent_close)

lemma silent_get_int: "silent (get_int_from_user lo hi g)"
  by (auto simp: silent_def dest: get_int_silent)

text \<open>What one round of the main loop does to a well-formed GUI.\<close>

lemma execute_trace:
  assumes "responds (execute A g) es (Ret g')" "well_formed g" "\<not> exit_status g"
  shows "well_formed g' \<and> (exit_status g' \<longrightarrow> sent es = string_bytes ''exit'')"
proof -
  from assms(1) obtain es1 es2 m where a: "es = es1 @ es2"
    "responds (lift_io (vec_at (menus g) (current_menu g))) es1 (Ret m)"
    "responds (bind_io (get_int_from_user 0 (num_options m - 1) g) (\<lambda>(choice, g).
     bind_io (lift_io (vec_at (menu_functions m) choice)) (\<lambda>f. run_menu_function A f g))) es2 (Ret g')"
    unfolding execute_def by (rule responds_bindE)
  from a(3) obtain es3 es4 c g1 where b: "es2 = es3 @ es4"
    "responds (get_int_from_user 0 (num_options m - 1) g) es3 (Ret (c, g1))"
    "responds (bind_io (lift_io (vec_at (menu_functions m) c)) (\<lambda>f. run_menu_function A f g1)) es4 (Ret g')"
    by (rule responds_bindE) auto
  from b(3) obtain es5 es6 f where c: "es4 = es5 @ es6"
    "responds (lift_io (vec_at (menu_functions m) c)) es5 (Ret f)"
    "responds (run_menu_function A f g1) es6 (Ret g')"
    by (rule responds_bindE)
  from get_int_trace [OF b(2)] have "g1 = g\<lparr>stdin := stdin g1\<rparr>" by blast
  with assms(2,3) have "well_formed g1" "\<not> exit_status g1"
    by (metis well_formed_simps(1), metis gui.ext_inject gui.surjective gui.update_convs(10))
  with menu_function_keeps [OF c(3)] show ?thesis
    using silentD [OF silent_lift a(2)] silentD [OF silent_lift c(2)] get_int_silent [OF b(2)] a(1) b(1) c(1)
    by (auto split: if_splits)
qed

lemma main_loop_trace:
  "loop_runs (gui_round A) g es g' \<Longrightarrow> well_formed g \<Longrightarrow>
   well_formed g' \<and> exit_status g' \<and>
   (if exit_status g then sent es = [] else \<exists>bs. sent es = bs @ string_bytes ''exit'')"
proof (induction rule: loop_runs.induct)
  case (finish g es g')
  then show ?case by (cases "exit_status g") (auto simp: gui_round_def elim!: responds_bindE)
next
  case (again g es g1 fs g')
  from again(1) have "\<not> exit_status g" by (cases "exit_status g") (auto simp: gui_round_def)
  with again(1) obtain u es1 es2 where "es = es1 @ es2" "responds (display g) es1 (Ret u)"
    "responds (execute A g) es2 (Ret g1)" by (auto simp: gui_round_def elim!: responds_bindE)
  with execute_trace again(4) \<open>\<not> exit_status g\<close> silentD [OF silent_display]
  have "well_formed g1" "exit_status g1 \<longrightarrow> sent es = string_bytes ''exit''" by fastforce+
  with again(3) \<open>\<not> exit_status g\<close> show ?case by (auto split: if_splits)
qed

lemma created_gui:
  assumes "responds (create_wavetech_gui A input fs) es (Ret g)"
  shows "well_formed (set_current_menu 0 (g\<lparr>gui_pipe := p\<rparr>)) \<and> \<not> exit_status (set_current_menu 0 (g\<lparr>gui_pipe := p\<rparr>))"
  using assms unfolding create_wavetech_gui_def new_gui_def bind_io_assoc
  by (elim responds_bindE)
    (simp add: add_menu_def set_header_def set_current_menu_def well_formed_def all_menus_def Let_def)

text \<open>
  C10: \<open>gui.cpp\<close>'s \<open>main\<close> returns only with status 0, only after the user chose to leave,
  and the last bytes that it has sent are \<open>exit\<close>; its menus are still the three that it
  built, and the current one exists.
\<close>

theorem gui_main_says_goodbye:
  assumes "responds (gui_main A input fs) es (Ret (status, g))"
  shows "status = 0 \<and> exit_status g \<and> well_formed g \<and> (\<exists>bs. sent es = bs @ string_bytes ''exit'')"
proof -
  from assms obtain g0 es0 g1 es1 u2 es2 pre where t:
    "responds (create_wavetech_gui A input fs) es0 (Ret g0)"
    "responds (gui_connect g0) es1 (Ret g1)"
    "responds (while_io (gui_round A) (set_current_menu 0 g1)) es2 (Ret g)"
    "status = 0" "sent es = pre @ sent es2"
    unfolding gui_main_def
  proof (elim responds_bindE)
    fix ea eb g0 ec ed u1 ee ef g1 eg eh u2 ei ej g2 ek el u3
    assume a: "es = ea @ eb" "responds (create_wavetech_gui A input fs) ea (Ret g0)" "eb = ec @ ed"
      "ed = ee @ ef" "responds (gui_connect g0) ee (Ret g1)" "ef = eg @ eh" "eh = ei @ ej"
      "responds (while_io (gui_round A) (set_current_menu 0 g1)) ei (Ret g2)" "ej = ek @ el"
      "responds (destroy_upstream (gui_pipe g2)) ek (Ret u3)" "responds (Ret (0, g2)) el (Ret (status, g))"
    show thesis
      by (rule that [OF a(2,5), of ei "sent (ea @ ec @ ee @ eg)"])
        (use a silentD [OF silent_destroy a(10)] in simp_all)
  qed
  from t(2) obtain p where "g1 = g0\<lparr>gui_pipe := p\<rparr>"
    unfolding gui_connect_def by (rule responds_bindE) (auto split: prod.splits)
  with created_gui [OF t(1)] main_loop_trace [OF while_io_runs [OF t(3)]] t(4,5) show ?thesis
    by (auto split: if_splits)
qed

text \<open>Concrete runs are built by saying that some answers lead to the result.\<close>

definition can :: "'r io \<Rightarrow> 'r \<Rightarrow> bool" where
  "can t x \<longleftrightarrow> (\<exists>es. responds t es (Ret x))"

lemma can_done: "can (Ret x) x"
  by (auto simp: can_def)

lemma can_call: "can (h r) x \<Longrightarrow> can (Vis e h) x"
  unfolding can_def by (blast intro: responds.answer)

lemma can_bind: "can t x \<Longrightarrow> can (k x) y \<Longrightarrow> can (bind_io t k) y"
  unfolding can_def by (blast intro: responds_bindI)

lemma can_while: "can (b s) (Inr x) \<Longrightarrow> can (while_io b s) x"
  "can (b s) (Inl s') \<Longrightarrow> can (while_io b s') x \<Longrightarrow> can (while_io b s) x"
proof -
  show "can (while_io b s) x" if "can (b s) (Inr x)"
    by (subst while_io_unfold) (rule can_bind [OF that], simp add: can_done)
  show "can (while_io b s) x" if "can (b s) (Inl s')" "can (while_io b s') x"
    using that(2) by (subst while_io_unfold) (rule can_bind [OF that(1)], simp add: can_def)
qed

lemma can_print: "can (k ()) x \<Longrightarrow> can (bind_io (print s) k) x"
  by (simp add: print_def can_call)

lemma can_options: "can (show_options i opts) ()"
  by (induction opts arbitrary: i) (auto intro: can_done can_print)

lemma can_display: "well_formed g \<Longrightarrow> can (display g) ()"
  by (auto simp: display_def print_header_def well_formed_def all_menus_def menu_print_def system_def
      intro!: can_call can_print can_options)

lemma can_send:
  assumes "opened s" "bs \<noteq> []"
  shows "can (sync_send1 s bs) (length bs, None)"
  using assms unfolding sync_send1_def send1_def
  by (auto intro!: can_while(1) can_call [where r = "R_size (length bs)"] can_done)

lemma can_write:
  assumes "opened s" "bs \<noteq> []" "length bs \<le> default_max_transfer_size"
  shows "can (asio_write s bs) (length bs)"
proof -
  have part: "write_part s (csb_new bs, None) =
      bind_io (sync_send1 s bs) (\<lambda>(n, ec). Ret (Inl (csb_consume (csb_new bs) n, ec)))"
    using assms(2,3) by (simp add: write_part_def csb_empty_def csb_new_def csb_prepare_def transfer_all_def
        default_max_transfer_size_def)
  have "can (write_part s (csb_new bs, None)) (Inl (csb_consume (csb_new bs) (length bs), None))"
    unfolding part by (rule can_bind [OF can_send [OF assms(1,2)]]) (simp add: can_done)
  moreover have "can (write_part s (csb_consume (csb_new bs) (length bs), None)) (Inr (length bs, None))"
    by (simp add: write_part_def csb_empty_def csb_new_def csb_consume_def can_done)
  ultimately have "can (detail_write s bs transfer_all) (length bs, None)"
    unfolding detail_write_def write_part_def [symmetric] by (blast intro: can_while)
  then show ?thesis
    unfolding asio_write_def by (rule can_bind) (simp add: can_done)
qed

lemma can_exit:
  assumes "opened (socket (gui_pipe g))"
  shows "can (exit_program g) (set_exit_status True g)"
proof -
  have "can (send_message (gui_pipe g) ''exit'') (length ''exit'')"
    using can_write [OF assms, of "string_bytes ''exit''"] assms
    by (auto simp: send_message_def wait_write_def poll_write_def poll_result_def default_max_transfer_size_def
        string_bytes_def intro!: can_call [where r = "R_size 1"])
  then show ?thesis
    by (auto simp: exit_program_def gui_send_message_def intro!: can_bind can_done)
qed

lemma gui_main_says_goodbye_witness:
  "\<exists>es bs. responds (gui_main count_lib (typed ['''', ''0'']) (\<lambda>_. None)) es
     (Ret (0, gui_state True 0 False 0 ''No file loaded'' [V4] (\<lambda>_. None) endl)) \<and>
   sent es = bs @ string_bytes ''exit''"
proof -
  let ?g = "gui_state False 0 False (0 :: nat) ''No file loaded'' [V4] (\<lambda>_. None) (typed ['''', ''0''])"
  have zero: "read_int (CHR ''0'' # endl) = (Some 0, endl)" using read_digit(1) [of "[]"] by simp
  have "can (get_int_from_user 0 2 ?g) (0, ?g\<lparr>stdin := endl\<rparr>)"
    unfolding get_int_from_user_def
    by (rule can_while(1)) (simp add: typed_simps zero can_print can_done)
  then have "can (execute count_lib ?g) (set_exit_status True (?g\<lparr>stdin := endl\<rparr>))"
    unfolding execute_def
    by (simp add: gui_state_def all_menus_def) (rule can_bind, assumption, simp add: can_exit up_of_def)
  then have "can (gui_round count_lib ?g) (Inl (set_exit_status True (?g\<lparr>stdin := endl\<rparr>)))"
    by (simp add: gui_round_def) (rule can_bind [OF can_display], simp, rule can_bind, assumption, rule can_done)
  then have "can (while_io (gui_round count_lib) ?g) (set_exit_status True (?g\<lparr>stdin := endl\<rparr>))"
    by (rule can_while(2)) (rule can_while(1), simp add: gui_round_def set_exit_status_def can_done)
  then have loop: "can (while_io (gui_round count_lib) (set_current_menu 0 ?g)) (set_exit_status True (?g\<lparr>stdin := endl\<rparr>))"
    by simp
  let ?p = "up_of 5500 False (construct (Client 5500)) [V4]"
  let ?start = "?g\<lparr>gui_pipe := ?p\<rparr>"
  have create: "can (create_wavetech_gui count_lib (typed ['''', ''0'']) (\<lambda>_. None)) ?start"
    unfolding create_wavetech_gui_def new_gui_def new_upstream_def
    by simp (rule can_call [where r = "R_addrs [V4]"],
        simp add: can_done gui_state_def up_of_def add_menu_def set_header_def all_menus_def count_lib_def)
  have connect: "can (gui_connect ?start) ?g"
    unfolding gui_connect_def upstream_connect_def asio_connect_def
    by (simp add: up_of_def sock_close_def sock_connect_def sync_connect_def Let_def)
      (rule can_call [where r = R_unit], simp add: can_done gui_state_def up_of_def)
  have leave: "can (destroy_upstream (gui_pipe (set_exit_status True (?g\<lparr>stdin := endl\<rparr>)))) ()"
    by (simp add: destroy_upstream_def destroy_socket_def close_fd_def set_exit_status_def up_of_def)
      (rule can_call [where r = R_unit], simp add: can_done)
  have "can (gui_main count_lib (typed ['''', ''0'']) (\<lambda>_. None)) (0, set_exit_status True (?g\<lparr>stdin := endl\<rparr>))"
    unfolding gui_main_def
    by (rule can_bind [OF create], rule can_print, rule can_bind [OF connect], rule can_print,
        rule can_bind [OF loop], rule can_bind [OF leave], rule can_done)
  then obtain es where es: "responds (gui_main count_lib (typed ['''', ''0'']) (\<lambda>_. None)) es
      (Ret (0, gui_state True 0 False 0 ''No file loaded'' [V4] (\<lambda>_. None) endl))"
    by (auto simp: can_def set_exit_status_def)
  with gui_main_says_goodbye [OF es] show ?thesis by blast
qed

end
