(* ===== verification/Float32.thy ===== *)
theory Float32
  imports Prelude
begin

text \<open>
  The arithmetic on \<open>float\<close> that the time stretch uses: IEEE 754 binary32 as x86 computes
  it, on bit patterns, rounding to nearest and ties to even.  A finite number is
  \<open>m * 2 ^ e\<close> with its mantissa and exponent as integers; an operation computes the exact
  result (a quotient with a sticky bit) and \<open>round_mag\<close> rounds it once.
\<close>

subsection \<open>Fields\<close>

definition sign_of :: "sample \<Rightarrow> bool" where
  "sign_of w \<longleftrightarrow> 2 ^ 31 \<le> unat w"

definition mag :: "sample \<Rightarrow> nat" where
  "mag w = unat w mod 2 ^ 31"

definition mantissa :: "sample \<Rightarrow> nat" where
  "mantissa w = (if mag w < 2 ^ 23 then mag w else mag w mod 2 ^ 23 + 2 ^ 23)"

definition exponent :: "sample \<Rightarrow> int" where
  "exponent w = (if mag w < 2 ^ 23 then - 149 else int (mag w div 2 ^ 23) - 150)"

definition inf_mag :: nat where "inf_mag = 255 * 2 ^ 23"

definition is_nan :: "sample \<Rightarrow> bool" where "is_nan w \<longleftrightarrow> inf_mag < mag w"
definition is_inf :: "sample \<Rightarrow> bool" where "is_inf w \<longleftrightarrow> mag w = inf_mag"
definition finite_float :: "sample \<Rightarrow> bool" where "finite_float w \<longleftrightarrow> mag w < inf_mag"

definition pack :: "bool \<Rightarrow> nat \<Rightarrow> sample" where
  "pack s k = word_of_nat (k + (if s then 2 ^ 31 else 0))"

definition quiet :: "sample \<Rightarrow> sample" where
  "quiet w = or w (push_bit 22 1)"

definition default_nan :: sample where "default_nan = 0xFFC00000"

subsection \<open>Rounding\<close>

fun bitlen :: "nat \<Rightarrow> nat" where
  "bitlen n = (if n = 0 then 0 else Suc (bitlen (n div 2)))"

declare bitlen.simps [simp del]

text \<open>\<open>n div 2 ^ s\<close> rounded to nearest, ties to even.\<close>

definition round_shift :: "nat \<Rightarrow> nat \<Rightarrow> nat" where
  "round_shift n s =
     (let q = n div 2 ^ s; r = 2 * (n mod 2 ^ s)
      in if 2 ^ s < r \<or> (2 ^ s = r \<and> odd q) then q + 1 else q)"

text \<open>The magnitude bits of the float next to \<open>m * 2 ^ e\<close>.\<close>

definition round_mag :: "nat \<Rightarrow> int \<Rightarrow> nat" where
  "round_mag m e =
     (if m = 0 then 0
      else
        let ulp = max (e + int (bitlen m) - 24) (- 149);
            q = (if ulp \<le> e then m * 2 ^ nat (e - ulp) else round_shift m (nat (ulp - e)));
            bits = nat (ulp + 149) * 2 ^ 23 + q
        in if bits < inf_mag then bits else inf_mag)"

subsection \<open>Operations\<close>

definition float_of_nat :: "nat \<Rightarrow> sample" where
  "float_of_nat n = pack False (round_mag n 0)"

definition fmul :: "sample \<Rightarrow> sample \<Rightarrow> sample" where
  "fmul x y =
     (if is_nan x then quiet x
      else if is_nan y then quiet y
      else
        let s = (sign_of x \<noteq> sign_of y)
        in if is_inf x \<or> is_inf y then
             (if mag x = 0 \<or> mag y = 0 then default_nan else pack s inf_mag)
           else pack s (round_mag (mantissa x * mantissa y) (exponent x + exponent y)))"

definition signed_mantissa :: "sample \<Rightarrow> int \<Rightarrow> int" where
  "signed_mantissa x e =
     (if sign_of x then - 1 else 1) * int (mantissa x * 2 ^ nat (exponent x - e))"

definition fadd :: "sample \<Rightarrow> sample \<Rightarrow> sample" where
  "fadd x y =
     (if is_nan x then quiet x
      else if is_nan y then quiet y
      else if is_inf x then (if is_inf y \<and> sign_of x \<noteq> sign_of y then default_nan else x)
      else if is_inf y then y
      else
        let e = min (exponent x) (exponent y);
            v = signed_mantissa x e + signed_mantissa y e
        in if v = 0 then pack (sign_of x \<and> sign_of y) 0
           else pack (v < 0) (round_mag (nat \<bar>v\<bar>) e))"

definition fdiv :: "sample \<Rightarrow> sample \<Rightarrow> sample" where
  "fdiv x y =
     (if is_nan x then quiet x
      else if is_nan y then quiet y
      else
        let s = (sign_of x \<noteq> sign_of y)
        in if is_inf x then (if is_inf y then default_nan else pack s inf_mag)
           else if is_inf y then pack s 0
           else if mag y = 0 then (if mag x = 0 then default_nan else pack s inf_mag)
           else
             let n = mantissa x * 2 ^ 64;
                 q = 2 * (n div mantissa y) + (if n mod mantissa y = 0 then 0 else 1)
             in pack s (round_mag q (exponent x - exponent y - 65)))"

text \<open>\<open><=\<close> on floats; false for a NaN.\<close>

definition order_key :: "sample \<Rightarrow> int" where
  "order_key w = (if sign_of w then - int (mag w) else int (mag w))"

definition fle :: "sample \<Rightarrow> sample \<Rightarrow> bool" where
  "fle x y \<longleftrightarrow> \<not> is_nan x \<and> \<not> is_nan y \<and> order_key x \<le> order_key y"

text \<open>\<open>(int) x\<close>: truncation, undefined when the value does not fit.\<close>

definition int_of_float :: "sample \<Rightarrow> error + int" where
  "int_of_float x =
     (if \<not> finite_float x then Inl Undefined_Conversion
      else
        let v = (if 0 \<le> exponent x then mantissa x * 2 ^ nat (exponent x)
                 else mantissa x div 2 ^ nat (- exponent x));
            i = (if sign_of x then - int v else int v)
        in if - (2 ^ 31) \<le> i \<and> i < 2 ^ 31 then Inr i else Inl Undefined_Conversion)"

subsection \<open>Packing and rounding\<close>

lemma mag_less: "mag w < 2 ^ 31"
  by (simp add: mag_def)

lemma pack_fields:
  assumes "k < 2 ^ 31"
  shows "sign_of (pack s k) = s" "mag (pack s k) = k"
proof -
  have "unat (word_of_nat n :: 32 word) = n" if "n < 2 ^ 32" for n
    using that by (simp add: unsigned_of_nat take_bit_eq_mod)
  from this [of "k + (if s then 2 ^ 31 else 0)"] have u: "unat (pack s k) = k + (if s then 2 ^ 31 else 0)"
    unfolding pack_def using assms by (cases s) (simp_all del: of_nat_add)
  show "sign_of (pack s k) = s" "mag (pack s k) = k"
    using assms by (auto simp: sign_of_def mag_def u)
qed

lemma pack_of_fields: "pack (sign_of w) (mag w) = w"
proof -
  have lt: "unat w < 2 ^ 32" using unsigned_less [of w, where 'a = nat] by simp
  have "mag w + (if sign_of w then 2 ^ 31 else 0) = unat w"
  proof (cases "2 ^ 31 \<le> unat w")
    case True
    with lt have "unat w mod 2 ^ 31 = unat w - 2 ^ 31" by (simp add: mod_if)
    with True show ?thesis by (simp add: mag_def sign_of_def)
  next
    case False
    then show ?thesis by (simp add: mag_def sign_of_def)
  qed
  then show ?thesis by (simp add: pack_def)
qed

lemma bitlen_bounds: "n \<noteq> 0 \<Longrightarrow> 2 ^ (bitlen n - 1) \<le> n \<and> n < 2 ^ bitlen n \<and> 0 < bitlen n"
proof (induction n rule: bitlen.induct)
  case (1 n)
  show ?case
  proof (cases "n div 2 = 0")
    case True
    with 1(2) have n: "n = 1" by auto
    have "bitlen n = 1" unfolding n by (subst bitlen.simps, subst bitlen.simps) simp
    then show ?thesis using n by simp
  next
    case False
    with 1 have ih: "2 ^ (bitlen (n div 2) - 1) \<le> n div 2" "n div 2 < 2 ^ bitlen (n div 2)" "0 < bitlen (n div 2)"
      by auto
    then obtain l where l: "bitlen (n div 2) = Suc l" by (cases "bitlen (n div 2)") auto
    then have "bitlen n = Suc (Suc l)" using 1(2) by (subst bitlen.simps) simp
    with ih l show ?thesis by auto
  qed
qed

lemma bitlen_unique:
  assumes "2 ^ k \<le> n" "n < 2 ^ Suc k"
  shows "bitlen n = Suc k"
proof -
  have "n \<noteq> 0" using assms(1) by (cases n) auto
  note b = bitlen_bounds [OF this]
  have "2 ^ (bitlen n - 1) < (2 :: nat) ^ Suc k" using b assms(2) by linarith
  then have "bitlen n - 1 < Suc k" by (rule power_less_imp_less_exp [rotated]) simp
  moreover have "2 ^ k < (2 :: nat) ^ bitlen n" using b assms(1) by linarith
  then have "k < bitlen n" by (rule power_less_imp_less_exp [rotated]) simp
  ultimately show ?thesis by linarith
qed

lemma round_shift_exact: "round_shift (q * 2 ^ s) s = q"
  by (simp add: round_shift_def)

lemma round_shift_bounds: "n div 2 ^ s \<le> round_shift n s" "round_shift n s \<le> n div 2 ^ s + 1"
  by (auto simp: round_shift_def Let_def)

lemma mantissa_zero_iff: "mantissa w = 0 \<longleftrightarrow> mag w = 0"
  by (auto simp: mantissa_def)

lemma fields_bits: "nat (exponent w + 149) * 2 ^ 23 + mantissa w = mag w"
proof (cases "mag w < 2 ^ 23")
  case False
  then have "1 \<le> mag w div 2 ^ 23" by (simp add: div_greater_zero_iff Suc_le_eq)
  then obtain d where d: "mag w div 2 ^ 23 = Suc d" by (cases "mag w div 2 ^ 23") auto
  then have "nat (exponent w + 149) * 2 ^ 23 + mantissa w = mag w div 2 ^ 23 * 2 ^ 23 + mag w mod 2 ^ 23"
    using d False by (simp add: exponent_def mantissa_def)
  then show ?thesis by simp
qed (simp add: exponent_def mantissa_def)

text \<open>A number that is a float already is not changed by rounding.\<close>

lemma round_mag_exact:
  assumes "finite_float w"
  shows "round_mag (mantissa w * 2 ^ k) (exponent w - int k) = mag w"
proof (cases "mantissa w = 0")
  case True
  then show ?thesis by (simp add: round_mag_def mantissa_zero_iff)
next
  case False
  let ?m = "mantissa w" and ?e = "exponent w"
  have ulp: "max (?e - int k + int (bitlen (?m * 2 ^ k)) - 24) (- 149) = ?e"
  proof (cases "mag w < 2 ^ 23")
    case True
    have lt: "?m * 2 ^ k < 2 ^ (23 + k)" using True by (simp add: mantissa_def power_add)
    have "2 ^ (bitlen (?m * 2 ^ k) - 1) \<le> ?m * 2 ^ k"
      using bitlen_bounds [of "?m * 2 ^ k"] False by simp
    from power_less_imp_less_exp [OF _ le_less_trans [OF this lt]]
    have "bitlen (?m * 2 ^ k) - 1 < 23 + k" by simp
    with True show ?thesis by (simp add: exponent_def)
  next
    case normal: False
    have "bitlen (?m * 2 ^ k) = Suc (23 + k)"
      by (rule bitlen_unique) (use normal in \<open>simp_all add: mantissa_def power_add\<close>)
    moreover have "- 149 \<le> ?e" using normal by (simp add: exponent_def div_greater_zero_iff Suc_le_eq)
    ultimately show ?thesis by simp
  qed
  have fin: "mag w < inf_mag" using assms by (simp add: finite_float_def)
  show ?thesis
    using False fields_bits [of w] fin round_shift_exact [of ?m k] by (simp add: round_mag_def ulp Let_def)
qed

subsection \<open>Neutral elements\<close>

definition float_one :: sample where "float_one = pack False (127 * 2 ^ 23)"

lemma float_one_fields:
  "sign_of float_one = False" "mag float_one = 127 * 2 ^ 23" "mantissa float_one = 2 ^ 23"
  "exponent float_one = - 23" "finite_float float_one"
  by (simp_all add: float_one_def pack_fields mantissa_def exponent_def finite_float_def inf_mag_def)

lemma pack_zero_fields:
  "sign_of (pack s 0) = s" "mag (pack s 0) = 0" "mantissa (pack s 0) = 0" "exponent (pack s 0) = - 149"
  "finite_float (pack s 0)"
  by (simp_all add: pack_fields mantissa_def exponent_def finite_float_def inf_mag_def)

lemma float_kinds:
  "finite_float w \<Longrightarrow> \<not> is_nan w \<and> \<not> is_inf w" "is_inf w \<Longrightarrow> \<not> is_nan w \<and> mag w \<noteq> 0"
  "\<not> is_nan w \<Longrightarrow> is_inf w \<or> finite_float w"
  by (auto simp: finite_float_def is_nan_def is_inf_def inf_mag_def)

lemma fmul_one: "\<not> is_nan x \<Longrightarrow> fmul x float_one = x"
  using float_kinds [of x] float_kinds(1) [OF float_one_fields(5)] round_mag_exact [of x 23] pack_of_fields [of x]
  by (auto simp: fmul_def Let_def float_one_fields is_inf_def)

lemma fmul_zero: "finite_float x \<Longrightarrow> fmul x (pack False 0) = pack (sign_of x) 0"
  using float_kinds(1) [of x] float_kinds(1) [OF pack_zero_fields(5)]
  by (simp add: fmul_def Let_def pack_zero_fields round_mag_def)

lemma exponent_bound: "- 149 \<le> exponent w"
  by (auto simp: exponent_def)

lemma fadd_zero:
  assumes "\<not> is_nan x" "mag x \<noteq> 0"
  shows "fadd x (pack s 0) = x"
proof (cases "is_inf x")
  case True
  with assms float_kinds(1) [OF pack_zero_fields(5)] show ?thesis by (simp add: fadd_def)
next
  case False
  with assms float_kinds(3) have fin: "finite_float x" by blast
  let ?k = "nat (exponent x + 149)"
  have k: "exponent x - int ?k = - 149" "min (exponent x) (- 149) = - 149" "nat (exponent x - - 149) = ?k"
    using exponent_bound [of x] by auto
  have nz: "mantissa x \<noteq> 0" using assms(2) by (simp add: mantissa_zero_iff)
  have v: "signed_mantissa x (- 149) + signed_mantissa (pack s 0) (- 149) =
      (if sign_of x then - int (mantissa x * 2 ^ ?k) else int (mantissa x * 2 ^ ?k))"
    unfolding signed_mantissa_def pack_zero_fields k(3) by simp
  have r: "round_mag (mantissa x * 2 ^ ?k) (- 149) = mag x"
    using round_mag_exact [OF fin, of ?k] k(1) by simp
  have "0 < int (mantissa x * 2 ^ ?k)" "0 < mantissa x" using nz by simp_all
  then have "(if sign_of x then - int (mantissa x * 2 ^ ?k) else int (mantissa x * 2 ^ ?k)) \<noteq> 0"
    "((if sign_of x then - int (mantissa x * 2 ^ ?k) else int (mantissa x * 2 ^ ?k)) < 0) = sign_of x"
    "nat \<bar>if sign_of x then - int (mantissa x * 2 ^ ?k) else int (mantissa x * 2 ^ ?k)\<bar> = mantissa x * 2 ^ ?k"
    by (simp_all add: nat_mult_distrib nat_power_eq not_less)
  with r show ?thesis
    using False assms(1) float_kinds(1) [OF pack_zero_fields(5)] pack_of_fields [of x]
    unfolding fadd_def pack_zero_fields(4) k(2) Let_def v by simp
qed

lemma fdiv_self:
  assumes "finite_float x" "mag x \<noteq> 0"
  shows "fdiv x x = float_one"
proof -
  have "(2 :: nat) * 2 ^ 64 = mantissa float_one * 2 ^ 42" "- 65 = exponent float_one - int 42"
    by (simp_all add: float_one_fields)
  with round_mag_exact [OF float_one_fields(5), of 42]
  have "round_mag (2 * 2 ^ 64) (- 65) = mag float_one" by metis
  with assms float_kinds(1) [OF assms(1)] show ?thesis
    by (simp add: fdiv_def Let_def mantissa_zero_iff float_one_fields) (simp add: float_one_def)
qed

lemma fdiv_zero:
  "finite_float y \<Longrightarrow> mag y \<noteq> 0 \<Longrightarrow> fdiv (pack False 0) y = pack (sign_of y) 0"
  using float_kinds(1) [of y] float_kinds(1) [OF pack_zero_fields(5), of False]
  by (simp add: fdiv_def Let_def pack_zero_fields round_mag_def)

text \<open>A \<open>size_t\<close> converts to a finite float, which is zero only if it is zero.\<close>

lemma round_nat_bounds:
  assumes "0 < n" "n < 2 ^ 64"
  shows "0 < round_mag n 0" "round_mag n 0 < inf_mag"
proof -
  have b: "2 ^ (bitlen n - 1) \<le> n" "n < 2 ^ bitlen n" "0 < bitlen n"
    using bitlen_bounds [of n] assms(1) by auto
  have "2 ^ (bitlen n - 1) < (2 :: nat) ^ 64" using b(1) assms(2) by linarith
  then have "bitlen n - 1 < 64" by (rule power_less_imp_less_exp [rotated]) simp
  then have len: "bitlen n \<le> 64" by linarith
  define u where "u = int (bitlen n) - 24"
  have u: "- 23 \<le> u" "u \<le> 40" "max (0 + int (bitlen n) - 24) (- 149) = u"
    using len b(3) by (auto simp: u_def)
  define q where "q = (if u \<le> 0 then n * 2 ^ nat (0 - u) else round_shift n (nat (u - 0)))"
  have q: "q \<le> 2 ^ 24"
  proof (cases "u \<le> 0")
    case True
    then have "bitlen n + nat (0 - u) = 24" by (simp add: u_def)
    then have "(2 :: nat) ^ bitlen n * 2 ^ nat (0 - u) = 2 ^ 24" by (metis power_add)
    moreover have "n * 2 ^ nat (0 - u) \<le> 2 ^ bitlen n * 2 ^ nat (0 - u)" using b(2) by simp
    ultimately show ?thesis using True by (simp add: q_def)
  next
    case False
    then have "bitlen n = 24 + nat (u - 0)" by (simp add: u_def)
    then have "n < 2 ^ 24 * 2 ^ nat (u - 0)" using b(2) by (metis power_add)
    then have "n div 2 ^ nat (u - 0) < 2 ^ 24" by (simp add: less_mult_imp_div_less)
    with round_shift_bounds(2) [of n "nat (u - 0)"] False show ?thesis by (simp add: q_def)
  qed
  have k: "126 \<le> nat (u + 149)" "nat (u + 149) \<le> 189" using u by auto
  have lo: "126 * 2 ^ 23 \<le> nat (u + 149) * 2 ^ 23" by (rule mult_right_mono [OF k(1)]) simp
  have hi: "nat (u + 149) * 2 ^ 23 \<le> 189 * 2 ^ 23" by (rule mult_right_mono [OF k(2)]) simp
  have r: "round_mag n 0 = (if nat (u + 149) * 2 ^ 23 + q < inf_mag then nat (u + 149) * 2 ^ 23 + q else inf_mag)"
    using assms(1) by (simp only: round_mag_def u(3) Let_def q_def [symmetric]) simp
  from lo hi q show "0 < round_mag n 0" "round_mag n 0 < inf_mag"
    unfolding r using k(1) u(1) by (simp_all add: inf_mag_def)
qed

lemma float_of_nat_fields:
  assumes "0 < n" "n < 2 ^ 64"
  shows "finite_float (float_of_nat n)" "mag (float_of_nat n) \<noteq> 0" "sign_of (float_of_nat n) = False"
proof -
  note b = round_nat_bounds [OF assms]
  from b(2) have "round_mag n 0 < 2 ^ 31" by (simp add: inf_mag_def)
  note f = pack_fields [OF this]
  show "finite_float (float_of_nat n)" "mag (float_of_nat n) \<noteq> 0" "sign_of (float_of_nat n) = False"
    using b by (simp_all add: float_of_nat_def finite_float_def f)
qed

lemma float_of_nat_zero: "float_of_nat 0 = pack False 0"
  by (simp add: float_of_nat_def round_mag_def)

end
