(* ===== verification/Stretch.thy ===== *)
theory Stretch
  imports Float32
begin

text \<open>
  \<open>source/stretch.cpp\<close>: the time stretch by synchronous overlap-add, without its \<open>main\<close>,
  which does not compile: it includes \<open>communication_protocols.hpp\<close>, which the repository
  does not have.  Cursors and sizes are \<open>size_t\<close>, so \<open>64 word\<close>; \<open>lim\<close> is the number of
  samples for which the allocator has memory.  The functions write through their pointer
  arguments; here they return the buffers they have changed.
\<close>

type_synonym u64 = "64 word"

definition vec_resize :: "nat \<Rightarrow> 'a::zero list \<Rightarrow> nat \<Rightarrow> error + 'a list" where
  "vec_resize lim v n = (if lim < n then Inl Bad_Alloc else Inr (resize v n))"

text \<open>\<open>buf[channel].resize(n)\<close>\<close>

definition resize_channel :: "nat \<Rightarrow> sample list list \<Rightarrow> nat \<Rightarrow> u64 \<Rightarrow> error + sample list list" where
  "resize_channel lim buf channel n =
     ebind (vec_get buf channel) (\<lambda>v.
     ebind (vec_resize lim v (unat n)) (\<lambda>v.
     vec_set buf channel v))"

definition size_of :: "'a list \<Rightarrow> u64" where
  "size_of v = word_of_nat (length v)"

lemma word_plus_one:
  fixes s n :: "'a::len word"
  assumes "s < n"
  shows "unat (s + 1) = Suc (unat s)"
proof -
  have "unat n < 2 ^ LENGTH('a)" by (rule unsigned_less)
  moreover have "Suc (unat s) \<le> unat n" using assms by (simp add: word_less_nat_alt)
  ultimately have lt: "Suc (unat s) < 2 ^ LENGTH('a)" by (rule le_less_trans [rotated])
  then have "unat (1 :: 'a word) = 1" by (simp add: unsigned_1)
  with lt unat_add_lem [of s 1] show ?thesis by simp
qed

subsection \<open>Copying\<close>

text \<open>
  The copy loop of one channel in \<open>buffer_copy_full\<close>.  Its index is an \<open>unsigned int\<close>
  and the size a \<open>size_t\<close>.
\<close>

partial_function (option) copy_full_samples ::
  "sample list \<Rightarrow> sample list \<Rightarrow> u32 \<Rightarrow> (error + sample list) option" where
  "copy_full_samples original copy sample =
     (if unat sample < length original then
        (case ebind (vec_get original (unat sample)) (vec_set copy (unat sample)) of
           Inl e \<Rightarrow> Some (Inl e)
         | Inr copy \<Rightarrow> copy_full_samples original copy (sample + 1))
      else Some (Inr copy))"

fun copy_full_channels ::
  "nat \<Rightarrow> sample list list \<Rightarrow> sample list list \<Rightarrow> nat \<Rightarrow> (error + sample list list) option" where
  "copy_full_channels lim [] copy channel = Some (Inr copy)"
| "copy_full_channels lim (ch # chs) copy channel =
     (if channel < length copy then
        (case vec_resize lim [] (length ch) of
           Inl e \<Rightarrow> Some (Inl e)
         | Inr v \<Rightarrow> (case copy_full_samples ch v 0 of
             None \<Rightarrow> None
           | Some (Inl e) \<Rightarrow> Some (Inl e)
           | Some (Inr v) \<Rightarrow> copy_full_channels lim chs (copy[channel := v]) (Suc channel)))
      else Some (Inl Out_Of_Bounds))"

definition buffer_copy_full ::
  "nat \<Rightarrow> sample list list \<Rightarrow> sample list list \<Rightarrow> (error + sample list list) option" where
  "buffer_copy_full lim original copy = copy_full_channels lim original copy 0"

function copy_samples ::
  "sample list list \<Rightarrow> u64 \<Rightarrow> sample list list \<Rightarrow> u64 \<Rightarrow> nat \<Rightarrow> u64 \<Rightarrow> u64 \<Rightarrow> error + sample list list" where
  "copy_samples buf1 buf1_idx buf2 buf2_idx channel sample num_samples =
     (if sample < num_samples then
        ebind (vec_get buf1 channel) (\<lambda>ch1.
        ebind (vec_get ch1 (unat (buf1_idx + sample))) (\<lambda>x.
        ebind (vec_get buf2 channel) (\<lambda>ch2.
        ebind (vec_set ch2 (unat (buf2_idx + sample)) x) (\<lambda>ch2.
        ebind (vec_set buf2 channel ch2) (\<lambda>buf2.
        copy_samples buf1 buf1_idx buf2 buf2_idx channel (sample + 1) num_samples)))))
      else Inr buf2)"
  by pat_completeness auto
termination
  by (relation "measure (\<lambda>(_, _, _, _, _, sample, num_samples). unat num_samples - unat sample)")
    (auto simp: word_plus_one word_less_nat_alt [symmetric] intro!: diff_less_mono2)

declare copy_samples.simps [simp del]

function copy_channels ::
  "sample list list \<Rightarrow> u64 \<Rightarrow> sample list list \<Rightarrow> u64 \<Rightarrow> u64 \<Rightarrow> nat \<Rightarrow> error + sample list list" where
  "copy_channels buf1 buf1_idx buf2 buf2_idx num_samples channel =
     (if channel < length buf1 then
        ebind (copy_samples buf1 buf1_idx buf2 buf2_idx channel 0 num_samples) (\<lambda>buf2.
        copy_channels buf1 buf1_idx buf2 buf2_idx num_samples (Suc channel))
      else Inr buf2)"
  by pat_completeness auto
termination by (relation "measure (\<lambda>(buf1, _, _, _, _, channel). length buf1 - channel)") auto

declare copy_channels.simps [simp del]

text \<open>The first two channels made long enough.\<close>

definition ensure_size :: "nat \<Rightarrow> sample list list \<Rightarrow> u64 \<Rightarrow> u64 \<Rightarrow> error + sample list list" where
  "ensure_size lim buf buf_size needed =
     (if buf_size < needed then
        let buf_size = buf_size + (needed - buf_size) in
        ebind (resize_channel lim buf 0 buf_size) (\<lambda>buf. resize_channel lim buf 1 buf_size)
      else Inr buf)"

definition buffer_copy_part ::
  "nat \<Rightarrow> sample list list \<Rightarrow> u64 \<Rightarrow> sample list list \<Rightarrow> u64 \<Rightarrow> u64 \<Rightarrow>
   error + sample list list \<times> sample list list" where
  "buffer_copy_part lim buf1 buf1_idx buf2 buf2_idx num_samples =
     ebind (vec_get buf1 0) (\<lambda>ch1.
     ebind (vec_get buf2 0) (\<lambda>ch2.
     ebind (ensure_size lim buf1 (size_of ch1) (buf1_idx + num_samples)) (\<lambda>buf1.
     ebind (ensure_size lim buf2 (size_of ch2) (buf2_idx + num_samples)) (\<lambda>buf2.
     ebind (copy_channels buf1 buf1_idx buf2 buf2_idx num_samples 0) (\<lambda>buf2.
     Inr (buf1, buf2))))))"

subsection \<open>Overlap-add\<close>

text \<open>One sample of the cross-fade: the faded-out one, the faded-in one and their sum.\<close>

definition fade :: "u64 \<Rightarrow> u64 \<Rightarrow> sample \<Rightarrow> sample \<Rightarrow> sample \<times> sample" where
  "fade buf_size sample x y =
     (let x = fmul x (fdiv (float_of_nat (unat (buf_size - sample))) (float_of_nat (unat buf_size)));
          y = fmul y (fdiv (float_of_nat (unat sample)) (float_of_nat (unat buf_size)))
      in (fadd x y, y))"

function window_samples ::
  "sample list list \<Rightarrow> sample list list \<Rightarrow> nat \<Rightarrow> u64 \<Rightarrow> u64 \<Rightarrow>
   error + sample list list \<times> sample list list" where
  "window_samples buf1 buf2 channel sample buf_size =
     (if sample < buf_size then
        ebind (vec_get buf1 channel) (\<lambda>ch1.
        ebind (vec_get ch1 (unat sample)) (\<lambda>x.
        ebind (vec_get buf2 channel) (\<lambda>ch2.
        ebind (vec_get ch2 (unat sample)) (\<lambda>y.
          case fade buf_size sample x y of (x, y) \<Rightarrow>
          window_samples (buf1[channel := ch1[unat sample := x]]) (buf2[channel := ch2[unat sample := y]])
            channel (sample + 1) buf_size))))
      else Inr (buf1, buf2))"
  by pat_completeness auto
termination
  by (relation "measure (\<lambda>(_, _, _, sample, buf_size). unat buf_size - unat sample)")
    (auto simp: word_plus_one word_less_nat_alt [symmetric] intro!: diff_less_mono2)

declare window_samples.simps [simp del]

function window_channels ::
  "sample list list \<Rightarrow> sample list list \<Rightarrow> nat \<Rightarrow> nat \<Rightarrow> u64 \<Rightarrow>
   error + sample list list \<times> sample list list" where
  "window_channels buf1 buf2 channel num_channels buf_size =
     (if channel < num_channels then
        ebind (window_samples buf1 buf2 channel 0 buf_size) (\<lambda>(buf1, buf2).
        window_channels buf1 buf2 (Suc channel) num_channels buf_size)
      else Inr (buf1, buf2))"
  by pat_completeness auto
termination by (relation "measure (\<lambda>(_, _, channel, num_channels, _). num_channels - channel)") auto

declare window_channels.simps [simp del]

definition window_buffers ::
  "nat \<Rightarrow> sample list list \<Rightarrow> sample list list \<Rightarrow> error + sample list list \<times> sample list list" where
  "window_buffers lim buf1 buf2 =
     ebind (vec_get buf1 0) (\<lambda>ch1.
     ebind (vec_get buf2 0) (\<lambda>ch2.
       let buf1_size = size_of ch1; buf2_size = size_of ch2 in
       ebind (if buf1_size < buf2_size then
           ebind (resize_channel lim buf1 0 buf2_size) (\<lambda>buf1.
           ebind (resize_channel lim buf1 1 buf2_size) (\<lambda>buf1. Inr (buf1, buf2, buf2_size)))
         else if buf2_size < buf1_size then
           ebind (resize_channel lim buf2 0 buf1_size) (\<lambda>buf2.
           ebind (resize_channel lim buf2 1 buf1_size) (\<lambda>buf2. Inr (buf1, buf2, buf1_size)))
         else Inr (buf1, buf2, buf1_size)) (\<lambda>(buf1, buf2, buf_size).
       window_channels buf1 buf2 0 (length buf1) buf_size)))"

definition frame_size :: u32 where "frame_size = 4000"
definition overlap_size :: u32 where "overlap_size = 800"
definition flat_duration :: u32 where "flat_duration = frame_size - (2 * overlap_size)"

definition frame_skip :: "sample \<Rightarrow> error + u32" where
  "frame_skip time_scale =
     ebind (int_of_float (fmul (float_of_nat (unat (frame_size - overlap_size))) time_scale)) (\<lambda>i.
     Inr (word_of_int i))"

text \<open>One round of the loop: the two cursors and the two buffers.\<close>

definition sola_round ::
  "nat \<Rightarrow> u32 \<Rightarrow> sample list list \<Rightarrow> sample list list \<Rightarrow> u64 \<Rightarrow> u64 \<Rightarrow>
   error + sample list list \<times> sample list list \<times> u64 \<times> u64" where
  "sola_round lim skip input output input_cursor output_cursor =
     (let num_channels = length input; empty = replicate num_channels [] in
      ebind (buffer_copy_part lim input input_cursor output output_cursor (ucast flat_duration)) (\<lambda>(input, output).
      let output_cursor = output_cursor + ucast flat_duration;
          input_cursor = input_cursor + ucast flat_duration in
      ebind (buffer_copy_part lim input input_cursor empty 0 (ucast overlap_size)) (\<lambda>(input, prev_frame_tail).
      ebind (buffer_copy_part lim input (input_cursor + ucast skip - ucast overlap_size) empty 0
          (ucast overlap_size)) (\<lambda>(input, next_frame_head).
      let input_cursor = input_cursor + ucast skip in
      ebind (window_buffers lim prev_frame_tail next_frame_head) (\<lambda>(prev_frame_tail, next_frame_head).
      ebind (buffer_copy_part lim prev_frame_tail 0 output output_cursor (ucast overlap_size)) (\<lambda>(_, output).
      Inr (input, output, input_cursor, output_cursor + ucast overlap_size)))))))"

partial_function (option) sola_loop ::
  "nat \<Rightarrow> u32 \<Rightarrow> u64 \<Rightarrow> sample list list \<Rightarrow> sample list list \<Rightarrow> u64 \<Rightarrow> u64 \<Rightarrow>
   (error + sample list list \<times> sample list list) option" where
  "sola_loop lim skip bound input output input_cursor output_cursor =
     (if input_cursor \<le> bound then
        (case sola_round lim skip input output input_cursor output_cursor of
           Inl e \<Rightarrow> Some (Inl e)
         | Inr (input, output, input_cursor, output_cursor) \<Rightarrow>
             sola_loop lim skip bound input output input_cursor output_cursor)
      else Some (Inr (input, output)))"

definition sola :: "nat \<Rightarrow> sample list list \<Rightarrow> sample \<Rightarrow> (error + sample list list) option" where
  "sola lim input time_scale =
     (case ebind (frame_skip time_scale) (\<lambda>skip. ebind (vec_get input 0) (\<lambda>ch. Inr (skip, size_of ch))) of
        Inl e \<Rightarrow> Some (Inl e)
      | Inr (skip, num_input_samples) \<Rightarrow>
          (case sola_loop lim skip (num_input_samples - ucast (2 * (skip + overlap_size)))
              input (replicate (length input) []) 0 0 of
             None \<Rightarrow> None
           | Some (Inl e) \<Rightarrow> Some (Inl e)
           | Some (Inr (input, output)) \<Rightarrow> buffer_copy_full lim output input))"

text \<open>The ratio as \<open>main\<close> limits it.\<close>

definition half :: sample where "half = 0x3F000000"
definition two :: sample where "two = 0x40000000"

definition clamp_ratio :: "sample \<Rightarrow> sample" where
  "clamp_ratio r =
     (let r = (if fle r half then half else r)
      in if fle two r then two else r)"

end
