(* ===== verification/Stretch_Properties.thy ===== *)
theory Stretch_Properties
  imports Stretch
begin

text \<open>
  What the time stretch computes: the copy loops as list operations, one round of the
  overlap-add as a frame, and the whole function as the concatenation of its frames.  The
  properties are about stereo buffers whose two channels have the same length.
\<close>

subsection \<open>The loops over one channel\<close>

lemma unat_plus:
  fixes i j :: u64
  assumes "unat i + unat j < 2 ^ 64"
  shows "unat (i + j) = unat i + unat j"
  using assms unat_add_lem [of i j] by simp

lemma unat_lt64: "unat (i :: u64) < 2 ^ 64"
  using unsigned_less [of i, where 'a = nat] by simp

definition paste :: "nat \<Rightarrow> 'a list \<Rightarrow> 'a list \<Rightarrow> 'a list" where
  "paste i xs ys = take i ys @ xs @ drop (i + length xs) ys"

lemma paste_snoc:
  assumes "i + length xs < length ys"
  shows "(paste i xs ys)[i + length xs := x] = paste i (xs @ [x]) ys"
  using assms by (simp add: paste_def list_update_append min_def Cons_nth_drop_Suc [symmetric])

lemma copy_samples_run:
  assumes "c < length buf1" "c < length buf2"
    "unat i1 + unat n \<le> length (buf1 ! c)" "unat i2 + unat n \<le> length (buf2 ! c)"
    "length (buf1 ! c) < 2 ^ 64" "length (buf2 ! c) < 2 ^ 64" "unat s \<le> unat n"
  shows "copy_samples buf1 i1 (buf2[c := paste (unat i2) (take (unat s) (drop (unat i1) (buf1 ! c))) (buf2 ! c)]) i2 c s n =
    Inr (buf2[c := paste (unat i2) (take (unat n) (drop (unat i1) (buf1 ! c))) (buf2 ! c)])"
  using assms(7)
proof (induction "unat n - unat s" arbitrary: s)
  case 0
  then have "unat s = unat n" by simp
  then show ?case by (subst copy_samples.simps) (simp add: word_less_nat_alt)
next
  case (Suc k)
  let ?src = "buf1 ! c" and ?dst = "buf2 ! c"
  let ?part = "\<lambda>m. take m (drop (unat i1) ?src)"
  have lt: "s < n" using Suc(2) by (simp add: word_less_nat_alt)
  then have s1: "unat (s + 1) = Suc (unat s)" by (rule word_plus_one)
  have lt': "unat s < unat n" using lt by (simp add: word_less_nat_alt)
  have i1: "unat (i1 + s) = unat i1 + unat s" "unat (i1 + s) < length ?src"
    using assms(3,5) lt' unat_plus [of i1 s] by auto
  have i2: "unat (i2 + s) = unat i2 + unat s"
    using assms(4,6) lt' unat_plus [of i2 s] by auto
  have len: "length (?part (unat s)) = unat s" using assms(3) lt' by simp
  have len2: "length (paste (unat i2) (?part (unat s)) ?dst) = length ?dst"
    using assms(4) lt' len by (simp add: paste_def)
  have step: "(paste (unat i2) (?part (unat s)) ?dst)[unat (i2 + s) := ?src ! unat (i1 + s)] =
      paste (unat i2) (?part (unat (s + 1))) ?dst"
    using paste_snoc [of "unat i2" "?part (unat s)" ?dst "?src ! unat (i1 + s)"] assms(3,4) lt' len i1 i2 s1
    by (simp add: take_Suc_conv_app_nth)
  have "copy_samples buf1 i1 (buf2[c := paste (unat i2) (?part (unat s)) ?dst]) i2 c s n =
      copy_samples buf1 i1 (buf2[c := paste (unat i2) (?part (unat (s + 1))) ?dst]) i2 c (s + 1) n"
    using lt assms(1,2,4) lt' i1 i2 len2 step by (subst copy_samples.simps) simp
  also have "\<dots> = Inr (buf2[c := paste (unat i2) (?part (unat n)) ?dst])"
    by (rule Suc(1)) (use Suc(2) s1 lt' in simp_all)
  finally show ?case .
qed

lemma copy_samples_all:
  assumes "c < length buf1" "c < length buf2"
    "unat i1 + unat n \<le> length (buf1 ! c)" "unat i2 + unat n \<le> length (buf2 ! c)"
    "length (buf1 ! c) < 2 ^ 64" "length (buf2 ! c) < 2 ^ 64"
  shows "copy_samples buf1 i1 buf2 i2 c 0 n =
    Inr (buf2[c := paste (unat i2) (take (unat n) (drop (unat i1) (buf1 ! c))) (buf2 ! c)])"
  using copy_samples_run [OF assms, of 0] by (simp add: paste_def)

lemma copy_channels_stereo:
  assumes "unat i1 + unat n \<le> length l1" "unat i2 + unat n \<le> length l2" "length r1 = length l1"
    "length r2 = length l2" "length l1 < 2 ^ 64" "length l2 < 2 ^ 64"
  shows "copy_channels [l1, r1] i1 [l2, r2] i2 n 0 =
    Inr [paste (unat i2) (take (unat n) (drop (unat i1) l1)) l2,
      paste (unat i2) (take (unat n) (drop (unat i1) r1)) r2]"
  using assms by (simp add: copy_channels.simps copy_samples_all)

subsection \<open>Padding and copying\<close>

definition pad :: "nat \<Rightarrow> 'a::zero list \<Rightarrow> 'a list" where
  "pad k v = resize v (max (length v) k)"

lemma length_pad [simp]: "length (pad k v) = max (length v) k"
  by (simp add: pad_def)

lemma pad_enough [simp]: "k \<le> length v \<Longrightarrow> pad k v = v"
  by (simp add: pad_def max_def)

lemma pad_pad: "pad k (pad j v) = pad (max j k) v"
proof -
  have "pad k v = v @ replicate (k - length v) 0" for k and v :: "'a list"
    by (simp add: pad_def resize_def max_def)
  then show ?thesis by (simp add: replicate_add [symmetric] max_def) arith
qed

lemma take_drop_pad: "i + n \<le> j \<Longrightarrow> j \<le> k \<Longrightarrow> take n (drop i (pad j v)) = take n (drop i (pad k v))"
proof -
  assume "i + n \<le> j" "j \<le> k"
  then have "take n (drop i (pad k v)) = take n (drop i (take j (pad k v)))"
    by (simp add: take_drop min_def)
  moreover have "take j (pad k v) = take j (pad j v)"
    using \<open>j \<le> k\<close> by (simp add: pad_def resize_def max_def)
  ultimately show ?thesis using \<open>i + n \<le> j\<close> by (simp add: take_drop min_def)
qed

lemma size_of_unat: "length v < 2 ^ 64 \<Longrightarrow> unat (size_of v) = length v"
  by (simp add: size_of_def unsigned_of_nat take_bit_eq_mod)

lemma resize_channel_in:
  assumes "c < length buf"
  shows "resize_channel lim buf c n = (if lim < unat n then Inl Bad_Alloc else Inr (buf[c := resize (buf ! c) (unat n)]))"
  using assms by (simp add: resize_channel_def vec_resize_def)

lemma ensure_size_stereo:
  assumes "length r = length l" "length l < 2 ^ 64" "length l \<le> lim"
  shows "ensure_size lim [l, r] (size_of l) k =
    (if lim < unat k then Inl Bad_Alloc else Inr [pad (unat k) l, pad (unat k) r])"
proof -
  have u: "unat (size_of l) = length l" by (rule size_of_unat [OF assms(2)])
  have "resize r (length l) = r" using resize_same [of r] assms(1) by simp
  then show ?thesis
    using assms u by (auto simp: ensure_size_def word_less_nat_alt resize_channel_in pad_def max_def)
qed

text \<open>
  Copying a part to the end of the other buffer: the source is padded with zeros if it is
  too short, and memory may run out for either buffer.
\<close>

lemma copy_part_stereo:
  assumes "length r1 = length l1" "length r2 = length l2" "length l1 \<le> lim" "unat i2 = length l2"
    "length l2 \<le> lim" "lim < 2 ^ 62" "unat i1 < 2 ^ 63" "unat n < 2 ^ 62"
  shows "buffer_copy_part lim [l1, r1] i1 [l2, r2] i2 n =
    (if unat i1 + unat n \<le> lim \<and> length l2 + unat n \<le> lim then
       let k = unat i1 + unat n; part = \<lambda>ch. take (unat n) (drop (unat i1) (pad k ch)) in
       Inr ([pad k l1, pad k r1], [l2 @ part l1, r2 @ part r1])
     else Inl Bad_Alloc)"
proof -
  let ?k = "unat i1 + unat n" and ?k2 = "length l2 + unat n"
  have len: "length l1 < 2 ^ 64" "length l2 < 2 ^ 64" using assms(3,5,6) by simp_all
  have k: "unat (i1 + n) = ?k" using assms(7,8) by (intro unat_plus) simp
  have k2: "unat (i2 + n) = ?k2" using assms(4,5,6,8) by (simp add: unat_plus)
  note e1 = ensure_size_stereo [OF assms(1) len(1) assms(3), of "i1 + n", unfolded k]
  note e2 = ensure_size_stereo [OF assms(2) len(2) assms(5), of "i2 + n", unfolded k2]
  show ?thesis
  proof (cases "?k \<le> lim \<and> ?k2 \<le> lim")
    case True
    then have fits: "max (length l1) ?k < 2 ^ 64" "max (length l2) ?k2 < 2 ^ 64" using assms(3,5,6) by auto
    have cp: "copy_channels [pad ?k l1, pad ?k r1] i1 [pad ?k2 l2, pad ?k2 r2] i2 n 0 =
      Inr [paste (unat i2) (take (unat n) (drop (unat i1) (pad ?k l1))) (pad ?k2 l2),
        paste (unat i2) (take (unat n) (drop (unat i1) (pad ?k r1))) (pad ?k2 r2)]"
      by (rule copy_channels_stereo) (use assms(1,2,4) fits in simp_all)
    have app: "paste (length ch2) (take (unat n) (drop (unat i1) (pad ?k ch1))) (pad ?k2 ch2) =
        ch2 @ take (unat n) (drop (unat i1) (pad ?k ch1))" if "length ch2 = length l2" for ch1 ch2 :: "sample list"
      using that by (simp add: paste_def pad_def resize_def max_def)
    show ?thesis
      using True e1 e2 cp app [of l2 l1] app [of r2 r1] assms(2,4) by (simp add: buffer_copy_part_def Let_def)
  next
    case False
    then show ?thesis using e1 e2 by (auto simp: buffer_copy_part_def)
  qed
qed

subsection \<open>The cross-fade\<close>

definition crossfade :: "sample list \<Rightarrow> sample list \<Rightarrow> sample list" where
  "crossfade xs ys = map (\<lambda>i. fst (fade (size_of xs) (word_of_nat i) (xs ! i) (ys ! i))) [0..<length xs]"

definition faded_in :: "sample list \<Rightarrow> sample list \<Rightarrow> sample list" where
  "faded_in xs ys = map (\<lambda>i. snd (fade (size_of xs) (word_of_nat i) (xs ! i) (ys ! i))) [0..<length xs]"

lemma crossfade_length [simp]: "length (crossfade xs ys) = length xs" "length (faded_in xs ys) = length xs"
  by (simp_all add: crossfade_def faded_in_def)

lemma take_Suc_update: "k < length xs \<Longrightarrow> (take k ys @ drop k xs)[k := x] = take k ys @ x # drop (Suc k) xs" if "k \<le> length ys"
  using that by (simp add: list_update_append Cons_nth_drop_Suc [symmetric])

lemma window_samples_run:
  assumes "c < length buf1" "c < length buf2" "length (buf1 ! c) = length (buf2 ! c)"
    "length (buf1 ! c) < 2 ^ 64" "unat s \<le> length (buf1 ! c)"
  defines "X \<equiv> crossfade (buf1 ! c) (buf2 ! c)" and "Y \<equiv> faded_in (buf1 ! c) (buf2 ! c)"
  shows "window_samples (buf1[c := take (unat s) X @ drop (unat s) (buf1 ! c)])
      (buf2[c := take (unat s) Y @ drop (unat s) (buf2 ! c)]) c s (size_of (buf1 ! c)) =
    Inr (buf1[c := X], buf2[c := Y])"
  using assms(5)
proof (induction "length (buf1 ! c) - unat s" arbitrary: s)
  case 0
  then have "unat s = length (buf1 ! c)" by simp
  then show ?case
    using size_of_unat [OF assms(4)] assms(3)
    by (subst window_samples.simps) (simp add: word_less_nat_alt X_def Y_def)
next
  case (Suc k)
  let ?a = "buf1 ! c" and ?b = "buf2 ! c" and ?n = "size_of (buf1 ! c)"
  have n: "unat ?n = length ?a" by (rule size_of_unat [OF assms(4)])
  have lt: "unat s < length ?a" using Suc(2) by simp
  have sn: "s < ?n" using lt n by (simp add: word_less_nat_alt)
  have s1: "unat (s + 1) = Suc (unat s)" by (rule word_plus_one [OF sn])
  have XY: "X ! unat s = fst (fade ?n s (?a ! unat s) (?b ! unat s))"
    "Y ! unat s = snd (fade ?n s (?a ! unat s) (?b ! unat s))"
    using lt by (simp_all add: X_def Y_def crossfade_def faded_in_def)
  have lens: "length X = length ?a" "length Y = length ?a" by (simp_all add: X_def Y_def)
  have at: "(take (unat s) X @ drop (unat s) ?a) ! unat s = ?a ! unat s"
    "(take (unat s) Y @ drop (unat s) ?b) ! unat s = ?b ! unat s"
    using lt assms(3) lens by (simp_all add: nth_append)
  have upd: "(take (unat s) X @ drop (unat s) ?a)[unat s := X ! unat s] = take (unat (s + 1)) X @ drop (unat (s + 1)) ?a"
    "(take (unat s) Y @ drop (unat s) ?b)[unat s := Y ! unat s] = take (unat (s + 1)) Y @ drop (unat (s + 1)) ?b"
    using lt assms(3) lens s1 by (simp_all add: take_Suc_update take_Suc_conv_app_nth)
  have "window_samples (buf1[c := take (unat s) X @ drop (unat s) ?a])
      (buf2[c := take (unat s) Y @ drop (unat s) ?b]) c s ?n =
    window_samples (buf1[c := take (unat (s + 1)) X @ drop (unat (s + 1)) ?a])
      (buf2[c := take (unat (s + 1)) Y @ drop (unat (s + 1)) ?b]) c (s + 1) ?n"
    using sn assms(1-3) lt lens at upd XY
    by (subst window_samples.simps) (simp add: split_beta)
  also have "\<dots> = Inr (buf1[c := X], buf2[c := Y])"
    by (rule Suc(1)) (use Suc(2) s1 lt in simp_all)
  finally show ?case .
qed

lemma window_buffers_stereo:
  assumes "length r1 = length l1" "length l2 = length l1" "length r2 = length l1" "length l1 < 2 ^ 64"
  shows "window_buffers lim [l1, r1] [l2, r2] =
    Inr ([crossfade l1 l2, crossfade r1 r2], [faded_in l1 l2, faded_in r1 r2])"
proof -
  have w: "window_samples buf1 buf2 c 0 (size_of (buf1 ! c)) =
      Inr (buf1[c := crossfade (buf1 ! c) (buf2 ! c)], buf2[c := faded_in (buf1 ! c) (buf2 ! c)])"
    if "c < length buf1" "c < length buf2" "length (buf1 ! c) = length (buf2 ! c)" "length (buf1 ! c) < 2 ^ 64"
    for c buf1 buf2
    using window_samples_run [OF that, of 0] by simp
  have sz: "size_of l2 = size_of l1" "size_of r1 = size_of l1" using assms by (simp_all add: size_of_def)
  show ?thesis
    using w [of 0 "[l1, r1]" "[l2, r2]"] w [of 1 "[crossfade l1 l2, r1]" "[faded_in l1 l2, r2]"] assms sz
    by (simp add: window_buffers_def Let_def window_channels.simps)
qed

subsection \<open>One round\<close>

text \<open>The 3,200 samples that a round adds to a channel whose cursor is at \<open>c\<close>.\<close>

definition sola_frame :: "nat \<Rightarrow> sample list \<Rightarrow> nat \<Rightarrow> sample list" where
  "sola_frame skip ch c =
     take 2400 (drop c ch) @
     crossfade (take 800 (drop (c + 2400) ch)) (take 800 (drop (c + 2400 + skip - 800) ch))"

lemma sizes:
  "unat (ucast flat_duration :: u64) = 2400" "unat (ucast overlap_size :: u64) = 800"
  by (simp_all add: flat_duration_def frame_size_def overlap_size_def)

lemma unat_minus:
  fixes i j :: u64
  assumes "unat j \<le> unat i"
  shows "unat (i - j) = unat i - unat j"
  using assms by (simp add: unat_sub word_le_nat_alt)

lemma sola_round_stereo:
  fixes skip :: u32
  assumes "length r = length l" "length l \<le> lim" "length orr = length ol" "unat o1 = length ol"
    "length ol \<le> lim" "lim < 2 ^ 61" "unat c < 2 ^ 61" "1600 \<le> unat skip" "unat skip \<le> 6400" "800 \<le> lim"
  shows "sola_round lim skip [l, r] [ol, orr] c o1 =
    (if unat c + 2400 + unat skip \<le> lim \<and> length ol + 3200 \<le> lim then
       let k = unat c + 2400 + unat skip in
       Inr ([pad k l, pad k r],
         [ol @ sola_frame (unat skip) (pad k l) (unat c), orr @ sola_frame (unat skip) (pad k r) (unat c)],
         c + 2400 + ucast skip, o1 + 3200)
     else Inl Bad_Alloc)"
proof -
  let ?c = "unat c" and ?skip = "unat skip"
  let ?k1 = "?c + 2400" and ?k2 = "?c + 2400 + 800" and ?k3 = "?c + 2400 + ?skip"
  let ?fd = "ucast flat_duration :: u64" and ?os = "ucast overlap_size :: u64"
  have c1: "unat (c + ?fd) = ?k1" using assms(7) by (subst unat_plus) (simp_all add: sizes)
  have skip64: "unat (ucast skip :: u64) = ?skip"
    using unsigned_less [of skip, where 'a = nat] by (simp add: unsigned_ucast_eq take_bit_eq_mod)
  have c2: "unat (c + ?fd + ucast skip) = ?k3" using assms(7,9) c1 by (subst unat_plus) (simp_all add: skip64)
  have c3: "unat (c + ?fd + ucast skip - ?os) = ?k3 - 800" using c2 assms(8) by (subst unat_minus) (simp_all add: sizes)
  have o2: "unat (o1 + ?fd) = length ol + 2400" using assms(4,5,6) by (subst unat_plus) (simp_all add: sizes)
  have p1: "buffer_copy_part lim [l, r] c [ol, orr] o1 ?fd =
    (if ?k1 \<le> lim \<and> length ol + 2400 \<le> lim then
       Inr ([pad ?k1 l, pad ?k1 r], [ol @ take 2400 (drop ?c (pad ?k1 l)), orr @ take 2400 (drop ?c (pad ?k1 r))])
     else Inl Bad_Alloc)"
    using copy_part_stereo [of r l orr ol lim o1 c ?fd] assms by (simp add: sizes Let_def)
  show ?thesis
  proof (cases "?k1 \<le> lim \<and> length ol + 2400 \<le> lim")
    case False
    then show ?thesis using p1 by (auto simp: sola_round_def Let_def)
  next
    case True
    define L where "L = pad ?k1 l"
    define R where "R = pad ?k1 r"
    have LR: "length R = length L" "length L \<le> lim" using assms(1,2) True by (simp_all add: L_def R_def)
    have p2: "buffer_copy_part lim [L, R] (c + ?fd) [[], []] 0 ?os =
      (if ?k2 \<le> lim then Inr ([pad ?k2 L, pad ?k2 R],
          [take 800 (drop ?k1 (pad ?k2 L)), take 800 (drop ?k1 (pad ?k2 R))])
       else Inl Bad_Alloc)"
      using copy_part_stereo [of R L "[]" "[]" lim 0 "c + ?fd" ?os] LR assms by (simp add: sizes c1 Let_def)
    show ?thesis
    proof (cases "?k2 \<le> lim")
      case False
      with assms(8) have "\<not> ?k3 \<le> lim" by simp
      with False p1 p2 True show ?thesis by (simp add: sola_round_def Let_def L_def R_def)
    next
      case True2: True
      have LR2: "length (pad ?k2 R) = length (pad ?k2 L)" "length (pad ?k2 L) \<le> lim"
        using LR True2 by simp_all
      have k3: "unat (c + ?fd + ucast skip - ?os) + unat ?os = ?k3" using c3 assms(8) by (simp add: sizes)
      have p3: "buffer_copy_part lim [pad ?k2 L, pad ?k2 R] (c + ?fd + ucast skip - ?os) [[], []] 0 ?os =
        (if ?k3 \<le> lim then Inr ([pad ?k3 (pad ?k2 L), pad ?k3 (pad ?k2 R)],
            [take 800 (drop (?k3 - 800) (pad ?k3 (pad ?k2 L))), take 800 (drop (?k3 - 800) (pad ?k3 (pad ?k2 R)))])
         else Inl Bad_Alloc)"
        using copy_part_stereo [of "pad ?k2 R" "pad ?k2 L" "[]" "[]" lim 0 "c + ?fd + ucast skip - ?os" ?os]
          LR2 assms
        unfolding k3 unfolding c3 sizes(2) Let_def by simp
      show ?thesis
      proof (cases "?k3 \<le> lim")
        case False
        then show ?thesis using p1 p2 p3 True True2
          by (simp add: sola_round_def Let_def L_def R_def)
      next
        case True3: True
        have pads: "pad ?k2 L = pad ?k2 l" "pad ?k2 R = pad ?k2 r"
          "pad ?k3 (pad ?k2 l) = pad ?k3 l" "pad ?k3 (pad ?k2 r) = pad ?k3 r"
          using assms(8) by (simp_all add: L_def R_def pad_pad max_def)
        define tail where "tail ch = take 800 (drop ?k1 (pad ?k2 ch))" for ch :: "sample list"
        define hd where "hd ch = take 800 (drop (?k3 - 800) (pad ?k3 ch))" for ch :: "sample list"
        define flat where "flat ch = take 2400 (drop ?c (pad ?k1 ch))" for ch :: "sample list"
        have lens: "length (tail l) = 800" "length (tail r) = 800" "length (hd l) = 800" "length (hd r) = 800"
          using assms(8) by (simp_all add: tail_def hd_def)
        have w: "window_buffers lim [tail l, tail r] [hd l, hd r] =
            Inr ([crossfade (tail l) (hd l), crossfade (tail r) (hd r)],
              [faded_in (tail l) (hd l), faded_in (tail r) (hd r)])"
          by (rule window_buffers_stereo) (simp_all add: lens)
        have p4: "buffer_copy_part lim [crossfade (tail l) (hd l), crossfade (tail r) (hd r)] 0
            [ol @ flat l, orr @ flat r] (o1 + ?fd) ?os =
          (if length ol + 3200 \<le> lim then
             Inr ([crossfade (tail l) (hd l), crossfade (tail r) (hd r)],
               [(ol @ flat l) @ crossfade (tail l) (hd l), (orr @ flat r) @ crossfade (tail r) (hd r)])
           else Inl Bad_Alloc)"
          using copy_part_stereo [of "crossfade (tail r) (hd r)" "crossfade (tail l) (hd l)"
              "orr @ flat r" "ol @ flat l" lim "o1 + ?fd" 0 ?os] assms(3,6,10) True lens o2
          by (simp add: sizes Let_def flat_def)
        have frame: "flat ch @ crossfade (tail ch) (hd ch) = sola_frame ?skip (pad ?k3 ch) ?c" for ch
          using assms(8) take_drop_pad [of ?c 2400 ?k1 ?k3 ch] take_drop_pad [of ?k1 800 ?k2 ?k3 ch]
          by (simp add: flat_def tail_def hd_def sola_frame_def)
        note p1' = p1 [folded flat_def, folded L_def R_def]
        note p2' = p2 [unfolded pads, folded tail_def]
        note p3' = p3 [unfolded pads, folded hd_def]
        have len3: "length ol + 2400 + 800 = length ol + 3200" by simp
        show ?thesis
          using True True2 True3 p1' p2' p3' p4 w frame [of l] frame [of r]
          by (simp add: sola_round_def Let_def flat_duration_def frame_size_def overlap_size_def
              del: pad_enough) 
      qed
    qed
  qed
qed

subsection \<open>The whole function\<close>

text \<open>A round on an input that is long enough reads it as it is.\<close>

lemma sola_round_within:
  fixes skip :: u32
  assumes "length r = length l" "length l \<le> lim" "length orr = length ol" "unat o1 = length ol"
    "length ol + 3200 \<le> lim" "lim < 2 ^ 61" "1600 \<le> unat skip" "unat skip \<le> 6400"
    "unat c + 2400 + unat skip \<le> length l"
  shows "sola_round lim skip [l, r] [ol, orr] c o1 =
    Inr ([l, r], [ol @ sola_frame (unat skip) l (unat c), orr @ sola_frame (unat skip) r (unat c)],
         c + 2400 + ucast skip, o1 + 3200)"
  using sola_round_stereo [of r l lim orr ol o1 c skip] assms by (simp add: Let_def)

lemma sola_loop_long:
  fixes skip :: u32 and bound c o1 :: u64
  assumes "length r = length l" "length l \<le> lim" "lim < 2 ^ 61" "1600 \<le> unat skip" "unat skip \<le> 6400"
    "2 * (unat skip + 800) \<le> length l" "unat bound = length l - 2 * (unat skip + 800)"
    "length orr = length ol" "unat o1 = length ol"
    "unat c + m * (2400 + unat skip) = stop" "unat bound < stop" "stop \<le> unat bound + 2400 + unat skip"
    "length ol + m * 3200 \<le> lim"
  shows "sola_loop lim skip bound [l, r] [ol, orr] c o1 = Some (Inr ([l, r],
    [ol @ concat (map (\<lambda>i. sola_frame (unat skip) l (unat c + i * (2400 + unat skip))) [0..<m]),
     orr @ concat (map (\<lambda>i. sola_frame (unat skip) r (unat c + i * (2400 + unat skip))) [0..<m])]))"
  using assms(8-)
proof (induction m arbitrary: ol orr c o1)
  case 0
  then show ?case by (subst sola_loop.simps) (simp add: word_le_nat_alt)
next
  case (Suc m)
  let ?s = "unat skip"
  have c_le: "unat c \<le> unat bound" using Suc.prems(3-5) by simp
  have fit: "unat c + 2400 + ?s \<le> length l" using c_le assms(4,6,7) by simp
  have skip64: "unat (ucast skip :: u64) = ?s"
    using unsigned_less [of skip, where 'a = nat] by (simp add: unsigned_ucast_eq take_bit_eq_mod)
  have u2400: "unat (2400 :: u64) = 2400" "unat (3200 :: u64) = 3200" by simp_all
  have c2: "unat (c + 2400) = unat c + 2400" using fit assms(2,3) u2400 by (subst unat_plus) simp_all
  have c': "unat (c + 2400 + ucast skip) = unat c + (2400 + ?s)"
    using fit assms(2,3) c2 skip64 by (subst unat_plus) simp_all
  have o': "unat (o1 + 3200) = length ol + 3200"
    using Suc.prems(2,6) assms(3) u2400 by (subst unat_plus) simp_all
  let ?f = "\<lambda>ch. sola_frame ?s ch (unat c)"
  have flen: "length (?f ch) = 3200" if "length ch = length l" for ch
    using that fit assms(4) by (simp add: sola_frame_def)
  have rnd: "sola_round lim skip [l, r] [ol, orr] c o1 =
      Inr ([l, r], [ol @ ?f l, orr @ ?f r], c + 2400 + ucast skip, o1 + 3200)"
    by (rule sola_round_within) (use assms Suc.prems fit in simp_all)
  have ih: "sola_loop lim skip bound [l, r] [ol @ ?f l, orr @ ?f r] (c + 2400 + ucast skip) (o1 + 3200) =
    Some (Inr ([l, r],
    [(ol @ ?f l) @ concat (map (\<lambda>i. sola_frame ?s l (unat (c + 2400 + ucast skip) + i * (2400 + ?s))) [0..<m]),
     (orr @ ?f r) @ concat (map (\<lambda>i. sola_frame ?s r (unat (c + 2400 + ucast skip) + i * (2400 + ?s))) [0..<m])]))"
    by (rule Suc.IH) (use Suc.prems flen assms(1) c' o' in \<open>simp_all add: algebra_simps\<close>)
  have frames: "concat (map (\<lambda>i. sola_frame ?s ch (unat c + i * (2400 + ?s))) [0..<Suc m]) =
      ?f ch @ concat (map (\<lambda>i. sola_frame ?s ch (unat (c + 2400 + ucast skip) + i * (2400 + ?s))) [0..<m])" for ch
    unfolding c' upt_conv_Cons [OF zero_less_Suc]
    by (simp add: map_Suc_upt [symmetric] o_def algebra_simps del: upt_Suc)
  show ?case
    unfolding frames using c_le rnd ih by (subst sola_loop.simps) (simp add: word_le_nat_alt)
qed

lemma copy_full_samples_run:
  "length original < 2 ^ 32 \<Longrightarrow> unat s \<le> length original \<Longrightarrow> length copy = length original \<Longrightarrow>
   copy_full_samples original copy s = Some (Inr (take (unat s) copy @ drop (unat s) original))"
proof (induction "length original - unat s" arbitrary: s copy)
  case 0
  then show ?case by (subst copy_full_samples.simps) simp
next
  case (Suc k)
  from Suc(2) have lt: "unat s < length original" by simp
  then have "unat s + unat (1 :: u32) < 2 ^ 32" using Suc.prems(1) by simp
  then have s1: "unat (s + 1) = Suc (unat s)" using unat_add_lem [of s 1] by simp
  have "copy_full_samples original copy s = copy_full_samples original (copy[unat s := original ! unat s]) (s + 1)"
    using lt Suc.prems(3) by (subst copy_full_samples.simps) simp
  also have "\<dots> = Some (Inr (take (unat (s + 1)) (copy[unat s := original ! unat s]) @ drop (unat (s + 1)) original))"
    by (rule Suc(1)) (use Suc s1 lt in simp_all)
  finally show ?case
    using lt Suc.prems(3) by (simp add: s1 take_Suc_conv_app_nth Cons_nth_drop_Suc)
qed

lemma buffer_copy_full_stereo:
  assumes "length l < 2 ^ 32" "length r < 2 ^ 32" "length l \<le> lim" "length r \<le> lim"
  shows "buffer_copy_full lim [l, r] [a, b] = Some (Inr [l, r])"
  using assms copy_full_samples_run [of l 0 "resize [] (length l)"] copy_full_samples_run [of r 0 "resize [] (length r)"]
  by (simp add: buffer_copy_full_def vec_resize_def)

subsection \<open>The frame skip\<close>

text \<open>Truncating a rounded number whose last place is worth less than 1.\<close>

lemma int_of_rounded:
  assumes "bitlen p = 24 + s" "e + int s = - int t" "1 \<le> t" "t \<le> 100"
  shows "int_of_float (pack False (round_mag p e)) = Inr (int (round_shift p s div 2 ^ t))"
proof -
  have "bitlen 0 = 0" by (subst bitlen.simps) simp
  then have nz: "p \<noteq> 0" using assms(1) by (intro notI) simp
  note b = bitlen_bounds [OF nz, unfolded assms(1)]
  define q where "q = round_shift p s"
  have "2 ^ 23 * 2 ^ s \<le> p" using b by (simp add: power_add)
  then have "2 ^ 23 \<le> p div 2 ^ s" by (simp add: less_eq_div_iff_mult_less_eq)
  moreover have "p div 2 ^ s < 2 ^ 24" using b by (simp add: less_mult_imp_div_less power_add)
  ultimately have q: "2 ^ 23 \<le> q" "q \<le> 2 ^ 24"
    using round_shift_bounds [of p s] by (auto simp: q_def)
  have ulp: "max (e + int (bitlen p) - 24) (- 149) = - int t"
    using assms by simp
  have "nat (- int t - e) = s" using assms(2) by simp
  then have q': "(if - int t \<le> e then p * 2 ^ nat (e - - int t) else round_shift p (nat (- int t - e))) = q"
    using assms(2) by (auto simp: q_def round_shift_def)
  define k where "k = (149 - t) * 2 ^ 23 + q"
  have k: "nat (- int t + 149) * 2 ^ 23 + q = k" using assms(4) by (simp add: k_def nat_diff_distrib' nat_eq_iff)
  have d: "(149 - t) * 2 ^ 23 \<le> 148 * 2 ^ 23" by (rule mult_right_mono) (use assms(3) in simp_all)
  have d': "49 * 2 ^ 23 \<le> (149 - t) * 2 ^ 23" by (rule mult_right_mono) (use assms(4) in simp_all)
  have klt: "k < inf_mag" "k < 2 ^ 31" using d q by (simp_all add: k_def inf_mag_def)
  have r: "round_mag p e = k" using nz klt k by (simp add: round_mag_def ulp q' Let_def)
  have f: "sign_of (pack False k) = False" "mag (pack False k) = k" using pack_fields [OF klt(2)] by auto
  have fin: "finite_float (pack False k)" using klt by (simp add: finite_float_def f)
  have big: "\<not> k < 2 ^ 23" using d' by (simp add: k_def)
  show ?thesis
  proof (cases "q = 2 ^ 24")
    case True
    then have k2: "k = (151 - t) * 2 ^ 23" using assms(4) by (simp add: k_def algebra_simps)
    then have "k div 2 ^ 23 = 151 - t" "k mod 2 ^ 23 = 0" by simp_all
    then have "mantissa (pack False k) = 2 ^ 23" "exponent (pack False k) = 1 - int t"
      unfolding mantissa_def exponent_def f(2) using big assms(4) by (simp_all add: of_nat_diff)
    moreover obtain t' where t': "t = Suc t'" using assms(3) by (cases t) auto
    ultimately have fields: "mantissa (pack False k) = 2 ^ 23" "exponent (pack False k) = - int t'" by simp_all
    have "(2 * 2 ^ 23) div (2 * 2 ^ t') = (2 :: nat) ^ 23 div 2 ^ t'" by (rule div_mult_mult1) simp
    then have v: "q div 2 ^ t = 2 ^ 23 div 2 ^ t'" using True t' by simp
    have "(2 :: nat) ^ 23 div 2 ^ t' \<le> 2 ^ 23" by (rule div_le_dividend)
    then have "(2 :: nat) ^ 23 div 2 ^ t' < 2 ^ 31" by (rule le_less_trans) simp
    with fields show ?thesis
      using fin v f unfolding r q_def [symmetric] int_of_float_def Let_def by (cases "t' = 0") auto
  next
    case False
    have "150 - t = Suc (149 - t)" using assms(4) by simp
    then have k24: "k = (150 - t) * 2 ^ 23 + (q - 2 ^ 23)" "q - 2 ^ 23 < 2 ^ 23"
      using q False by (simp_all add: k_def)
    then have dm: "k div 2 ^ 23 = 150 - t" "k mod 2 ^ 23 = q - 2 ^ 23" by simp_all
    have "mantissa (pack False k) = q" "exponent (pack False k) = - int t"
      unfolding mantissa_def exponent_def f(2) using big assms(4) q dm by (simp_all add: of_nat_diff)
    moreover have "q div 2 ^ t \<le> 2 ^ 24" using q div_le_dividend [of q "2 ^ t"] by linarith
    ultimately show ?thesis
      using fin assms(3) f unfolding r q_def [symmetric] int_of_float_def Let_def by auto
  qed
qed

lemma clamped:
  assumes "\<not> is_nan r"
  shows "sign_of (clamp_ratio r) = False" "0x3F000000 \<le> mag (clamp_ratio r)" "mag (clamp_ratio r) \<le> 0x40000000"
proof -
  have half: "sign_of half = False" "mag half = 0x3F000000" "\<not> is_nan half"
    and two: "sign_of two = False" "mag two = 0x40000000" "\<not> is_nan two"
    by (simp_all add: half_def two_def sign_of_def mag_def is_nan_def inf_mag_def)
  have "sign_of (clamp_ratio r) = False \<and> 0x3F000000 \<le> mag (clamp_ratio r) \<and> mag (clamp_ratio r) \<le> 0x40000000"
    using assms half two
    by (cases "sign_of r") (auto simp: clamp_ratio_def Let_def fle_def order_key_def)
  then show "sign_of (clamp_ratio r) = False" "0x3F000000 \<le> mag (clamp_ratio r)" "mag (clamp_ratio r) \<le> 0x40000000"
    by blast+
qed

lemma frame_hop: "float_of_nat (unat (frame_size - overlap_size)) = 0x45480000"
proof -
  have "bitlen 3200 = Suc 11" by (rule bitlen_unique) simp_all
  then show ?thesis
    by (simp add: float_of_nat_def frame_size_def overlap_size_def round_mag_def Let_def inf_mag_def pack_def)
qed

lemma frame_skip_range:
  assumes "\<not> is_nan r"
  shows "\<exists>s. frame_skip (clamp_ratio r) = Inr s \<and> 1600 \<le> unat s \<and> unat s \<le> 6400"
proof -
  let ?w = "clamp_ratio r"
  note w = clamped [OF assms]
  have hop: "sign_of 0x45480000 = False" "mantissa 0x45480000 = 13107200" "exponent 0x45480000 = - 12"
    "\<not> is_nan 0x45480000" "\<not> is_inf 0x45480000" "mag 0x45480000 = 0x45480000"
    by (simp_all add: sign_of_def mantissa_def exponent_def mag_def is_nan_def is_inf_def inf_mag_def)
  have fin: "\<not> is_nan ?w" "\<not> is_inf ?w" using w by (simp_all add: is_nan_def is_inf_def inf_mag_def)
  let ?p = "13107200 * mantissa ?w" and ?e = "- 12 + exponent ?w"
  have prod: "fmul 0x45480000 ?w = pack False (round_mag ?p ?e)"
    using fin hop w(1) by (simp add: fmul_def Let_def)
  have goal: "\<exists>s. frame_skip ?w = Inr s \<and> 1600 \<le> unat s \<and> unat s \<le> 6400"
    if i: "int_of_float (pack False (round_mag ?p ?e)) = Inr (int n)" and n: "1600 \<le> n" "n \<le> 6400" for n
  proof -
    have "frame_skip ?w = Inr (word_of_nat n)" using i by (simp add: frame_skip_def frame_hop prod)
    moreover have "unat (word_of_nat n :: 32 word) = n" using n by (simp add: unsigned_of_nat take_bit_eq_mod)
    ultimately show ?thesis using n by auto
  qed
  have d: "126 \<le> mag ?w div 2 ^ 23" "mag ?w div 2 ^ 23 \<le> 128"
    using w(2,3) div_le_mono [of "0x3F000000" "mag ?w" "2 ^ 23"] div_le_mono [of "mag ?w" "0x40000000" "2 ^ 23"] by simp_all
  show ?thesis
  proof (cases "mag ?w = 0x40000000")
    case True
    have "bitlen 109951162777600 = Suc 46" by (rule bitlen_unique) simp_all
    then have "int_of_float (pack False (round_mag 109951162777600 (- 34))) = Inr (int (round_shift 109951162777600 23 div 2 ^ 11))"
      by (intro int_of_rounded) simp_all
    moreover have "mantissa ?w = 8388608" "exponent ?w = - 22" using True by (simp_all add: mantissa_def exponent_def)
    ultimately show ?thesis by (intro goal [of 6400]) (simp_all add: round_shift_def)
  next
    case False
    have m: "2 ^ 23 \<le> mantissa ?w" "mantissa ?w < 2 ^ 24" using w(2) by (auto simp: mantissa_def)
    have e: "exponent ?w = - 24 \<or> exponent ?w = - 23"
    proof -
      have "mag ?w < 128 * 2 ^ 23" using False w(3) by simp
      then have "mag ?w div 2 ^ 23 < 128" by (rule less_mult_imp_div_less)
      with d(1) have "mag ?w div 2 ^ 23 = 126 \<or> mag ?w div 2 ^ 23 = 127" by linarith
      then show ?thesis using w(2) by (auto simp: exponent_def)
    qed
    have p: "13107200 * 2 ^ 23 \<le> ?p" "?p < 13107200 * 2 ^ 24" using m by simp_all
    obtain s where s: "bitlen ?p = 24 + s" "s = 23 \<or> s = 24"
    proof (cases "?p < 2 ^ 47")
      case True
      have "bitlen ?p = Suc 46" by (rule bitlen_unique) (use p True in simp_all)
      then show ?thesis using that [of 23] by simp
    next
      case False
      have "bitlen ?p = Suc 47" by (rule bitlen_unique) (use p False in simp_all)
      then show ?thesis using that [of 24] by simp
    qed
    define t where "t = nat (- (?e + int s))"
    have t: "?e + int s = - int t" "1 \<le> t" "t \<le> 100" "s + t = 36 \<or> s + t = 35"
      using e s(2) by (auto simp: t_def)
    note i = int_of_rounded [OF s(1) t(1-3)]
    let ?q = "round_shift ?p s"
    have pd: "1600 \<le> ?p div 2 ^ s div 2 ^ t" "?p div 2 ^ s div 2 ^ t \<le> 6399"
    proof -
      have "?p div 2 ^ s div 2 ^ t = ?p div 2 ^ (s + t)" by (simp add: div_mult2_eq [symmetric] power_add)
      with t(4) p div_le_mono [OF p(1), of "2 ^ 36"] div_le_mono [OF p(1), of "2 ^ 35"]
      show "1600 \<le> ?p div 2 ^ s div 2 ^ t" "?p div 2 ^ s div 2 ^ t \<le> 6399"
        by (auto simp: less_mult_imp_div_less less_eq_div_iff_mult_less_eq)
    qed
    have lo: "?p div 2 ^ s div 2 ^ t \<le> ?q div 2 ^ t" by (rule div_le_mono [OF round_shift_bounds(1)])
    have "?q div 2 ^ t \<le> (?p div 2 ^ s + 1) div 2 ^ t" by (rule div_le_mono [OF round_shift_bounds(2)])
    also have "\<dots> \<le> ?p div 2 ^ s div 2 ^ t + 1" by (simp add: div_Suc)
    finally show ?thesis using i lo pd by (intro goal [of "?q div 2 ^ t"]) simp_all
  qed
qed

subsection \<open>Properties\<close>

lemma skip_arith:
  fixes skip :: u32
  assumes "1600 \<le> unat skip" "unat skip \<le> 6400"
  shows "unat (ucast (2 * (skip + overlap_size)) :: u64) = 2 * (unat skip + 800)"
proof -
  have o: "unat overlap_size = 800" by (simp add: overlap_size_def)
  have a: "unat (skip + overlap_size) = unat skip + 800"
    using assms unat_add_lem [of skip overlap_size] o by simp
  have "2 * (skip + overlap_size) = (skip + overlap_size) + (skip + overlap_size)" by simp
  then have "unat (2 * (skip + overlap_size)) = 2 * (unat skip + 800)"
    using assms a unat_add_lem [of "skip + overlap_size" "skip + overlap_size"] by simp
  then show ?thesis using assms by (simp add: unsigned_ucast_eq take_bit_eq_mod)
qed

text \<open>The number of frames of a channel.\<close>

definition frames :: "nat \<Rightarrow> nat \<Rightarrow> nat" where
  "frames skip n = (n - 2 * (skip + 800)) div (2400 + skip) + 1"

lemma frames_fit:
  assumes "1600 \<le> skip" "2 * (skip + 800) \<le> n"
  shows "frames skip n * 4000 + 800 \<le> n"
proof -
  let ?d = "(n - 2 * (skip + 800)) div (2400 + skip)"
  have "?d * 4000 \<le> ?d * (2400 + skip)" using assms(1) by (intro mult_left_mono) simp_all
  also have "\<dots> \<le> n - 2 * (skip + 800)" by (rule div_times_less_eq_dividend)
  finally have "?d * 4000 + 4800 \<le> n" using assms by simp
  then show ?thesis by (simp add: frames_def)
qed

lemma length_concat_upt: "(\<And>k. k < n \<Longrightarrow> length (f k) = c) \<Longrightarrow> length (concat (map f [0..<n])) = n * c"
  by (induction n) simp_all

lemma stretched_length:
  assumes "1600 \<le> skip" "2 * (skip + 800) \<le> length ch"
  shows "length (concat (map (\<lambda>k. sola_frame skip ch (k * (2400 + skip))) [0..<frames skip (length ch)])) =
    frames skip (length ch) * 3200"
proof (rule length_concat_upt)
  fix k assume "k < frames skip (length ch)"
  then have "k * (2400 + skip) \<le> ((length ch - 2 * (skip + 800)) div (2400 + skip)) * (2400 + skip)"
    by (intro mult_right_mono) (simp_all add: frames_def)
  also have "\<dots> \<le> length ch - 2 * (skip + 800)" by (rule div_times_less_eq_dividend)
  finally show "length (sola_frame skip ch (k * (2400 + skip))) = 3200" using assms by (simp add: sola_frame_def)
qed

lemma sola_long:
  assumes "frame_skip r = Inr skip" "1600 \<le> unat skip" "unat skip \<le> 6400"
    "length right = length left" "2 * (unat skip + 800) \<le> length left"
    "length left < 2 ^ 32" "length left \<le> lim" "lim < 2 ^ 61"
  shows "sola lim [left, right] r = Some (Inr (map (\<lambda>ch. concat (map (\<lambda>k.
    sola_frame (unat skip) ch (k * (2400 + unat skip))) [0..<frames (unat skip) (length left)])) [left, right]))"
proof -
  let ?s = "unat skip" and ?n = "length left"
  let ?bound = "size_of left - ucast (2 * (skip + overlap_size)) :: u64"
  let ?out = "\<lambda>ch. concat (map (\<lambda>k. sola_frame ?s ch (k * (2400 + ?s))) [0..<frames ?s ?n])"
  have n: "unat (size_of left) = ?n" using assms(6) by (intro size_of_unat) simp
  have bound: "unat ?bound = ?n - 2 * (?s + 800)"
    using assms(5) n skip_arith [OF assms(2,3)] by (subst unat_minus) simp_all
  note fit = frames_fit [OF assms(2,5)]
  have c0: "unat ?bound < frames ?s ?n * (2400 + ?s)"
    unfolding bound frames_def using dividend_less_div_times [of "2400 + ?s" "?n - 2 * (?s + 800)"] by simp
  have c1: "frames ?s ?n * (2400 + ?s) \<le> unat ?bound + 2400 + ?s"
    unfolding bound frames_def using div_times_less_eq_dividend [of "?n - 2 * (?s + 800)" "2400 + ?s"] by simp
  have loop: "sola_loop lim skip ?bound [left, right] [[], []] 0 0 =
    Some (Inr ([left, right], [[] @ concat (map (\<lambda>i. sola_frame ?s left (unat (0 :: u64) + i * (2400 + ?s))) [0..<frames ?s ?n]),
      [] @ concat (map (\<lambda>i. sola_frame ?s right (unat (0 :: u64) + i * (2400 + ?s))) [0..<frames ?s ?n])]))"
    by (rule sola_loop_long [OF assms(4,7,8,2,3,5) bound, where stop = "frames ?s ?n * (2400 + ?s)"])
      (use c0 c1 fit assms(7) in simp_all)
  have len: "length (?out left) = frames ?s ?n * 3200" "length (?out right) = frames ?s ?n * 3200"
    using stretched_length [OF assms(2,5)] stretched_length [OF assms(2), of right] assms(4,5) by simp_all
  have "buffer_copy_full lim [?out left, ?out right] [left, right] = Some (Inr [?out left, ?out right])"
    by (rule buffer_copy_full_stereo) (use len fit assms(6,7) in simp_all)
  with loop assms(1) show ?thesis by (simp add: sola_def)
qed

lemma sola_loop_short:
  fixes skip :: u32 and bound c o1 :: u64
  assumes "1600 \<le> unat skip" "unat skip \<le> 6400" "800 \<le> lim" "lim < 2 ^ 61" "2 ^ 61 \<le> unat bound"
    "length r = length l" "length l \<le> lim" "length orr = length ol" "unat o1 = length ol" "length ol \<le> lim"
    "unat c \<le> lim"
  shows "sola_loop lim skip bound [l, r] [ol, orr] c o1 = Some (Inl Bad_Alloc)"
  using assms(6-)
proof (induction "lim - length ol" arbitrary: l r ol orr c o1 rule: less_induct)
  case less
  let ?k = "unat c + 2400 + unat skip"
  have go: "c \<le> bound" using less.prems(6) assms(4,5) by (simp add: word_le_nat_alt)
  note rnd = sola_round_stereo [OF less.prems(1-5), of c skip]
  show ?case
  proof (cases "?k \<le> lim \<and> length ol + 3200 \<le> lim")
    case False
    with rnd less.prems(6) assms go show ?thesis by (subst sola_loop.simps) simp
  next
    case True
    let ?f = "\<lambda>ch. sola_frame (unat skip) (pad ?k ch) (unat c)"
    have smaller: "lim - (length ol + 3200) < lim - length ol" using True by arith
    have flen: "length (?f ch) = 3200" for ch using assms(1) by (simp add: sola_frame_def)
    have skip64: "unat (ucast skip :: u64) = unat skip"
      using assms(2) by (simp add: unsigned_ucast_eq take_bit_eq_mod)
    have c2: "unat (c + 2400) = unat c + 2400" using True assms(4) by (subst unat_plus) simp_all
    have c': "unat (c + 2400 + ucast skip) = ?k" using True assms(4) c2 skip64 by (subst unat_plus) simp_all
    have o': "unat (o1 + 3200) = length ol + 3200" using less.prems(4) True assms(4) by (subst unat_plus) simp_all
    have "sola_loop lim skip bound [pad ?k l, pad ?k r] [ol @ ?f l, orr @ ?f r] (c + 2400 + ucast skip) (o1 + 3200) =
        Some (Inl Bad_Alloc)"
      by (rule less.hyps) (use less.prems True flen c' o' smaller in simp_all)
    with rnd less.prems(6) assms go True show ?thesis by (subst sola_loop.simps) (simp add: Let_def)
  qed
qed

text \<open>
  C15: The time stretch of a stereo buffer is the concatenation of its frames: 2,400 samples
  of the input and 800 samples that fade from what follows them to what precedes the next
  frame, which starts \<open>2400 + skip\<close> samples later.
\<close>

theorem sola_concatenates_frames:
  assumes "\<not> is_nan r" "frame_skip (clamp_ratio r) = Inr skip" "length right = length left"
    "2 * (unat skip + 800) \<le> length left" "length left < 2 ^ 32" "length left \<le> lim" "lim < 2 ^ 61"
  shows "sola lim [left, right] (clamp_ratio r) = Some (Inr (map (\<lambda>ch. concat (map (\<lambda>k.
    sola_frame (unat skip) ch (k * (2400 + unat skip))) [0..<frames (unat skip) (length left)])) [left, right]))"
  using sola_long [OF assms(2) _ _ assms(3-7)] frame_skip_range [OF assms(1)] assms(2) by auto

text \<open>A concrete input: two channels of 14,400 zeros and the ratio 2, whose skip is 6,400.\<close>

lemma two_facts: "\<not> is_nan two" "clamp_ratio two = two" "frame_skip two = Inr 6400"
proof -
  show nan: "\<not> is_nan two" by (simp add: two_def is_nan_def mag_def inf_mag_def)
  show c: "clamp_ratio two = two"
    by (simp add: clamp_ratio_def fle_def order_key_def sign_of_def mag_def half_def two_def is_nan_def inf_mag_def)
  have "bitlen 109951162777600 = Suc 46" by (rule bitlen_unique) simp_all
  then have "int_of_float (pack False (round_mag 109951162777600 (- 34))) = Inr (int (round_shift 109951162777600 23 div 2 ^ 11))"
    by (intro int_of_rounded) simp_all
  moreover have "fmul 0x45480000 two = pack False (round_mag 109951162777600 (- 34))"
    by (simp add: fmul_def two_def sign_of_def mag_def mantissa_def exponent_def is_nan_def is_inf_def inf_mag_def)
  ultimately show "frame_skip two = Inr 6400" by (simp add: frame_skip_def frame_hop round_shift_def)
qed

lemma sola_concatenates_frames_witness:
  "sola 1000000 [replicate 14400 0, replicate 14400 0] (clamp_ratio two) = Some (Inr (map (\<lambda>ch. concat (map (\<lambda>k.
    sola_frame 6400 ch (k * 8800)) [0..<frames 6400 14400])) [replicate 14400 0, replicate 14400 0]))"
  using sola_concatenates_frames [of two 6400 "replicate 14400 0" "replicate 14400 0" 1000000] two_facts by simp

text \<open>
  C16: Whatever ratio is asked for, the result is shorter than four fifths of the input: the
  audio is never stretched, not even for the ratio 2.
\<close>

theorem sola_always_shortens:
  assumes "\<not> is_nan r" "length right = length left" "14400 \<le> length left" "length left < 2 ^ 32"
    "length left \<le> lim" "lim < 2 ^ 61"
  shows "\<exists>a b. sola lim [left, right] (clamp_ratio r) = Some (Inr [a, b]) \<and> length b = length a \<and>
    0 < length a \<and> 5 * length a + 3200 \<le> 4 * length left"
proof -
  obtain skip where s: "frame_skip (clamp_ratio r) = Inr skip" "1600 \<le> unat skip" "unat skip \<le> 6400"
    using frame_skip_range [OF assms(1)] by blast
  let ?s = "unat skip" and ?n = "length left"
  have long: "2 * (?s + 800) \<le> ?n" using s(3) assms(3) by simp
  let ?out = "\<lambda>ch. concat (map (\<lambda>k. sola_frame ?s ch (k * (2400 + ?s))) [0..<frames ?s ?n])"
  have len: "length (?out left) = frames ?s ?n * 3200" "length (?out right) = frames ?s ?n * 3200"
    using stretched_length [OF s(2) long] stretched_length [OF s(2), of right] assms(2) long by simp_all
  have "sola lim [left, right] (clamp_ratio r) = Some (Inr [?out left, ?out right])"
    using sola_long [OF s assms(2) long assms(4-6)] by simp
  moreover have "0 < frames ?s ?n" by (simp add: frames_def)
  ultimately show ?thesis
    using len frames_fit [OF s(2) long]
    by (intro exI [of _ "?out left"] exI [of _ "?out right"]) simp
qed

lemma sola_always_shortens_witness:
  "\<exists>a b. sola 1000000 [replicate 14400 0, replicate 14400 0] (clamp_ratio two) = Some (Inr [a, b]) \<and>
    length b = length a \<and> 0 < length a \<and> 5 * length a + 3200 \<le> 4 * 14400"
  using sola_always_shortens [of two "replicate 14400 0" "replicate 14400 0" 1000000] two_facts(1) by simp

text \<open>
  On an input shorter than two hops the loop bound \<open>num_input_samples - 2*(frame_skip +
  overlap_size)\<close> wraps around: the loop goes on, padding the input with zeros, until memory
  runs out.
\<close>

theorem sola_short_input_runs_out:
  assumes "\<not> is_nan r" "length right = length left" "length left < 4800" "length left \<le> lim"
    "800 \<le> lim" "lim < 2 ^ 61"
  shows "sola lim [left, right] (clamp_ratio r) = Some (Inl Bad_Alloc)"
proof -
  obtain skip where s: "frame_skip (clamp_ratio r) = Inr skip" "1600 \<le> unat skip" "unat skip \<le> 6400"
    using frame_skip_range [OF assms(1)] by blast
  let ?need = "ucast (2 * (skip + overlap_size)) :: u64"
  let ?bound = "size_of left - ?need"
  have n: "unat (size_of left) = length left" using assms(3) by (intro size_of_unat) simp
  have need: "4800 \<le> unat ?need" "unat ?need \<le> 14400" using s skip_arith by simp_all
  have "unat ?bound = length left + 2 ^ 64 - unat ?need"
    using n need assms(3) by (simp add: unat_sub_if_size word_size)
  then have "2 ^ 61 \<le> unat ?bound" using need by simp
  from sola_loop_short [OF s(2,3) assms(5,6) this, of right left "[]" "[]" 0 0] assms(2,4)
  have "sola_loop lim skip ?bound [left, right] [[], []] 0 0 = Some (Inl Bad_Alloc)" by simp
  with s(1) show ?thesis by (simp add: sola_def)
qed

lemma sola_short_input_runs_out_witness:
  "sola 1000000 [[1, 2], [3, 4]] (clamp_ratio two) = Some (Inl Bad_Alloc)"
  using sola_short_input_runs_out [of two "[3, 4]" "[1, 2]" 1000000] two_facts(1) by simp

text \<open>
  A cross-fade starts exactly with the first sample of the previous frame's tail, so
  there is no jump where the fade begins.
\<close>

theorem fade_starts_smoothly:
  assumes "window_buffers lim [l1, r1] [l2, r2] = Inr ([a, b], rest)" "length r1 = length l1"
    "length l2 = length l1" "length r2 = length l1" "0 < length l1" "length l1 < 2 ^ 64"
    "\<not> is_nan (l1 ! 0)" "mag (l1 ! 0) \<noteq> 0" "finite_float (l2 ! 0)"
  shows "a ! 0 = l1 ! 0"
proof -
  have a: "a = crossfade l1 l2" using assms(1) window_buffers_stereo [OF assms(2-4,6), of lim] by simp
  let ?n = "float_of_nat (length l1)"
  note n = float_of_nat_fields [OF assms(5,6)]
  have one: "fdiv ?n ?n = float_one" by (rule fdiv_self [OF n(1,2)])
  have zero: "fdiv (float_of_nat 0) ?n = pack False 0" using fdiv_zero [OF n(1,2)] n(3) by (simp add: float_of_nat_zero)
  have "fst (fade (size_of l1) 0 (l1 ! 0) (l2 ! 0)) = l1 ! 0"
    using assms(7-9) size_of_unat [OF assms(6)]
    by (simp add: fade_def one zero fmul_one fmul_zero fadd_zero)
  then show ?thesis using assms(5) by (simp add: a crossfade_def)
qed

lemma fade_starts_smoothly_witness:
  "crossfade [float_one] [float_one] ! 0 = float_one"
  using fade_starts_smoothly [OF window_buffers_stereo [of "[float_one]" "[float_one]" "[float_one]" "[float_one]" 0]]
    float_kinds(1) [OF float_one_fields(5)] float_one_fields by simp

end
