(* ===== verification/Inet.thy ===== *)
theory Inet
  imports Prelude
begin

text \<open>
  The text form of internet addresses, from \<open>detail/impl/socket_ops.ipp\<close>: the branches of
  \<open>inet_ntop\<close> and \<open>inet_pton\<close> that do not call the operating system (those of the
  Windows Runtime).  An address is its list of bytes, a C string a list of characters that
  ends at its first NUL or with the list.  \<open>inet_pton\<close> has a state machine for IPv6, which
  is \<open>pton6_loop\<close>.
\<close>

subsection \<open>Printing\<close>

definition hex_digit :: "nat \<Rightarrow> char" where
  "hex_digit n = char_of (if n < 10 then 48 + n else 87 + n)"

fun show_hex :: "nat \<Rightarrow> string" where
  "show_hex n = (if n < 16 then [hex_digit n] else show_hex (n div 16) @ [hex_digit (n mod 16)])"

declare show_hex.simps [simp del]

definition group :: "byte \<Rightarrow> byte \<Rightarrow> nat" where
  "group hi lo = 256 * unat hi + unat lo"

text \<open>\<open>sprintf_s\<close> stops the program when the result and its NUL do not fit.\<close>

definition sprintf_s :: "string \<Rightarrow> nat \<Rightarrow> string \<Rightarrow> error + string" where
  "sprintf_s dest len s = (if length dest + length s < len then Inr (dest @ s) else Inl Out_Of_Bounds)"

definition inet_ntop4 :: "byte list \<Rightarrow> nat \<Rightarrow> error + string" where
  "inet_ntop4 bytes len = sprintf_s [] len
     (show_nat (unat (bytes ! 0)) @ ''.'' @ show_nat (unat (bytes ! 1)) @ ''.'' @
      show_nat (unat (bytes ! 2)) @ ''.'' @ show_nat (unat (bytes ! 3)))"

text \<open>The \<open>do ... while\<close> that skips a run of zero groups.\<close>

function skip_zeros :: "byte list \<Rightarrow> nat \<Rightarrow> nat" where
  "skip_zeros bytes b =
     (let b = b + 2 in
      if b < 16 \<and> bytes ! b = 0 \<and> bytes ! (b + 1) = 0 then skip_zeros bytes b else b)"
  by pat_completeness auto
termination by (relation "measure (\<lambda>(bytes, b). 16 - b)") auto

declare skip_zeros.simps [simp del]

lemma skip_zeros_more: "b + 2 \<le> skip_zeros bytes b"
proof (induction bytes b rule: skip_zeros.induct)
  case (1 bytes b)
  then show ?case by (subst skip_zeros.simps) (auto simp: Let_def)
qed

function ntop6_loop :: "byte list \<Rightarrow> nat \<Rightarrow> string \<Rightarrow> nat \<Rightarrow> nat \<Rightarrow> error + string" where
  "ntop6_loop bytes len dest b z =
     (if length dest < len \<and> b < 16 then
        if bytes ! b = 0 \<and> bytes ! (b + 1) = 0 \<and> z = 0 then
          let b = skip_zeros bytes b in
          ebind (sprintf_s dest len ('':'' @ (if b < 16 then '''' else '':''))) (\<lambda>dest.
          ntop6_loop bytes len dest b (z + 1))
        else
          ebind (sprintf_s dest len ((if b \<noteq> 0 then '':'' else '''') @
            show_hex (group (bytes ! b) (bytes ! (b + 1))))) (\<lambda>dest.
          ntop6_loop bytes len dest (b + 2) z)
      else Inr dest)"
  by pat_completeness auto
termination
proof (relation "measure (\<lambda>(_, _, _, b, _). 16 - b)")
  fix bytes :: "byte list" and len :: nat and dest :: string and b z x :: nat and y
  assume "length dest < len \<and> b < 16" "x = skip_zeros bytes b"
  with skip_zeros_more [of b bytes]
  have "16 - x < 16 - b" by arith
  then show "((bytes, len, y, x, z + 1), bytes, len, dest, b, z) \<in> measure (\<lambda>(_, _, _, b, _). 16 - b)" by simp
qed auto

declare ntop6_loop.simps [simp del]

definition inet_ntop6 :: "byte list \<Rightarrow> nat \<Rightarrow> nat \<Rightarrow> error + string" where
  "inet_ntop6 bytes len scope_id =
     ebind (ntop6_loop bytes len [] 0 0) (\<lambda>dest.
     if scope_id \<noteq> 0 then sprintf_s dest len (''%'' @ show_nat scope_id) else Inr dest)"

subsection \<open>Parsing\<close>

definition at_nul :: "string \<Rightarrow> bool" where
  "at_nul p \<longleftrightarrow> p = [] \<or> hd p = CHR 0x00"

definition code :: "char \<Rightarrow> nat" where "code c = of_char c"

text \<open>\<open>%u\<close> of \<open>sscanf_s\<close>: the number and what follows it.  A value that does not fit is
  undefined.\<close>

definition blank :: "char \<Rightarrow> bool" where
  "blank c \<longleftrightarrow> code c = 32 \<or> 9 \<le> code c \<and> code c \<le> 13"

definition decimal :: "char \<Rightarrow> bool" where
  "decimal c \<longleftrightarrow> 48 \<le> code c \<and> code c \<le> 57"

definition decimal_value :: "string \<Rightarrow> nat" where
  "decimal_value = foldl (\<lambda>n c. 10 * n + (code c - 48)) 0"

definition scan_u :: "string \<Rightarrow> error + (nat \<times> string) option" where
  "scan_u s =
     (let s = dropWhile blank s;
          neg = (s \<noteq> [] \<and> hd s = CHR ''-'');
          s = (if s \<noteq> [] \<and> (hd s = CHR ''-'' \<or> hd s = CHR ''+'') then tl s else s);
          ds = takeWhile decimal s; v = decimal_value ds
      in if ds = [] then Inr None
         else if 2 ^ 32 \<le> v then Inl Undefined_Conversion
         else Inr (Some (if neg then (2 ^ 32 - v) mod 2 ^ 32 else v, dropWhile decimal s)))"

text \<open>The rest of the format: a dot and the next number, until one of them is missing.\<close>

fun scan_dotted :: "nat \<Rightarrow> string \<Rightarrow> error + nat list" where
  "scan_dotted 0 s = Inr []"
| "scan_dotted (Suc n) s =
     ebind (scan_u s) (\<lambda>r. case r of
       None \<Rightarrow> Inr []
     | Some (v, rest) \<Rightarrow>
         (case rest of
            c # cs \<Rightarrow> if c = CHR ''.'' then ebind (scan_dotted n cs) (\<lambda>vs. Inr (v # vs)) else Inr [v]
          | [] \<Rightarrow> Inr [v]))"

text \<open>\<open>None\<close> stands for \<open>invalid_argument\<close> and the result -1.\<close>

definition inet_pton4 :: "string \<Rightarrow> error + byte list option" where
  "inet_pton4 src =
     ebind (scan_dotted 4 src) (\<lambda>bs.
       if length bs \<noteq> 4 then Inr None
       else if list_ex (\<lambda>b. b > 255) bs then Inr None
       else Inr (Some (map word_of_nat bs)))"

datatype pton_state = fword | fcolon | bword | scope

definition hex_value :: "char \<Rightarrow> nat option" where
  "hex_value c =
     (if 48 \<le> code c \<and> code c \<le> 57 then Some (code c - 48)
      else if 97 \<le> code c \<and> code c \<le> 102 then Some (code c - 97 + 10)
      else if 65 \<le> code c \<and> code c \<le> 70 then Some (code c - 65 + 10)
      else None)"

definition word_bytes :: "nat \<Rightarrow> byte list" where
  "word_bytes w = [word_of_nat (w div 256 mod 256), word_of_nat (w mod 256)]"

text \<open>The front bytes padded with zeros, the back bytes written over the end.\<close>

definition join_bytes :: "byte list \<Rightarrow> byte list \<Rightarrow> byte list" where
  "join_bytes front back = take (16 - length back) (front @ replicate (16 - length front) 0) @ back"

text \<open>
  The arguments after the state are the rest of the string, the current word, the bytes in
  front of and behind the double colon and the scope.  The state \<open>done\<close> is the result.
\<close>

function pton6_loop ::
  "pton_state \<Rightarrow> string \<Rightarrow> nat \<Rightarrow> byte list \<Rightarrow> byte list \<Rightarrow> nat \<Rightarrow> (byte list \<times> nat) option" where
  "pton6_loop state p w front back sc =
     (if w > 0xFFFF then None
      else case state of
        fword \<Rightarrow>
          (case (if at_nul p then None else hex_value (hd p)) of
             Some v \<Rightarrow> pton6_loop fword (tl p) (w * 16 + v) front back sc
           | None \<Rightarrow>
               if length front = 16 then None
               else if at_nul p then Some (join_bytes (front @ word_bytes w) back, sc)
               else if hd p = CHR '':'' then pton6_loop fcolon (tl p) 0 (front @ word_bytes w) back sc
               else if hd p = CHR ''%'' then pton6_loop scope (tl p) 0 (front @ word_bytes w) back sc
               else None)
      | fcolon \<Rightarrow>
          if \<not> at_nul p \<and> hd p = CHR '':'' then pton6_loop bword (tl p) w front back sc
          else pton6_loop fword p w front back sc
      | bword \<Rightarrow>
          (case (if at_nul p then None else hex_value (hd p)) of
             Some v \<Rightarrow> pton6_loop bword (tl p) (w * 16 + v) front back sc
           | None \<Rightarrow>
               if length front + length back = 16 then None
               else if at_nul p then Some (join_bytes front (back @ word_bytes w), sc)
               else if hd p = CHR '':'' then pton6_loop bword (tl p) 0 front (back @ word_bytes w) sc
               else if hd p = CHR ''%'' then pton6_loop scope (tl p) 0 front (back @ word_bytes w) sc
               else None)
      | scope \<Rightarrow>
          if \<not> at_nul p \<and> decimal (hd p) then pton6_loop scope (tl p) (w * 10 + (code (hd p) - 48)) front back sc
          else if at_nul p then Some (join_bytes front back, w)
          else None)"
  by pat_completeness auto
termination
  by (relation "measure (\<lambda>(state, p, _). 2 * length p + (if state = fcolon then 1 else 0))")
    (auto simp: at_nul_def length_greater_0_conv [symmetric] simp del: length_greater_0_conv split: if_splits)

declare pton6_loop.simps [simp del]

definition inet_pton6 :: "string \<Rightarrow> (byte list \<times> nat) option" where
  "inet_pton6 src = pton6_loop fword src 0 [] [] 0"

end
