(* ===== verification/Address.thy ===== *)
theory Address
  imports Inet "HOL-Library.List_Lexorder"
begin

text \<open>
  Internet addresses: \<open>ip/address_v4.hpp\<close>, \<open>ip/address_v6.hpp\<close>, \<open>ip/address.hpp\<close> with
  their \<open>impl\<close> files, the iterators and the ranges.  An IPv4 address is the word \<open>s_addr\<close>
  whose bytes in memory are in network order, an IPv6 address its sixteen bytes and a scope.
  IPv4 addresses get the order of their \<open>operator<\<close>.

  The functions that print and parse take the operating system's \<open>inet_ntop\<close> and
  \<open>inet_pton\<close> as arguments; \<open>Inet\<close> has the versions that asio brings itself.
\<close>

subsection \<open>Byte order\<close>

definition memory_of :: "u32 \<Rightarrow> byte list" where "memory_of w = float_bytes w"
definition word_at :: "byte list \<Rightarrow> u32" where "word_at bs = bytes_float bs"

definition host_to_network_long :: "u32 \<Rightarrow> u32" where
  "host_to_network_long v = word_at [ucast (drop_bit 24 v), ucast (drop_bit 16 v), ucast (drop_bit 8 v), ucast v]"

definition network_to_host_long :: "u32 \<Rightarrow> u32" where
  "network_to_host_long v =
     (case memory_of v of
        [b0, b1, b2, b3] \<Rightarrow> or (push_bit 24 (ucast b0)) (or (push_bit 16 (ucast b1)) (or (push_bit 8 (ucast b2)) (ucast b3)))
      | _ \<Rightarrow> 0)"

subsection \<open>IPv4\<close>

datatype address_v4 = Addr_v4 (s_addr: u32)

definition v4_any :: address_v4 where "v4_any = Addr_v4 0"

definition v4_of_bytes :: "byte list \<Rightarrow> address_v4" where
  "v4_of_bytes bytes = Addr_v4 (word_at bytes)"

definition v4_of_uint :: "u32 \<Rightarrow> address_v4" where
  "v4_of_uint addr = Addr_v4 (host_to_network_long addr)"

definition v4_to_bytes :: "address_v4 \<Rightarrow> byte list" where
  "v4_to_bytes a = memory_of (s_addr a)"

definition v4_to_uint :: "address_v4 \<Rightarrow> u32" where
  "v4_to_uint a = network_to_host_long (s_addr a)"

definition v4_is_loopback :: "address_v4 \<Rightarrow> bool" where
  "v4_is_loopback a \<longleftrightarrow> and (v4_to_uint a) 0xFF000000 = 0x7F000000"

definition v4_is_unspecified :: "address_v4 \<Rightarrow> bool" where
  "v4_is_unspecified a \<longleftrightarrow> v4_to_uint a = 0"

definition v4_is_class_a :: "address_v4 \<Rightarrow> bool" where
  "v4_is_class_a a \<longleftrightarrow> and (v4_to_uint a) 0x80000000 = 0"

definition v4_is_class_b :: "address_v4 \<Rightarrow> bool" where
  "v4_is_class_b a \<longleftrightarrow> and (v4_to_uint a) 0xC0000000 = 0x80000000"

definition v4_is_class_c :: "address_v4 \<Rightarrow> bool" where
  "v4_is_class_c a \<longleftrightarrow> and (v4_to_uint a) 0xE0000000 = 0xC0000000"

definition v4_is_multicast :: "address_v4 \<Rightarrow> bool" where
  "v4_is_multicast a \<longleftrightarrow> and (v4_to_uint a) 0xF0000000 = 0xE0000000"

definition v4_broadcast :: "address_v4 \<Rightarrow> address_v4 \<Rightarrow> address_v4" where
  "v4_broadcast addr netmask = v4_of_uint (or (v4_to_uint addr) (xor (v4_to_uint netmask) 0xFFFFFFFF))"

definition v4_netmask :: "address_v4 \<Rightarrow> address_v4" where
  "v4_netmask addr =
     (if v4_is_class_a addr then v4_of_uint 0xFF000000
      else if v4_is_class_b addr then v4_of_uint 0xFFFF0000
      else if v4_is_class_c addr then v4_of_uint 0xFFFFFF00
      else v4_of_uint 0xFFFFFFFF)"

definition v4_loopback :: address_v4 where "v4_loopback = v4_of_uint 0x7F000001"

text \<open>\<open>operator==\<close> compares \<open>s_addr\<close>, \<open>operator<\<close> the numbers in host order.\<close>

definition v4_less :: "address_v4 \<Rightarrow> address_v4 \<Rightarrow> bool" where
  "v4_less a1 a2 \<longleftrightarrow> v4_to_uint a1 < v4_to_uint a2"

definition v4_less_eq :: "address_v4 \<Rightarrow> address_v4 \<Rightarrow> bool" where
  "v4_less_eq a1 a2 \<longleftrightarrow> v4_to_uint a1 \<le> v4_to_uint a2"

lemma bit_byte: "8 \<le> n \<Longrightarrow> \<not> bit (b :: byte) n"
  using bit_imp_le_length [of b n] by auto

lemma memory_of_word_at: "length bs = 4 \<Longrightarrow> memory_of (word_at bs) = bs"
proof -
  assume "length bs = 4"
  then obtain a b c d where bs: "bs = [a, b, c, d]"
    by (auto simp: numeral_eq_Suc length_Suc_conv)
  have "ucast (bytes_float [a, b, c, d]) = a" "ucast (drop_bit 8 (bytes_float [a, b, c, d])) = b"
    "ucast (drop_bit 16 (bytes_float [a, b, c, d])) = c" "ucast (drop_bit 24 (bytes_float [a, b, c, d])) = d"
    by (auto intro!: bit_word_eqI simp: bit_simps bit_byte)
  then show ?thesis by (simp add: bs memory_of_def word_at_def float_bytes_def)
qed

lemma word_at_memory_of [simp]: "word_at (memory_of w) = w"
  by (simp add: memory_of_def word_at_def)

lemma length_memory_of [simp]: "length (memory_of w) = 4"
  by (simp add: memory_of_def)

lemma network_host [simp]: "network_to_host_long (host_to_network_long v) = v"
proof (rule bit_word_eqI)
  fix n assume "n < LENGTH(32)"
  then have n: "n < 32" by simp
  then consider "n < 8" | "8 \<le> n \<and> n < 16" | "16 \<le> n \<and> n < 24" | "24 \<le> n" by linarith
  then show "bit (network_to_host_long (host_to_network_long v)) n = bit v n"
    by cases (use n in \<open>auto simp: network_to_host_long_def host_to_network_long_def memory_of_word_at bit_simps\<close>)
qed

lemma host_network [simp]: "host_to_network_long (network_to_host_long v) = v"
proof -
  obtain a b c d where m: "memory_of v = [a, b, c, d]"
    using length_memory_of [of v] by (auto simp: numeral_eq_Suc length_Suc_conv simp del: length_memory_of)
  let ?w = "or (push_bit 24 (ucast a)) (or (push_bit 16 (ucast b)) (or (push_bit 8 (ucast c)) (ucast d))) :: u32"
  have "ucast (drop_bit 24 ?w) = a" "ucast (drop_bit 16 ?w) = b" "ucast (drop_bit 8 ?w) = c" "ucast ?w = d"
    by (auto intro!: bit_word_eqI simp: bit_simps bit_byte)
  then have "host_to_network_long (network_to_host_long v) = word_at [a, b, c, d]"
    by (simp add: host_to_network_long_def network_to_host_long_def m)
  then show ?thesis by (simp flip: m)
qed

lemma v4_uint [simp]: "v4_to_uint (v4_of_uint n) = n" "v4_of_uint (v4_to_uint a) = a"
  by (simp_all add: v4_to_uint_def v4_of_uint_def)

lemma v4_uint_eq: "v4_to_uint a = v4_to_uint b \<longleftrightarrow> a = b"
  by (metis v4_uint(2))

instantiation address_v4 :: linorder
begin

definition less_address_v4 where "less_address_v4 = v4_less"
definition less_eq_address_v4 where "less_eq_address_v4 = v4_less_eq"

instance
  by standard (auto simp: less_address_v4_def less_eq_address_v4_def v4_less_def v4_less_eq_def
      less_le v4_uint_eq)

end

subsection \<open>IPv6\<close>

datatype address_v6 = Addr_v6 (s6_addr: "byte list") (scope_id: nat)

definition v6_any :: address_v6 where "v6_any = Addr_v6 (replicate 16 0) 0"

definition v6_of_bytes :: "byte list \<Rightarrow> nat \<Rightarrow> address_v6" where
  "v6_of_bytes bytes sc = Addr_v6 bytes sc"

definition v6_to_bytes :: "address_v6 \<Rightarrow> byte list" where
  "v6_to_bytes a = s6_addr a"

definition v6_is_loopback :: "address_v6 \<Rightarrow> bool" where
  "v6_is_loopback a \<longleftrightarrow> (let b = s6_addr a in
     b ! 0 = 0 \<and> b ! 1 = 0 \<and> b ! 2 = 0 \<and> b ! 3 = 0 \<and> b ! 4 = 0 \<and> b ! 5 = 0 \<and> b ! 6 = 0 \<and> b ! 7 = 0 \<and>
     b ! 8 = 0 \<and> b ! 9 = 0 \<and> b ! 10 = 0 \<and> b ! 11 = 0 \<and> b ! 12 = 0 \<and> b ! 13 = 0 \<and> b ! 14 = 0 \<and> b ! 15 = 1)"

definition v6_is_unspecified :: "address_v6 \<Rightarrow> bool" where
  "v6_is_unspecified a \<longleftrightarrow> (let b = s6_addr a in
     b ! 0 = 0 \<and> b ! 1 = 0 \<and> b ! 2 = 0 \<and> b ! 3 = 0 \<and> b ! 4 = 0 \<and> b ! 5 = 0 \<and> b ! 6 = 0 \<and> b ! 7 = 0 \<and>
     b ! 8 = 0 \<and> b ! 9 = 0 \<and> b ! 10 = 0 \<and> b ! 11 = 0 \<and> b ! 12 = 0 \<and> b ! 13 = 0 \<and> b ! 14 = 0 \<and> b ! 15 = 0)"

definition v6_is_link_local :: "address_v6 \<Rightarrow> bool" where
  "v6_is_link_local a \<longleftrightarrow> s6_addr a ! 0 = 0xFE \<and> and (s6_addr a ! 1) 0xC0 = 0x80"

definition v6_is_site_local :: "address_v6 \<Rightarrow> bool" where
  "v6_is_site_local a \<longleftrightarrow> s6_addr a ! 0 = 0xFE \<and> and (s6_addr a ! 1) 0xC0 = 0xC0"

definition v6_is_v4_mapped :: "address_v6 \<Rightarrow> bool" where
  "v6_is_v4_mapped a \<longleftrightarrow> (let b = s6_addr a in
     b ! 0 = 0 \<and> b ! 1 = 0 \<and> b ! 2 = 0 \<and> b ! 3 = 0 \<and> b ! 4 = 0 \<and> b ! 5 = 0 \<and> b ! 6 = 0 \<and> b ! 7 = 0 \<and>
     b ! 8 = 0 \<and> b ! 9 = 0 \<and> b ! 10 = 0xFF \<and> b ! 11 = 0xFF)"

definition v6_is_v4_compatible :: "address_v6 \<Rightarrow> bool" where
  "v6_is_v4_compatible a \<longleftrightarrow> (let b = s6_addr a in
     b ! 0 = 0 \<and> b ! 1 = 0 \<and> b ! 2 = 0 \<and> b ! 3 = 0 \<and> b ! 4 = 0 \<and> b ! 5 = 0 \<and> b ! 6 = 0 \<and> b ! 7 = 0 \<and>
     b ! 8 = 0 \<and> b ! 9 = 0 \<and> b ! 10 = 0 \<and> b ! 11 = 0 \<and>
     \<not> (b ! 12 = 0 \<and> b ! 13 = 0 \<and> b ! 14 = 0 \<and> (b ! 15 = 0 \<or> b ! 15 = 1)))"

definition v6_is_multicast :: "address_v6 \<Rightarrow> bool" where
  "v6_is_multicast a \<longleftrightarrow> s6_addr a ! 0 = 0xFF"

definition v6_is_multicast_global :: "address_v6 \<Rightarrow> bool" where
  "v6_is_multicast_global a \<longleftrightarrow> s6_addr a ! 0 = 0xFF \<and> and (s6_addr a ! 1) 0x0F = 0x0E"

definition v6_is_multicast_link_local :: "address_v6 \<Rightarrow> bool" where
  "v6_is_multicast_link_local a \<longleftrightarrow> s6_addr a ! 0 = 0xFF \<and> and (s6_addr a ! 1) 0x0F = 0x02"

definition v6_is_multicast_node_local :: "address_v6 \<Rightarrow> bool" where
  "v6_is_multicast_node_local a \<longleftrightarrow> s6_addr a ! 0 = 0xFF \<and> and (s6_addr a ! 1) 0x0F = 0x01"

definition v6_is_multicast_org_local :: "address_v6 \<Rightarrow> bool" where
  "v6_is_multicast_org_local a \<longleftrightarrow> s6_addr a ! 0 = 0xFF \<and> and (s6_addr a ! 1) 0x0F = 0x08"

definition v6_is_multicast_site_local :: "address_v6 \<Rightarrow> bool" where
  "v6_is_multicast_site_local a \<longleftrightarrow> s6_addr a ! 0 = 0xFF \<and> and (s6_addr a ! 1) 0x0F = 0x05"

definition v6_loopback :: address_v6 where
  "v6_loopback = Addr_v6 ((s6_addr v6_any)[15 := 1]) 0"

text \<open>\<open>memcmp\<close> on byte arrays of one length.\<close>

fun memcmp :: "byte list \<Rightarrow> byte list \<Rightarrow> int" where
  "memcmp (x # xs) (y # ys) = (if x < y then - 1 else if y < x then 1 else memcmp xs ys)"
| "memcmp _ _ = 0"

definition v6_equal :: "address_v6 \<Rightarrow> address_v6 \<Rightarrow> bool" where
  "v6_equal a1 a2 \<longleftrightarrow> memcmp (s6_addr a1) (s6_addr a2) = 0 \<and> scope_id a1 = scope_id a2"

definition v6_less :: "address_v6 \<Rightarrow> address_v6 \<Rightarrow> bool" where
  "v6_less a1 a2 \<longleftrightarrow>
     (let r = memcmp (s6_addr a1) (s6_addr a2)
      in if r < 0 then True else if r > 0 then False else scope_id a1 < scope_id a2)"

subsection \<open>IPv4 addresses inside IPv6 addresses\<close>

definition v6_to_v4 :: "address_v6 \<Rightarrow> error + address_v4" where
  "v6_to_v4 a =
     (if \<not> v6_is_v4_mapped a \<and> \<not> v6_is_v4_compatible a then Inl Bad_Address_Cast
      else Inr (v4_of_bytes [s6_addr a ! 12, s6_addr a ! 13, s6_addr a ! 14, s6_addr a ! 15]))"

definition v6_v4_mapped :: "address_v4 \<Rightarrow> address_v6" where
  "v6_v4_mapped addr = v6_of_bytes ([0, 0, 0, 0, 0, 0, 0, 0, 0, 0, 0xFF, 0xFF] @ v4_to_bytes addr) 0"

definition v6_v4_compatible :: "address_v4 \<Rightarrow> address_v6" where
  "v6_v4_compatible addr = v6_of_bytes ([0, 0, 0, 0, 0, 0, 0, 0, 0, 0, 0, 0] @ v4_to_bytes addr) 0"

definition make_v4_mapped :: "address_v6 \<Rightarrow> error + address_v4" where
  "make_v4_mapped v6_addr =
     (if \<not> v6_is_v4_mapped v6_addr then Inl Bad_Address_Cast
      else Inr (v4_of_bytes [v6_to_bytes v6_addr ! 12, v6_to_bytes v6_addr ! 13,
        v6_to_bytes v6_addr ! 14, v6_to_bytes v6_addr ! 15]))"

definition make_v6_mapped :: "address_v4 \<Rightarrow> address_v6" where
  "make_v6_mapped v4_addr =
     v6_of_bytes ([0, 0, 0, 0, 0, 0, 0, 0, 0, 0, 0xFF, 0xFF] @ v4_to_bytes v4_addr) 0"

end
