(* ===== verification/Subnet.thy ===== *)
theory Subnet
  imports Address
begin

text \<open>
  What is built on the two kinds of address: the class \<open>address\<close> that holds either of them
  (\<open>ip/impl/address.ipp\<close>), the text forms, the iterators and ranges
  (\<open>ip/address_v4_iterator.hpp\<close>, \<open>ip/address_v4_range.hpp\<close> and their IPv6 twins), and the
  networks of \<open>ip/network_v4.hpp\<close> and \<open>ip/network_v6.hpp\<close> with their \<open>impl\<close> files.

  A function with an \<open>error_code\<close> parameter returns it beside its result; \<open>None\<close> is success.
\<close>

subsection \<open>Either address\<close>

datatype address_type = ipv4 | ipv6

record address =
  type_of :: address_type
  ipv4_address :: address_v4
  ipv6_address :: address_v6

definition address_any :: address where
  "address_any = \<lparr>type_of = ipv4, ipv4_address = v4_any, ipv6_address = v6_any\<rparr>"

definition address_of_v4 :: "address_v4 \<Rightarrow> address" where
  "address_of_v4 a = \<lparr>type_of = ipv4, ipv4_address = a, ipv6_address = v6_any\<rparr>"

definition address_of_v6 :: "address_v6 \<Rightarrow> address" where
  "address_of_v6 a = \<lparr>type_of = ipv6, ipv4_address = v4_any, ipv6_address = a\<rparr>"

definition assign_v4 :: "address \<Rightarrow> address_v4 \<Rightarrow> address" where
  "assign_v4 this a = this\<lparr>type_of := ipv4, ipv4_address := a, ipv6_address := v6_any\<rparr>"

definition assign_v6 :: "address \<Rightarrow> address_v6 \<Rightarrow> address" where
  "assign_v6 this a = this\<lparr>type_of := ipv6, ipv4_address := v4_any, ipv6_address := a\<rparr>"

definition to_v4 :: "address \<Rightarrow> error + address_v4" where
  "to_v4 a = (if type_of a \<noteq> ipv4 then Inl Bad_Address_Cast else Inr (ipv4_address a))"

definition to_v6 :: "address \<Rightarrow> error + address_v6" where
  "to_v6 a = (if type_of a \<noteq> ipv6 then Inl Bad_Address_Cast else Inr (ipv6_address a))"

definition is_loopback :: "address \<Rightarrow> bool" where
  "is_loopback a = (if type_of a = ipv4 then v4_is_loopback (ipv4_address a) else v6_is_loopback (ipv6_address a))"

definition is_unspecified :: "address \<Rightarrow> bool" where
  "is_unspecified a =
     (if type_of a = ipv4 then v4_is_unspecified (ipv4_address a) else v6_is_unspecified (ipv6_address a))"

definition is_multicast :: "address \<Rightarrow> bool" where
  "is_multicast a =
     (if type_of a = ipv4 then v4_is_multicast (ipv4_address a) else v6_is_multicast (ipv6_address a))"

definition address_equal :: "address \<Rightarrow> address \<Rightarrow> bool" where
  "address_equal a1 a2 \<longleftrightarrow>
     (if type_of a1 \<noteq> type_of a2 then False
      else if type_of a1 = ipv6 then v6_equal (ipv6_address a1) (ipv6_address a2)
      else ipv4_address a1 = ipv4_address a2)"

text \<open>The enumeration orders \<open>ipv4\<close> before \<open>ipv6\<close>.\<close>

definition type_less :: "address_type \<Rightarrow> address_type \<Rightarrow> bool" where
  "type_less s t \<longleftrightarrow> s = ipv4 \<and> t = ipv6"

definition address_less :: "address \<Rightarrow> address \<Rightarrow> bool" where
  "address_less a1 a2 \<longleftrightarrow>
     (if type_less (type_of a1) (type_of a2) then True
      else if type_less (type_of a2) (type_of a1) then False
      else if type_of a1 = ipv6 then v6_less (ipv6_address a1) (ipv6_address a2)
      else v4_less (ipv4_address a1) (ipv4_address a2))"

subsection \<open>Addresses as text\<close>

text \<open>
  The operating system's part: \<open>inet_ntop\<close> and \<open>inet_pton\<close> for both families (printing is
  given the length of its buffer), and the two buffer lengths.
\<close>

record inet_lib =
  ntop4 :: "byte list \<Rightarrow> nat \<Rightarrow> error + string"
  ntop6 :: "byte list \<Rightarrow> nat \<Rightarrow> nat \<Rightarrow> error + string"
  pton4 :: "string \<Rightarrow> error + byte list option"
  pton6 :: "string \<Rightarrow> error + (byte list \<times> nat) option"
  max_addr_v4_str_len :: nat
  max_addr_v6_str_len :: nat

definition throwing :: "error + 'a \<times> asio_error option \<Rightarrow> error + 'a" where
  "throwing r = ebind r (\<lambda>(x, ec). case ec of None \<Rightarrow> Inr x | Some e \<Rightarrow> Inl (System_Error e))"

definition v4_to_string :: "inet_lib \<Rightarrow> address_v4 \<Rightarrow> error + string" where
  "v4_to_string L a = ntop4 L (v4_to_bytes a) (max_addr_v4_str_len L)"

definition v6_to_string :: "inet_lib \<Rightarrow> address_v6 \<Rightarrow> error + string" where
  "v6_to_string L a = ntop6 L (s6_addr a) (max_addr_v6_str_len L) (scope_id a)"

definition to_string :: "inet_lib \<Rightarrow> address \<Rightarrow> error + string" where
  "to_string L a = (if type_of a = ipv6 then v6_to_string L (ipv6_address a) else v4_to_string L (ipv4_address a))"

definition make_address_v4_ec :: "inet_lib \<Rightarrow> string \<Rightarrow> error + address_v4 \<times> asio_error option" where
  "make_address_v4_ec L str =
     ebind (pton4 L str) (\<lambda>r. case r of
       None \<Rightarrow> Inr (v4_any, Some invalid_argument)
     | Some bytes \<Rightarrow> Inr (v4_of_bytes bytes, None))"

definition make_address_v6_ec :: "inet_lib \<Rightarrow> string \<Rightarrow> error + address_v6 \<times> asio_error option" where
  "make_address_v6_ec L str =
     ebind (pton6 L str) (\<lambda>r. case r of
       None \<Rightarrow> Inr (v6_any, Some invalid_argument)
     | Some (bytes, sc) \<Rightarrow> Inr (v6_of_bytes bytes sc, None))"

definition make_address_v4 :: "inet_lib \<Rightarrow> string \<Rightarrow> error + address_v4" where
  "make_address_v4 L str = throwing (make_address_v4_ec L str)"

definition make_address_v6 :: "inet_lib \<Rightarrow> string \<Rightarrow> error + address_v6" where
  "make_address_v6 L str = throwing (make_address_v6_ec L str)"

definition make_address_ec :: "inet_lib \<Rightarrow> string \<Rightarrow> error + address \<times> asio_error option" where
  "make_address_ec L str =
     ebind (make_address_v6_ec L str) (\<lambda>(a6, ec).
     if ec = None then Inr (address_of_v6 a6, ec)
     else ebind (make_address_v4_ec L str) (\<lambda>(a4, ec).
       if ec = None then Inr (address_of_v4 a4, ec) else Inr (address_any, ec)))"

definition make_address :: "inet_lib \<Rightarrow> string \<Rightarrow> error + address" where
  "make_address L str = throwing (make_address_ec L str)"

text \<open>asio's own functions, which the Windows Runtime has instead of the system's.\<close>

definition asio_inet :: inet_lib where
  "asio_inet = \<lparr>ntop4 = inet_ntop4, ntop6 = inet_ntop6, pton4 = inet_pton4,
     pton6 = (\<lambda>str. Inr (inet_pton6 str)), max_addr_v4_str_len = 256, max_addr_v6_str_len = 256\<rparr>"

subsection \<open>Iterators and ranges\<close>

definition v4_next :: "address_v4 \<Rightarrow> address_v4" where
  "v4_next a = v4_of_uint (and (v4_to_uint a + 1) 0xFFFFFFFF)"

definition v4_prev :: "address_v4 \<Rightarrow> address_v4" where
  "v4_prev a = v4_of_uint (and (v4_to_uint a - 1) 0xFFFFFFFF)"

text \<open>The loops of \<open>operator++\<close> and \<open>operator--\<close>; the argument is one more than their index.\<close>

primrec next_loop :: "nat \<Rightarrow> byte list \<Rightarrow> byte list" where
  "next_loop 0 b = b"
| "next_loop (Suc i) b = (if b ! i < 0xFF then b[i := b ! i + 1] else next_loop i (b[i := 0]))"

primrec prev_loop :: "nat \<Rightarrow> byte list \<Rightarrow> byte list" where
  "prev_loop 0 b = b"
| "prev_loop (Suc i) b = (if b ! i > 0 then b[i := b ! i - 1] else prev_loop i (b[i := 0xFF]))"

definition v6_next :: "address_v6 \<Rightarrow> address_v6" where
  "v6_next a = Addr_v6 (next_loop 16 (s6_addr a)) (scope_id a)"

definition v6_prev :: "address_v6 \<Rightarrow> address_v6" where
  "v6_prev a = Addr_v6 (prev_loop 16 (s6_addr a)) (scope_id a)"

record v4_range =
  begin4 :: address_v4
  end4 :: address_v4

record v6_range =
  begin6 :: address_v6
  end6 :: address_v6

text \<open>The 32-bit difference, widened to \<open>size_t\<close>.\<close>

definition v4_range_size :: "v4_range \<Rightarrow> nat" where
  "v4_range_size r = unat (v4_to_uint (end4 r) - v4_to_uint (begin4 r))"

definition v4_range_empty :: "v4_range \<Rightarrow> bool" where
  "v4_range_empty r \<longleftrightarrow> v4_range_size r = 0"

definition v4_range_find :: "v4_range \<Rightarrow> address_v4 \<Rightarrow> address_v4" where
  "v4_range_find r a = (if \<not> v4_less a (begin4 r) \<and> v4_less a (end4 r) then a else end4 r)"

definition v6_range_empty :: "v6_range \<Rightarrow> bool" where
  "v6_range_empty r \<longleftrightarrow> v6_equal (begin6 r) (end6 r)"

definition v6_range_find :: "v6_range \<Rightarrow> address_v6 \<Rightarrow> address_v6" where
  "v6_range_find r a = (if \<not> v6_less a (begin6 r) \<and> v6_less a (end6 r) then a else end6 r)"

subsection \<open>IPv4 networks\<close>

record network_v4 =
  address4 :: address_v4
  prefix_length4 :: nat

definition net4_any :: network_v4 where "net4_any = \<lparr>address4 = v4_any, prefix_length4 = 0\<rparr>"

definition net4 :: "address_v4 \<Rightarrow> nat \<Rightarrow> error + network_v4" where
  "net4 addr prefix_len =
     (if prefix_len > 32 then Inl Std_Out_Of_Range else Inr \<lparr>address4 = addr, prefix_length4 = prefix_len\<rparr>)"

text \<open>
  The \<open>switch\<close> whose cases fall through: from the label that matches to the last one,
  each adds one bit; \<open>None\<close> is the default case.
\<close>

primrec fall_through :: "byte list \<Rightarrow> byte \<Rightarrow> nat option" where
  "fall_through [] b = (if b = 0 then Some 0 else None)"
| "fall_through (l # ls) b = (if b = l then Some (length (l # ls)) else fall_through ls b)"

primrec mask_loop :: "byte list \<Rightarrow> bool \<Rightarrow> nat \<Rightarrow> error + nat" where
  "mask_loop [] finished prefix_len = Inr prefix_len"
| "mask_loop (b # bs) finished prefix_len =
     (if finished then if b \<noteq> 0 then Inl Std_Invalid_Argument else mask_loop bs finished prefix_len
      else if b = 255 then mask_loop bs finished (prefix_len + 8)
      else case fall_through [254, 252, 248, 240, 224, 192, 128] b of
        Some n \<Rightarrow> mask_loop bs True (prefix_len + n)
      | None \<Rightarrow> Inl Std_Out_Of_Range)"

definition net4_of_mask :: "address_v4 \<Rightarrow> address_v4 \<Rightarrow> error + network_v4" where
  "net4_of_mask addr netmask =
     ebind (mask_loop (v4_to_bytes netmask) False 0) (\<lambda>n. Inr \<lparr>address4 = addr, prefix_length4 = n\<rparr>)"

definition netmask4 :: "network_v4 \<Rightarrow> address_v4" where
  "netmask4 n = v4_of_uint (if prefix_length4 n = 0 then 0 else push_bit (32 - prefix_length4 n) 0xFFFFFFFF)"

definition network4 :: "network_v4 \<Rightarrow> address_v4" where
  "network4 n = v4_of_uint (and (v4_to_uint (address4 n)) (v4_to_uint (netmask4 n)))"

definition broadcast4 :: "network_v4 \<Rightarrow> address_v4" where
  "broadcast4 n = v4_of_uint (or (v4_to_uint (network4 n)) (xor (v4_to_uint (netmask4 n)) 0xFFFFFFFF))"

definition is_host4 :: "network_v4 \<Rightarrow> bool" where
  "is_host4 n \<longleftrightarrow> prefix_length4 n = 32"

definition hosts4 :: "network_v4 \<Rightarrow> v4_range" where
  "hosts4 n =
     (if is_host4 n then \<lparr>begin4 = address4 n, end4 = v4_of_uint (v4_to_uint (address4 n) + 1)\<rparr>
      else \<lparr>begin4 = v4_of_uint (v4_to_uint (network4 n) + 1), end4 = broadcast4 n\<rparr>)"

definition canonical4 :: "network_v4 \<Rightarrow> error + network_v4" where
  "canonical4 n = net4 (network4 n) (prefix_length4 n)"

definition is_subnet_of4 :: "network_v4 \<Rightarrow> network_v4 \<Rightarrow> error + bool" where
  "is_subnet_of4 n other =
     (if prefix_length4 other \<ge> prefix_length4 n then Inr False
      else ebind (net4 (address4 n) (prefix_length4 other)) (\<lambda>me.
        ebind (canonical4 other) (\<lambda>c1. ebind (canonical4 me) (\<lambda>c2. Inr (c1 = c2)))))"

definition net4_to_string :: "inet_lib \<Rightarrow> network_v4 \<Rightarrow> error + string" where
  "net4_to_string L n =
     ebind (v4_to_string L (address4 n)) (\<lambda>addr. Inr (addr @ CHR ''/'' # show_nat (prefix_length4 n)))"

text \<open>\<open>std::string::find_first_of\<close> and the like, and \<open>std::atoi\<close>.\<close>

definition find_first :: "(char \<Rightarrow> bool) \<Rightarrow> string \<Rightarrow> nat option" where
  "find_first P s = (let n = length (takeWhile (\<lambda>c. \<not> P c) s) in if n < length s then Some n else None)"

definition atoi :: "string \<Rightarrow> error + int" where
  "atoi s =
     (let s = dropWhile blank s;
          neg = (s \<noteq> [] \<and> hd s = CHR ''-'');
          s = (if s \<noteq> [] \<and> (hd s = CHR ''-'' \<or> hd s = CHR ''+'') then tl s else s);
          v = decimal_value (takeWhile decimal s)
      in if neg then if 2 ^ 31 < v then Inl Undefined_Conversion else Inr (- int v)
         else if 2 ^ 31 \<le> v then Inl Undefined_Conversion else Inr (int v))"

definition make_network_v4_ec :: "inet_lib \<Rightarrow> string \<Rightarrow> error + network_v4 \<times> asio_error option" where
  "make_network_v4_ec L str =
     (case find_first (\<lambda>c. c = CHR ''/'') str of
        None \<Rightarrow> Inr (net4_any, Some invalid_argument)
      | Some pos \<Rightarrow>
          if pos = length str - 1 then Inr (net4_any, Some invalid_argument)
          else if find_first (\<lambda>c. \<not> decimal c) (drop (pos + 1) str) \<noteq> None
            then Inr (net4_any, Some invalid_argument)
          else ebind (make_address_v4_ec L (take pos str)) (\<lambda>(addr, ec).
            if ec \<noteq> None then Inr (net4_any, ec)
            else ebind (atoi (drop (pos + 1) str)) (\<lambda>prefix_len.
              if prefix_len < 0 \<or> prefix_len > 32 then Inr (net4_any, Some invalid_argument)
              else ebind (net4 addr (nat prefix_len)) (\<lambda>n. Inr (n, None)))))"

definition make_network_v4 :: "inet_lib \<Rightarrow> string \<Rightarrow> error + network_v4" where
  "make_network_v4 L str = throwing (make_network_v4_ec L str)"

subsection \<open>IPv6 networks\<close>

record network_v6 =
  address6 :: address_v6
  prefix_length6 :: nat

definition net6_any :: network_v6 where "net6_any = \<lparr>address6 = v6_any, prefix_length6 = 0\<rparr>"

definition net6 :: "address_v6 \<Rightarrow> nat \<Rightarrow> error + network_v6" where
  "net6 addr prefix_len =
     (if prefix_len > 128 then Inl Std_Out_Of_Range else Inr \<lparr>address6 = addr, prefix_length6 = prefix_len\<rparr>)"

text \<open>The compound assignments work on \<open>int\<close> and are cut back to a byte.\<close>

definition mask_byte :: "nat \<Rightarrow> byte \<Rightarrow> byte" where
  "mask_byte p b = ucast (and (ucast b) (drop_bit (p mod 8) (0xFF00 :: u32)))"

definition fill_byte :: "nat \<Rightarrow> byte \<Rightarrow> byte" where
  "fill_byte p b = ucast (or (ucast b) (drop_bit (p mod 8) (0xFF :: u32)))"

definition network6 :: "network_v6 \<Rightarrow> address_v6" where
  "network6 n = v6_of_bytes
     (map (\<lambda>i. if prefix_length6 n \<le> i * 8 then 0
               else if prefix_length6 n < (i + 1) * 8 then mask_byte (prefix_length6 n) (s6_addr (address6 n) ! i)
               else s6_addr (address6 n) ! i) [0..<16])
     (scope_id (address6 n))"

definition hosts6 :: "network_v6 \<Rightarrow> v6_range" where
  "hosts6 n =
     (let p = prefix_length6 n;
          begin_bytes = map (\<lambda>i. if p \<le> i * 8 then 0
            else if p < (i + 1) * 8 then mask_byte p (v6_to_bytes (address6 n) ! i)
            else v6_to_bytes (address6 n) ! i) [0..<16];
          end_bytes = map (\<lambda>i. if p \<le> i * 8 then 0xFF
            else if p < (i + 1) * 8 then fill_byte p (v6_to_bytes (address6 n) ! i)
            else v6_to_bytes (address6 n) ! i) [0..<16]
      in \<lparr>begin6 = v6_of_bytes begin_bytes (scope_id (address6 n)),
          end6 = v6_next (v6_of_bytes end_bytes (scope_id (address6 n)))\<rparr>)"

definition canonical6 :: "network_v6 \<Rightarrow> error + network_v6" where
  "canonical6 n = net6 (network6 n) (prefix_length6 n)"

definition is_host6 :: "network_v6 \<Rightarrow> bool" where
  "is_host6 n \<longleftrightarrow> prefix_length6 n = 128"

definition net6_equal :: "network_v6 \<Rightarrow> network_v6 \<Rightarrow> bool" where
  "net6_equal a b \<longleftrightarrow> v6_equal (address6 a) (address6 b) \<and> prefix_length6 a = prefix_length6 b"

definition is_subnet_of6 :: "network_v6 \<Rightarrow> network_v6 \<Rightarrow> error + bool" where
  "is_subnet_of6 n other =
     (if prefix_length6 other \<ge> prefix_length6 n then Inr False
      else ebind (net6 (address6 n) (prefix_length6 other)) (\<lambda>me.
        ebind (canonical6 other) (\<lambda>c1. ebind (canonical6 me) (\<lambda>c2. Inr (net6_equal c1 c2)))))"

definition net6_to_string :: "inet_lib \<Rightarrow> network_v6 \<Rightarrow> error + string" where
  "net6_to_string L n =
     ebind (v6_to_string L (address6 n)) (\<lambda>addr. Inr (addr @ CHR ''/'' # show_nat (prefix_length6 n)))"

definition make_network_v6_ec :: "inet_lib \<Rightarrow> string \<Rightarrow> error + network_v6 \<times> asio_error option" where
  "make_network_v6_ec L str =
     (case find_first (\<lambda>c. c = CHR ''/'') str of
        None \<Rightarrow> Inr (net6_any, Some invalid_argument)
      | Some pos \<Rightarrow>
          if pos = length str - 1 then Inr (net6_any, Some invalid_argument)
          else if find_first (\<lambda>c. \<not> decimal c) (drop (pos + 1) str) \<noteq> None
            then Inr (net6_any, Some invalid_argument)
          else ebind (make_address_v6_ec L (take pos str)) (\<lambda>(addr, ec).
            if ec \<noteq> None then Inr (net6_any, ec)
            else ebind (atoi (drop (pos + 1) str)) (\<lambda>prefix_len.
              if prefix_len < 0 \<or> prefix_len > 128 then Inr (net6_any, Some invalid_argument)
              else ebind (net6 addr (nat prefix_len)) (\<lambda>n. Inr (n, None)))))"

definition make_network_v6 :: "inet_lib \<Rightarrow> string \<Rightarrow> error + network_v6" where
  "make_network_v6 L str = throwing (make_network_v6_ec L str)"

end
