(* ===== verification/Inet_Properties.thy ===== *)
theory Inet_Properties
  imports Inet
begin

text \<open>
  Printing an address and parsing the text gives the address back, for both families: the
  printer's compression of a run of zero groups against the parser's state machine.
\<close>

subsection \<open>Digits\<close>

lemma code_char: "n < 256 \<Longrightarrow> code (char_of n) = n"
  by (simp add: code_def)

lemma code_NUL: "c = CHR 0x00 \<Longrightarrow> code c = 0"
  by (simp add: code_def)

lemma hex_digit_facts:
  assumes "n < 16"
  shows "hex_value (hex_digit n) = Some n" "hex_digit n \<noteq> CHR 0x00" "hex_digit n \<noteq> CHR '':''"
proof -
  have c: "code (hex_digit n) = (if n < 10 then 48 + n else 87 + n)"
    using assms by (simp add: hex_digit_def code_char)
  show "hex_value (hex_digit n) = Some n" using assms c by (auto simp: hex_value_def)
  show "hex_digit n \<noteq> CHR 0x00" using c by (auto simp: code_def split: if_splits)
  have "code (hex_digit n) \<noteq> code CHR '':''" using assms c by (simp add: code_def)
  then show "hex_digit n \<noteq> CHR '':''" by metis
qed

lemma show_hex_Cons: "\<exists>d ds. show_hex n = hex_digit d # ds \<and> d < 16"
proof (induction n rule: show_hex.induct)
  case (1 n)
  then show ?case by (cases "n < 16") (auto simp: show_hex.simps [of n])
qed

lemma show_hex_length: "n < 16 ^ Suc k \<Longrightarrow> length (show_hex n) \<le> Suc k"
proof (induction k arbitrary: n)
  case 0
  then show ?case by (simp add: show_hex.simps [of n])
next
  case (Suc k)
  from Suc.prems have "n div 16 < 16 ^ Suc k" by (simp add: less_mult_imp_div_less mult.commute)
  from Suc.IH [OF this] show ?case by (subst show_hex.simps) simp
qed

lemma show_nat_length: "n < 10 ^ Suc k \<Longrightarrow> length (show_nat n) \<le> Suc k"
proof (induction k arbitrary: n)
  case 0
  then show ?case by (simp add: show_nat.simps [of n])
next
  case (Suc k)
  from Suc.prems have "n div 10 < 10 ^ Suc k" by (simp add: less_mult_imp_div_less mult.commute)
  from Suc.IH [OF this] show ?case by (subst show_nat.simps) simp
qed

lemma word_digits:
  assumes "n \<le> 65535" "st = fword \<or> st = bword"
  shows "pton6_loop st (show_hex n @ rest) 0 front back sc = pton6_loop st rest n front back sc"
  using assms(1)
proof (induction n arbitrary: rest rule: show_hex.induct)
  case (1 n)
  have digit: "pton6_loop st (hex_digit d # rest) w front back sc = pton6_loop st rest (w * 16 + d) front back sc"
    if "d < 16" "w \<le> 65535" for d w rest
    using assms(2) that hex_digit_facts [OF that(1)] by (subst pton6_loop.simps) (auto simp: at_nul_def)
  show ?case
  proof (cases "n < 16")
    case True
    then show ?thesis using digit [of n 0] by (subst show_hex.simps) simp
  next
    case False
    have "pton6_loop st (show_hex n @ rest) 0 front back sc =
        pton6_loop st (show_hex (n div 16) @ hex_digit (n mod 16) # rest) 0 front back sc"
      using False by (subst show_hex.simps) simp
    also have "\<dots> = pton6_loop st (hex_digit (n mod 16) # rest) (n div 16) front back sc"
      using False 1 by simp
    also have "\<dots> = pton6_loop st rest (n div 16 * 16 + n mod 16) front back sc"
      using 1(2) by (intro digit) simp_all
    finally show ?thesis by simp
  qed
qed

lemma scope_digits:
  "n \<le> 65535 \<Longrightarrow> pton6_loop scope (show_nat n @ rest) 0 front back sc = pton6_loop scope rest n front back sc"
proof (induction n arbitrary: rest rule: show_nat.induct)
  case (1 n)
  have digit: "pton6_loop scope (char_of (48 + d) # rest) w front back sc = pton6_loop scope rest (w * 10 + d) front back sc"
    if "d < 10" "w \<le> 65535" for d w rest
  proof -
    have c: "code (char_of (48 + d)) = 48 + d" using that by (simp add: code_char)
    then have "(char_of (48 + d) :: char) \<noteq> CHR 0x00" by (metis add_is_0 code_NUL zero_neq_numeral)
    with c that show ?thesis by (subst pton6_loop.simps) (simp add: at_nul_def decimal_def)
  qed
  show ?case
  proof (cases "n < 10")
    case True
    then show ?thesis using digit [of n 0] by (subst show_nat.simps) simp
  next
    case False
    have "pton6_loop scope (show_nat n @ rest) 0 front back sc =
        pton6_loop scope (show_nat (n div 10) @ char_of (48 + n mod 10) # rest) 0 front back sc"
      using False by (subst show_nat.simps) simp
    also have "\<dots> = pton6_loop scope (char_of (48 + n mod 10) # rest) (n div 10) front back sc"
      using False 1 by simp
    also have "\<dots> = pton6_loop scope rest (n div 10 * 10 + n mod 10) front back sc"
      using 1(2) by (intro digit) simp_all
    finally show ?thesis by simp
  qed
qed

subsection \<open>The ends of the string\<close>

definition suffix :: "string \<Rightarrow> nat \<Rightarrow> bool" where
  "suffix s n \<longleftrightarrow> s = (if n = 0 then [] else ''%'' @ show_nat n) \<and> n \<le> 65535"

lemma scope_end: "n \<le> 65535 \<Longrightarrow> pton6_loop scope (show_nat n) 0 front back sc = Some (join_bytes front back, n)"
  using scope_digits [of n "[]"] by (simp add: pton6_loop.simps [of scope "[]"] at_nul_def)

lemma percent_word:
  assumes "w \<le> 65535"
  shows "length front \<noteq> 16 \<Longrightarrow>
      pton6_loop fword (CHR ''%'' # p) w front back sc = pton6_loop scope p 0 (front @ word_bytes w) back sc"
    "length front + length back \<noteq> 16 \<Longrightarrow>
      pton6_loop bword (CHR ''%'' # p) w front back sc = pton6_loop scope p 0 front (back @ word_bytes w) sc"
  using assms by (subst pton6_loop.simps, simp add: at_nul_def hex_value_def code_def)+

lemma nul_word:
  assumes "w \<le> 65535"
  shows "length front \<noteq> 16 \<Longrightarrow>
      pton6_loop fword [] w front back sc = Some (join_bytes (front @ word_bytes w) back, sc)"
    "length front + length back \<noteq> 16 \<Longrightarrow>
      pton6_loop bword [] w front back sc = Some (join_bytes front (back @ word_bytes w), sc)"
  using assms by (subst pton6_loop.simps, simp add: at_nul_def)+

lemma word_end:
  assumes "suffix s n" "w \<le> 65535"
  shows "length front \<noteq> 16 \<Longrightarrow> pton6_loop fword s w front back 0 = Some (join_bytes (front @ word_bytes w) back, n)"
    "length front + length back \<noteq> 16 \<Longrightarrow> pton6_loop bword s w front back 0 = Some (join_bytes front (back @ word_bytes w), n)"
  using assms by (auto simp: suffix_def percent_word nul_word scope_end)

lemma colon_fword:
  assumes "w \<le> 65535" "length front \<noteq> 16"
  shows "pton6_loop fword (CHR '':'' # p) w front back sc = pton6_loop fcolon p 0 (front @ word_bytes w) back sc"
  using assms by (subst pton6_loop.simps) (simp add: at_nul_def hex_value_def code_def)

lemma colon_bword:
  assumes "w \<le> 65535" "length front + length back \<noteq> 16"
  shows "pton6_loop bword (CHR '':'' # p) w front back sc = pton6_loop bword p 0 front (back @ word_bytes w) sc"
  using assms by (subst pton6_loop.simps) (simp add: at_nul_def hex_value_def code_def)

lemma colon_fcolon: "pton6_loop fcolon (CHR '':'' # p) 0 front back sc = pton6_loop bword p 0 front back sc"
  by (subst pton6_loop.simps) (simp add: at_nul_def)

lemma digit_fcolon: "pton6_loop fcolon (show_hex n @ p) 0 front back sc = pton6_loop fword (show_hex n @ p) 0 front back sc"
proof -
  obtain d ds where "show_hex n = hex_digit d # ds" "d < 16" using show_hex_Cons by blast
  with hex_digit_facts(3) show ?thesis by (subst pton6_loop.simps) (simp add: at_nul_def)
qed

subsection \<open>The text of an IPv6 address\<close>

text \<open>What \<open>ntop6_loop\<close> appends from byte \<open>b\<close> on, when the buffer is large enough.\<close>

function text6 :: "byte list \<Rightarrow> nat \<Rightarrow> nat \<Rightarrow> string" where
  "text6 bytes b z =
     (if b < 16 then
        if bytes ! b = 0 \<and> bytes ! (b + 1) = 0 \<and> z = 0 then
          ('':'' @ (if skip_zeros bytes b < 16 then '''' else '':'')) @ text6 bytes (skip_zeros bytes b) (z + 1)
        else
          ((if b \<noteq> 0 then '':'' else '''') @ show_hex (group (bytes ! b) (bytes ! (b + 1)))) @ text6 bytes (b + 2) z
      else '''')"
  by pat_completeness auto
termination
proof (relation "measure (\<lambda>(_, b, _). 16 - b)")
  fix bytes :: "byte list" and b z :: nat
  assume "b < 16"
  with skip_zeros_more [of b bytes] have "16 - skip_zeros bytes b < 16 - b" by arith
  then show "((bytes, skip_zeros bytes b, z + 1), bytes, b, z) \<in> measure (\<lambda>(_, b, _). 16 - b)" by simp
qed auto

declare text6.simps [simp del]

lemma group_small: "group hi lo \<le> 65535"
  using unsigned_less [of hi, where 'a = nat] unsigned_less [of lo, where 'a = nat] by (simp add: group_def)

lemma group_text: "length (show_hex (group hi lo)) \<le> 4"
  using show_hex_length [of "group hi lo" 3] group_small [of hi lo] by simp

lemma skip_zeros_facts:
  "even b \<Longrightarrow> b < 16 \<Longrightarrow> even (skip_zeros bytes b) \<and> skip_zeros bytes b \<le> 16 \<and>
   (\<forall>i. b + 2 \<le> i \<and> i < skip_zeros bytes b \<longrightarrow> bytes ! i = 0)"
proof (induction bytes b rule: skip_zeros.induct)
  case (1 bytes b)
  show ?case
  proof (cases "b + 2 < 16 \<and> bytes ! (b + 2) = 0 \<and> bytes ! (b + 2 + 1) = 0")
    case True
    then have sk: "skip_zeros bytes b = skip_zeros bytes (b + 2)" by (subst skip_zeros.simps) simp
    have "even (b + 2)" "b + 2 < 16" using 1(2) True by simp_all
    note ih = 1(1) [OF refl True this]
    have "bytes ! i = 0" if "b + 2 \<le> i" "i < skip_zeros bytes (b + 2)" for i
    proof (cases "b + 2 + 2 \<le> i")
      case False
      with that(1) have "i = b + 2 \<or> i = b + 2 + 1" by arith
      with True show ?thesis by auto
    qed (use ih that in blast)
    with ih show ?thesis unfolding sk by blast
  next
    case False
    then have "skip_zeros bytes b = b + 2" by (subst skip_zeros.simps) (auto simp: Let_def)
    moreover have "even (b + 2)" "b + 2 \<le> 16" using 1(2,3) by presburger+
    ultimately show ?thesis by (simp only:) auto
  qed
qed

lemmas nat_norm = One_nat_def add_2_eq_Suc add_2_eq_Suc'
  \<comment> \<open>taken from the simplifier where the byte indices are to keep their form\<close>

lemma even_below_16: "even b \<Longrightarrow> b < 16 \<Longrightarrow> b + 2 \<le> (16 :: nat)"
  by presburger

lemma ntop6_loop_text:
  "length dest + 3 * (16 - b) < len \<Longrightarrow> even b \<Longrightarrow> b \<le> 16 \<Longrightarrow>
   ntop6_loop bytes len dest b z = Inr (dest @ text6 bytes b z) \<and>
   length (text6 bytes b z) \<le> 3 * (16 - b)"
proof (induction "16 - b" arbitrary: b dest z rule: less_induct)
  case less
  show ?case
  proof (cases "b < 16")
    case False
    then show ?thesis by (subst (1 2) text6.simps, subst ntop6_loop.simps) simp
  next
    case True
    note two = even_below_16 [OF less.prems(2) True]
    show ?thesis
    proof (cases "bytes ! b = 0 \<and> bytes ! (b + 1) = 0 \<and> z = 0")
      case zero: True
      let ?b = "skip_zeros bytes b" and ?sep = "'':'' @ (if skip_zeros bytes b < 16 then '''' else '':'')"
      have b': "even ?b" "?b \<le> 16" "b + 2 \<le> ?b"
        using skip_zeros_facts [OF less.prems(2) True] skip_zeros_more by auto
      have ih: "ntop6_loop bytes len (dest @ ?sep) ?b (z + 1) = Inr ((dest @ ?sep) @ text6 bytes ?b (z + 1)) \<and>
          length (text6 bytes ?b (z + 1)) \<le> 3 * (16 - ?b)"
        by (rule less.hyps) (use b' True less.prems in auto)
      have "text6 bytes b z = ?sep @ text6 bytes ?b (z + 1)" using True zero by (subst text6.simps) simp
      moreover have "ntop6_loop bytes len dest b z = ntop6_loop bytes len (dest @ ?sep) ?b (z + 1)"
        using True zero less.prems b' by (subst ntop6_loop.simps) (auto simp: sprintf_s_def)
      ultimately show ?thesis using ih b' by auto
    next
      case False
      let ?t = "(if b \<noteq> 0 then '':'' else '''') @ show_hex (group (bytes ! b) (bytes ! (b + 1)))"
      have t: "length ?t \<le> 5" using group_text [of "bytes ! b" "bytes ! (b + 1)"] by (cases "b = 0") simp_all
      have ih: "ntop6_loop bytes len (dest @ ?t) (b + 2) z = Inr ((dest @ ?t) @ text6 bytes (b + 2) z) \<and>
          length (text6 bytes (b + 2) z) \<le> 3 * (16 - (b + 2))"
        by (rule less.hyps) (use True two less.prems t in auto)
      have tx: "text6 bytes b z = ?t @ text6 bytes (b + 2) z" using True False by (subst text6.simps) auto
      have sp: "sprintf_s dest len ?t = Inr (dest @ ?t)" using t less.prems two by (auto simp: sprintf_s_def)
      have "ntop6_loop bytes len dest b z = ntop6_loop bytes len (dest @ ?t) (b + 2) z"
        using True False less.prems sp by (subst ntop6_loop.simps) auto
      with tx ih t two show ?thesis by auto
    qed
  qed
qed

text \<open>The groups behind the compressed run, read in the state \<open>bword\<close>.\<close>

lemma word_bytes_group: "word_bytes (group hi lo) = [hi, lo]"
  using unsigned_less [of hi, where 'a = nat] unsigned_less [of lo, where 'a = nat]
  by (simp add: word_bytes_def group_def)

lemma two_bytes: "b + 2 \<le> length bytes \<Longrightarrow> [bytes ! b, bytes ! (b + 1)] @ drop (b + 2) bytes = drop b bytes"
  by (simp add: Cons_nth_drop_Suc)

lemma parse_tail:
  assumes "length bytes = 16" "suffix s n"
  shows "even b \<Longrightarrow> 0 < b \<Longrightarrow> b < 16 \<Longrightarrow> length front + length tail + (16 - b) \<le> 16 \<Longrightarrow>
    pton6_loop bword (show_hex (group (bytes ! b) (bytes ! (b + 1))) @ text6 bytes (b + 2) 1 @ s) 0 front tail 0 =
    Some (join_bytes front (tail @ drop b bytes), n)"
proof (induction "16 - b" arbitrary: b tail rule: less_induct)
  case less
  let ?w = "group (bytes ! b) (bytes ! (b + 1))"
  note two = even_below_16 [OF less.prems(1,3)]
  have dr: "[bytes ! b, bytes ! (b + 1)] @ drop (b + 2) bytes = drop b bytes"
    by (rule two_bytes) (use two assms(1) in simp)
  have notfull: "length front + length tail \<noteq> 16" using less.prems(3,4) by simp
  show ?case
  proof (cases "b + 2 = 16")
    case True
    then have "text6 bytes (b + 2) 1 = ''''" "drop (b + 2) bytes = []" using assms(1) by (simp_all add: text6.simps)
    then show ?thesis
      using word_end(2) [OF assms(2) group_small notfull] dr
      by (simp add: word_digits [OF group_small] word_bytes_group)
  next
    case False
    have tx: "text6 bytes (b + 2) 1 = '':'' @ show_hex (group (bytes ! (b + 2)) (bytes ! (b + 2 + 1))) @ text6 bytes (b + 2 + 2) 1"
      using False two by (subst text6.simps) simp
    have ih: "pton6_loop bword (show_hex (group (bytes ! (b + 2)) (bytes ! (b + 2 + 1))) @ text6 bytes (b + 2 + 2) 1 @ s)
        0 front (tail @ [bytes ! b, bytes ! (b + 1)]) 0 =
      Some (join_bytes front ((tail @ [bytes ! b, bytes ! (b + 1)]) @ drop (b + 2) bytes), n)"
      by (rule less.hyps) (use less.prems False two in auto)
    show ?thesis
      unfolding word_digits [OF group_small disjI2 [OF refl]] tx
      using ih dr colon_bword [OF group_small notfull] by (simp add: word_bytes_group)
  qed
qed

text \<open>The groups before it, read in the state \<open>fword\<close>.\<close>

lemma zeros_between:
  assumes "length bytes = 16" "c \<le> d" "d \<le> 16" "\<And>i. c \<le> i \<Longrightarrow> i < d \<Longrightarrow> bytes ! i = 0"
  shows "join_bytes (take c bytes) (drop d bytes) = bytes"
proof -
  have "take c bytes @ replicate (d - c) 0 = take d bytes"
    by (rule nth_equalityI) (use assms in \<open>auto simp: nth_append min_def\<close>)
  moreover have "take d (take c bytes @ replicate (16 - c) 0) = take c bytes @ replicate (d - c) 0"
    using assms(1-3) by (simp add: min_def)
  moreover have "16 - length (drop d bytes) = d" "16 - length (take c bytes) = 16 - c"
    using assms(1-3) by simp_all
  ultimately show ?thesis by (simp only: join_bytes_def append_take_drop_id)
qed

lemma first_two: "length bytes = 16 \<Longrightarrow> take (c + 2) bytes = take c bytes @ [bytes ! c, bytes ! (c + 1)]" if "c + 2 \<le> 16"
  using that by (simp add: take_Suc_conv_app_nth numeral_2_eq_2)

text \<open>A compressed run: after the front bytes up to \<open>c\<close> and one of its two colons.\<close>

lemma parse_run:
  assumes "length bytes = 16" "suffix s n" "even c" "c < 16" "bytes ! c = 0" "bytes ! (c + 1) = 0"
    "k = c \<or> c = 0 \<and> k = 2"
  shows "pton6_loop fcolon ((if skip_zeros bytes c < 16 then '''' else '':'') @ text6 bytes (skip_zeros bytes c) 1 @ s)
    0 (take k bytes) [] 0 = Some (bytes, n)"
proof -
  let ?d = "skip_zeros bytes c"
  have d: "even ?d" "?d \<le> 16" "c + 2 \<le> ?d" "\<And>i. c + 2 \<le> i \<Longrightarrow> i < ?d \<Longrightarrow> bytes ! i = 0"
    using skip_zeros_facts [OF assms(3,4)] skip_zeros_more by auto
  have zero: "bytes ! i = 0" if "c \<le> i" "i < ?d" for i
  proof (cases "c + 2 \<le> i")
    case False
    with that(1) have "i = c \<or> i = c + 1" by arith
    with assms(5,6) show ?thesis by auto
  qed (use d(4) that in blast)
  have k: "k \<le> ?d" "\<And>i. k \<le> i \<Longrightarrow> i < ?d \<Longrightarrow> bytes ! i = 0" "k \<le> 14" "c \<le> k"
    using assms(3,4,7) d zero by (auto elim!: evenE)
  show ?thesis
  proof (cases "?d < 16")
    case True
    have tx: "text6 bytes ?d 1 = '':'' @ show_hex (group (bytes ! ?d) (bytes ! (?d + 1))) @ text6 bytes (?d + 2) 1"
      using True d(3) by (subst text6.simps) simp
    have len: "length (take k bytes) + length ([] :: byte list) + (16 - ?d) \<le> 16" using assms(1) k d by simp
    have "0 < ?d" using d(3) by simp
    from parse_tail [OF assms(1,2) d(1) this True len] zeros_between [OF assms(1) k(1) d(2) k(2)]
    show ?thesis using True by (simp add: tx colon_fcolon del: nat_norm)
  next
    case False
    then have d16: "?d = 16" using d(2) by simp
    then have tx: "text6 bytes ?d 1 = ''''" by (simp add: text6.simps)
    have front: "length (take k bytes) + length ([] :: byte list) \<noteq> 16" using assms(1) k(3) by simp
    have "drop 14 bytes = [0, 0]"
      by (rule nth_equalityI) (use assms(1) zero d16 d(3) k(4) in \<open>auto simp: less_Suc_eq numeral_2_eq_2\<close>)
    moreover have "word_bytes 0 = [0, 0]" by (simp add: word_bytes_def)
    moreover have "join_bytes (take k bytes) (drop 14 bytes) = bytes"
      using k d16 by (intro zeros_between [OF assms(1)]) auto
    ultimately show ?thesis
      using False tx word_end(2) [OF assms(2) _ front, of 0] by (simp add: colon_fcolon del: nat_norm)
  qed
qed

lemma parse_front:
  assumes "length bytes = 16" "suffix s n"
  shows "even c \<Longrightarrow> c + 2 \<le> 16 \<Longrightarrow>
    pton6_loop fword (text6 bytes (c + 2) 0 @ s) (group (bytes ! c) (bytes ! (c + 1))) (take c bytes) [] 0 = Some (bytes, n)"
proof (induction "16 - c" arbitrary: c rule: less_induct)
  case less
  let ?w = "group (bytes ! c) (bytes ! (c + 1))" and ?c = "c + 2"
  have front: "length (take c bytes) \<noteq> 16" using less.prems(2) assms(1) by simp
  note push = first_two [OF less.prems(2) assms(1)]
  show ?case
  proof (cases "?c = 16")
    case True
    then have "text6 bytes ?c 0 = ''''" by (simp add: text6.simps)
    moreover have "join_bytes (take 16 bytes) [] = bytes" using assms(1) by (simp add: join_bytes_def)
    ultimately show ?thesis
      using word_end(1) [OF assms(2) group_small front] push True by (simp add: word_bytes_group)
  next
    case False
    with less.prems have c: "even ?c" "?c < 16" by auto
    show ?thesis
    proof (cases "bytes ! ?c = 0 \<and> bytes ! (?c + 1) = 0")
      case True
      then have tx: "text6 bytes ?c 0 =
          '':'' @ (if skip_zeros bytes ?c < 16 then '''' else '':'') @ text6 bytes (skip_zeros bytes ?c) 1"
        using c by (subst text6.simps) simp
      show ?thesis
        using parse_run [OF assms c(1,2), of ?c] True push front
        by (simp add: tx colon_fword [OF group_small] word_bytes_group del: nat_norm)
    next
      case False
      then have tx: "text6 bytes ?c 0 = '':'' @ show_hex (group (bytes ! ?c) (bytes ! (?c + 1))) @ text6 bytes (?c + 2) 0"
        using c by (subst text6.simps) auto
      have ih: "pton6_loop fword (text6 bytes (?c + 2) 0 @ s) (group (bytes ! ?c) (bytes ! (?c + 1))) (take ?c bytes) [] 0 =
          Some (bytes, n)"
        by (rule less.hyps) (use c even_below_16 [OF c] in auto)
      show ?thesis
        using ih push front
        by (simp add: tx colon_fword [OF group_small] word_bytes_group digit_fcolon word_digits [OF group_small] del: nat_norm)
    qed
  qed
qed

lemma parse_text6:
  assumes "length bytes = 16" "suffix s n"
  shows "inet_pton6 (text6 bytes 0 0 @ s) = Some (bytes, n)"
proof (cases "bytes ! 0 = 0 \<and> bytes ! (0 + 1) = 0")
  case True
  then have tx: "text6 bytes 0 0 =
      '':'' @ (if skip_zeros bytes 0 < 16 then '''' else '':'') @ text6 bytes (skip_zeros bytes 0) 1"
    by (subst text6.simps) simp
  have "word_bytes 0 = take 2 bytes"
    using True assms(1) first_two [of 0 bytes] by (simp add: word_bytes_def numeral_2_eq_2)
  then show ?thesis
    using parse_run [OF assms, of 0 2] True by (simp add: inet_pton6_def tx colon_fword del: nat_norm)
next
  case False
  then have tx: "text6 bytes 0 0 = show_hex (group (bytes ! 0) (bytes ! (0 + 1))) @ text6 bytes 2 0"
    by (subst text6.simps) (auto simp: numeral_2_eq_2)
  show ?thesis
    using parse_front [OF assms, of 0] by (simp add: inet_pton6_def tx word_digits [OF group_small] del: nat_norm)
qed

lemma no_slash: "CHR ''/'' \<notin> set (show_nat n)" "CHR ''/'' \<notin> set (show_hex n)"
proof -
  have c: "code CHR ''/'' = 47" by (simp add: code_def)
  have dec: "CHR ''/'' \<noteq> char_of (48 + d)" if "d < 10" for d :: nat
    using code_char [of "48 + d"] c that by auto
  have hex: "CHR ''/'' \<noteq> hex_digit d" if "d < 16" for d
    using code_char [of "48 + d"] code_char [of "87 + d"] c that by (auto simp: hex_digit_def)
  show "CHR ''/'' \<notin> set (show_nat n)"
  proof (induction n rule: show_nat.induct)
    case (1 n)
    then show ?case using dec [of n] dec [of "n mod 10"] by (subst show_nat.simps) simp
  qed
  show "CHR ''/'' \<notin> set (show_hex n)"
  proof (induction n rule: show_hex.induct)
    case (1 n)
    then show ?case using hex [of n] hex [of "n mod 16"] by (subst show_hex.simps) simp
  qed
qed

lemma text6_no_slash: "CHR ''/'' \<notin> set (text6 bytes b z)"
proof (induction bytes b z rule: text6.induct)
  case (1 bytes b z)
  then show ?case by (subst text6.simps) (auto simp: no_slash)
qed

lemma inet6_text:
  assumes "length bytes = 16" "scope_id \<le> 65535" "64 \<le> len"
  shows "\<exists>text. inet_ntop6 bytes len scope_id = Inr text \<and> inet_pton6 text = Some (bytes, scope_id) \<and>
    CHR ''/'' \<notin> set text"
proof -
  have t: "ntop6_loop bytes len [] 0 0 = Inr (text6 bytes 0 0)" "length (text6 bytes 0 0) \<le> 48"
    using ntop6_loop_text [of "[]" 0 len bytes 0] assms(3) by simp_all
  have digits: "length (show_nat scope_id) \<le> 5"
    using show_nat_length [of scope_id 4] assms(2) by simp
  let ?s = "if scope_id = 0 then [] else ''%'' @ show_nat scope_id"
  have "suffix ?s scope_id" using assms(2) by (simp add: suffix_def)
  from parse_text6 [OF assms(1) this] show ?thesis
    using t digits assms(3) no_slash text6_no_slash by (auto simp: inet_ntop6_def sprintf_s_def)
qed

text \<open>
  Every IPv6 address comes back from its text, with its scope: the printer's compression
  of a run of zero groups is undone by the parser.
\<close>

theorem inet6_round_trip:
  assumes "length bytes = 16" "scope_id \<le> 65535" "64 \<le> len"
  shows "\<exists>text. inet_ntop6 bytes len scope_id = Inr text \<and> inet_pton6 text = Some (bytes, scope_id)"
  using inet6_text [OF assms] by blast

lemma inet6_round_trip_witness:
  "\<exists>text. inet_ntop6 ([0xFE, 0x80] @ replicate 13 0 @ [1]) 64 3 = Inr text \<and>
    inet_pton6 text = Some ([0xFE, 0x80] @ replicate 13 0 @ [1], 3)"
  by (rule inet6_round_trip) simp_all

text \<open>
  The parser does not ask for eight groups: the text of a single group is accepted, and
  the other fourteen bytes are zero.
\<close>

theorem inet6_accepts_missing_groups:
  assumes "n \<le> 65535"
  shows "inet_pton6 (show_hex n) = Some (word_bytes n @ replicate 14 0, 0)"
  using word_digits [OF assms, of fword "[]" "[]" "[]" 0] nul_word(1) [OF assms, of "[]" "[]" 0]
  by (simp add: inet_pton6_def join_bytes_def word_bytes_def numeral_2_eq_2 [symmetric])

lemma inet6_accepts_missing_groups_witness:
  "inet_pton6 (show_hex 0x20) = Some (word_bytes 0x20 @ replicate 14 0, 0)"
  by (rule inet6_accepts_missing_groups) simp

subsection \<open>The text of an IPv4 address\<close>

lemma show_nat_decimal: "list_all decimal (show_nat n) \<and> show_nat n \<noteq> []"
proof (induction n rule: show_nat.induct)
  case (1 n)
  have d: "decimal (char_of (48 + d))" if "d < 10" for d :: nat
    using that by (simp add: decimal_def code_char)
  show ?case
  proof (cases "n < 10")
    case True
    then show ?thesis using d [of n] by (subst (1 2) show_nat.simps) simp
  next
    case False
    then show ?thesis using 1 d [of "n mod 10"] by (subst (1 2) show_nat.simps) simp
  qed
qed

lemma decimal_value_snoc: "decimal_value (ds @ [c]) = 10 * decimal_value ds + (code c - 48)"
  by (simp add: decimal_value_def)

lemma decimal_value_show: "decimal_value (show_nat n) = n"
proof (induction n rule: show_nat.induct)
  case (1 n)
  show ?case
  proof (cases "n < 10")
    case True
    then show ?thesis by (subst show_nat.simps) (simp add: decimal_value_def code_char)
  next
    case False
    then have "decimal_value (show_nat n) = 10 * decimal_value (show_nat (n div 10)) + n mod 10"
      by (subst show_nat.simps) (simp add: decimal_value_snoc code_char)
    with False 1 show ?thesis by simp
  qed
qed

text \<open>What may follow a number without becoming a part of it.\<close>

definition ends_number :: "string \<Rightarrow> bool" where
  "ends_number s \<longleftrightarrow> s = [] \<or> \<not> decimal (hd s)"

lemma scan_number:
  assumes "ends_number rest" "n < 2 ^ 32"
  shows "scan_u (show_nat n @ rest) = Inr (Some (n, rest))"
proof -
  obtain d ds where d: "show_nat n = d # ds" "decimal d" using show_nat_decimal [of n] by (cases "show_nat n") auto
  have all: "list_all decimal (show_nat n)" using show_nat_decimal by blast
  have notblank: "\<not> blank d" "d \<noteq> CHR ''-''" "d \<noteq> CHR ''+''" using d(2) by (auto simp: decimal_def blank_def code_def)
  have tw: "takeWhile decimal (show_nat n @ rest) = show_nat n" "dropWhile decimal (show_nat n @ rest) = rest"
    using all assms(1) by (cases rest; auto simp: ends_number_def list_all_iff)+
  then show ?thesis
    using d(1) notblank assms(2) decimal_value_show [of n] by (simp add: scan_u_def Let_def)
qed

lemma scan_dot: "n < 2 ^ 32 \<Longrightarrow> scan_dotted (Suc k) (show_nat n @ CHR ''.'' # s) = ebind (scan_dotted k s) (\<lambda>vs. Inr (n # vs))"
  using scan_number [of "CHR ''.'' # s" n] by (simp add: ends_number_def decimal_def code_def)

lemma scan_last: "n < 2 ^ 32 \<Longrightarrow> ends_number s \<Longrightarrow> scan_dotted (Suc 0) (show_nat n @ s) = Inr [n]"
  using scan_number [of s n] by (auto split: list.split)

lemma inet4_text:
  assumes "length bytes = 4" "16 \<le> len" "ends_number rest"
  shows "\<exists>text. inet_ntop4 bytes len = Inr text \<and> inet_pton4 (text @ rest) = Inr (Some bytes) \<and>
    CHR ''/'' \<notin> set text"
proof -
  obtain a b c d where bytes: "bytes = [a, b, c, d]"
    using assms(1) by (auto simp: numeral_eq_Suc length_Suc_conv)
  have lt: "unat x < 256" for x :: byte using unsigned_less [of x, where 'a = nat] by simp
  have small: "unat x < 2 ^ 32" for x :: byte using lt [of x] by simp
  have digits: "length (show_nat (unat x)) \<le> 3" for x :: byte
    using show_nat_length [of "unat x" 2] lt [of x] by simp
  let ?text = "show_nat (unat a) @ ''.'' @ show_nat (unat b) @ ''.'' @ show_nat (unat c) @ ''.'' @ show_nat (unat d)"
  have "length ?text < len" using digits [of a] digits [of b] digits [of c] digits [of d] assms(2) by simp
  then have "inet_ntop4 bytes len = Inr ?text" by (simp add: inet_ntop4_def bytes sprintf_s_def)
  moreover have "scan_dotted 4 (?text @ rest) = Inr (map unat [a, b, c, d])"
  proof -
    have four: "(4 :: nat) = Suc (Suc (Suc (Suc 0)))" by simp
    show ?thesis unfolding four using assms(3) small by (simp add: scan_dot scan_last del: scan_dotted.simps)
  qed
  then have "inet_pton4 (?text @ rest) = Inr (Some bytes)"
    using lt [of a] lt [of b] lt [of c] lt [of d] by (simp add: inet_pton4_def bytes not_less)
  moreover have "CHR ''/'' \<notin> set ?text" by (simp add: no_slash)
  ultimately show ?thesis by blast
qed

text \<open>
  Every IPv4 address comes back from its text; whatever follows the text and does not
  continue its last number is ignored, so \<open>1.2.3.4xyz\<close> is an address.
\<close>

theorem inet4_round_trip:
  assumes "length bytes = 4" "16 \<le> len" "ends_number rest"
  shows "\<exists>text. inet_ntop4 bytes len = Inr text \<and> inet_pton4 (text @ rest) = Inr (Some bytes)"
  using inet4_text [OF assms] by blast

lemma inet4_round_trip_witness:
  "\<exists>text. inet_ntop4 [127, 0, 0, 1] 16 = Inr text \<and> inet_pton4 (text @ ''xyz'') = Inr (Some [127, 0, 0, 1])"
  by (rule inet4_round_trip) (simp_all add: ends_number_def decimal_def code_def)

end
