(* ===== verification/Subnet_Properties.thy ===== *)
theory Subnet_Properties
  imports Subnet Inet_Properties
begin

text \<open>
  Addresses as numbers: what the orders, the iterators, the masks and the networks compute
  is stated for the value of an address (32 bits or 128) and the block of values that
  share its leading bits.
\<close>

subsection \<open>Blocks of numbers\<close>

definition block :: "nat \<Rightarrow> nat \<Rightarrow> nat \<Rightarrow> nat set" where
  "block w k x = {y. y < 2 ^ w \<and> y div 2 ^ k = x div 2 ^ k}"

lemma block_coarser: "k \<le> l \<Longrightarrow> x div 2 ^ k = y div 2 ^ k \<Longrightarrow> x div 2 ^ l = y div (2 ^ l :: nat)"
  by (metis div_mult2_eq le_add_diff_inverse power_add)

lemma block_mono: "k \<le> l \<Longrightarrow> x div 2 ^ l = X div 2 ^ l \<Longrightarrow> block w k x \<subseteq> block w l X"
proof
  fix y assume kl: "k \<le> l" and x: "x div 2 ^ l = X div 2 ^ l" and "y \<in> block w k x"
  then have "y < 2 ^ w" "y div 2 ^ k = x div 2 ^ k" by (simp_all add: block_def)
  moreover from this(2) have "y div 2 ^ l = x div 2 ^ l" by (rule block_coarser [OF kl])
  ultimately show "y \<in> block w l X" using x by (simp add: block_def)
qed

lemma block_ends:
  assumes "x < 2 ^ w" "k \<le> w"
  shows "x div 2 ^ k * 2 ^ k \<in> block w k x" "x div 2 ^ k * 2 ^ k + (2 ^ k - 1) \<in> block w k x"
proof -
  have "x div 2 ^ k < 2 ^ (w - k)"
    using assms by (simp add: less_mult_imp_div_less flip: power_add)
  then have "(x div 2 ^ k + 1) * 2 ^ k \<le> 2 ^ (w - k) * 2 ^ k"
    by (intro mult_le_mono1) simp
  then have "(x div 2 ^ k + 1) * 2 ^ k \<le> 2 ^ w"
    using assms(2) by (simp flip: power_add)
  moreover have "0 < (2 :: nat) ^ k" by simp
  ultimately have less: "x div 2 ^ k * 2 ^ k + (2 ^ k - 1) < 2 ^ w"
    unfolding distrib_right by arith
  from le_less_trans [OF le_add1 this] show "x div 2 ^ k * 2 ^ k \<in> block w k x"
    unfolding block_def by (simp del: One_nat_def)
  have "(x div 2 ^ k * 2 ^ k + r) div 2 ^ k = x div 2 ^ k" if "r < 2 ^ k" for r
    using that by simp
  from this [of "2 ^ k - 1"] less show "x div 2 ^ k * 2 ^ k + (2 ^ k - 1) \<in> block w k x"
    unfolding block_def by (simp del: One_nat_def)
qed

lemma block_psubset:
  assumes "x < 2 ^ w" "X < 2 ^ w" "k \<le> w" "l \<le> w"
  shows "block w k x \<subset> block w l X \<longleftrightarrow> k < l \<and> x div 2 ^ l = X div 2 ^ l"
proof
  assume sub: "block w k x \<subset> block w l X"
  have x: "x \<in> block w k x" using assms by (simp add: block_def)
  then have eq: "x div 2 ^ l = X div 2 ^ l" using sub by (auto simp: block_def)
  have "k < l"
  proof (rule ccontr)
    assume "\<not> k < l"
    then have "block w l X \<subseteq> block w k x" using eq block_coarser [of l k X x] by (intro block_mono) auto
    with sub show False by blast
  qed
  with eq show "k < l \<and> x div 2 ^ l = X div 2 ^ l" by simp
next
  assume as: "k < l \<and> x div 2 ^ l = X div 2 ^ l"
  let ?b = "X div 2 ^ l * 2 ^ l"
  have two: "?b \<in> block w l X" "?b + (2 ^ l - 1) \<in> block w l X" using block_ends assms by blast+
  have split: "(2 :: nat) ^ l = 2 ^ k * 2 ^ (l - k)" using as by (simp flip: power_add)
  have b: "?b = 2 ^ k * (X div 2 ^ l * 2 ^ (l - k))" by (simp add: split)
  have "?b div 2 ^ k = X div 2 ^ l * 2 ^ (l - k)" unfolding b by simp
  moreover have "(?b + (2 ^ l - 1)) div 2 ^ k = X div 2 ^ l * 2 ^ (l - k) + (2 ^ l - 1) div 2 ^ k"
    unfolding b by (rule div_mult_self4) simp
  moreover have "0 < (2 ^ l - 1) div (2 :: nat) ^ k"
  proof -
    have "(2 :: nat) ^ k < 2 ^ l" using as by simp
    then have "(2 :: nat) ^ k \<le> 2 ^ l - 1" by linarith
    then show ?thesis by (simp add: div_greater_zero_iff)
  qed
  ultimately have "?b div 2 ^ k \<noteq> (?b + (2 ^ l - 1)) div 2 ^ k" by simp
  then have "?b \<notin> block w k x \<or> ?b + (2 ^ l - 1) \<notin> block w k x" by (auto simp: block_def)
  moreover have "block w k x \<subseteq> block w l X" using as block_mono by simp
  ultimately show "block w k x \<subset> block w l X" using two by blast
qed

subsection \<open>IPv4\<close>

abbreviation value4 :: "address_v4 \<Rightarrow> nat" where "value4 a \<equiv> unat (v4_to_uint a)"

lemma value4_less [simp]: "value4 a < 2 ^ 32"
  using unsigned_less [of "v4_to_uint a", where 'a = nat] by simp

lemma value4_bound [simp]: "value4 a < 4294967296"
  using value4_less [of a] by simp

lemma value4_eq: "value4 a = value4 b \<longleftrightarrow> a = b"
  by (metis v4_uint_eq word_unat_eq_iff)

lemma value4_onto: "n < 2 ^ 32 \<Longrightarrow> \<exists>a. value4 a = n"
  by (rule exI [of _ "v4_of_uint (word_of_nat n)"]) (simp add: unsigned_of_nat take_bit_eq_mod)

lemma numeral_eq_mask_u32: "0xFFFFFFFF = (- 1 :: u32)"
  by simp

lemma netmask4_uint:
  assumes "prefix_length4 n \<le> 32"
  shows "v4_to_uint (netmask4 n) = not (mask (32 - prefix_length4 n))"
proof (cases "prefix_length4 n = 0")
  case True
  have "not (mask 32) = (0 :: u32)" by (rule bit_word_eqI) (simp add: bit_simps)
  with True show ?thesis by (simp add: netmask4_def)
next
  case False
  have "push_bit k 0xFFFFFFFF = (not (mask k) :: u32)" for k
    by (rule bit_word_eqI) (auto simp: bit_simps numeral_eq_mask_u32)
  with False show ?thesis by (simp add: netmask4_def)
qed

lemma mask_word: "and x (not (mask k)) = push_bit k (drop_bit k (x :: u32))"
  by (rule bit_word_eqI) (auto simp: bit_simps)

lemma value_network4:
  assumes "prefix_length4 n \<le> 32"
  shows "value4 (network4 n) = value4 (address4 n) div 2 ^ (32 - prefix_length4 n) * 2 ^ (32 - prefix_length4 n)"
proof -
  let ?v = "value4 (address4 n)" and ?k = "32 - prefix_length4 n"
  have "?v div 2 ^ ?k * 2 ^ ?k \<le> ?v" by simp
  then have less: "?v div 2 ^ ?k * 2 ^ ?k < 2 ^ 32" using value4_less [of "address4 n"] by (rule le_less_trans)
  have tb: "take_bit 32 ?v = ?v" by (simp add: take_bit_nat_eq_self_iff)
  have "value4 (network4 n) = take_bit 32 (push_bit ?k (drop_bit ?k ?v))"
    unfolding network4_def v4_uint netmask4_uint [OF assms] mask_word
    by (simp only: unsigned_push_bit_eq unsigned_drop_bit_eq) (simp add: tb)
  with less show ?thesis
    by (simp add: take_bit_eq_mod push_bit_eq_mult drop_bit_eq_div)
qed

text \<open>The addresses that agree with the network's in the leading bits.\<close>

definition members4 :: "network_v4 \<Rightarrow> address_v4 set" where
  "members4 n = {a. value4 a div 2 ^ (32 - prefix_length4 n) = value4 (address4 n) div 2 ^ (32 - prefix_length4 n)}"

lemma value_members4: "value4 ` members4 n = block 32 (32 - prefix_length4 n) (value4 (address4 n))"
proof -
  have "\<exists>a. n = value4 a" if "n < 2 ^ 32" for n using value4_onto [OF that] by blast
  then show ?thesis by (auto simp: members4_def block_def image_iff)
qed

lemma inj_value4: "inj value4"
  by (simp add: inj_def value4_eq)

lemma psubset_members4:
  "members4 n \<subset> members4 m \<longleftrightarrow> block 32 (32 - prefix_length4 n) (value4 (address4 n))
     \<subset> block 32 (32 - prefix_length4 m) (value4 (address4 m))"
  by (simp add: psubset_eq inj_image_eq_iff [OF inj_value4] inj_image_subset_iff [OF inj_value4]
      flip: value_members4)

lemma subnet4:
  assumes "prefix_length4 n \<le> 32" "prefix_length4 m \<le> 32"
  shows "is_subnet_of4 n m = Inr (members4 n \<subset> members4 m)"
proof (cases "prefix_length4 m \<ge> prefix_length4 n")
  case True
  then have "\<not> members4 n \<subset> members4 m"
    unfolding psubset_members4 by (subst block_psubset) auto
  with True show ?thesis by (simp add: is_subnet_of4_def)
next
  case False
  let ?k = "32 - prefix_length4 m"
  let ?me = "\<lparr>address4 = address4 n, prefix_length4 = prefix_length4 m\<rparr>"
  have "network4 m = network4 ?me \<longleftrightarrow> value4 (network4 m) = value4 (network4 ?me)"
    by (simp only: value4_eq)
  also have "\<dots> \<longleftrightarrow> value4 (address4 m) div 2 ^ ?k = value4 (address4 n) div 2 ^ ?k"
    using assms by (simp add: value_network4)
  also have "\<dots> \<longleftrightarrow> members4 n \<subset> members4 m"
    unfolding psubset_members4 using False assms by (subst block_psubset) auto
  finally show ?thesis
    using False assms by (auto simp: is_subnet_of4_def net4_def canonical4_def)
qed

lemma unat_mask: "k \<le> LENGTH('a) \<Longrightarrow> unat (mask k :: 'a::len word) = 2 ^ k - 1"
  unfolding take_bit_minus_one_eq_mask [symmetric, where 'a = "'a word"] unsigned_take_bit_eq unsigned_minus_1_eq_mask
  by (simp only: take_bit_of_mask min_absorb2) (simp add: mask_eq_exp_minus_1)

lemma value_broadcast4:
  assumes "prefix_length4 n \<le> 32"
  shows "value4 (broadcast4 n) = value4 (network4 n) + (2 ^ (32 - prefix_length4 n) - 1)"
proof -
  let ?k = "32 - prefix_length4 n" and ?x = "drop_bit (32 - prefix_length4 n) (v4_to_uint (address4 n))"
  have "v4_to_uint (broadcast4 n) = or (push_bit ?k ?x) (mask ?k)"
    unfolding broadcast4_def network4_def v4_uint netmask4_uint [OF assms] mask_word numeral_eq_mask_u32
    by (rule bit_word_eqI) (auto simp: bit_simps)
  also have "\<dots> = push_bit ?k ?x + mask ?k"
    by (rule disjunctive_add_eq_or [symmetric]) (rule bit_word_eqI, auto simp: bit_simps)
  finally have "v4_to_uint (broadcast4 n) = v4_to_uint (network4 n) + mask ?k"
    by (simp add: network4_def netmask4_uint [OF assms] mask_word)
  moreover have "unat (mask ?k :: u32) = 2 ^ ?k - 1"
    using unat_mask [of ?k, where 'a = 32] by simp
  moreover have "value4 (network4 n) + (2 ^ ?k - 1) < 2 ^ 32"
    using block_ends(2) [of "value4 (address4 n)" 32 ?k] value4_less
    by (simp add: value_network4 assms block_def del: One_nat_def)
  ultimately show ?thesis by (simp add: unat_add_lem [THEN iffD1])
qed

text \<open>The mask constructor accepts the 33 contiguous masks and no other.\<close>

definition prefix_byte :: "nat \<Rightarrow> byte" where
  "prefix_byte p = not (mask (8 - p))"

lemma prefix_byte_values:
  "prefix_byte 0 = 0" "prefix_byte 1 = 128" "prefix_byte 2 = 192" "prefix_byte 3 = 224" "prefix_byte 4 = 240"
  "prefix_byte 5 = 248" "prefix_byte 6 = 252" "prefix_byte 7 = 254" "prefix_byte 8 = 255"
  unfolding prefix_byte_def by (simp_all add: mask_eq_exp_minus_1)

lemma below_8: "n < 8 \<longleftrightarrow> n = 0 \<or> n = 1 \<or> n = 2 \<or> n = 3 \<or> n = 4 \<or> n = 5 \<or> n = 6 \<or> n = (7 :: nat)"
  by linarith

lemma fall_through_labels:
  "fall_through [254, 252, 248, 240, 224, 192, 128] b = Some n \<longleftrightarrow> n < 8 \<and> b = prefix_byte n"
proof -
  have "fall_through [254, 252, 248, 240, 224, 192, 128] b = Some n \<longleftrightarrow>
    n = 0 \<and> b = 0 \<or> n = 1 \<and> b = 128 \<or> n = 2 \<and> b = 192 \<or> n = 3 \<and> b = 224 \<or>
    n = 4 \<and> b = 240 \<or> n = 5 \<and> b = 248 \<or> n = 6 \<and> b = 252 \<or> n = 7 \<and> b = 254"
  proof (cases "b \<in> {254, 252, 248, 240, 224, 192, 128, 0}")
    case True
    then consider "b = 254" | "b = 252" | "b = 248" | "b = 240" | "b = 224" | "b = 192" | "b = 128" | "b = 0"
      by blast
    then show ?thesis by cases auto
  next
    case False
    then show ?thesis by simp
  qed
  then show ?thesis
    by (simp only: below_8 conj_disj_distribR prefix_byte_values cong: conj_cong)
qed

fun prefix_bytes :: "nat \<Rightarrow> nat \<Rightarrow> byte list" where
  "prefix_bytes 0 p = []"
| "prefix_bytes (Suc n) p = prefix_byte (min 8 p) # prefix_bytes n (p - 8)"

lemma prefix_byte_full: "n \<le> 8 \<Longrightarrow> prefix_byte n = 255 \<longleftrightarrow> n = 8"
  using below_8 [of n] by (cases "n = 8") (auto simp: prefix_byte_values prefix_byte_values(2) [simplified])

lemma prefix_bytes_0: "bs = prefix_bytes (length bs) 0 \<longleftrightarrow> (\<forall>b \<in> set bs. b = 0)"
proof -
  have "prefix_byte 0 = 0" unfolding prefix_byte_def by (rule bit_word_eqI) (simp add: bit_simps)
  then show ?thesis by (induction bs) simp_all
qed

lemma mask_loop_finished: "mask_loop bs True p = Inr r \<longleftrightarrow> (\<forall>b \<in> set bs. b = 0) \<and> r = p"
  by (induction bs) auto

lemma mask_loop_iff:
  "mask_loop bs False q = Inr r \<longleftrightarrow> (\<exists>p \<le> 8 * length bs. r = q + p \<and> bs = prefix_bytes (length bs) p)"
proof (induction bs arbitrary: q)
  case (Cons b bs)
  let ?n = "length bs"
  have full: "(\<exists>p \<le> 8 * ?n + 8. r = q + p \<and> 255 = prefix_byte (min 8 p) \<and> bs = prefix_bytes ?n (p - 8)) \<longleftrightarrow>
      (\<exists>p \<le> 8 * ?n. r = q + 8 + p \<and> bs = prefix_bytes ?n p)" (is "?l = ?r")
  proof
    assume ?l
    then obtain p where p: "p \<le> 8 * ?n + 8" "r = q + p" "255 = prefix_byte (min 8 p)" "bs = prefix_bytes ?n (p - 8)" by blast
    then have "8 \<le> p" using prefix_byte_full [of "min 8 p"] by simp
    with p show ?r by (intro exI [of _ "p - 8"]) simp
  next
    assume ?r
    then obtain p where "p \<le> 8 * ?n" "r = q + 8 + p" "bs = prefix_bytes ?n p" by blast
    then show ?l using prefix_byte_full [of 8] by (intro exI [of _ "p + 8"]) simp
  qed
  show ?case
  proof (cases "b = 255")
    case True
    with full Cons.IH [of "q + 8"] show ?thesis by auto
  next
    case False
    have "mask_loop (b # bs) False q = Inr r \<longleftrightarrow>
        (\<exists>p < 8. b = prefix_byte p \<and> (\<forall>b \<in> set bs. b = 0) \<and> r = q + p)"
    proof -
      have "mask_loop (b # bs) False q = Inr r \<longleftrightarrow>
          (\<exists>p. fall_through [254, 252, 248, 240, 224, 192, 128] b = Some p \<and> (\<forall>b \<in> set bs. b = 0) \<and> r = q + p)"
        using False by (cases "fall_through [254, 252, 248, 240, 224, 192, 128] b")
          (auto simp: mask_loop_finished simp del: fall_through.simps)
      then show ?thesis unfolding fall_through_labels by blast
    qed
    also have "\<dots> \<longleftrightarrow> (\<exists>p \<le> 8 * length (b # bs). r = q + p \<and> b # bs = prefix_bytes (length (b # bs)) p)"
    proof
      assume "\<exists>p < 8. b = prefix_byte p \<and> (\<forall>b \<in> set bs. b = 0) \<and> r = q + p"
      then obtain p where "p < 8" "b = prefix_byte p" "\<forall>b \<in> set bs. b = 0" "r = q + p" by blast
      then show "\<exists>p \<le> 8 * length (b # bs). r = q + p \<and> b # bs = prefix_bytes (length (b # bs)) p"
        by (intro exI [of _ p]) (simp add: min_def prefix_bytes_0)
    next
      assume "\<exists>p \<le> 8 * length (b # bs). r = q + p \<and> b # bs = prefix_bytes (length (b # bs)) p"
      then obtain p where p: "r = q + p" "b = prefix_byte (min 8 p)" "bs = prefix_bytes ?n (p - 8)" by auto
      with False prefix_byte_full [of "min 8 p"] have "p < 8" by (auto simp: min_def split: if_splits)
      with p show "\<exists>p < 8. b = prefix_byte p \<and> (\<forall>b \<in> set bs. b = 0) \<and> r = q + p"
        by (intro exI [of _ p]) (simp add: min_def flip: prefix_bytes_0)
    qed
    finally show ?thesis .
  qed
qed auto

lemma v4_bytes_of_uint:
  "v4_to_bytes (v4_of_uint w) = [ucast (drop_bit 24 w), ucast (drop_bit 16 w), ucast (drop_bit 8 w), ucast w]"
  by (simp add: v4_to_bytes_def v4_of_uint_def host_to_network_long_def memory_of_word_at)

lemma netmask_bytes:
  assumes "prefix_length4 n \<le> 32"
  shows "v4_to_bytes (netmask4 n) = prefix_bytes 4 (prefix_length4 n)"
proof -
  have "netmask4 n = v4_of_uint (not (mask (32 - prefix_length4 n)))"
    by (metis assms netmask4_uint v4_uint(2))
  then show ?thesis using assms
    by (auto simp: v4_bytes_of_uint numeral_eq_Suc prefix_byte_def intro!: bit_word_eqI simp: bit_simps)
qed

lemma v4_bytes_eq: "v4_to_bytes a = v4_to_bytes b \<longleftrightarrow> a = b"
  by (metis address_v4.expand v4_to_bytes_def word_at_memory_of)

lemma mask_accepted:
  "net4_of_mask addr m = Inr n \<longleftrightarrow> prefix_length4 n \<le> 32 \<and> address4 n = addr \<and> m = netmask4 n"
proof -
  have len: "length (v4_to_bytes m) = 4" by (simp add: v4_to_bytes_def)
  have "net4_of_mask addr m = Inr n \<longleftrightarrow>
      address4 n = addr \<and> mask_loop (v4_to_bytes m) False 0 = Inr (prefix_length4 n)"
    by (cases n) (auto simp: net4_of_mask_def ebind_eq_Inr_iff)
  also have "\<dots> \<longleftrightarrow> address4 n = addr \<and> prefix_length4 n \<le> 32 \<and> v4_to_bytes m = prefix_bytes 4 (prefix_length4 n)"
    unfolding mask_loop_iff len by auto
  also have "\<dots> \<longleftrightarrow> prefix_length4 n \<le> 32 \<and> address4 n = addr \<and> m = netmask4 n"
    using netmask_bytes [of n] v4_bytes_eq [of m "netmask4 n"] by auto
  finally show ?thesis .
qed

subsection \<open>IPv6\<close>

fun bytes_value :: "byte list \<Rightarrow> nat" where
  "bytes_value [] = 0"
| "bytes_value (b # bs) = unat b * 256 ^ length bs + bytes_value bs"

lemma byte_less [simp]: "unat (b :: byte) < 256"
  using unsigned_less [of b, where 'a = nat] by simp

lemma byte_le: "unat (b :: byte) \<le> 255"
  using byte_less [of b] by linarith

lemma bytes_value_less: "bytes_value bs < 256 ^ length bs"
proof (induction bs)
  case (Cons b bs)
  have "256 ^ length (b # bs) = 256 * (256 :: nat) ^ length bs" by simp
  with Cons mult_le_mono1 [OF byte_le [of b], of "256 ^ length bs"] show ?case
    unfolding bytes_value.simps by linarith
qed simp

lemma bytes_value_append: "bytes_value (xs @ ys) = bytes_value xs * 256 ^ length ys + bytes_value ys"
  by (induction xs) (simp_all add: power_add algebra_simps)

text \<open>Two numerals with the same number of digits, by their first digit and the rest.\<close>

lemma digits_cases:
  assumes "r < B" "s < (B :: nat)"
  shows "a * B + r < b * B + s \<longleftrightarrow> a < b \<or> a = b \<and> r < s"
    "a * B + r = b * B + s \<longleftrightarrow> a = b \<and> r = s"
proof -
  have less: "c * B + t < d * B + u" if "c < d" "t < B" for c d t u
  proof -
    have "(c + 1) * B \<le> d * B" using that by (intro mult_le_mono1) simp
    then show ?thesis using that by simp
  qed
  show "a * B + r < b * B + s \<longleftrightarrow> a < b \<or> a = b \<and> r < s"
    "a * B + r = b * B + s \<longleftrightarrow> a = b \<and> r = s"
    using less [of a b r s] less [of b a s r] assms by (cases a b rule: linorder_cases; auto)+
qed

lemma memcmp_value:
  "length xs = length ys \<Longrightarrow>
   (memcmp xs ys < 0 \<longleftrightarrow> bytes_value xs < bytes_value ys) \<and> (memcmp xs ys > 0 \<longleftrightarrow> bytes_value ys < bytes_value xs)"
proof (induction xs ys rule: memcmp.induct)
  case (1 x xs y ys)
  have "bytes_value xs < 256 ^ length ys" "bytes_value ys < 256 ^ length ys"
    using bytes_value_less [of xs] bytes_value_less [of ys] 1 by simp_all
  note split = digits_cases(1) [OF this, of "unat x" "unat y"] digits_cases(1) [OF this(2, 1), of "unat y" "unat x"]
  from 1 split show ?case
    by (auto simp: word_less_nat_alt word_unat_eq_iff)
qed auto

lemma bytes_value_eq: "length xs = length ys \<Longrightarrow> bytes_value xs = bytes_value ys \<longleftrightarrow> xs = ys"
proof (induction xs ys rule: list_induct2')
  case (4 x xs y ys)
  then have "bytes_value xs < 256 ^ length ys" "bytes_value ys < 256 ^ length ys"
    using bytes_value_less [of xs] bytes_value_less [of ys] by simp_all
  from 4 digits_cases(2) [OF this, of "unat x" "unat y"] show ?case
    by (auto simp: word_unat_eq_iff)
qed auto

lemma bytes_value_onto: "n < 256 ^ k \<Longrightarrow> \<exists>bs. length bs = k \<and> bytes_value bs = n"
proof (induction k arbitrary: n)
  case (Suc k)
  obtain bs where bs: "length bs = k" "bytes_value bs = n mod 256 ^ k" using Suc.IH [of "n mod 256 ^ k"] by auto
  have "n div 256 ^ k < 256" using Suc.prems by (simp add: less_mult_imp_div_less)
  then have "unat (word_of_nat (n div 256 ^ k) :: byte) = n div 256 ^ k"
    by (simp add: unsigned_of_nat take_bit_eq_mod)
  with bs have "bytes_value (word_of_nat (n div 256 ^ k) # bs) = n" by (simp only: bytes_value.simps div_mult_mod_eq)
  with bs(1) show ?case by (intro exI [of _ "word_of_nat (n div 256 ^ k) # bs"]) simp
qed simp

lemma next_loop_value:
  "\<exists>xs'. next_loop (length xs) (xs @ ys) = xs' @ ys \<and> length xs' = length xs \<and>
     bytes_value xs' = (bytes_value xs + 1) mod 256 ^ length xs"
proof (induction xs arbitrary: ys rule: rev_induct)
  case (snoc x xs)
  let ?v = "bytes_value xs" and ?m = "256 ^ length xs :: nat"
  have v: "?v < ?m" by (rule bytes_value_less)
  show ?case
  proof (cases "x < 0xFF")
    case True
    then have x: "unat (x + 1) = unat x + 1" "unat x < 255"
      by (auto simp: word_less_nat_alt unat_word_ariths)
    with v have "?v * 256 + unat x + 1 < ?m * 256" by linarith
    then show ?thesis using True x
      by (intro exI [of _ "xs @ [x + 1]"]) (simp add: bytes_value_append nth_append)
  next
    case False
    with byte_le [of x] have x: "unat x = 255" by (simp add: word_less_nat_alt)
    obtain xs' where xs': "next_loop (length xs) (xs @ 0 # ys) = xs' @ 0 # ys" "length xs' = length xs"
      "bytes_value xs' = (?v + 1) mod ?m"
      using snoc.IH by blast
    have "(?v * 256 + 255 + 1) mod (?m * 256) = (?v + 1) * 256 mod (?m * 256)" by simp
    also have "\<dots> = (?v + 1) mod ?m * 256" by (simp only: mult_mod_left)
    finally show ?thesis using False xs' x
      by (intro exI [of _ "xs' @ [0]"]) (simp add: bytes_value_append nth_append mult.commute)
  qed
qed simp

text \<open>The byte loops of \<open>network\<close> and \<open>hosts\<close>, on a list of any length.\<close>

definition by_byte :: "(nat \<Rightarrow> byte \<Rightarrow> byte) \<Rightarrow> byte \<Rightarrow> nat \<Rightarrow> byte list \<Rightarrow> byte list" where
  "by_byte f e p bs = map (\<lambda>i. if p \<le> i * 8 then e else if p < (i + 1) * 8 then f p (bs ! i) else bs ! i) [0..<length bs]"

lemma by_byte_Cons:
  assumes "\<And>q b. f (q + 8) b = f q b"
  shows "by_byte f e p (b # bs) = (if p = 0 then e else if p < 8 then f p b else b) # by_byte f e (p - 8) bs"
proof -
  have le: "p \<le> Suc i * 8 \<longleftrightarrow> p - 8 \<le> i * 8" "p < (Suc i + 1) * 8 \<longleftrightarrow> p - 8 < (i + 1) * 8" for i by auto
  have f: "f p c = f (p - 8) c" if "8 \<le> p" for c
    using assms [of "p - 8" c] that by simp
  have "by_byte f e p (b # bs) = (if p \<le> 0 * 8 then e else if p < (0 + 1) * 8 then f p b else b) #
      map (\<lambda>i. if p \<le> Suc i * 8 then e else if p < (Suc i + 1) * 8 then f p (bs ! i) else bs ! i) [0..<length bs]"
    unfolding by_byte_def length_Cons map_upt_Suc by simp
  also have "map (\<lambda>i. if p \<le> Suc i * 8 then e else if p < (Suc i + 1) * 8 then f p (bs ! i) else bs ! i) [0..<length bs]
      = by_byte f e (p - 8) bs"
    unfolding by_byte_def le using f by (intro map_cong) (auto simp: le)
  finally show ?thesis by simp
qed

lemma length_by_byte [simp]: "length (by_byte f e p bs) = length bs"
  by (simp add: by_byte_def)

lemma bit_literals: "bit (0xFF00 :: int) m \<longleftrightarrow> 8 \<le> m \<and> m < 16" "bit (0xFF :: int) m \<longleftrightarrow> m < 8"
proof -
  have "bit (push_bit 8 (mask 8) :: int) m \<longleftrightarrow> 8 \<le> m \<and> m - 8 < 8" "bit (mask 8 :: int) m \<longleftrightarrow> m < 8"
    by (simp_all only: bit_push_bit_iff bit_mask_iff) simp_all
  moreover have "push_bit 8 (mask 8) = (0xFF00 :: int)" "mask 8 = (0xFF :: int)"
    by (simp_all add: mask_eq_exp_minus_1 push_bit_eq_mult)
  ultimately show "bit (0xFF00 :: int) m \<longleftrightarrow> 8 \<le> m \<and> m < 16" "bit (0xFF :: int) m \<longleftrightarrow> m < 8"
    by (simp_all only:) linarith
qed

lemma mask_byte_bits: "p < 8 \<Longrightarrow> mask_byte p b = push_bit (8 - p) (drop_bit (8 - p) b)"
  by (rule bit_word_eqI) (auto simp: mask_byte_def bit_simps bit_literals)

lemma mask_byte_value:
  assumes "p < 8"
  shows "unat (mask_byte p b) = unat b div 2 ^ (8 - p) * 2 ^ (8 - p)"
proof -
  have "unat b div 2 ^ (8 - p) * 2 ^ (8 - p) \<le> unat b" by simp
  then have "unat b div 2 ^ (8 - p) * 2 ^ (8 - p) < 256" using byte_less [of b] by (rule le_less_trans)
  moreover have "take_bit 8 (unat b) = unat b" by (simp add: take_bit_nat_eq_self_iff)
  ultimately show ?thesis unfolding mask_byte_bits [OF assms]
    by (simp only: unsigned_push_bit_eq unsigned_drop_bit_eq) (simp add: take_bit_eq_mod push_bit_eq_mult drop_bit_eq_div)
qed

lemma fill_byte_value:
  assumes "p < 8"
  shows "unat (fill_byte p b) = unat b div 2 ^ (8 - p) * 2 ^ (8 - p) + (2 ^ (8 - p) - 1)"
proof -
  let ?k = "8 - p"
  have "fill_byte p b = or (mask_byte p b) (mask ?k)"
    using assms by (intro bit_word_eqI) (auto simp: mask_byte_bits fill_byte_def bit_simps bit_literals)
  also have "\<dots> = mask_byte p b + mask ?k"
    using assms by (intro disjunctive_add_eq_or [symmetric] bit_word_eqI) (auto simp: mask_byte_bits bit_simps)
  finally have "fill_byte p b = mask_byte p b + mask ?k" .
  moreover have "unat (mask ?k :: byte) = 2 ^ ?k - 1"
    using unat_mask [of ?k, where 'a = 8] by simp
  moreover have "unat (mask_byte p b) + (2 ^ ?k - 1) < 2 ^ 8"
    using block_ends(2) [of "unat b" 8 ?k] byte_less [of b]
    by (simp add: mask_byte_value assms block_def del: One_nat_def)
  ultimately show ?thesis by (simp add: mask_byte_value assms unat_add_lem [THEN iffD1])
qed

lemma masks_step: "mask_byte (q + 8) b = mask_byte q b" "fill_byte (q + 8) b = fill_byte q b"
  by (simp_all add: mask_byte_def fill_byte_def)

lemma by_byte_Nil [simp]: "by_byte f e p [] = []"
  by (simp add: by_byte_def)

lemma by_byte_0: "by_byte f e 0 bs = replicate (length bs) e"
  by (rule nth_equalityI) (simp_all add: by_byte_def)

lemma bytes_value_replicate: "bytes_value (replicate n 0) = 0" "bytes_value (replicate n 0xFF) = 256 ^ n - 1"
proof -
  show "bytes_value (replicate n 0) = 0" by (induction n) simp_all
  show "bytes_value (replicate n 0xFF) = 256 ^ n - 1"
  proof (induction n)
    case (Suc n)
    moreover have "0 < (256 :: nat) ^ n" by simp
    ultimately show ?case by simp
  qed simp
qed

text \<open>Cutting a number at a bit of its first byte, or of the rest.\<close>

lemma cut_first:
  assumes "r < 256 ^ n" "p < (8 :: nat)"
  shows "(a * (256 :: nat) ^ n + r) div 2 ^ (8 * (n + 1) - p) * 2 ^ (8 * (n + 1) - p) = a div 2 ^ (8 - p) * 2 ^ (8 - p) * 256 ^ n"
proof -
  have "(256 :: nat) ^ n = 2 ^ (8 * n)" by (simp add: power_mult)
  then have pow: "(2 :: nat) ^ (8 * (n + 1) - p) = 256 ^ n * 2 ^ (8 - p)"
    using assms(2) by (simp flip: power_add)
  show ?thesis unfolding pow using assms(1) by (simp add: div_mult2_eq)
qed

lemma cut_rest:
  assumes "k \<le> 8 * n"
  shows "(a * (256 :: nat) ^ n + r) div 2 ^ k * 2 ^ k = a * 256 ^ n + r div 2 ^ k * 2 ^ k"
proof -
  have "(256 :: nat) ^ n = 2 ^ (8 * n)" by (simp add: power_mult)
  then have pow: "(256 :: nat) ^ n = 2 ^ k * 2 ^ (8 * n - k)" using assms by (simp flip: power_add)
  have split: "a * 256 ^ n + r = r + (a * 2 ^ (8 * n - k)) * 2 ^ k" unfolding pow by simp
  have "(a * 256 ^ n + r) div 2 ^ k = a * 2 ^ (8 * n - k) + r div 2 ^ k"
    unfolding split by simp
  then show ?thesis unfolding pow by (simp add: algebra_simps)
qed

lemma mask_bytes_value:
  "p \<le> 8 * length bs \<Longrightarrow>
   bytes_value (by_byte mask_byte 0 p bs) = bytes_value bs div 2 ^ (8 * length bs - p) * 2 ^ (8 * length bs - p) \<and>
   bytes_value (by_byte fill_byte 0xFF p bs) =
     bytes_value bs div 2 ^ (8 * length bs - p) * 2 ^ (8 * length bs - p) + (2 ^ (8 * length bs - p) - 1)"
proof (induction bs arbitrary: p)
  case (Cons b bs)
  let ?n = "length bs" and ?k = "8 * length (b # bs) - p"
  consider "p = 0" | "0 < p" "p < 8" | "8 \<le> p" by linarith
  then show ?case
  proof cases
    case 1
    have pow: "(2 :: nat) ^ (8 * m) = 256 ^ m" for m by (simp add: power_mult)
    show ?thesis using bytes_value_less [of "b # bs"]
      unfolding 1 by_byte_0 bytes_value_replicate minus_nat.diff_0 pow by (simp only: div_less mult_0 add_0)
  next
    case 2
    have first: "bytes_value (b # bs) div 2 ^ ?k * 2 ^ ?k = unat b div 2 ^ (8 - p) * 2 ^ (8 - p) * 256 ^ ?n"
      using cut_first [OF bytes_value_less 2(2), of "unat b" bs] by (simp only: bytes_value.simps list.size Suc_eq_plus1 add_0)
    have pow: "(2 :: nat) ^ ?k = 2 ^ (8 - p) * 256 ^ ?n"
    proof -
      have "(256 :: nat) ^ ?n = 2 ^ (8 * ?n)" by (simp add: power_mult)
      then show ?thesis using 2 by (simp flip: power_add)
    qed
    have rest: "by_byte f e (p - 8) bs = replicate ?n e" for f e using 2 by (simp add: by_byte_0)
    have last: "(2 ^ (8 - p) - 1) * 256 ^ ?n + (256 ^ ?n - 1) = 2 ^ (8 - p) * 256 ^ ?n - (1 :: nat)"
    proof -
      have "1 \<le> (256 :: nat) ^ ?n" "1 \<le> (2 :: nat) ^ (8 - p)" by simp_all
      then show ?thesis by (cases "(2 :: nat) ^ (8 - p)") simp_all
    qed
    have "by_byte mask_byte 0 p (b # bs) = mask_byte p b # replicate ?n 0"
      "by_byte fill_byte 0xFF p (b # bs) = fill_byte p b # replicate ?n 0xFF"
      using 2 rest by (simp_all add: by_byte_Cons masks_step)
    then show ?thesis unfolding first unfolding pow
      by (simp only: bytes_value.simps length_replicate mask_byte_value [OF 2(2)] fill_byte_value [OF 2(2)]
          bytes_value_replicate distrib_right add.assoc last add_0_right simp_thms)
  next
    case 3
    have k: "?k = 8 * ?n - (p - 8)" using 3 by simp
    have "?k \<le> 8 * ?n" using 3 by simp
    note cut = cut_rest [OF this]
    have "p - 8 \<le> 8 * ?n" using Cons.prems by simp
    note ih = Cons.IH [OF this]
    have "by_byte mask_byte 0 p (b # bs) = b # by_byte mask_byte 0 (p - 8) bs"
      "by_byte fill_byte 0xFF p (b # bs) = b # by_byte fill_byte 0xFF (p - 8) bs"
      using 3 by (simp_all add: by_byte_Cons masks_step)
    then show ?thesis
      by (simp only: k bytes_value.simps length_by_byte ih cut [unfolded k] add.assoc simp_thms)
  qed
qed simp

abbreviation value6 :: "address_v6 \<Rightarrow> nat" where "value6 a \<equiv> bytes_value (s6_addr a)"

definition v6_ok :: "address_v6 \<Rightarrow> bool" where "v6_ok a \<longleftrightarrow> length (s6_addr a) = 16"

lemma value6_less: "v6_ok a \<Longrightarrow> value6 a < 2 ^ 128"
  using bytes_value_less [of "s6_addr a"] by (simp add: v6_ok_def)

lemma v6_equal_iff: "v6_ok a \<Longrightarrow> v6_ok b \<Longrightarrow> v6_equal a b \<longleftrightarrow> a = b"
proof -
  assume "v6_ok a" "v6_ok b"
  then have len: "length (s6_addr a) = length (s6_addr b)" by (simp add: v6_ok_def)
  have "memcmp (s6_addr a) (s6_addr b) = 0 \<longleftrightarrow> value6 a = value6 b"
    using memcmp_value [OF len] by linarith
  then show ?thesis using bytes_value_eq [OF len] by (cases a; cases b) (auto simp: v6_equal_def)
qed

lemma v6_less_iff:
  "v6_ok a \<Longrightarrow> v6_ok b \<Longrightarrow> v6_less a b \<longleftrightarrow> value6 a < value6 b \<or> value6 a = value6 b \<and> scope_id a < scope_id b"
  using memcmp_value [of "s6_addr a" "s6_addr b"] by (auto simp: v6_less_def v6_ok_def Let_def)

lemma v6_eqI: "v6_ok a \<Longrightarrow> v6_ok b \<Longrightarrow> value6 a = value6 b \<Longrightarrow> scope_id a = scope_id b \<Longrightarrow> a = b"
  using bytes_value_eq [of "s6_addr a" "s6_addr b"] by (cases a; cases b) (simp add: v6_ok_def)

lemma v6_next_value:
  assumes "v6_ok a"
  shows "v6_ok (v6_next a)" "value6 (v6_next a) = (value6 a + 1) mod 2 ^ 128" "scope_id (v6_next a) = scope_id a"
  using assms next_loop_value [of "s6_addr a" "[]"] by (auto simp: v6_next_def v6_ok_def)

lemma v6_walk:
  assumes "v6_ok a"
  shows "v6_ok ((v6_next ^^ i) a) \<and> value6 ((v6_next ^^ i) a) = (value6 a + i) mod 2 ^ 128 \<and>
    scope_id ((v6_next ^^ i) a) = scope_id a"
proof (induction i)
  case (Suc i)
  then show ?case using v6_next_value [of "(v6_next ^^ i) a"] by (simp add: mod_Suc_eq del: power_numeral)
qed (use assms value6_less in simp)

definition members6 :: "network_v6 \<Rightarrow> address_v6 set" where
  "members6 n = {a. v6_ok a \<and> scope_id a = scope_id (address6 n) \<and>
     value6 a div 2 ^ (128 - prefix_length6 n) = value6 (address6 n) div 2 ^ (128 - prefix_length6 n)}"

lemma by_byte_16:
  "length bs = 16 \<Longrightarrow>
   map (\<lambda>i. if p \<le> i * 8 then e else if p < (i + 1) * 8 then f p (bs ! i) else bs ! i) [0..<16] = by_byte f e p bs"
  by (simp add: by_byte_def)

lemma network6_value:
  assumes "v6_ok (address6 n)" "prefix_length6 n \<le> 128"
  shows "v6_ok (network6 n)" "scope_id (network6 n) = scope_id (address6 n)"
    "value6 (network6 n) = value6 (address6 n) div 2 ^ (128 - prefix_length6 n) * 2 ^ (128 - prefix_length6 n)"
proof -
  have n: "s6_addr (network6 n) = by_byte mask_byte 0 (prefix_length6 n) (s6_addr (address6 n))"
    using assms(1) by (simp add: network6_def v6_of_bytes_def v6_ok_def by_byte_16 [where f = mask_byte, simplified])
  show "v6_ok (network6 n)" "scope_id (network6 n) = scope_id (address6 n)"
    using assms(1) by (simp_all add: v6_ok_def n) (simp add: network6_def v6_of_bytes_def)
  show "value6 (network6 n) = value6 (address6 n) div 2 ^ (128 - prefix_length6 n) * 2 ^ (128 - prefix_length6 n)"
    using mask_bytes_value [of "prefix_length6 n" "s6_addr (address6 n)"] assms by (simp add: n v6_ok_def)
qed

lemma value_members6:
  assumes "v6_ok (address6 n)"
  shows "value6 ` members6 n = block 128 (128 - prefix_length6 n) (value6 (address6 n))"
proof (intro equalityI subsetI)
  fix v assume "v \<in> value6 ` members6 n"
  then show "v \<in> block 128 (128 - prefix_length6 n) (value6 (address6 n))"
    using value6_less by (auto simp: members6_def block_def simp del: power_numeral)
next
  fix v assume v: "v \<in> block 128 (128 - prefix_length6 n) (value6 (address6 n))"
  then have "v < 256 ^ 16" by (simp add: block_def)
  then obtain bs where "length bs = 16" "bytes_value bs = v" using bytes_value_onto by blast
  with v show "v \<in> value6 ` members6 n"
    by (intro image_eqI [of _ _ "Addr_v6 bs (scope_id (address6 n))"]) (auto simp: members6_def block_def v6_ok_def)
qed

lemma inj_on_subset_iff:
  assumes "inj_on f S" "A \<subseteq> S" "B \<subseteq> S"
  shows "f ` A \<subseteq> f ` B \<longleftrightarrow> A \<subseteq> B"
proof
  assume sub: "f ` A \<subseteq> f ` B"
  show "A \<subseteq> B"
  proof
    fix x assume x: "x \<in> A"
    then obtain y where "y \<in> B" "f x = f y" using sub by blast
    with x show "x \<in> B" using assms by (metis inj_onD subsetD)
  qed
qed blast

lemma psubset_members6:
  assumes "v6_ok (address6 n)" "v6_ok (address6 m)"
  shows "members6 n \<subset> members6 m \<longleftrightarrow> scope_id (address6 n) = scope_id (address6 m) \<and>
    block 128 (128 - prefix_length6 n) (value6 (address6 n)) \<subset> block 128 (128 - prefix_length6 m) (value6 (address6 m))"
proof (cases "scope_id (address6 n) = scope_id (address6 m)")
  case True
  let ?S = "{a. v6_ok a \<and> scope_id a = scope_id (address6 n)}"
  have inj: "inj_on value6 ?S" by (auto intro!: inj_onI v6_eqI)
  have sub: "members6 n \<subseteq> ?S" "members6 m \<subseteq> ?S" using True by (auto simp: members6_def)
  have "members6 n \<subset> members6 m \<longleftrightarrow> value6 ` members6 n \<subset> value6 ` members6 m"
    unfolding psubset_eq
    by (simp add: inj_on_image_eq_iff [OF inj sub] inj_on_subset_iff [OF inj sub])
  with True show ?thesis by (simp add: value_members6 assms)
next
  case False
  have "address6 n \<in> members6 n" using assms by (simp add: members6_def)
  moreover have "address6 n \<notin> members6 m" using False by (simp add: members6_def)
  ultimately show ?thesis using False by blast
qed

lemma subnet6:
  assumes "v6_ok (address6 n)" "v6_ok (address6 m)" "prefix_length6 n \<le> 128" "prefix_length6 m \<le> 128"
  shows "is_subnet_of6 n m = Inr (members6 n \<subset> members6 m)"
proof -
  have ps: "members6 n \<subset> members6 m \<longleftrightarrow> scope_id (address6 n) = scope_id (address6 m) \<and>
      128 - prefix_length6 n < 128 - prefix_length6 m \<and>
      value6 (address6 n) div 2 ^ (128 - prefix_length6 m) = value6 (address6 m) div 2 ^ (128 - prefix_length6 m)"
    unfolding psubset_members6 [OF assms(1, 2)]
    using block_psubset [of "value6 (address6 n)" 128 "value6 (address6 m)"] value6_less assms by simp
  show ?thesis
  proof (cases "prefix_length6 m \<ge> prefix_length6 n")
    case True
    then have "\<not> 128 - prefix_length6 n < 128 - prefix_length6 m" by linarith
    then have "\<not> members6 n \<subset> members6 m" unfolding ps by simp
    with True show ?thesis by (simp add: is_subnet_of6_def)
  next
    case False
    let ?me = "\<lparr>address6 = address6 n, prefix_length6 = prefix_length6 m\<rparr>"
    have me: "v6_ok (address6 ?me)" "prefix_length6 ?me \<le> 128" using assms by simp_all
    have "v6_equal (network6 m) (network6 ?me) \<longleftrightarrow>
        scope_id (address6 n) = scope_id (address6 m) \<and> value6 (network6 ?me) = value6 (network6 m)"
      using network6_value [OF assms(2, 4)] network6_value [OF me] v6_eqI [of "network6 m" "network6 ?me"]
      by (auto simp: v6_equal_iff)
    also have "\<dots> \<longleftrightarrow> members6 n \<subset> members6 m"
      unfolding ps using network6_value(3) [OF assms(2, 4)] network6_value(3) [OF me] False assms by auto
    finally show ?thesis
      using False assms by (auto simp: is_subnet_of6_def net6_def canonical6_def net6_equal_def)
  qed
qed

lemma hosts6_value:
  assumes "v6_ok (address6 n)" "prefix_length6 n \<le> 128"
  defines "k \<equiv> 128 - prefix_length6 n"
  shows "begin6 (hosts6 n) = network6 n"
    "v6_ok (end6 (hosts6 n))" "scope_id (end6 (hosts6 n)) = scope_id (address6 n)"
    "value6 (end6 (hosts6 n)) = (value6 (network6 n) + 2 ^ k) mod 2 ^ 128"
proof -
  let ?e = "Addr_v6 (by_byte fill_byte 0xFF (prefix_length6 n) (s6_addr (address6 n))) (scope_id (address6 n))"
  have e: "end6 (hosts6 n) = v6_next ?e" and b: "begin6 (hosts6 n) = network6 n"
    using assms(1) by (simp_all add: hosts6_def network6_def v6_of_bytes_def v6_to_bytes_def v6_ok_def Let_def
        by_byte_16 [where f = fill_byte, simplified])
  have ok: "v6_ok ?e" using assms(1) by (simp add: v6_ok_def)
  show "begin6 (hosts6 n) = network6 n" by (rule b)
  show "v6_ok (end6 (hosts6 n))" "scope_id (end6 (hosts6 n)) = scope_id (address6 n)"
    unfolding e using v6_next_value [OF ok] by simp_all
  have "value6 ?e = value6 (network6 n) + (2 ^ k - 1)"
    using mask_bytes_value [of "prefix_length6 n" "s6_addr (address6 n)"] network6_value(3) [OF assms(1, 2)] assms
    by (simp add: v6_ok_def k_def)
  moreover have "1 \<le> (2 :: nat) ^ k" by simp
  ultimately show "value6 (end6 (hosts6 n)) = (value6 (network6 n) + 2 ^ k) mod 2 ^ 128"
    unfolding e v6_next_value(2) [OF ok] by (simp del: power_numeral)
qed

lemma block_interval:
  "y div 2 ^ k = x div 2 ^ k \<longleftrightarrow> x div 2 ^ k * 2 ^ k \<le> y \<and> y \<le> x div 2 ^ k * 2 ^ k + (2 ^ k - (1 :: nat))"
proof
  assume "y div 2 ^ k = x div 2 ^ k"
  then have "y = x div 2 ^ k * 2 ^ k + y mod 2 ^ k" by (metis div_mult_mod_eq)
  moreover have "y mod 2 ^ k < 2 ^ k" by simp
  ultimately show "x div 2 ^ k * 2 ^ k \<le> y \<and> y \<le> x div 2 ^ k * 2 ^ k + (2 ^ k - 1)" by linarith
next
  let ?q = "x div 2 ^ k"
  assume y: "?q * 2 ^ k \<le> y \<and> y \<le> ?q * 2 ^ k + (2 ^ k - 1)"
  have "1 \<le> (2 :: nat) ^ k" by simp
  with y have r: "y - ?q * 2 ^ k < 2 ^ k" by linarith
  have "y div 2 ^ k = ((y - ?q * 2 ^ k) + ?q * 2 ^ k) div 2 ^ k" using y by simp
  also have "\<dots> = ?q" using r by (subst div_mult_self1) simp_all
  finally show "y div 2 ^ k = ?q" .
qed

lemma members6_walk:
  assumes "v6_ok (address6 n)" "prefix_length6 n \<le> 128"
  defines "k \<equiv> 128 - prefix_length6 n"
  shows "members6 n = (\<lambda>i. (v6_next ^^ i) (network6 n)) ` {..<2 ^ k}"
proof -
  let ?V = "value6 (network6 n)"
  note net = network6_value [OF assms(1, 2), folded k_def]
  have V: "?V + (2 ^ k - 1) < 2 ^ 128"
    using block_ends(2) [of "value6 (address6 n)" 128 k] value6_less [OF assms(1)]
    by (simp add: block_def net(3) k_def del: power_numeral One_nat_def)
  have walk: "v6_ok ((v6_next ^^ i) (network6 n))" "value6 ((v6_next ^^ i) (network6 n)) = ?V + i"
    "scope_id ((v6_next ^^ i) (network6 n)) = scope_id (address6 n)" if "i < 2 ^ k" for i
  proof -
    have "?V + i < 2 ^ 128" using that V by linarith
    then show "v6_ok ((v6_next ^^ i) (network6 n))" "value6 ((v6_next ^^ i) (network6 n)) = ?V + i"
      "scope_id ((v6_next ^^ i) (network6 n)) = scope_id (address6 n)"
      using v6_walk [OF net(1), of i] net(2) by (simp_all del: power_numeral)
  qed
  have mem: "a \<in> members6 n \<longleftrightarrow>
      v6_ok a \<and> scope_id a = scope_id (address6 n) \<and> ?V \<le> value6 a \<and> value6 a \<le> ?V + (2 ^ k - 1)" for a
    unfolding members6_def mem_Collect_eq k_def [symmetric] block_interval net(3) ..
  show ?thesis
  proof (intro equalityI subsetI)
    fix a assume "a \<in> members6 n"
    then have a: "v6_ok a" "scope_id a = scope_id (address6 n)" "?V \<le> value6 a" "value6 a \<le> ?V + (2 ^ k - 1)"
      using mem by auto
    have "1 \<le> (2 :: nat) ^ k" by simp
    with a have i: "value6 a - ?V < 2 ^ k" by linarith
    have "a = (v6_next ^^ (value6 a - ?V)) (network6 n)"
      using walk [OF i] a by (intro v6_eqI) simp_all
    with i show "a \<in> (\<lambda>i. (v6_next ^^ i) (network6 n)) ` {..<2 ^ k}" by blast
  next
    fix a assume "a \<in> (\<lambda>i. (v6_next ^^ i) (network6 n)) ` {..<2 ^ k}"
    then obtain i where i: "i < 2 ^ k" "a = (v6_next ^^ i) (network6 n)" by blast
    have "?V + i \<le> ?V + (2 ^ k - 1)" using i(1) by linarith
    then show "a \<in> members6 n" unfolding mem i(2) walk(2) [OF i(1)] using walk(1, 3) [OF i(1)] by simp
  qed
qed

subsection \<open>Properties\<close>

text \<open>
  A network made from an address and a mask is accepted exactly when the mask is one of
  the 33 contiguous ones, and then \<open>netmask\<close> gives the mask back.
\<close>

theorem contiguous_masks_accepted:
  "net4_of_mask addr m = Inr n \<longleftrightarrow> prefix_length4 n \<le> 32 \<and> address4 n = addr \<and> m = netmask4 n"
  by (rule mask_accepted)

text \<open>
  C17: For networks that their constructors made, \<open>is_subnet_of\<close> never throws and says
  whether the addresses of the one are a proper subset of the addresses of the other, for
  IPv4 and for IPv6.
\<close>

theorem subnet_iff_fewer_addresses:
  assumes "net4 a4 p4 = Inr n4" "net4 b4 q4 = Inr m4"
    "net6 a6 p6 = Inr n6" "net6 b6 q6 = Inr m6" "v6_ok a6" "v6_ok b6"
  shows "is_subnet_of4 n4 m4 = Inr (members4 n4 \<subset> members4 m4) \<and>
    is_subnet_of6 n6 m6 = Inr (members6 n6 \<subset> members6 m6)"
  using assms by (auto simp: net4_def net6_def subnet4 subnet6 split: if_splits)

lemma v6_ok_any: "v6_ok v6_any"
  by (simp add: v6_ok_def v6_any_def)

lemma v6_ok_loopback: "v6_ok v6_loopback"
  using v6_ok_any by (simp add: v6_ok_def v6_loopback_def)

lemma subnet_iff_fewer_addresses_witness:
  "let n4 = \<lparr>address4 = v4_of_uint 0x0A000100, prefix_length4 = 24\<rparr>;
       m4 = \<lparr>address4 = v4_of_uint 0x0A000000, prefix_length4 = 8\<rparr>;
       n6 = \<lparr>address6 = v6_loopback, prefix_length6 = 64\<rparr>;
       m6 = \<lparr>address6 = v6_any, prefix_length6 = 64\<rparr>
   in is_subnet_of4 n4 m4 = Inr (members4 n4 \<subset> members4 m4) \<and>
      is_subnet_of6 n6 m6 = Inr (members6 n6 \<subset> members6 m6)"
  unfolding Let_def
  by (rule subnet_iff_fewer_addresses [where ?p4.0 = 24 and ?q4.0 = 8 and ?p6.0 = 64 and ?q6.0 = 64
      and ?a6.0 = v6_loopback and ?b6.0 = v6_any])
    (simp_all add: net4_def net6_def v6_ok_any v6_ok_loopback)

text \<open>
  C20: The hosts of an IPv6 network: from the begin of the range, \<open>operator++\<close> visits every
  address of the network once and then stands at the end of the range.  Only the
  network of prefix length 0, which has every address, gets an empty range.
\<close>

theorem hosts6_enumerates:
  assumes "net6 a p = Inr n" "v6_ok a"
  shows "(\<lambda>i. (v6_next ^^ i) (begin6 (hosts6 n))) ` {..<2 ^ (128 - p)} = members6 n \<and>
    (v6_next ^^ (2 ^ (128 - p))) (begin6 (hosts6 n)) = end6 (hosts6 n) \<and>
    (v6_range_empty (hosts6 n) \<longleftrightarrow> p = 0)"
proof -
  have n: "p \<le> 128" "n = \<lparr>address6 = a, prefix_length6 = p\<rparr>" using assms(1) by (auto simp: net6_def split: if_splits)
  then have ok: "v6_ok (address6 n)" "prefix_length6 n \<le> 128" using assms(2) by simp_all
  let ?V = "value6 (network6 n)" and ?k = "128 - p"
  note hosts = hosts6_value [OF ok] and net = network6_value [OF ok]
  have walk: "v6_ok ((v6_next ^^ (2 ^ ?k)) (network6 n))"
    "value6 ((v6_next ^^ (2 ^ ?k)) (network6 n)) = (?V + 2 ^ ?k) mod 2 ^ 128"
    "scope_id ((v6_next ^^ (2 ^ ?k)) (network6 n)) = scope_id (network6 n)"
    using v6_walk [OF net(1), of "2 ^ ?k"] by blast+
  have walk_end: "(v6_next ^^ (2 ^ ?k)) (network6 n) = end6 (hosts6 n)"
    using walk hosts net(2) n by (intro v6_eqI) simp_all
  have "v6_range_empty (hosts6 n) \<longleftrightarrow> ?V = (?V + 2 ^ ?k) mod 2 ^ 128"
    using hosts net n v6_eqI [of "network6 n" "end6 (hosts6 n)"] by (auto simp: v6_range_empty_def v6_equal_iff)
  also have "\<dots> \<longleftrightarrow> p = 0"
  proof
    assume eq: "?V = (?V + 2 ^ ?k) mod 2 ^ 128"
    show "p = 0"
    proof (rule ccontr)
      assume "p \<noteq> 0"
      then have k: "(2 :: nat) ^ ?k < 2 ^ 128" by (intro power_strict_increasing) simp_all
      have "(2 :: nat) ^ 128 dvd 2 ^ ?k"
        using eq value6_less [OF net(1)] by (metis add_diff_cancel_left' le_add1 mod_eq_dvd_iff_nat mod_less)
      then show False using k by (meson nat_dvd_not_less zero_less_numeral zero_less_power)
    qed
  next
    assume "p = 0"
    then show "?V = (?V + 2 ^ ?k) mod 2 ^ 128" using value6_less [OF net(1)] by (simp del: power_numeral)
  qed
  finally show ?thesis using members6_walk [OF ok] walk_end hosts(1) n by simp
qed

lemma hosts6_enumerates_witness:
  "let n = \<lparr>address6 = v6_loopback, prefix_length6 = 64\<rparr> in
   (\<lambda>i. (v6_next ^^ i) (begin6 (hosts6 n))) ` {..<2 ^ (128 - 64)} = members6 n \<and>
   (v6_next ^^ (2 ^ (128 - 64))) (begin6 (hosts6 n)) = end6 (hosts6 n) \<and>
   (v6_range_empty (hosts6 n) \<longleftrightarrow> (64 :: nat) = 0)"
  unfolding Let_def by (rule hosts6_enumerates [of v6_loopback]) (simp_all add: net6_def v6_ok_loopback)

end
