(* ===== verification/Subnet_Text.thy ===== *)
theory Subnet_Text
  imports Subnet_Properties
begin

text \<open>
  Networks and addresses as text.  What \<open>to_string\<close> and the \<open>make_\<close> functions need of the
  operating system's pair of functions is the locale \<open>inet_text\<close>; asio's own pair provides
  it.  The theory also has the hosts of an IPv4 network and the order of addresses.
\<close>

locale inet_text =
  fixes L :: inet_lib and max_scope :: nat
  assumes text_v4: "length bytes = 4 \<Longrightarrow> \<exists>s. ntop4 L bytes (max_addr_v4_str_len L) = Inr s \<and>
      pton4 L s = Inr (Some bytes) \<and> pton6 L s = Inr None \<and> CHR ''/'' \<notin> set s"
    and text_v6: "length bytes = 16 \<Longrightarrow> sc \<le> max_scope \<Longrightarrow>
      \<exists>s. ntop6 L bytes (max_addr_v6_str_len L) sc = Inr s \<and> pton6 L s = Inr (Some (bytes, sc)) \<and> CHR ''/'' \<notin> set s"

lemma takeWhile_until: "c \<notin> set s \<Longrightarrow> takeWhile (\<lambda>x. x \<noteq> c) (s @ c # t) = s"
  by (induction s) auto

lemma find_slash: "CHR ''/'' \<notin> set s \<Longrightarrow> find_first (\<lambda>c. c = CHR ''/'') (s @ CHR ''/'' # t) = Some (length s)"
  by (simp add: find_first_def takeWhile_until)

lemma all_decimal: "find_first (\<lambda>c. \<not> decimal c) (show_nat n) = None"
proof -
  have tw: "takeWhile decimal (show_nat n) = show_nat n"
    using show_nat_decimal [of n] by (auto simp: takeWhile_eq_all_conv list_all_iff)
  show ?thesis by (simp add: find_first_def tw)
qed

lemma atoi_show: "n < 2 ^ 31 \<Longrightarrow> atoi (show_nat n) = Inr (int n)"
proof -
  assume n: "n < 2 ^ 31"
  obtain d ds where d: "show_nat n = d # ds" "decimal d" using show_nat_decimal [of n] by (cases "show_nat n") auto
  have "\<not> blank d" "d \<noteq> CHR ''-''" "d \<noteq> CHR ''+''" using d(2) by (auto simp: decimal_def blank_def code_def)
  moreover have "takeWhile decimal (d # ds) = d # ds"
    using show_nat_decimal [of n] d(1) by (auto simp: takeWhile_eq_all_conv list_all_iff)
  moreover have "decimal_value (d # ds) = n" using decimal_value_show [of n] d(1) by simp
  ultimately show ?thesis using n by (simp add: atoi_def d(1))
qed

context inet_text
begin

lemma v4_round_trip: "\<exists>s. v4_to_string L a = Inr s \<and> make_address_v4_ec L s = Inr (a, None) \<and>
    pton6 L s = Inr None \<and> CHR ''/'' \<notin> set s"
proof -
  have "length (v4_to_bytes a) = 4" by (simp add: v4_to_bytes_def)
  from text_v4 [OF this] show ?thesis
    by (auto simp: v4_to_string_def make_address_v4_ec_def v4_of_bytes_def v4_to_bytes_def)
qed

lemma v6_round_trip:
  assumes "v6_ok a" "scope_id a \<le> max_scope"
  shows "\<exists>s. v6_to_string L a = Inr s \<and> make_address_v6_ec L s = Inr (a, None) \<and> CHR ''/'' \<notin> set s"
  using text_v6 [of "s6_addr a" "scope_id a"] assms
  by (auto simp: v6_to_string_def make_address_v6_ec_def v6_of_bytes_def v6_ok_def)

lemma network_v4_round_trip:
  assumes "prefix_length4 n \<le> 32"
  shows "\<exists>s. net4_to_string L n = Inr s \<and> make_network_v4 L s = Inr n"
proof -
  obtain s where s: "v4_to_string L (address4 n) = Inr s" "make_address_v4_ec L s = Inr (address4 n, None)"
    "CHR ''/'' \<notin> set s" using v4_round_trip by blast
  have "show_nat (prefix_length4 n) \<noteq> []" using show_nat_decimal by blast
  then show ?thesis using s assms find_slash [OF s(3)] all_decimal atoi_show [of "prefix_length4 n"]
    by (simp add: net4_to_string_def make_network_v4_def make_network_v4_ec_def throwing_def net4_def)
qed

lemma network_v6_round_trip:
  assumes "prefix_length6 n \<le> 128" "v6_ok (address6 n)" "scope_id (address6 n) \<le> max_scope"
  shows "\<exists>s. net6_to_string L n = Inr s \<and> make_network_v6 L s = Inr n"
proof -
  obtain s where s: "v6_to_string L (address6 n) = Inr s" "make_address_v6_ec L s = Inr (address6 n, None)"
    "CHR ''/'' \<notin> set s" using v6_round_trip assms by blast
  have "show_nat (prefix_length6 n) \<noteq> []" using show_nat_decimal by blast
  then show ?thesis using s assms find_slash [OF s(3)] all_decimal atoi_show [of "prefix_length6 n"]
    by (simp add: net6_to_string_def make_network_v6_def make_network_v6_ec_def throwing_def net6_def)
qed

lemma address_round_trip:
  assumes "a = address_of_v4 a4 \<or> a = address_of_v6 a6 \<and> v6_ok a6 \<and> scope_id a6 \<le> max_scope"
  shows "\<exists>s. to_string L a = Inr s \<and> make_address L s = Inr a"
  using assms
proof
  assume a: "a = address_of_v4 a4"
  obtain s where "v4_to_string L a4 = Inr s" "make_address_v4_ec L s = Inr (a4, None)" "pton6 L s = Inr None"
    using v4_round_trip by blast
  then show ?thesis
    by (simp add: a to_string_def make_address_def make_address_ec_def make_address_v6_ec_def throwing_def address_of_v4_def)
next
  assume a: "a = address_of_v6 a6 \<and> v6_ok a6 \<and> scope_id a6 \<le> max_scope"
  then obtain s where "v6_to_string L a6 = Inr s" "make_address_v6_ec L s = Inr (a6, None)"
    using v6_round_trip by blast
  then show ?thesis
    by (simp add: a to_string_def make_address_def make_address_ec_def throwing_def address_of_v6_def)
qed

end

text \<open>The IPv6 parser gives up at the first dot.\<close>

lemma no_dots: "list_all decimal ds \<Longrightarrow> pton6_loop fword (ds @ CHR ''.'' # t) w [] [] 0 = None"
proof (induction ds arbitrary: w)
  case Nil
  show ?case by (subst pton6_loop.simps) (simp add: at_nul_def hex_value_def code_def)
next
  case (Cons d ds)
  then have "decimal d" by simp
  then have "hex_value d = Some (code d - 48)" "d \<noteq> CHR 0x00"
    by (auto simp: decimal_def hex_value_def code_def)
  with Cons show ?case by (subst pton6_loop.simps) (simp add: at_nul_def)
qed

interpretation asio_text: inet_text asio_inet 65535
proof
  fix bytes :: "byte list" assume "length bytes = 4"
  from inet4_text [OF this, of 256 "[]"] obtain s where s: "inet_ntop4 bytes 256 = Inr s"
    "inet_pton4 s = Inr (Some bytes)" "CHR ''/'' \<notin> set s"
    by (auto simp: ends_number_def)
  have "list_all decimal (show_nat (unat (bytes ! 0)))" using show_nat_decimal by blast
  then have "inet_pton6 s = None"
    using s(1) no_dots by (auto simp: inet_ntop4_def sprintf_s_def inet_pton6_def split: if_splits)
  with s show "\<exists>s. ntop4 asio_inet bytes (max_addr_v4_str_len asio_inet) = Inr s \<and>
      pton4 asio_inet s = Inr (Some bytes) \<and> pton6 asio_inet s = Inr None \<and> CHR ''/'' \<notin> set s"
    by (simp add: asio_inet_def)
next
  fix bytes :: "byte list" and sc :: nat assume "length bytes = 16" "sc \<le> 65535"
  from inet6_text [OF this, of 256]
  show "\<exists>s. ntop6 asio_inet bytes (max_addr_v6_str_len asio_inet) sc = Inr s \<and>
      pton6 asio_inet s = Inr (Some (bytes, sc)) \<and> CHR ''/'' \<notin> set s"
    by (auto simp: asio_inet_def)
qed



text \<open>
  A network comes back from its text, \<open>address/prefix\<close>, for IPv4 and for IPv6 with a
  scope that fits the parser, with asio's own conversion of addresses.
\<close>

theorem network_text_round_trip:
  assumes "net4 a4 p4 = Inr n4" "net6 a6 p6 = Inr n6" "v6_ok a6" "scope_id a6 \<le> 65535"
  shows "(\<exists>s. net4_to_string asio_inet n4 = Inr s \<and> make_network_v4 asio_inet s = Inr n4) \<and>
    (\<exists>s. net6_to_string asio_inet n6 = Inr s \<and> make_network_v6 asio_inet s = Inr n6)"
  using assms asio_text.network_v4_round_trip [of n4] asio_text.network_v6_round_trip [of n6]
  by (auto simp: net4_def net6_def split: if_splits)

lemma network_text_round_trip_witness:
  "let n4 = \<lparr>address4 = v4_of_uint 0x0A000100, prefix_length4 = 24\<rparr>;
       n6 = \<lparr>address6 = v6_loopback, prefix_length6 = 64\<rparr>
   in (\<exists>s. net4_to_string asio_inet n4 = Inr s \<and> make_network_v4 asio_inet s = Inr n4) \<and>
      (\<exists>s. net6_to_string asio_inet n6 = Inr s \<and> make_network_v6 asio_inet s = Inr n6)"
  unfolding Let_def
  by (rule network_text_round_trip [of "v4_of_uint 0x0A000100" 24 _ v6_loopback 64])
    (simp_all add: net4_def net6_def v6_ok_loopback, simp add: v6_loopback_def)

subsection \<open>The hosts of an IPv4 network\<close>

text \<open>
  The range \<open>hosts\<close> of an IPv4 network with more than one address holds what it should:
  \<open>find\<close> locates exactly the addresses of the network other than the network address
  and the broadcast address, and \<open>size\<close> counts them.
\<close>

theorem hosts4_finds_hosts:
  assumes "net4 a p = Inr n" "p < 32"
  shows "{x. v4_range_find (hosts4 n) x \<noteq> end4 (hosts4 n)} = members4 n - {network4 n, broadcast4 n} \<and>
    v4_range_size (hosts4 n) = 2 ^ (32 - p) - 2"
proof -
  have n: "p \<le> 32" "n = \<lparr>address4 = a, prefix_length4 = p\<rparr>" using assms(1) by (auto simp: net4_def split: if_splits)
  then have ok: "prefix_length4 n \<le> 32" "prefix_length4 n = p" by simp_all
  let ?V = "value4 (network4 n)" and ?k = "32 - p"
  have two: "2 \<le> (2 :: nat) ^ ?k" using assms(2) by (cases "32 - p") auto
  have B: "value4 (broadcast4 n) = ?V + (2 ^ ?k - 1)" using value_broadcast4 [OF ok(1)] ok(2) by simp
  have lt: "?V + (2 ^ ?k - 1) < 2 ^ 32" using value4_less [of "broadcast4 n"] B by simp
  have b: "value4 (begin4 (hosts4 n)) = ?V + 1" and e: "end4 (hosts4 n) = broadcast4 n"
  proof -
    have "?V + 1 < 2 ^ 32" using lt two by linarith
    then show "value4 (begin4 (hosts4 n)) = ?V + 1"
      using assms(2) ok by (simp add: hosts4_def is_host4_def unat_word_ariths)
    show "end4 (hosts4 n) = broadcast4 n" using assms(2) ok by (simp add: hosts4_def is_host4_def)
  qed
  have found: "v4_range_find (hosts4 n) x \<noteq> end4 (hosts4 n) \<longleftrightarrow> ?V + 1 \<le> value4 x \<and> value4 x < ?V + (2 ^ ?k - 1)" for x
    using b B by (auto simp: v4_range_find_def v4_less_def word_less_nat_alt e not_less)
  have mem: "x \<in> members4 n \<longleftrightarrow> ?V \<le> value4 x \<and> value4 x \<le> ?V + (2 ^ ?k - 1)" for x
    unfolding members4_def mem_Collect_eq block_interval value_network4 [OF ok(1)] ok(2) ..
  have ends: "x = network4 n \<longleftrightarrow> value4 x = ?V" "x = broadcast4 n \<longleftrightarrow> value4 x = ?V + (2 ^ ?k - 1)" for x
    by (simp_all only: B [symmetric] value4_eq)
  have "{x. v4_range_find (hosts4 n) x \<noteq> end4 (hosts4 n)} = members4 n - {network4 n, broadcast4 n}"
  proof (rule set_eqI)
    fix x
    show "x \<in> {x. v4_range_find (hosts4 n) x \<noteq> end4 (hosts4 n)} \<longleftrightarrow> x \<in> members4 n - {network4 n, broadcast4 n}"
      unfolding mem_Collect_eq found Diff_iff mem insert_iff ends by (safe; linarith?)
  qed
  moreover have "v4_range_size (hosts4 n) = 2 ^ ?k - 2"
  proof -
    have "v4_to_uint (begin4 (hosts4 n)) \<le> v4_to_uint (broadcast4 n)"
      unfolding word_le_nat_alt b B using two by linarith
    then show ?thesis unfolding v4_range_size_def e by (simp only: unat_sub b B)
  qed
  ultimately show ?thesis by blast
qed

lemma hosts4_finds_hosts_witness:
  "let n = \<lparr>address4 = v4_loopback, prefix_length4 = 24\<rparr> in
   {x. v4_range_find (hosts4 n) x \<noteq> end4 (hosts4 n)} = members4 n - {network4 n, broadcast4 n} \<and>
   v4_range_size (hosts4 n) = 2 ^ (32 - 24) - 2"
  unfolding Let_def by (rule hosts4_finds_hosts [of v4_loopback]) (simp_all add: net4_def)

end
