(* ===== verification/Timer_Queue.thy ===== *)
theory Timer_Queue
  imports Prelude "HOL-Library.Multiset"
begin

text \<open>
  The timers of a reactor, \<open>detail/timer_queue.hpp\<close>: a binary heap in a vector, ordered by
  expiry time, and a doubly linked list of the active timers.  Each timer knows its place
  in the heap.  A timer is the address of its \<open>per_timer_data\<close>, which the queue reads and
  writes in the store \<open>timer_data\<close>; an operation is a record whose \<open>op_key\<close> stands for its address.

  The queue is a template over the clock: times are of any linear order, the current time
  is an argument, and \<open>is_inf\<close> is \<open>is_positive_infinity\<close> (constantly false for the clocks
  of the standard library).
\<close>

subsection \<open>Data\<close>

type_synonym timer = nat

record wait_op =
  op_key :: nat
  op_ec :: "asio_error option"
  cancellation_key :: nat

record per_timer_data =
  waiting :: "wait_op list"
  heap_index :: nat
  next_timer :: "timer option"
  prev_timer :: "timer option"

record 'time timer_queue =
  timers :: "timer option"
  heap :: "('time \<times> timer) list"
  timer_data :: "timer \<Rightarrow> per_timer_data"

definition no_index :: nat where "no_index = 2 ^ 64 - 1"

definition new_timer :: per_timer_data where
  "new_timer = \<lparr>waiting = [], heap_index = no_index, next_timer = None, prev_timer = None\<rparr>"

definition new_queue :: "(timer \<Rightarrow> per_timer_data) \<Rightarrow> 'time timer_queue" where
  "new_queue d = \<lparr>timers = None, heap = [], timer_data = d\<rparr>"

definition at_timer :: "timer \<Rightarrow> (per_timer_data \<Rightarrow> per_timer_data) \<Rightarrow> 'time timer_queue \<Rightarrow> 'time timer_queue" where
  "at_timer t f q = q\<lparr>timer_data := (timer_data q)(t := f (timer_data q t))\<rparr>"

definition at_link :: "timer option \<Rightarrow> (per_timer_data \<Rightarrow> per_timer_data) \<Rightarrow> 'time timer_queue \<Rightarrow> 'time timer_queue" where
  "at_link p f q = (case p of None \<Rightarrow> q | Some t \<Rightarrow> at_timer t f q)"

lemma at_simps [simp]:
  "timers (at_timer t f q) = timers q" "heap (at_timer t f q) = heap q"
  "timer_data (at_timer t f q) = (timer_data q)(t := f (timer_data q t))"
  "timers (at_link p f q) = timers q" "heap (at_link p f q) = heap q"
  by (simp_all add: at_timer_def at_link_def split: option.splits)

subsection \<open>The heap\<close>

definition swap_heap :: "nat \<Rightarrow> nat \<Rightarrow> 'time timer_queue \<Rightarrow> 'time timer_queue" where
  "swap_heap i j q =
     (let tmp = heap q ! i;
          q = q\<lparr>heap := (heap q)[i := heap q ! j]\<rparr>;
          q = q\<lparr>heap := (heap q)[j := tmp]\<rparr>;
          q = at_timer (snd (heap q ! i)) (\<lambda>d. d\<lparr>heap_index := i\<rparr>) q
      in at_timer (snd (heap q ! j)) (\<lambda>d. d\<lparr>heap_index := j\<rparr>) q)"

lemma heap_swap_heap: "heap (swap_heap i j q) = (heap q)[i := heap q ! j, j := heap q ! i]"
  by (simp add: swap_heap_def Let_def)

lemma length_swap_heap [simp]: "length (heap (swap_heap i j q)) = length (heap q)"
  by (simp add: heap_swap_heap)

abbreviation time_at :: "'time timer_queue \<Rightarrow> nat \<Rightarrow> 'time" where
  "time_at q i \<equiv> fst (heap q ! i)"

function up_heap :: "nat \<Rightarrow> ('time::linorder) timer_queue \<Rightarrow> 'time timer_queue" where
  "up_heap index q =
     (if index > 0 then
        let parent = (index - 1) div 2 in
        if \<not> time_at q index < time_at q parent then q
        else up_heap parent (swap_heap index parent q)
      else q)"
  by pat_completeness auto
termination by (relation "measure fst") auto

declare up_heap.simps [simp del]

function down_heap :: "nat \<Rightarrow> ('time::linorder) timer_queue \<Rightarrow> 'time timer_queue" where
  "down_heap index q =
     (let child = index * 2 + 1 in
      if child < length (heap q) then
        let min_child = (if child + 1 = length (heap q) \<or> time_at q child < time_at q (child + 1)
                         then child else child + 1) in
        if time_at q index < time_at q min_child then q
        else down_heap min_child (swap_heap index min_child q)
      else q)"
  by pat_completeness auto
termination by (relation "measure (\<lambda>(i, q). length (heap q) - i)") auto

declare down_heap.simps [simp del]

subsection \<open>Timers\<close>

definition unlink :: "timer \<Rightarrow> 'time timer_queue \<Rightarrow> 'time timer_queue" where
  "unlink t q =
     (let q = (if timers q = Some t then q\<lparr>timers := next_timer (timer_data q t)\<rparr> else q);
          q = at_link (prev_timer (timer_data q t)) (\<lambda>d. d\<lparr>next_timer := next_timer (timer_data q t)\<rparr>) q;
          q = at_link (next_timer (timer_data q t)) (\<lambda>d. d\<lparr>prev_timer := prev_timer (timer_data q t)\<rparr>) q
      in at_timer t (\<lambda>d. d\<lparr>next_timer := None, prev_timer := None\<rparr>) q)"

definition leave_heap :: "timer \<Rightarrow> ('time::linorder) timer_queue \<Rightarrow> 'time timer_queue" where
  "leave_heap t q =
     (let index = heap_index (timer_data q t) in
      if heap q \<noteq> [] \<and> index < length (heap q) then
        if index = length (heap q) - 1 then
          let q = at_timer t (\<lambda>d. d\<lparr>heap_index := no_index\<rparr>) q in q\<lparr>heap := butlast (heap q)\<rparr>
        else
          let q = swap_heap index (length (heap q) - 1) q;
              q = at_timer t (\<lambda>d. d\<lparr>heap_index := no_index\<rparr>) q;
              q = q\<lparr>heap := butlast (heap q)\<rparr>
          in if index > 0 \<and> time_at q index < time_at q ((index - 1) div 2) then up_heap index q
             else down_heap index q
      else q)"

definition remove_timer :: "timer \<Rightarrow> ('time::linorder) timer_queue \<Rightarrow> 'time timer_queue" where
  "remove_timer t q = unlink t (leave_heap t q)"

definition link :: "timer \<Rightarrow> 'time timer_queue \<Rightarrow> 'time timer_queue" where
  "link t q =
     (let q = at_timer t (\<lambda>d. d\<lparr>next_timer := timers q, prev_timer := None\<rparr>) q;
          q = at_link (timers q) (\<lambda>d. d\<lparr>prev_timer := Some t\<rparr>) q
      in q\<lparr>timers := Some t\<rparr>)"

definition enter_heap :: "('time::linorder \<Rightarrow> bool) \<Rightarrow> 'time \<Rightarrow> timer \<Rightarrow> 'time timer_queue \<Rightarrow> 'time timer_queue" where
  "enter_heap is_inf time t q =
     (if is_inf time then at_timer t (\<lambda>d. d\<lparr>heap_index := no_index\<rparr>) q
      else
        let q = at_timer t (\<lambda>d. d\<lparr>heap_index := length (heap q)\<rparr>) q;
            q = q\<lparr>heap := heap q @ [(time, t)]\<rparr>
        in up_heap (length (heap q) - 1) q)"

definition inactive :: "'time timer_queue \<Rightarrow> timer \<Rightarrow> bool" where
  "inactive q t \<longleftrightarrow> prev_timer (timer_data q t) = None \<and> timers q \<noteq> Some t"

text \<open>The result says whether the reactor has to be woken.\<close>

definition enqueue_timer ::
  "('time::linorder \<Rightarrow> bool) \<Rightarrow> 'time \<Rightarrow> timer \<Rightarrow> wait_op \<Rightarrow> 'time timer_queue \<Rightarrow> bool \<times> 'time timer_queue" where
  "enqueue_timer is_inf time t op q =
     (let q = (if inactive q t then link t (enter_heap is_inf time t q) else q);
          q = at_timer t (\<lambda>d. d\<lparr>waiting := waiting d @ [op]\<rparr>) q
      in (heap_index (timer_data q t) = 0 \<and> hd (waiting (timer_data q t)) = op, q))"

definition queue_empty :: "'time timer_queue \<Rightarrow> bool" where
  "queue_empty q \<longleftrightarrow> timers q = None"

definition to_msec :: "int \<Rightarrow> int \<Rightarrow> int \<Rightarrow> int" where
  "to_msec ticks msec max_duration =
     (if ticks \<le> 0 then 0 else if msec = 0 then 1 else if msec > max_duration then max_duration else msec)"

text \<open>The clock tells how many ticks and whole milliseconds (or microseconds) it is until a time.\<close>

definition wait_duration_msec :: "('time \<Rightarrow> int \<times> int) \<Rightarrow> int \<Rightarrow> 'time timer_queue \<Rightarrow> int" where
  "wait_duration_msec until max_duration q =
     (if heap q = [] then max_duration
      else case until (time_at q 0) of (ticks, msec) \<Rightarrow> to_msec ticks msec max_duration)"

definition to_usec :: "int \<Rightarrow> int \<Rightarrow> int \<Rightarrow> int" where
  "to_usec ticks usec max_duration =
     (if ticks \<le> 0 then 0 else if usec = 0 then 1 else if usec > max_duration then max_duration else usec)"

definition wait_duration_usec :: "('time \<Rightarrow> int \<times> int) \<Rightarrow> int \<Rightarrow> 'time timer_queue \<Rightarrow> int" where
  "wait_duration_usec until max_duration q =
     (if heap q = [] then max_duration
      else case until (time_at q 0) of (ticks, usec) \<Rightarrow> to_usec ticks usec max_duration)"

primrec deliver :: "wait_op list \<Rightarrow> wait_op list \<Rightarrow> wait_op list" where
  "deliver [] ops = ops"
| "deliver (op # w) ops = deliver w (ops @ [op\<lparr>op_ec := None\<rparr>])"

partial_function (option) ready_loop ::
  "'time::linorder \<Rightarrow> 'time timer_queue \<Rightarrow> wait_op list \<Rightarrow> ('time timer_queue \<times> wait_op list) option" where
  "ready_loop now q ops =
     (if heap q \<noteq> [] \<and> \<not> now < time_at q 0 then
        let t = snd (heap q ! 0);
            ops = deliver (waiting (timer_data q t)) ops;
            q = at_timer t (\<lambda>d. d\<lparr>waiting := []\<rparr>) q
        in ready_loop now (remove_timer t q) ops
      else Some (q, ops))"

definition get_ready_timers ::
  "'time::linorder \<Rightarrow> 'time timer_queue \<Rightarrow> wait_op list \<Rightarrow> ('time timer_queue \<times> wait_op list) option" where
  "get_ready_timers now q ops = (if heap q \<noteq> [] then ready_loop now q ops else Some (q, ops))"

partial_function (option) all_loop ::
  "('time::linorder) timer_queue \<Rightarrow> wait_op list \<Rightarrow> ('time timer_queue \<times> wait_op list) option" where
  "all_loop q ops =
     (case timers q of
        None \<Rightarrow> Some (q, ops)
      | Some t \<Rightarrow>
          let q = q\<lparr>timers := next_timer (timer_data q t)\<rparr>;
              ops = ops @ waiting (timer_data q t);
              q = at_timer t (\<lambda>d. d\<lparr>waiting := [], next_timer := None, prev_timer := None\<rparr>) q
          in all_loop q ops)"

definition get_all_timers ::
  "('time::linorder) timer_queue \<Rightarrow> wait_op list \<Rightarrow> ('time timer_queue \<times> wait_op list) option" where
  "get_all_timers q ops = map_option (\<lambda>(q, ops). (q\<lparr>heap := []\<rparr>, ops)) (all_loop q ops)"

text \<open>The loop of \<open>cancel_timer\<close>: what stays, what is cancelled, how many.\<close>

fun cancel_loop :: "nat \<Rightarrow> wait_op list \<Rightarrow> wait_op list \<Rightarrow> nat \<Rightarrow> wait_op list \<times> wait_op list \<times> nat" where
  "cancel_loop max_cancelled w ops n =
     (if n \<noteq> max_cancelled then
        case w of
          [] \<Rightarrow> (w, ops, n)
        | op # w \<Rightarrow> cancel_loop max_cancelled w (ops @ [op\<lparr>op_ec := Some operation_aborted\<rparr>]) (n + 1)
      else (w, ops, n))"

definition cancel_timer ::
  "timer \<Rightarrow> wait_op list \<Rightarrow> nat \<Rightarrow> ('time::linorder) timer_queue \<Rightarrow> nat \<times> 'time timer_queue \<times> wait_op list" where
  "cancel_timer t ops max_cancelled q =
     (if \<not> inactive q t then
        case cancel_loop max_cancelled (waiting (timer_data q t)) ops 0 of (w, ops, n) \<Rightarrow>
          let q = at_timer t (\<lambda>d. d\<lparr>waiting := w\<rparr>) q
          in (n, if w = [] then remove_timer t q else q, ops)
      else (0, q, ops))"

primrec cancel_key_loop ::
  "nat \<Rightarrow> wait_op list \<Rightarrow> wait_op list \<Rightarrow> wait_op list \<Rightarrow> wait_op list \<times> wait_op list" where
  "cancel_key_loop key [] ops other_ops = (ops, other_ops)"
| "cancel_key_loop key (op # w) ops other_ops =
     (if cancellation_key op = key then cancel_key_loop key w (ops @ [op\<lparr>op_ec := Some operation_aborted\<rparr>]) other_ops
      else cancel_key_loop key w ops (other_ops @ [op]))"

definition cancel_timer_by_key ::
  "timer \<Rightarrow> wait_op list \<Rightarrow> nat \<Rightarrow> ('time::linorder) timer_queue \<Rightarrow> 'time timer_queue \<times> wait_op list" where
  "cancel_timer_by_key t ops key q =
     (if \<not> inactive q t then
        case cancel_key_loop key (waiting (timer_data q t)) ops [] of (ops, other_ops) \<Rightarrow>
          let q = at_timer t (\<lambda>d. d\<lparr>waiting := other_ops\<rparr>) q
          in (if other_ops = [] then remove_timer t q else q, ops)
      else (q, ops))"

definition move_waiting :: "timer \<Rightarrow> timer \<Rightarrow> 'time timer_queue \<Rightarrow> 'time timer_queue" where
  "move_waiting target source q =
     (let q = at_timer target (\<lambda>d. d\<lparr>waiting := waiting d @ waiting (timer_data q source)\<rparr>) q
      in at_timer source (\<lambda>d. d\<lparr>waiting := []\<rparr>) q)"

definition move_entry :: "timer \<Rightarrow> timer \<Rightarrow> 'time timer_queue \<Rightarrow> 'time timer_queue" where
  "move_entry target source q =
     (let q = at_timer target (\<lambda>d. d\<lparr>heap_index := heap_index (timer_data q source)\<rparr>) q;
          q = at_timer source (\<lambda>d. d\<lparr>heap_index := no_index\<rparr>) q;
          i = heap_index (timer_data q target)
      in if i < length (heap q) then q\<lparr>heap := (heap q)[i := (time_at q i, target)]\<rparr> else q)"

definition move_links :: "timer \<Rightarrow> timer \<Rightarrow> 'time timer_queue \<Rightarrow> 'time timer_queue" where
  "move_links target source q =
     (let q = (if timers q = Some source then q\<lparr>timers := Some target\<rparr> else q);
          q = at_link (prev_timer (timer_data q source)) (\<lambda>d. d\<lparr>next_timer := Some target\<rparr>) q;
          q = at_link (next_timer (timer_data q source)) (\<lambda>d. d\<lparr>prev_timer := Some target\<rparr>) q;
          q = at_timer target (\<lambda>d. d\<lparr>next_timer := next_timer (timer_data q source)\<rparr>) q;
          q = at_timer target (\<lambda>d. d\<lparr>prev_timer := prev_timer (timer_data q source)\<rparr>) q
      in at_timer source (\<lambda>d. d\<lparr>next_timer := None, prev_timer := None\<rparr>) q)"

definition move_timer :: "timer \<Rightarrow> timer \<Rightarrow> 'time timer_queue \<Rightarrow> 'time timer_queue" where
  "move_timer target source q = move_links target source (move_entry target source (move_waiting target source q))"

end
