(* ===== verification/Timer_Properties.thy ===== *)
theory Timer_Properties
  imports Timer_Queue
begin

text \<open>
  The invariant of a timer queue and what its operations do: the heap is ordered and every
  timer in it knows its index, the active timers form one doubly linked list, and
  exactly the active timers have operations waiting.
\<close>

subsection \<open>The heap\<close>

definition par :: "nat \<Rightarrow> nat" where "par i = (i - 1) div 2"

lemma par_less: "0 < i \<Longrightarrow> par i < i"
  by (auto simp: par_def)

lemma par_iff: "0 < i \<Longrightarrow> par i = k \<longleftrightarrow> i = k * 2 + 1 \<or> i = k * 2 + 2"
  unfolding par_def by arith

definition ordered :: "('time::linorder \<times> timer) list \<Rightarrow> bool" where
  "ordered h \<longleftrightarrow> (\<forall>i. 0 < i \<longrightarrow> i < length h \<longrightarrow> fst (h ! par i) \<le> fst (h ! i))"

text \<open>Ordered but for the entry \<open>k\<close>, which may be too early, or too late, for its place.\<close>

definition bridged :: "('time::linorder \<times> timer) list \<Rightarrow> nat \<Rightarrow> bool" where
  "bridged h k \<longleftrightarrow> (\<forall>i. 0 < i \<longrightarrow> i < length h \<longrightarrow> par i = k \<longrightarrow> 0 < k \<longrightarrow> fst (h ! par k) \<le> fst (h ! i))"

definition ordered_above :: "('time::linorder \<times> timer) list \<Rightarrow> nat \<Rightarrow> bool" where
  "ordered_above h k \<longleftrightarrow> (\<forall>i. 0 < i \<longrightarrow> i < length h \<longrightarrow> i \<noteq> k \<longrightarrow> fst (h ! par i) \<le> fst (h ! i)) \<and> bridged h k"

definition ordered_below :: "('time::linorder \<times> timer) list \<Rightarrow> nat \<Rightarrow> bool" where
  "ordered_below h k \<longleftrightarrow> (\<forall>i. 0 < i \<longrightarrow> i < length h \<longrightarrow> par i \<noteq> k \<longrightarrow> fst (h ! par i) \<le> fst (h ! i)) \<and> bridged h k"

abbreviation swapped :: "'a list \<Rightarrow> nat \<Rightarrow> nat \<Rightarrow> 'a list" where
  "swapped h i j \<equiv> h[i := h ! j, j := h ! i]"

lemma nth_swapped:
  "i < length h \<Longrightarrow> j < length h \<Longrightarrow> swapped h i j ! k = (if k = i then h ! j else if k = j then h ! i else h ! k)"
  by (simp add: nth_list_update)

lemma ordered_above_stop: "ordered_above h k \<Longrightarrow> k = 0 \<or> \<not> fst (h ! k) < fst (h ! par k) \<Longrightarrow> ordered h"
  by (auto simp: ordered_above_def ordered_def not_less)

lemma ordered_above_step:
  assumes "ordered_above h k" "0 < k" "k < length h" "fst (h ! k) < fst (h ! par k)"
  shows "ordered_above (swapped h k (par k)) (par k)"
proof -
  have pk: "par k < k" "par k < length h" using par_less [OF assms(2)] assms(3) by auto
  note nth = nth_swapped [OF assms(3) pk(2)]
  have H: "fst (h ! par i) \<le> fst (h ! i)" if "0 < i" "i < length h" "i \<noteq> k" for i
    using assms(1) that by (simp add: ordered_above_def)
  have B: "fst (h ! par k) \<le> fst (h ! i)" if "0 < i" "i < length h" "par i = k" for i
    using assms(1, 2) that by (simp add: ordered_above_def bridged_def)
  show ?thesis unfolding ordered_above_def bridged_def
  proof (intro conjI allI impI)
    fix i assume i: "0 < i" "i < length (swapped h k (par k))" "i \<noteq> par k"
    have "par i \<noteq> i" using par_less [OF i(1)] by simp
    consider "i = k" | "i \<noteq> k" "par i = k" | "i \<noteq> k" "par i \<noteq> k" "par i = par k"
      | "i \<noteq> k" "par i \<noteq> k" "par i \<noteq> par k" by blast
    then show "fst (swapped h k (par k) ! par i) \<le> fst (swapped h k (par k) ! i)"
    proof cases
      case 1
      then show ?thesis using nth pk assms(4) by simp
    next
      case 2
      then show ?thesis using nth pk B [of i] i by simp
    next
      case 3
      then have "fst (h ! par k) \<le> fst (h ! i)" using H [of i] i by simp
      with 3 show ?thesis using nth pk assms(4) i by simp
    next
      case 4
      then show ?thesis using nth pk H [of i] i by simp
    qed
  next
    fix i assume i: "0 < i" "i < length (swapped h k (par k))" "par i = par k" "0 < par k"
    have "par (par k) < par k" using par_less [OF i(4)] .
    then show "fst (swapped h k (par k) ! par (par k)) \<le> fst (swapped h k (par k) ! i)"
      using nth pk par_less [OF i(1)] H [of i] H [of "par k"] i assms(4) by (cases "i = k") auto
  qed
qed

lemma ordered_below_step:
  assumes "ordered_below h k" "k < length h" "par c = k" "0 < c" "c < length h"
    "\<And>i. 0 < i \<Longrightarrow> i < length h \<Longrightarrow> par i = k \<Longrightarrow> fst (h ! c) \<le> fst (h ! i)"
    "fst (h ! c) \<le> fst (h ! k)"
  shows "ordered_below (swapped h k c) c"
proof -
  have kc: "k < c" using par_less [OF assms(4)] assms(3) by simp
  note nth = nth_swapped [OF assms(2, 5)]
  have H: "fst (h ! par i) \<le> fst (h ! i)" if "0 < i" "i < length h" "par i \<noteq> k" for i
    using assms(1) that by (simp add: ordered_below_def)
  have B: "fst (h ! par k) \<le> fst (h ! i)" if "0 < i" "i < length h" "par i = k" "0 < k" for i
    using assms(1) that by (simp add: ordered_below_def bridged_def)
  show ?thesis unfolding ordered_below_def bridged_def
  proof (intro conjI allI impI)
    fix i assume i: "0 < i" "i < length (swapped h k c)" "par i \<noteq> c"
    have ik: "par i \<noteq> i" using par_less [OF i(1)] by simp
    show "fst (swapped h k c ! par i) \<le> fst (swapped h k c ! i)"
    proof (cases "par i = k")
      case True
      then show ?thesis using nth kc assms(3, 7) assms(6) [of i] i ik by (cases "i = c") auto
    next
      case False
      then show ?thesis using nth kc assms(3, 4, 5) i ik H [of i] B [of c] by (cases "i = k") auto
    qed
  next
    fix i assume i: "0 < i" "i < length (swapped h k c)" "par i = c" "0 < c"
    have "i \<noteq> c" "i \<noteq> k" using par_less [OF i(1)] i(3) kc by auto
    moreover have "par i \<noteq> k" using i(3) kc by simp
    ultimately show "fst (swapped h k c ! par c) \<le> fst (swapped h k c ! i)"
      using nth kc assms(3) H [of i] i by simp
  qed
qed

lemma ordered_below_stop:
  assumes "ordered_below h k" "\<And>i. 0 < i \<Longrightarrow> i < length h \<Longrightarrow> par i = k \<Longrightarrow> fst (h ! k) \<le> fst (h ! i)"
  shows "ordered h"
  unfolding ordered_def
proof (intro allI impI)
  fix i assume i: "0 < i" "i < length h"
  show "fst (h ! par i) \<le> fst (h ! i)"
    using assms i by (cases "par i = k") (auto simp: ordered_below_def)
qed

lemma ordered_root: "ordered h \<Longrightarrow> i < length h \<Longrightarrow> fst (h ! 0) \<le> fst (h ! i)"
proof (induction i rule: less_induct)
  case (less i)
  show ?case
  proof (cases "i = 0")
    case False
    then have "par i < i" "fst (h ! par i) \<le> fst (h ! i)" using less par_less by (auto simp: ordered_def)
    with less.IH [of "par i"] less.prems show ?thesis by (meson order_trans order_less_trans)
  qed simp
qed

text \<open>What the heap operations leave alone, and the index that every timer in the heap keeps.\<close>

definition linked :: "'time timer_queue \<Rightarrow> bool" where
  "linked q \<longleftrightarrow> (\<forall>i < length (heap q). heap_index (timer_data q (snd (heap q ! i))) = i)"

definition in_heap :: "'time timer_queue \<Rightarrow> timer set" where
  "in_heap q = snd ` set (heap q)"

definition only_heap :: "'time timer_queue \<Rightarrow> 'time timer_queue \<Rightarrow> bool" where
  "only_heap q q' \<longleftrightarrow> timers q' = timers q \<and>
     (\<forall>t. waiting (timer_data q' t) = waiting (timer_data q t) \<and>
       next_timer (timer_data q' t) = next_timer (timer_data q t) \<and>
       prev_timer (timer_data q' t) = prev_timer (timer_data q t))"

lemma only_heap_trans: "only_heap q r \<Longrightarrow> only_heap r s \<Longrightarrow> only_heap q s"
  by (simp add: only_heap_def)

lemma only_heap_refl [simp]: "only_heap q q"
  by (simp add: only_heap_def)

lemma linked_inj: "linked q \<Longrightarrow> i < length (heap q) \<Longrightarrow> j < length (heap q) \<Longrightarrow>
  snd (heap q ! i) = snd (heap q ! j) \<longleftrightarrow> i = j"
  unfolding linked_def by metis

lemma swap_heap_data:
  "timer_data (swap_heap i j q) = (let d = timer_data q; h = swapped (heap q) i j;
     d = d(snd (h ! i) := (d (snd (h ! i)))\<lparr>heap_index := i\<rparr>)
   in d(snd (h ! j) := (d (snd (h ! j)))\<lparr>heap_index := j\<rparr>))"
  by (simp add: swap_heap_def Let_def)

lemma swap_heap_only: "only_heap q (swap_heap i j q)"
  by (simp add: only_heap_def swap_heap_data Let_def) (simp add: swap_heap_def Let_def)

lemma swap_heap_linked:
  assumes "linked q" "i < length (heap q)" "j < length (heap q)"
  shows "linked (swap_heap i j q)" "mset (heap (swap_heap i j q)) = mset (heap q)"
    "\<And>t. t \<notin> in_heap q \<Longrightarrow> timer_data (swap_heap i j q) t = timer_data q t"
proof -
  note nth = nth_swapped [OF assms(2, 3)]
  show "mset (heap (swap_heap i j q)) = mset (heap q)"
    using assms(2, 3) by (simp add: heap_swap_heap mset_swap)
  show "timer_data (swap_heap i j q) t = timer_data q t" if "t \<notin> in_heap q" for t
    using that assms nth by (auto simp: swap_heap_data Let_def in_heap_def)
  have L: "heap_index (timer_data q (snd (heap q ! k))) = k" if "k < length (heap q)" for k
    using assms(1) that by (simp add: linked_def)
  note inj = linked_inj [OF assms(1)]
  show "linked (swap_heap i j q)"
    unfolding linked_def
  proof (intro allI impI)
    fix k assume "k < length (heap (swap_heap i j q))"
    then have k: "k < length (heap q)" by simp
    show "heap_index (timer_data (swap_heap i j q) (snd (heap (swap_heap i j q) ! k))) = k"
      using nth assms(2, 3) k inj [of k i] inj [of k j] inj [of i j] L [OF k]
      by (cases "k = i"; cases "k = j") (simp_all add: swap_heap_data heap_swap_heap Let_def)
  qed
qed

text \<open>What moving an entry through the heap guarantees.\<close>

definition sifted :: "('time::linorder) timer_queue \<Rightarrow> 'time timer_queue \<Rightarrow> bool" where
  "sifted q q' \<longleftrightarrow> linked q' \<and> ordered (heap q') \<and> mset (heap q') = mset (heap q) \<and> only_heap q q' \<and>
     (\<forall>t. t \<notin> in_heap q \<longrightarrow> timer_data q' t = timer_data q t)"

lemma in_heap_mset: "mset (heap q) = mset (heap q') \<Longrightarrow> in_heap q = in_heap q'"
  unfolding in_heap_def by (metis set_mset_mset)

lemma sifted_step:
  assumes "linked q" "i < length (heap q)" "j < length (heap q)" "sifted (swap_heap i j q) q'"
  shows "sifted q q'"
  using assms swap_heap_linked [OF assms(1-3)] only_heap_trans [OF swap_heap_only [of q i j]]
    in_heap_mset [of "swap_heap i j q" q]
  by (auto simp: sifted_def)

lemma up_heap_eq:
  "up_heap k q = (if 0 < k \<and> time_at q k < time_at q (par k) then up_heap (par k) (swap_heap k (par k) q) else q)"
  by (subst up_heap.simps) (simp add: par_def Let_def)

lemma up_heap_sifted:
  "linked q \<Longrightarrow> k < length (heap q) \<Longrightarrow> ordered_above (heap q) k \<Longrightarrow> sifted q (up_heap k q)"
proof (induction k arbitrary: q rule: less_induct)
  case (less k q)
  show ?case
  proof (cases "0 < k \<and> time_at q k < time_at q (par k)")
    case True
    then have pk: "par k < k" "par k < length (heap q)" using less.prems(2) par_less [of k] by simp_all
    have "sifted (swap_heap k (par k) q) (up_heap (par k) (swap_heap k (par k) q))"
    proof (rule less.IH [OF pk(1)])
      show "linked (swap_heap k (par k) q)" by (rule swap_heap_linked(1) [OF less.prems(1, 2) pk(2)])
      show "par k < length (heap (swap_heap k (par k) q))" using pk(2) by simp
      show "ordered_above (heap (swap_heap k (par k) q)) (par k)"
        unfolding heap_swap_heap using True less.prems by (intro ordered_above_step) auto
    qed
    from sifted_step [OF less.prems(1, 2) pk(2) this] True show ?thesis by (subst up_heap_eq) simp
  next
    case False
    then have "ordered (heap q)" using ordered_above_stop [OF less.prems(3)] by auto
    then show ?thesis using False less.prems(1) by (subst up_heap_eq) (auto simp: sifted_def)
  qed
qed

definition min_child :: "('time::linorder \<times> timer) list \<Rightarrow> nat \<Rightarrow> nat" where
  "min_child h k = (if k * 2 + 1 + 1 = length h \<or> fst (h ! (k * 2 + 1)) < fst (h ! (k * 2 + 1 + 1))
     then k * 2 + 1 else k * 2 + 1 + 1)"

lemma min_child_facts:
  assumes "k * 2 + 1 < length h"
  shows "min_child h k < length h" "0 < min_child h k" "par (min_child h k) = k"
    "\<And>i. 0 < i \<Longrightarrow> i < length h \<Longrightarrow> par i = k \<Longrightarrow> fst (h ! min_child h k) \<le> fst (h ! i)"
proof -
  show "min_child h k < length h" "0 < min_child h k" using assms by (auto simp: min_child_def)
  show "par (min_child h k) = k" using par_iff [of "min_child h k" k] by (simp add: min_child_def)
  show "fst (h ! min_child h k) \<le> fst (h ! i)" if "0 < i" "i < length h" "par i = k" for i
  proof -
    have "i = k * 2 + 1 \<or> i = k * 2 + 1 + 1" using that par_iff [of i k] by simp
    then show ?thesis using that(2) by (auto simp: min_child_def)
  qed
qed

lemma down_heap_eq:
  "down_heap k q = (if k * 2 + 1 < length (heap q) \<and> \<not> time_at q k < time_at q (min_child (heap q) k)
     then down_heap (min_child (heap q) k) (swap_heap k (min_child (heap q) k) q) else q)"
  by (subst down_heap.simps) (simp only: Let_def min_child_def [symmetric] split: if_split, blast)

lemma down_heap_sifted:
  "linked q \<Longrightarrow> k < length (heap q) \<Longrightarrow> ordered_below (heap q) k \<Longrightarrow> sifted q (down_heap k q)"
proof (induction "length (heap q) - k" arbitrary: k q rule: less_induct)
  case (less k q)
  let ?c = "min_child (heap q) k"
  show ?case
  proof (cases "k * 2 + 1 < length (heap q) \<and> \<not> time_at q k < time_at q ?c")
    case True
    then have "k * 2 + 1 < length (heap q)" by blast
    note c = min_child_facts [OF this]
    have kc: "k < ?c" using par_less [OF c(2)] c(3) by simp
    have "sifted (swap_heap k ?c q) (down_heap ?c (swap_heap k ?c q))"
    proof (rule less.hyps)
      show "length (heap (swap_heap k ?c q)) - ?c < length (heap q) - k" using kc c(1) by simp
      show "linked (swap_heap k ?c q)" by (rule swap_heap_linked(1) [OF less.prems(1, 2) c(1)])
      show "?c < length (heap (swap_heap k ?c q))" using c(1) by simp
      show "ordered_below (heap (swap_heap k ?c q)) ?c"
        unfolding heap_swap_heap
        by (rule ordered_below_step [OF less.prems(3, 2) c(3, 2, 1)]) (use c(4) True in \<open>auto simp: not_less\<close>)
    qed
    from sifted_step [OF less.prems(1, 2) c(1) this] True show ?thesis by (subst down_heap_eq) simp
  next
    case stop: False
    have "ordered (heap q)"
    proof (rule ordered_below_stop [OF less.prems(3)])
      fix i assume i: "0 < i" "i < length (heap q)" "par i = k"
      then have "k * 2 + 1 < length (heap q)" using par_iff [of i k] by linarith
      with stop min_child_facts(4) [OF this i] show "time_at q k \<le> time_at q i" by auto
    qed
    then show ?thesis using less.prems(1) stop by (subst down_heap_eq) (auto simp: sifted_def)
  qed
qed

lemma linked_distinct: "linked q \<Longrightarrow> distinct (map snd (heap q))"
  using linked_inj [of q] by (simp add: distinct_conv_nth)

lemma left_heap: "linked q \<Longrightarrow> add_mset (time, t) (mset h) = mset (heap q) \<Longrightarrow> t \<notin> snd ` set h"
proof -
  assume "linked q" and m: "add_mset (time, t) (mset h) = mset (heap q)"
  then have "distinct (map snd (heap q))" by (simp add: linked_distinct)
  moreover have "mset (t # map snd h) = mset (map snd (heap q))"
    using arg_cong [OF m, of "image_mset snd"] by simp
  ultimately have "distinct (t # map snd h)" using mset_eq_imp_distinct_iff by blast
  then show ?thesis by simp
qed

definition heap_ok :: "('time::linorder) timer_queue \<Rightarrow> bool" where
  "heap_ok q \<longleftrightarrow> linked q \<and> ordered (heap q)"

lemma sifted_ok: "sifted q q' \<Longrightarrow> heap_ok q'"
  by (simp add: sifted_def heap_ok_def)

text \<open>A timer enters the heap.\<close>

definition pushed :: "'time \<Rightarrow> timer \<Rightarrow> 'time timer_queue \<Rightarrow> 'time timer_queue" where
  "pushed time t q = (at_timer t (\<lambda>d. d\<lparr>heap_index := length (heap q)\<rparr>) q)\<lparr>heap := heap q @ [(time, t)]\<rparr>"

lemma enter_heap_eq:
  "enter_heap is_inf time t q =
     (if is_inf time then at_timer t (\<lambda>d. d\<lparr>heap_index := no_index\<rparr>) q
      else up_heap (length (heap q)) (pushed time t q))"
  by (simp add: enter_heap_def pushed_def Let_def)

lemma pushed_facts:
  assumes "heap_ok q" "t \<notin> in_heap q"
  shows "linked (pushed time t q)" "ordered_above (heap (pushed time t q)) (length (heap q))"
    "only_heap q (pushed time t q)"
proof -
  show "linked (pushed time t q)"
    using assms by (auto simp: heap_ok_def linked_def pushed_def nth_append in_heap_def less_Suc_eq)
  show "only_heap q (pushed time t q)" by (simp add: only_heap_def pushed_def)
  show "ordered_above (heap (pushed time t q)) (length (heap q))"
    unfolding ordered_above_def bridged_def
  proof (intro conjI allI impI)
    fix i assume "0 < i" "i < length (heap (pushed time t q))" "i \<noteq> length (heap q)"
    then show "fst (heap (pushed time t q) ! par i) \<le> fst (heap (pushed time t q) ! i)"
      using assms(1) par_less [of i] by (auto simp: heap_ok_def ordered_def pushed_def nth_append)
  next
    fix i assume "0 < i" "i < length (heap (pushed time t q))" "par i = length (heap q)"
    then show "fst (heap (pushed time t q) ! par (length (heap q))) \<le> fst (heap (pushed time t q) ! i)"
      using par_less [of i] by (simp add: pushed_def)
  qed
qed

lemma enter_heap_facts:
  fixes q :: "('time::linorder) timer_queue" and is_inf :: "'time \<Rightarrow> bool" and time :: 'time
  assumes "heap_ok q" "t \<notin> in_heap q"
  defines "q' \<equiv> enter_heap is_inf time t q"
  shows "heap_ok q'" "only_heap q q'"
    "mset (heap q') = (if is_inf time then mset (heap q) else add_mset (time, t) (mset (heap q)))"
    "is_inf time \<Longrightarrow> heap_index (timer_data q' t) = no_index"
    "\<And>u. u \<noteq> t \<Longrightarrow> u \<notin> in_heap q \<Longrightarrow> timer_data q' u = timer_data q u"
proof -
  have s: "sifted (pushed time t q) (up_heap (length (heap q)) (pushed time t q))"
    using pushed_facts [OF assms(1, 2)] by (intro up_heap_sifted) (simp_all add: pushed_def)
  show "heap_ok q'"
  proof (cases "is_inf time")
    case True
    then show ?thesis using assms(1, 2)
      by (auto simp: q'_def enter_heap_eq heap_ok_def linked_def in_heap_def)
  qed (use sifted_ok [OF s] in \<open>simp add: q'_def enter_heap_eq\<close>)
  show "only_heap q q'"
  proof (cases "is_inf time")
    case False
    have "only_heap (pushed time t q) (up_heap (length (heap q)) (pushed time t q))"
      using s by (simp add: sifted_def)
    with False show ?thesis using only_heap_trans [OF pushed_facts(3) [OF assms(1, 2), of time]]
      by (simp add: q'_def enter_heap_eq)
  qed (simp add: q'_def enter_heap_eq only_heap_def)
  show "mset (heap q') = (if is_inf time then mset (heap q) else add_mset (time, t) (mset (heap q)))"
    using s by (simp add: q'_def enter_heap_eq sifted_def) (simp add: pushed_def)
  show "heap_index (timer_data q' t) = no_index" if "is_inf time" using that by (simp add: q'_def enter_heap_eq)
  show "timer_data q' u = timer_data q u" if "u \<noteq> t" "u \<notin> in_heap q" for u
  proof (cases "is_inf time")
    case False
    have "u \<notin> in_heap (pushed time t q)" using that by (simp add: pushed_def in_heap_def)
    with False s show ?thesis using that
      by (simp add: q'_def enter_heap_eq sifted_def) (simp add: pushed_def)
  qed (use that in \<open>simp add: q'_def enter_heap_eq\<close>)
qed

text \<open>A timer leaves the heap.\<close>

lemma butlast_swapped:
  assumes "k < length h - 1"
  shows "length (butlast (swapped h k (length h - 1))) = length h - 1"
    "\<And>i. i < length h - 1 \<Longrightarrow> butlast (swapped h k (length h - 1)) ! i = (if i = k then h ! (length h - 1) else h ! i)"
    "add_mset (h ! k) (mset (butlast (swapped h k (length h - 1)))) = mset h"
proof -
  let ?s = "swapped h k (length h - 1)"
  have len: "k < length h" "length h - 1 < length h" using assms by auto
  note nth = nth_swapped [OF len]
  show "length (butlast ?s) = length h - 1" by simp
  show "butlast ?s ! i = (if i = k then h ! (length h - 1) else h ! i)" if "i < length h - 1" for i
    using that nth [of i] by (simp add: nth_butlast)
  have "?s \<noteq> []" using len by auto
  moreover have "last ?s = h ! k" using len nth [of "length h - 1"] by (subst last_conv_nth) auto
  ultimately have "?s = butlast ?s @ [h ! k]" by (metis append_butlast_last_id)
  then have "mset ?s = mset (butlast ?s @ [h ! k])" by (rule arg_cong)
  then have "mset ?s = add_mset (h ! k) (mset (butlast ?s))" by simp
  then show "add_mset (h ! k) (mset (butlast ?s)) = mset h" using mset_swap [OF len(2, 1)] by simp
qed

definition shrunk :: "nat \<Rightarrow> 'time timer_queue \<Rightarrow> 'time timer_queue" where
  "shrunk k q = (let t = snd (heap q ! k); q = swap_heap k (length (heap q) - 1) q;
     q = at_timer t (\<lambda>d. d\<lparr>heap_index := no_index\<rparr>) q in q\<lparr>heap := butlast (heap q)\<rparr>)"

lemma shrunk_facts:
  assumes "heap_ok q" "k < length (heap q) - 1"
  shows "heap (shrunk k q) = butlast (swapped (heap q) k (length (heap q) - 1))"
    "linked (shrunk k q)" "only_heap q (shrunk k q)"
    "heap_index (timer_data (shrunk k q) (snd (heap q ! k))) = no_index"
    "\<And>u. u \<notin> in_heap q \<Longrightarrow> timer_data (shrunk k q) u = timer_data q u"
proof -
  let ?n = "length (heap q) - 1" and ?t = "snd (heap q ! k)"
  have len: "k < length (heap q)" "?n < length (heap q)" using assms(2) by auto
  have L: "linked q" using assms(1) by (simp add: heap_ok_def)
  note swap = swap_heap_linked [OF L len]
  show heap: "heap (shrunk k q) = butlast (swapped (heap q) k ?n)"
    by (simp add: shrunk_def Let_def heap_swap_heap)
  show "only_heap q (shrunk k q)"
    using swap_heap_only [of q k ?n] by (simp add: only_heap_def shrunk_def Let_def)
  show "heap_index (timer_data (shrunk k q) ?t) = no_index" by (simp add: shrunk_def Let_def)
  show "timer_data (shrunk k q) u = timer_data q u" if "u \<notin> in_heap q" for u
    using that swap(3) [OF that] len(1) by (auto simp: shrunk_def Let_def in_heap_def)
  show "linked (shrunk k q)"
    unfolding linked_def heap
  proof (intro allI impI)
    fix i assume "i < length (butlast (swapped (heap q) k ?n))"
    then have i: "i < ?n" by simp
    have e: "butlast (swapped (heap q) k ?n) ! i = heap (swap_heap k ?n q) ! i"
      using i by (simp add: nth_butlast heap_swap_heap)
    have "heap (swap_heap k ?n q) ! ?n = heap q ! k"
      using nth_swapped [OF len, of ?n] assms(2) by (simp add: heap_swap_heap)
    then have "snd (heap (swap_heap k ?n q) ! i) \<noteq> ?t"
      using linked_inj [OF swap(1), of i ?n] i len by simp
    moreover have "heap_index (timer_data (swap_heap k ?n q) (snd (heap (swap_heap k ?n q) ! i))) = i"
      using swap(1) i by (simp add: linked_def)
    ultimately show "heap_index (timer_data (shrunk k q) (snd (butlast (swapped (heap q) k ?n) ! i))) = i"
      unfolding e by (simp add: shrunk_def Let_def)
  qed
qed

lemma shrunk_ordered:
  assumes "heap_ok q" "k < length (heap q) - 1"
  defines "h \<equiv> heap (shrunk k q)"
  shows "0 < k \<Longrightarrow> fst (h ! k) < fst (h ! par k) \<Longrightarrow> ordered_above h k"
    "\<not> (0 < k \<and> fst (h ! k) < fst (h ! par k)) \<Longrightarrow> ordered_below h k"
proof -
  let ?g = "heap q"
  have h: "length h = length ?g - 1"
    "\<And>i. i < length h \<Longrightarrow> h ! i = (if i = k then ?g ! (length ?g - 1) else ?g ! i)"
    using butlast_swapped [OF assms(2)] shrunk_facts(1) [OF assms(1, 2)] by (simp_all add: h_def)
  have G: "fst (?g ! par i) \<le> fst (?g ! i)" if "0 < i" "i < length ?g" for i
    using assms(1) that by (simp add: heap_ok_def ordered_def)
  have away: "fst (h ! par i) \<le> fst (h ! i)" if "0 < i" "i < length h" "i \<noteq> k" "par i \<noteq> k" for i
    using h G [of i] that par_less [of i] by simp
  have bridge: "bridged h k"
    unfolding bridged_def
  proof (intro allI impI)
    fix i assume i: "0 < i" "i < length h" "par i = k" "0 < k"
    have "i \<noteq> k" "par k \<noteq> k" using par_less [OF i(1)] par_less [OF i(4)] i(3) by auto
    moreover have "fst (?g ! par k) \<le> fst (?g ! i)" using G [of i] G [of k] i assms(2) h(1) order_trans by fastforce
    ultimately show "fst (h ! par k) \<le> fst (h ! i)" using h i assms(2) par_less [OF i(4)] by simp
  qed
  show "ordered_above h k" if k: "0 < k" "fst (h ! k) < fst (h ! par k)"
    unfolding ordered_above_def
  proof (intro conjI allI impI bridge)
    fix i assume i: "0 < i" "i < length h" "i \<noteq> k"
    show "fst (h ! par i) \<le> fst (h ! i)"
    proof (cases "par i = k")
      case True
      then have "fst (h ! par k) \<le> fst (h ! i)" using bridge k(1) i by (simp add: bridged_def)
      then show ?thesis using k(2) True by (metis less_imp_le order_trans)
    qed (use away i in blast)
  qed
  show "ordered_below h k" if k: "\<not> (0 < k \<and> fst (h ! k) < fst (h ! par k))"
    unfolding ordered_below_def
  proof (intro conjI allI impI bridge)
    fix i assume i: "0 < i" "i < length h" "par i \<noteq> k"
    show "fst (h ! par i) \<le> fst (h ! i)"
      using away i k by (cases "i = k") (auto simp: not_less)
  qed
qed

lemma leave_heap_eq:
  assumes "linked q" "k < length (heap q)" "t = snd (heap q ! k)"
  shows "leave_heap t q =
    (if k = length (heap q) - 1 then (at_timer t (\<lambda>d. d\<lparr>heap_index := no_index\<rparr>) q)\<lparr>heap := butlast (heap q)\<rparr>
     else if 0 < k \<and> time_at (shrunk k q) k < time_at (shrunk k q) (par k) then up_heap k (shrunk k q)
     else down_heap k (shrunk k q))"
proof -
  have "heap_index (timer_data q t) = k" "heap q \<noteq> []" using assms by (auto simp: linked_def)
  then show ?thesis using assms(2, 3) by (simp add: leave_heap_def shrunk_def Let_def par_def)
qed

lemma leave_heap_facts:
  fixes q :: "('time::linorder) timer_queue"
  assumes "heap_ok q" "(time, t) \<in> set (heap q)"
  defines "q' \<equiv> leave_heap t q"
  shows "heap_ok q' \<and> only_heap q q' \<and> add_mset (time, t) (mset (heap q')) = mset (heap q) \<and>
    heap_index (timer_data q' t) = no_index \<and> (\<forall>u. u \<notin> in_heap q \<longrightarrow> timer_data q' u = timer_data q u)"
proof -
  have L: "linked q" using assms(1) by (simp add: heap_ok_def)
  obtain k where k: "k < length (heap q)" "heap q ! k = (time, t)" using assms(2) by (auto simp: in_set_conv_nth)
  then have t: "t = snd (heap q ! k)" by simp
  note eq = leave_heap_eq [OF L k(1) t, folded q'_def]
  show ?thesis
  proof (cases "k = length (heap q) - 1")
    case True
    have last: "heap q = butlast (heap q) @ [(time, t)]"
      using k True by (metis append_butlast_last_id last_conv_nth list.size(3) not_less_zero)
    have "mset (butlast (heap q) @ [(time, t)]) = mset (heap q)" using last by metis
    moreover have "ordered (butlast (heap q))"
      unfolding ordered_def
    proof (intro allI impI)
      fix i assume i: "0 < i" "i < length (butlast (heap q))"
      then have "par i < length (butlast (heap q))" using par_less [OF i(1)] by simp
      then show "fst (butlast (heap q) ! par i) \<le> fst (butlast (heap q) ! i)"
        using i assms(1) by (simp add: nth_butlast heap_ok_def ordered_def)
    qed
    moreover have "linked q'"
      unfolding linked_def
    proof (intro allI impI)
      fix i assume "i < length (heap q')"
      then have i: "i < length (heap q) - 1" using eq True by simp
      then have "snd (heap q ! i) \<noteq> t" using linked_inj [OF L, of i k] t True by simp
      then show "heap_index (timer_data q' (snd (heap q' ! i))) = i"
        using i L eq True by (simp add: nth_butlast linked_def)
    qed
    moreover have "\<forall>u. u \<notin> in_heap q \<longrightarrow> timer_data q' u = timer_data q u"
      using eq True t k by (auto simp: in_heap_def)
    ultimately show ?thesis using eq True by (simp add: heap_ok_def only_heap_def)
  next
    case False
    then have k': "k < length (heap q) - 1" using k(1) by linarith
    note sh = shrunk_facts [OF assms(1) k'] and ord = shrunk_ordered [OF assms(1) k']
    have klen: "k < length (heap (shrunk k q))" using butlast_swapped(1) [OF k'] k' sh(1) by simp
    have sift: "sifted (shrunk k q) q'"
      using eq False ord up_heap_sifted [OF sh(2) klen] down_heap_sifted [OF sh(2) klen] by simp
    have m: "add_mset (time, t) (mset (heap (shrunk k q))) = mset (heap q)"
      using butlast_swapped(3) [OF k'] sh(1) k(2) by simp
    have out: "t \<notin> in_heap (shrunk k q)" unfolding in_heap_def by (rule left_heap [OF L m])
    have "in_heap (shrunk k q) \<subseteq> in_heap q" unfolding in_heap_def using arg_cong [OF m, of set_mset] by auto
    then show ?thesis
      using sift sh m out sifted_ok [OF sift] only_heap_trans [OF sh(3), of q'] t by (auto simp: sifted_def)
  qed
qed

subsection \<open>The list of active timers\<close>

definition first :: "timer list \<Rightarrow> timer option \<Rightarrow> timer option" where
  "first ts n = (case ts of [] \<Rightarrow> n | t # _ \<Rightarrow> Some t)"

definition final :: "timer option \<Rightarrow> timer list \<Rightarrow> timer option" where
  "final p ts = (if ts = [] then p else Some (last ts))"

lemma first_simps [simp]: "first [] n = n" "first (t # ts) n = Some t"
  by (simp_all add: first_def)

lemma final_simps [simp]: "final p [] = p" "final p (t # ts) = final (Some t) ts"
  by (simp_all add: final_def)

fun chain :: "(timer \<Rightarrow> per_timer_data) \<Rightarrow> timer option \<Rightarrow> timer list \<Rightarrow> timer option \<Rightarrow> bool" where
  "chain d p [] n \<longleftrightarrow> True"
| "chain d p (t # ts) n \<longleftrightarrow>
     prev_timer (d t) = p \<and> next_timer (d t) = first ts n \<and> chain d (Some t) ts n"

definition list_ok :: "'time timer_queue \<Rightarrow> timer list \<Rightarrow> bool" where
  "list_ok q ts \<longleftrightarrow> distinct ts \<and> timers q = first ts None \<and> chain (timer_data q) None ts None \<and>
     (\<forall>t. t \<notin> set ts \<longrightarrow> prev_timer (timer_data q t) = None \<and> next_timer (timer_data q t) = None)"

lemma chain_append: "chain d p (xs @ ys) n \<longleftrightarrow> chain d p xs (first ys n) \<and> chain d (final p xs) ys n"
proof (induction xs arbitrary: p)
  case (Cons x xs)
  then show ?case by (cases xs) auto
qed simp

lemma chain_cong:
  "(\<And>t. t \<in> set ts \<Longrightarrow> next_timer (d t) = next_timer (d' t) \<and> prev_timer (d t) = prev_timer (d' t)) \<Longrightarrow>
   chain d p ts n \<longleftrightarrow> chain d' p ts n"
  by (induction ts arbitrary: p) auto

lemma chain_end:
  assumes "chain d p xs n" "distinct xs" "xs \<noteq> []"
  shows "chain (d(last xs := (d (last xs))\<lparr>next_timer := n'\<rparr>)) p xs n'"
  using assms
proof (induction xs arbitrary: p)
  case (Cons x xs)
  then show ?case by (cases xs) auto
qed simp

lemma chain_head:
  "chain d p (y # ys) n \<Longrightarrow> y \<notin> set ys \<Longrightarrow> chain (d(y := (d y)\<lparr>prev_timer := p'\<rparr>)) p' (y # ys) n"
proof -
  assume c: "chain d p (y # ys) n" "y \<notin> set ys"
  have "chain (d(y := (d y)\<lparr>prev_timer := p'\<rparr>)) (Some y) ys n \<longleftrightarrow> chain d (Some y) ys n"
    by (rule chain_cong) (use c(2) in auto)
  with c show ?thesis by simp
qed

lemma inactive_iff: "list_ok q ts \<Longrightarrow> inactive q t \<longleftrightarrow> t \<notin> set ts"
proof
  assume ok: "list_ok q ts" and "inactive q t"
  show "t \<notin> set ts"
  proof
    assume "t \<in> set ts"
    then obtain xs ys where ts: "ts = xs @ t # ys" by (meson split_list)
    then have t: "prev_timer (timer_data q t) = final None xs" "timers q = first ts None"
      using ok by (simp_all add: list_ok_def chain_append)
    show False
    proof (cases xs)
      case Nil
      with t ts \<open>inactive q t\<close> show False by (simp add: inactive_def)
    next
      case (Cons x xs')
      with t \<open>inactive q t\<close> show False by (simp add: inactive_def final_def)
    qed
  qed
next
  assume "list_ok q ts" "t \<notin> set ts"
  then show "inactive q t" by (cases ts) (auto simp: list_ok_def inactive_def)
qed

definition only_links :: "'time timer_queue \<Rightarrow> 'time timer_queue \<Rightarrow> bool" where
  "only_links q q' \<longleftrightarrow> heap q' = heap q \<and>
     (\<forall>t. waiting (timer_data q' t) = waiting (timer_data q t) \<and> heap_index (timer_data q' t) = heap_index (timer_data q t))"

lemma at_link_data: "timer_data (at_link p f q) = (case p of None \<Rightarrow> timer_data q | Some t \<Rightarrow> (timer_data q)(t := f (timer_data q t)))"
  by (simp add: at_link_def split: option.split)

lemma link_facts:
  assumes "list_ok q ts" "t \<notin> set ts"
  shows "list_ok (link t q) (t # ts)" "only_links q (link t q)"
proof -
  show "only_links q (link t q)"
    by (auto simp: only_links_def link_def Let_def at_link_data split: option.split)
  show "list_ok (link t q) (t # ts)"
  proof (cases ts)
    case Nil
    then show ?thesis using assms by (auto simp: list_ok_def link_def Let_def at_link_def)
  next
    case (Cons u us)
    let ?d = "(timer_data q)(t := (timer_data q t)\<lparr>next_timer := timers q, prev_timer := None\<rparr>)"
    have q: "timers q = Some u" using assms(1) Cons by (simp add: list_ok_def)
    have tu: "t \<noteq> u" "t \<notin> set us" "u \<notin> set us" using assms Cons by (auto simp: list_ok_def)
    have "chain ?d None (u # us) None"
      using assms Cons tu by (subst chain_cong [of _ ?d "timer_data q"]) (auto simp: list_ok_def)
    from chain_head [OF this tu(3), of "Some t"]
    have "chain (timer_data (link t q)) (Some t) ts None"
      using tu q Cons by (simp add: link_def Let_def at_link_def fun_upd_def)
    moreover have "next_timer (timer_data (link t q) t) = Some u" "prev_timer (timer_data (link t q) t) = None"
      using q tu by (simp_all add: link_def Let_def at_link_def)
    moreover have "timers (link t q) = Some t" by (simp add: link_def Let_def)
    moreover have "prev_timer (timer_data (link t q) v) = None \<and> next_timer (timer_data (link t q) v) = None"
      if "v \<notin> set (t # ts)" for v
      using that assms(1) q Cons by (simp add: link_def Let_def at_link_def list_ok_def)
    ultimately show ?thesis using assms Cons by (simp add: list_ok_def)
  qed
qed

lemma unlink_facts:
  assumes "list_ok q ts" "t \<in> set ts"
  shows "list_ok (unlink t q) (remove1 t ts)" "only_links q (unlink t q)"
proof -
  show "only_links q (unlink t q)"
    by (auto simp: only_links_def unlink_def Let_def at_link_data split: option.split)
  obtain xs ys where ts: "ts = xs @ t # ys" using assms(2) by (meson split_list)
  let ?d = "timer_data q"
  have dist: "distinct xs" "distinct ys" "t \<notin> set xs" "t \<notin> set ys" "set xs \<inter> set ys = {}"
    using assms(1) ts by (auto simp: list_ok_def)
  have c: "chain ?d None xs (Some t)" "prev_timer (?d t) = final None xs" "next_timer (?d t) = first ys None"
    "chain ?d (Some t) ys None" and q: "timers q = first ts None"
    using assms(1) ts by (simp_all add: list_ok_def chain_append)
  let ?d1 = "case final None xs of None \<Rightarrow> ?d | Some u \<Rightarrow> ?d(u := (?d u)\<lparr>next_timer := first ys None\<rparr>)"
  let ?d2 = "case first ys None of None \<Rightarrow> ?d1 | Some u \<Rightarrow> ?d1(u := (?d1 u)\<lparr>prev_timer := final None xs\<rparr>)"
  have t1: "?d1 t = ?d t" using dist by (auto simp: final_def)
  have data: "timer_data (unlink t q) = ?d2(t := (?d2 t)\<lparr>next_timer := None, prev_timer := None\<rparr>)"
  proof -
    have same: "timer_data (if timers q = Some t then q\<lparr>timers := n\<rparr> else q) = ?d" for n by simp
    show ?thesis by (simp only: unlink_def Let_def at_simps(3) at_link_data same c(2, 3) t1)
  qed
  have "chain ?d1 None xs (first ys None)"
    using chain_end [OF c(1) dist(1)] by (cases "xs = []") (simp_all add: final_def)
  then have xs: "chain (timer_data (unlink t q)) None xs (first ys None)"
    using dist by (subst chain_cong [of _ _ ?d1]) (auto simp: data first_def split: list.split)
  have ys1: "chain ?d1 (Some t) ys None"
  proof -
    have "xs = [] \<or> last xs \<notin> set ys" using dist(5) last_in_set [of xs] by blast
    with c(4) show ?thesis by (subst chain_cong [of _ _ ?d]) (auto simp: final_def)
  qed
  have "chain ?d2 (final None xs) ys None"
  proof (cases ys)
    case (Cons y ys')
    with ys1 dist chain_head [of ?d1 "Some t" y ys' None "final None xs"] show ?thesis by simp
  qed simp
  then have ys: "chain (timer_data (unlink t q)) (final None xs) ys None"
    using dist by (subst chain_cong [of _ _ ?d2]) (auto simp: data)
  have "timers (unlink t q) = first (xs @ ys) None"
    using q c(3) dist ts by (cases xs) (simp_all add: unlink_def Let_def)
  moreover have "remove1 t ts = xs @ ys" using dist ts by (simp add: remove1_append)
  moreover have "prev_timer (timer_data (unlink t q) u) = None \<and> next_timer (timer_data (unlink t q) u) = None"
    if "u \<notin> set (xs @ ys)" for u
  proof (cases "u = t")
    case False
    then have "?d2 u = ?d u" using that by (auto simp: final_def first_def split: list.split)
    moreover have "prev_timer (?d u) = None \<and> next_timer (?d u) = None"
      using assms(1) ts that False by (auto simp: list_ok_def)
    ultimately show ?thesis using False by (simp add: data)
  qed (simp add: data)
  ultimately show "list_ok (unlink t q) (remove1 t ts)"
    using xs ys dist by (simp add: list_ok_def chain_append)
qed

subsection \<open>The invariant\<close>

definition tq_core :: "('time::linorder) timer_queue \<Rightarrow> timer list \<Rightarrow> bool" where
  "tq_core q ts \<longleftrightarrow> heap_ok q \<and> list_ok q ts \<and> in_heap q \<subseteq> set ts \<and>
     (\<forall>t \<in> set ts. t \<notin> in_heap q \<longrightarrow> heap_index (timer_data q t) = no_index) \<and> length (heap q) \<le> no_index"

definition tq_ok :: "('time::linorder) timer_queue \<Rightarrow> timer list \<Rightarrow> bool" where
  "tq_ok q ts \<longleftrightarrow> tq_core q ts \<and> (\<forall>t. waiting (timer_data q t) = [] \<longleftrightarrow> t \<notin> set ts)"

lemma linked_cong:
  "heap q' = heap q \<Longrightarrow> (\<And>t. heap_index (timer_data q' t) = heap_index (timer_data q t)) \<Longrightarrow> linked q' \<longleftrightarrow> linked q"
  by (simp add: linked_def)

lemma list_ok_cong:
  "timers q' = timers q \<Longrightarrow> (\<And>t. next_timer (timer_data q' t) = next_timer (timer_data q t) \<and>
     prev_timer (timer_data q' t) = prev_timer (timer_data q t)) \<Longrightarrow> list_ok q' ts \<longleftrightarrow> list_ok q ts"
  using chain_cong [of ts "timer_data q'" "timer_data q" None None] by (simp add: list_ok_def)

lemma only_heap_list_ok: "only_heap q q' \<Longrightarrow> list_ok q' ts \<longleftrightarrow> list_ok q ts"
  by (rule list_ok_cong) (simp_all add: only_heap_def)

lemma only_links_heap_ok: "only_links q q' \<Longrightarrow> heap_ok q' \<longleftrightarrow> heap_ok q"
  using linked_cong [of q' q] by (simp add: only_links_def heap_ok_def)

lemma length_heap_mset: "length (heap q) = size (mset (heap q))"
  by simp

lemma set_waiting_core:
  "tq_core (at_timer t (\<lambda>d. d\<lparr>waiting := w\<rparr>) q) ts \<longleftrightarrow> tq_core q ts"
proof -
  let ?q = "at_timer t (\<lambda>d. d\<lparr>waiting := w\<rparr>) q"
  have "heap_index (timer_data ?q u) = heap_index (timer_data q u)" for u by simp
  moreover have "linked ?q \<longleftrightarrow> linked q" by (rule linked_cong) simp_all
  moreover have "list_ok ?q ts \<longleftrightarrow> list_ok q ts" by (rule list_ok_cong) simp_all
  moreover have "heap ?q = heap q" by simp
  ultimately show ?thesis by (simp only: tq_core_def heap_ok_def in_heap_def)
qed

definition without :: "timer \<Rightarrow> ('time \<times> timer) multiset \<Rightarrow> ('time \<times> timer) multiset" where
  "without t m = filter_mset (\<lambda>e. snd e \<noteq> t) m"

lemma leave_heap_any:
  assumes "tq_core q ts" "t \<in> set ts"
  defines "q' \<equiv> leave_heap t q"
  shows "heap_ok q' \<and> only_heap q q' \<and> mset (heap q') = without t (mset (heap q)) \<and>
    heap_index (timer_data q' t) = no_index \<and> (\<forall>u. u \<notin> in_heap q \<longrightarrow> timer_data q' u = timer_data q u)"
proof (cases "t \<in> in_heap q")
  case True
  then obtain time where e: "(time, t) \<in> set (heap q)" by (auto simp: in_heap_def)
  have ok: "heap_ok q" using assms(1) by (simp add: tq_core_def)
  note facts = leave_heap_facts [OF ok e, folded q'_def]
  have "linked q" using ok by (simp add: heap_ok_def)
  from left_heap [OF this] facts have "t \<notin> snd ` set (heap q')" by blast
  then have "without t (add_mset (time, t) (mset (heap q'))) = mset (heap q')"
    by (auto simp: without_def filter_mset_eq_conv) 
  with facts show ?thesis by simp
next
  case False
  then have "heap_index (timer_data q t) = no_index" "length (heap q) \<le> no_index"
    using assms by (auto simp: tq_core_def)
  then have "q' = q" by (simp add: q'_def leave_heap_def Let_def)
  moreover have "without t (mset (heap q)) = mset (heap q)"
    using False by (auto simp: without_def in_heap_def filter_mset_eq_conv)
  ultimately show ?thesis using assms False by (simp add: tq_core_def)
qed

lemma remove_timer_facts:
  assumes "tq_core q ts" "t \<in> set ts"
  shows "tq_core (remove_timer t q) (remove1 t ts)"
    "mset (heap (remove_timer t q)) = without t (mset (heap q))"
    "\<And>u. waiting (timer_data (remove_timer t q) u) = waiting (timer_data q u)"
proof -
  let ?l = "leave_heap t q"
  note lv = leave_heap_any [OF assms]
  have l: "list_ok ?l ts" using lv assms(1) only_heap_list_ok [of q ?l ts] by (simp add: tq_core_def)
  note un = unlink_facts [OF l assms(2)]
  have d: "distinct ts" using l by (simp add: list_ok_def)
  have same: "heap (remove_timer t q) = heap ?l"
    "\<And>u. heap_index (timer_data (remove_timer t q) u) = heap_index (timer_data ?l u)"
    "\<And>u. waiting (timer_data (remove_timer t q) u) = waiting (timer_data ?l u)"
    using un(2) by (simp_all add: remove_timer_def only_links_def)
  show "waiting (timer_data (remove_timer t q) u) = waiting (timer_data q u)" for u
    using same(3) lv by (simp add: only_heap_def)
  show m: "mset (heap (remove_timer t q)) = without t (mset (heap q))" using same(1) lv by simp
  have ih: "in_heap (remove_timer t q) = in_heap q - {t}"
    using arg_cong [OF m, of set_mset] by (auto simp: in_heap_def without_def)
  have "heap_ok (remove_timer t q)"
    using lv only_links_heap_ok [OF un(2)] by (simp add: remove_timer_def)
  moreover have "list_ok (remove_timer t q) (remove1 t ts)" using un(1) by (simp add: remove_timer_def)
  moreover have "in_heap (remove_timer t q) \<subseteq> set (remove1 t ts)" using ih assms(1) d by (auto simp: tq_core_def)
  moreover have "heap_index (timer_data (remove_timer t q) u) = no_index"
    if "u \<in> set (remove1 t ts)" "u \<notin> in_heap (remove_timer t q)" for u
    using that same(2) lv ih d assms(1) by (auto simp: tq_core_def)
  moreover have "length (heap (remove_timer t q)) \<le> length (heap q)"
    unfolding length_heap_mset m without_def by (rule size_filter_mset_lesseq)
  ultimately show "tq_core (remove_timer t q) (remove1 t ts)" using assms(1) by (auto simp: tq_core_def)
qed

lemma remove_timer_ok:
  assumes "tq_core q ts" "t \<in> set ts" "\<And>u. waiting (timer_data q u) = [] \<longleftrightarrow> u \<notin> set ts \<or> u = t"
  shows "tq_ok (remove_timer t q) (remove1 t ts)"
proof -
  have "distinct ts" using assms(1) by (simp add: tq_core_def list_ok_def)
  then show ?thesis using remove_timer_facts [OF assms(1, 2)] assms(3) by (auto simp: tq_ok_def)
qed

subsection \<open>The operations keep the invariant\<close>

lemma enqueue_new:
  fixes q :: "('time::linorder) timer_queue" and is_inf :: "'time \<Rightarrow> bool" and time :: 'time and op :: wait_op
  assumes "tq_ok q ts" "t \<notin> set ts" "length (heap q) < no_index"
  defines "q' \<equiv> snd (enqueue_timer is_inf time t op q)"
  shows "tq_ok q' (t # ts)"
    "mset (heap q') = (if is_inf time then mset (heap q) else add_mset (time, t) (mset (heap q)))"
    "waiting (timer_data q' t) = [op]" "u \<noteq> t \<Longrightarrow> waiting (timer_data q' u) = waiting (timer_data q u)"
    "heap q' = heap (enter_heap is_inf time t q)"
proof -
  let ?e = "enter_heap is_inf time t q" and ?l = "link t (enter_heap is_inf time t q)"
  have core: "tq_core q ts" using assms(1) by (simp add: tq_ok_def)
  then have ok: "heap_ok q" "t \<notin> in_heap q" "list_ok q ts" using assms(2) by (auto simp: tq_core_def)
  note en = enter_heap_facts [OF ok(1, 2), where is_inf = is_inf and time = time]
  have l: "list_ok ?e ts" using only_heap_list_ok [OF en(2)] ok(3) by simp
  note ln = link_facts [OF l assms(2)]
  have q': "q' = at_timer t (\<lambda>d. d\<lparr>waiting := waiting d @ [op]\<rparr>) ?l"
    using inactive_iff [OF ok(3)] assms(2) by (simp add: q'_def enqueue_timer_def Let_def)
  have h: "heap q' = heap ?e" using ln(2) by (simp add: q' only_links_def)
  have w: "waiting (timer_data ?l u) = waiting (timer_data q u)" for u
    using ln(2) en(2) by (simp add: only_links_def only_heap_def)
  have i: "heap_index (timer_data q' u) = heap_index (timer_data ?e u)" for u
    using ln(2) by (simp add: q' only_links_def)
  show "heap q' = heap ?e" by (rule h)
  show m: "mset (heap q') = (if is_inf time then mset (heap q) else add_mset (time, t) (mset (heap q)))"
    using en(3) h by simp
  show wt: "waiting (timer_data q' t) = [op]" using w [of t] assms(1, 2) by (simp add: q' tq_ok_def)
  show wu: "waiting (timer_data q' u) = waiting (timer_data q u)" if "u \<noteq> t" for u using that w by (simp add: q')
  have ih: "in_heap q' = (if is_inf time then in_heap q else insert t (in_heap q))"
    using arg_cong [OF m, of set_mset] by (auto simp: in_heap_def)
  have "tq_core q' (t # ts)"
    unfolding tq_core_def
  proof (intro conjI ballI impI)
    show "heap_ok q'" using en(1) i h linked_cong [of q' ?e] by (simp add: heap_ok_def)
    show "list_ok q' (t # ts)" using ln(1) list_ok_cong [of q' ?l "t # ts"] by (simp add: q')
    show "in_heap q' \<subseteq> set (t # ts)" using ih core by (auto simp: tq_core_def)
    show "length (heap q') \<le> no_index"
      using assms(3) arg_cong [OF m, of size] by (auto split: if_splits)
    fix u assume u: "u \<in> set (t # ts)" "u \<notin> in_heap q'"
    show "heap_index (timer_data q' u) = no_index"
    proof (cases "u = t")
      case True
      then have "is_inf time" using u(2) ih by (auto split: if_splits)
      then show ?thesis using en(4) i True by simp
    next
      case False
      then have "u \<in> set ts" "u \<notin> in_heap q" using u ih by (auto split: if_splits)
      then show ?thesis using en(5) [OF False] i core by (simp add: tq_core_def)
    qed
  qed
  moreover have "waiting (timer_data q' u) = [] \<longleftrightarrow> u \<notin> set (t # ts)" for u
    using wt wu [of u] assms(1) by (cases "u = t") (simp_all add: tq_ok_def)
  ultimately show "tq_ok q' (t # ts)" by (simp add: tq_ok_def)
qed

lemma enqueue_active:
  assumes "tq_ok q ts" "t \<in> set ts"
  shows "snd (enqueue_timer is_inf time t op q) = at_timer t (\<lambda>d. d\<lparr>waiting := waiting d @ [op]\<rparr>) q"
    "tq_ok (snd (enqueue_timer is_inf time t op q)) ts"
proof -
  have "list_ok q ts" using assms(1) by (simp add: tq_ok_def tq_core_def)
  then show eq: "snd (enqueue_timer is_inf time t op q) = at_timer t (\<lambda>d. d\<lparr>waiting := waiting d @ [op]\<rparr>) q"
    using inactive_iff [of q ts t] assms(2) by (simp add: enqueue_timer_def Let_def)
  have const: "at_timer t (\<lambda>d. d\<lparr>waiting := waiting d @ [op]\<rparr>) q =
      at_timer t (\<lambda>d. d\<lparr>waiting := waiting (timer_data q t) @ [op]\<rparr>) q" by (simp add: at_timer_def)
  show "tq_ok (snd (enqueue_timer is_inf time t op q)) ts"
    using assms unfolding eq const tq_ok_def by (simp add: set_waiting_core)
qed

lemma cancel_loop_eq:
  "n \<le> m \<Longrightarrow> cancel_loop m w ops n =
    (drop (m - n) w, ops @ map (op_ec_update (\<lambda>_. Some operation_aborted)) (take (m - n) w), n + min (m - n) (length w))"
proof (induction w arbitrary: ops n)
  case (Cons op w)
  show ?case
  proof (cases "n = m")
    case False
    then have "m - n = Suc (m - (n + 1))" "n + 1 \<le> m" using Cons.prems by simp_all
    with False Cons.IH [of "n + 1" "ops @ [op\<lparr>op_ec := Some operation_aborted\<rparr>]"] show ?thesis
      by (subst cancel_loop.simps) simp
  qed (subst cancel_loop.simps, simp)
qed (subst cancel_loop.simps, simp)

lemma cancel_key_loop_eq:
  "cancel_key_loop key w ops others =
    (ops @ map (op_ec_update (\<lambda>_. Some operation_aborted)) (filter (\<lambda>op. cancellation_key op = key) w),
     others @ filter (\<lambda>op. cancellation_key op \<noteq> key) w)"
  by (induction w arbitrary: ops others) simp_all

declare cancel_loop.simps [simp del]

text \<open>The waiting operations of an active timer are replaced; without any it is removed.\<close>

definition set_waiting :: "timer \<Rightarrow> wait_op list \<Rightarrow> ('time::linorder) timer_queue \<Rightarrow> 'time timer_queue" where
  "set_waiting t w q = (let q = at_timer t (\<lambda>d. d\<lparr>waiting := w\<rparr>) q in if w = [] then remove_timer t q else q)"

lemma set_waiting_ok:
  assumes "tq_ok q ts" "t \<in> set ts"
  shows "tq_ok (set_waiting t w q) (if w = [] then remove1 t ts else ts)"
proof (cases "w = []")
  case True
  have "tq_core (at_timer t (\<lambda>d. d\<lparr>waiting := w\<rparr>) q) ts" using assms(1) by (simp only: set_waiting_core tq_ok_def)
  from remove_timer_ok [OF this assms(2)] show ?thesis using True assms by (simp add: set_waiting_def tq_ok_def)
next
  case False
  then show ?thesis using assms unfolding set_waiting_def Let_def tq_ok_def
    by (simp add: set_waiting_core)
qed

lemma set_waiting_data:
  assumes "tq_ok q ts" "t \<in> set ts"
  shows "waiting (timer_data (set_waiting t w q) u) = (if u = t then w else waiting (timer_data q u))"
    "mset (heap (set_waiting t w q)) = (if w = [] then without t (mset (heap q)) else mset (heap q))"
proof -
  have core: "tq_core (at_timer t (\<lambda>d. d\<lparr>waiting := w\<rparr>) q) ts" using assms(1) by (simp only: set_waiting_core tq_ok_def)
  note rm = remove_timer_facts [OF core assms(2)]
  show "waiting (timer_data (set_waiting t w q) u) = (if u = t then w else waiting (timer_data q u))"
    using rm(3) [of u] by (cases "w = []") (simp_all add: set_waiting_def Let_def)
  show "mset (heap (set_waiting t w q)) = (if w = [] then without t (mset (heap q)) else mset (heap q))"
    using rm(2) by (cases "w = []") (simp_all add: set_waiting_def Let_def)
qed

lemma cancel_timer_eq:
  assumes "tq_ok q ts"
  shows "cancel_timer t ops m q =
    (if t \<in> set ts then (let w = waiting (timer_data q t) in
       (min m (length w), set_waiting t (drop m w) q, ops @ map (op_ec_update (\<lambda>_. Some operation_aborted)) (take m w)))
     else (0, q, ops))"
proof -
  have "inactive q t \<longleftrightarrow> t \<notin> set ts" using assms inactive_iff by (auto simp: tq_ok_def tq_core_def)
  then show ?thesis using cancel_loop_eq [of 0 m "waiting (timer_data q t)" ops]
    by (simp add: cancel_timer_def set_waiting_def Let_def)
qed

lemma cancel_timer_by_key_eq:
  assumes "tq_ok q ts"
  shows "cancel_timer_by_key t ops key q =
    (if t \<in> set ts then (let w = waiting (timer_data q t) in
       (set_waiting t (filter (\<lambda>op. cancellation_key op \<noteq> key) w) q,
        ops @ map (op_ec_update (\<lambda>_. Some operation_aborted)) (filter (\<lambda>op. cancellation_key op = key) w)))
     else (q, ops))"
proof -
  have "inactive q t \<longleftrightarrow> t \<notin> set ts" using assms inactive_iff by (auto simp: tq_ok_def tq_core_def)
  then show ?thesis by (simp add: cancel_timer_by_key_def cancel_key_loop_eq set_waiting_def Let_def)
qed

subsection \<open>Taking the timers that are due\<close>

lemma deliver_eq: "deliver w ops = ops @ map (op_ec_update (\<lambda>_. None)) w"
  by (induction w arbitrary: ops) simp_all

lemma without_root:
  assumes "linked q" "heap q = e # rest"
  shows "\<forall>e' \<in> set rest. snd e' \<noteq> snd e" "without (snd e) (mset (heap q)) = mset rest"
proof -
  have "distinct (map snd (heap q))" using assms(1) by (rule linked_distinct)
  then have "snd e \<notin> snd ` set rest" using assms(2) by simp
  then show out: "\<forall>e' \<in> set rest. snd e' \<noteq> snd e" by (metis image_eqI)
  then have "filter_mset (\<lambda>e'. snd e' \<noteq> snd e) (mset rest) = mset rest"
    by (simp add: filter_mset_eq_conv)
  then show "without (snd e) (mset (heap q)) = mset rest" using assms(2) by (simp add: without_def)
qed

text \<open>The due entries of the heap, in the order of delivery.\<close>

definition dues_of :: "('time::linorder) timer_queue \<Rightarrow> 'time \<Rightarrow> ('time \<times> timer) list \<Rightarrow> bool" where
  "dues_of q now dues \<longleftrightarrow> mset dues = filter_mset (\<lambda>e. fst e \<le> now) (mset (heap q)) \<and> sorted (map fst dues)"

definition fired :: "'time timer_queue \<Rightarrow> ('time \<times> timer) list \<Rightarrow> wait_op list" where
  "fired q dues = concat (map (\<lambda>e. map (op_ec_update (\<lambda>_. None)) (waiting (timer_data q (snd e)))) dues)"

lemma ready_loop_result:
  "tq_ok q ts \<Longrightarrow> \<exists>q' ts' dues. ready_loop now q ops = Some (q', ops @ fired q dues) \<and> tq_ok q' ts' \<and>
     dues_of q now dues \<and> mset (heap q') = filter_mset (\<lambda>e. now < fst e) (mset (heap q)) \<and>
     (\<forall>t. t \<notin> snd ` set dues \<longrightarrow> waiting (timer_data q' t) = waiting (timer_data q t))"
proof (induction "length (heap q)" arbitrary: q ts ops rule: less_induct)
  case less
  have ok: "linked q" "ordered (heap q)" "in_heap q \<subseteq> set ts"
    using less.prems by (auto simp: tq_ok_def tq_core_def heap_ok_def)
  show ?case
  proof (cases "heap q \<noteq> [] \<and> \<not> now < time_at q 0")
    case True
    then obtain e rest where h: "heap q = e # rest" by (cases "heap q") auto
    let ?t = "snd e" and ?q = "set_waiting (snd e) [] q"
    have t: "?t \<in> set ts" using ok(3) h by (auto simp: in_heap_def)
    note root = without_root [OF ok(1) h]
    have hq: "mset (heap ?q) = mset rest" using set_waiting_data(2) [OF less.prems t, of "[]"] root by simp
    have "length (heap ?q) < length (heap q)" using arg_cong [OF hq, of size] h by simp
    from less.hyps [OF this set_waiting_ok [OF less.prems t], of "ops @ map (op_ec_update (\<lambda>_. None)) (waiting (timer_data q ?t))"]
    obtain q' ts' dues where IH: "ready_loop now ?q (ops @ map (op_ec_update (\<lambda>_. None)) (waiting (timer_data q ?t))) =
        Some (q', (ops @ map (op_ec_update (\<lambda>_. None)) (waiting (timer_data q ?t))) @ fired ?q dues)"
      "tq_ok q' ts'" "dues_of ?q now dues" "mset (heap q') = filter_mset (\<lambda>e. now < fst e) (mset (heap ?q))"
      "\<forall>t. t \<notin> snd ` set dues \<longrightarrow> waiting (timer_data q' t) = waiting (timer_data ?q t)" by blast
    have sub: "set dues \<subseteq> set rest"
      using arg_cong [OF IH(3) [unfolded dues_of_def, THEN conjunct1], of set_mset] hq by auto
    have "waiting (timer_data ?q (snd e')) = waiting (timer_data q (snd e'))" if "e' \<in> set dues" for e'
    proof -
      have "snd e' \<noteq> ?t" using that sub root(1) by blast
      then show ?thesis using set_waiting_data(1) [OF less.prems t, of "[]" "snd e'"] by simp
    qed
    then have f: "fired ?q dues = fired q dues" unfolding fired_def by (intro arg_cong [of _ _ concat] map_cong) auto
    have "ready_loop now q ops = ready_loop now ?q (ops @ map (op_ec_update (\<lambda>_. None)) (waiting (timer_data q ?t)))"
      using True h by (subst ready_loop.simps) (simp add: deliver_eq set_waiting_def Let_def)
    then have "ready_loop now q ops = Some (q', ops @ fired q (e # dues))"
      using IH(1) f by (simp add: fired_def)
    moreover have "dues_of q now (e # dues)"
    proof -
      have "\<forall>e' \<in> set rest. fst e \<le> fst e'"
        using ordered_root [OF ok(2)] h by (fastforce simp: in_set_conv_nth)
      then show ?thesis using IH(3) hq True h sub by (auto simp: dues_of_def not_less)
    qed
    moreover have "mset (heap q') = filter_mset (\<lambda>e. now < fst e) (mset (heap q))"
      using IH(4) hq h True by simp
    moreover have "\<forall>t. t \<notin> snd ` set (e # dues) \<longrightarrow> waiting (timer_data q' t) = waiting (timer_data q t)"
      using IH(5) set_waiting_data(1) [OF less.prems t, of "[]"] by simp
    ultimately show ?thesis using IH(2) by blast
  next
    case False
    have late: "now < fst e" if "e \<in> set (heap q)" for e
      using that False ordered_root [OF ok(2)] by (fastforce simp: in_set_conv_nth)
    have "filter_mset (\<lambda>e. fst e \<le> now) (mset (heap q)) = filter_mset (\<lambda>_. False) (mset (heap q))"
      using late by (intro filter_mset_cong) (auto simp: not_le)
    then have "dues_of q now []" by (simp add: dues_of_def)
    moreover have "mset (heap q) = filter_mset (\<lambda>e. now < fst e) (mset (heap q))"
    proof -
      have "filter_mset (\<lambda>e. now < fst e) (mset (heap q)) = filter_mset (\<lambda>_. True) (mset (heap q))"
        using late by (intro filter_mset_cong) auto
      then show ?thesis by simp
    qed
    moreover have "ready_loop now q ops = Some (q, ops @ fired q [])"
      using False by (subst ready_loop.simps) (auto simp: fired_def)
    ultimately show ?thesis using less.prems by (intro exI [of _ q] exI [of _ ts] exI [of _ "[]"]) simp
  qed
qed

lemma get_ready_timers_loop: "get_ready_timers now q ops = ready_loop now q ops"
  by (simp add: get_ready_timers_def ready_loop.simps [of now q ops])

end
