(* ===== verification/Timer_Runs.thy ===== *)
theory Timer_Runs
  imports Timer_Properties
begin

text \<open>
  What a timer queue does over its life: the invariant holds after any sequence of
  operations, the timers that are due are delivered in the order of their times, and
  the result of \<open>enqueue_timer\<close> is right.
\<close>

subsection \<open>Moving a timer\<close>

lemma move_entry_facts:
  assumes "tq_ok q ts" "s \<in> set ts" "t \<notin> set ts"
  defines "q' \<equiv> move_entry t s (move_waiting t s q)"
  shows "heap_ok q'" "mset (heap q') = image_mset (\<lambda>(time, u). (time, if u = s then t else u)) (mset (heap q))"
    "waiting (timer_data q' u) = (if u = s then [] else if u = t then waiting (timer_data q s) else waiting (timer_data q u))"
    "heap_index (timer_data q' u) =
      (if u = s then no_index else if u = t then heap_index (timer_data q s) else heap_index (timer_data q u))"
    "timers q' = timers q" "next_timer (timer_data q' u) = next_timer (timer_data q u)"
    "prev_timer (timer_data q' u) = prev_timer (timer_data q u)"
proof -
  have st: "s \<noteq> t" using assms(2, 3) by auto
  have core: "tq_core q ts" and wt: "waiting (timer_data q t) = []"
    using assms(1, 3) by (simp_all add: tq_ok_def)
  let ?k = "heap_index (timer_data q s)" and ?h = "heap q"
  have h: "heap q' = (if ?k < length ?h then ?h[?k := (fst (?h ! ?k), t)] else ?h)"
    using st by (simp add: q'_def move_entry_def move_waiting_def Let_def)
  show "waiting (timer_data q' u) = (if u = s then [] else if u = t then waiting (timer_data q s) else waiting (timer_data q u))"
    using st wt by (simp add: q'_def move_entry_def move_waiting_def Let_def)
  show i: "heap_index (timer_data q' u) =
      (if u = s then no_index else if u = t then ?k else heap_index (timer_data q u))" for u
    using st by (simp add: q'_def move_entry_def move_waiting_def Let_def)
  show "timers q' = timers q" by (simp add: q'_def move_entry_def move_waiting_def Let_def)
  show "next_timer (timer_data q' u) = next_timer (timer_data q u)"
    "prev_timer (timer_data q' u) = prev_timer (timer_data q u)"
    by (simp_all add: q'_def move_entry_def move_waiting_def Let_def)
  have L: "linked q" "ordered ?h" "in_heap q \<subseteq> set ts" using core by (auto simp: tq_core_def heap_ok_def)
  have other: "snd (?h ! j) \<noteq> t" if "j < length ?h" for j
    using that L(3) assms(3) unfolding in_heap_def by (metis image_subset_iff nth_mem)
  have nth: "heap q' ! j = (fst (?h ! j), if snd (?h ! j) = s then t else snd (?h ! j))" if j: "j < length ?h" for j
  proof (cases "snd (?h ! j) = s")
    case True
    then have "j = ?k" using L(1) j by (auto simp: linked_def)
    then show ?thesis using j True by (simp add: h)
  next
    case False
    have "j \<noteq> ?k"
    proof
      assume jk: "j = ?k"
      show False
      proof (cases "s \<in> in_heap q")
        case True
        then obtain l where "l < length ?h" "snd (?h ! l) = s" by (auto simp: in_heap_def in_set_conv_nth)
        then show False using L(1) jk False by (auto simp: linked_def)
      next
        case out: False
        then have "?k = no_index" "length ?h \<le> no_index" using core assms(2) by (auto simp: tq_core_def)
        then show False using jk j by simp
      qed
    qed
    then show ?thesis using False by (simp add: h)
  qed
  have len: "length (heap q') = length ?h" by (simp add: h)
  have map: "heap q' = map (\<lambda>(time, u). (time, if u = s then t else u)) ?h"
    using nth len by (intro nth_equalityI) (auto simp: case_prod_beta)
  then show "mset (heap q') = image_mset (\<lambda>(time, u). (time, if u = s then t else u)) (mset ?h)" by simp
  have "linked q'"
    unfolding linked_def
  proof (intro allI impI)
    fix j assume "j < length (heap q')"
    then have j: "j < length ?h" using len by simp
    then have "heap_index (timer_data q (snd (?h ! j))) = j" using L(1) by (simp add: linked_def)
    then show "heap_index (timer_data q' (snd (heap q' ! j))) = j"
      using nth [OF j] i [of t] i [of "snd (?h ! j)"] other [OF j] st by auto
  qed
  moreover have "ordered (heap q')"
    unfolding ordered_def
  proof (intro allI impI)
    fix j assume "0 < j" "j < length (heap q')"
    then have j: "0 < j" "j < length ?h" "par j < length ?h" using len par_less [of j] by simp_all
    then show "fst (heap q' ! par j) \<le> fst (heap q' ! j)"
      using nth L(2) by (simp add: ordered_def)
  qed
  ultimately show "heap_ok q'" by (simp add: heap_ok_def)
qed

lemma only_links_at:
  "only_links q q' \<Longrightarrow> (\<And>d. waiting (f d) = waiting d) \<Longrightarrow> (\<And>d. heap_index (f d) = heap_index d) \<Longrightarrow>
   only_links q (at_timer t f q')"
  "only_links q q' \<Longrightarrow> (\<And>d. waiting (f d) = waiting d) \<Longrightarrow> (\<And>d. heap_index (f d) = heap_index d) \<Longrightarrow>
   only_links q (at_link p f q')"
  "only_links q (if b then q\<lparr>timers := n\<rparr> else q)"
  by (simp_all add: only_links_def at_link_data split: option.split)

definition relinked :: "(timer \<Rightarrow> per_timer_data) \<Rightarrow> timer \<Rightarrow> timer \<Rightarrow> timer \<Rightarrow> per_timer_data" where
  "relinked d t s =
     (let d1 = (case prev_timer (d s) of None \<Rightarrow> d | Some u \<Rightarrow> d(u := (d u)\<lparr>next_timer := Some t\<rparr>))
      in case next_timer (d s) of None \<Rightarrow> d1 | Some u \<Rightarrow> d1(u := (d1 u)\<lparr>prev_timer := Some t\<rparr>))"

lemma move_links_data:
  assumes "s \<noteq> t" "prev_timer (timer_data q s) \<notin> {Some s, Some t}" "next_timer (timer_data q s) \<notin> {Some s, Some t}"
  defines "r \<equiv> relinked (timer_data q) t s"
  shows "timer_data (move_links t s q) =
      r(t := (r t)\<lparr>next_timer := next_timer (timer_data q s), prev_timer := prev_timer (timer_data q s)\<rparr>,
        s := (r s)\<lparr>next_timer := None, prev_timer := None\<rparr>)"
    "timers (move_links t s q) = (if timers q = Some s then Some t else timers q)"
    "only_links q (move_links t s q)"
proof -
  have same: "timer_data (if timers q = Some s then q\<lparr>timers := n\<rparr> else q) = timer_data q" for n by simp
  let ?d1 = "case prev_timer (timer_data q s) of None \<Rightarrow> timer_data q
    | Some u \<Rightarrow> (timer_data q)(u := (timer_data q u)\<lparr>next_timer := Some t\<rparr>)"
  have d1: "?d1 s = timer_data q s" using assms(2) by (auto split: option.split)
  have rs: "r s = timer_data q s" using assms(2, 3) by (auto simp: r_def relinked_def Let_def split: option.split)
  have r: "r = (case next_timer (timer_data q s) of None \<Rightarrow> ?d1 | Some u \<Rightarrow> ?d1(u := (?d1 u)\<lparr>prev_timer := Some t\<rparr>))"
    by (simp only: r_def relinked_def Let_def)
  show "timer_data (move_links t s q) =
      r(t := (r t)\<lparr>next_timer := next_timer (timer_data q s), prev_timer := prev_timer (timer_data q s)\<rparr>,
        s := (r s)\<lparr>next_timer := None, prev_timer := None\<rparr>)"
    unfolding move_links_def Let_def at_simps(3) at_link_data same d1 r [symmetric]
    using assms(1) rs by (simp add: fun_upd_def fun_eq_iff)
  show "timers (move_links t s q) = (if timers q = Some s then Some t else timers q)"
    by (simp add: move_links_def Let_def)
  show "only_links q (move_links t s q)"
    unfolding move_links_def Let_def by (intro only_links_at) simp_all
qed

lemma move_links_facts:
  assumes "list_ok q ts" "s \<in> set ts" "t \<notin> set ts"
  shows "list_ok (move_links t s q) (map (\<lambda>u. if u = s then t else u) ts)" "only_links q (move_links t s q)"
proof -
  let ?d = "timer_data q" and ?q = "move_links t s q"
  obtain xs ys where ts: "ts = xs @ s # ys" using assms(2) by (meson split_list)
  have dist: "distinct xs" "distinct ys" "s \<notin> set xs" "s \<notin> set ys" "set xs \<inter> set ys = {}" "s \<noteq> t"
    "t \<notin> set xs" "t \<notin> set ys"
    using assms ts by (auto simp: list_ok_def)
  have c: "chain ?d None xs (Some s)" "prev_timer (?d s) = final None xs" "next_timer (?d s) = first ys None"
    "chain ?d (Some s) ys None" and q: "timers q = first ts None"
    using assms(1) ts by (simp_all add: list_ok_def chain_append)
  have xl: "xs = [] \<or> last xs \<in> set xs" and yh: "ys = [] \<or> hd ys \<in> set ys" using last_in_set hd_in_set by blast+
  have ends: "final None xs \<notin> {Some s, Some t}" "first ys None \<notin> {Some s, Some t}"
    using xl yh dist by (auto simp: final_def first_def split: list.splits)
  note md = move_links_data [OF dist(6), of q, unfolded c(2, 3), OF ends]
  show "only_links q ?q" by (rule md(3))
  let ?d1 = "case final None xs of None \<Rightarrow> ?d | Some u \<Rightarrow> ?d(u := (?d u)\<lparr>next_timer := Some t\<rparr>)"
  let ?d2 = "case first ys None of None \<Rightarrow> ?d1 | Some u \<Rightarrow> ?d1(u := (?d1 u)\<lparr>prev_timer := Some t\<rparr>)"
  have r: "relinked ?d t s = ?d2" unfolding relinked_def Let_def c(2, 3) ..
  note data = md(1) [unfolded r]
  have "chain ?d1 None xs (Some t)"
    using chain_end [OF c(1) dist(1), of "Some t"] by (cases "xs = []") (simp_all add: final_def)
  then have xs: "chain (timer_data ?q) None xs (Some t)"
    using dist by (subst chain_cong [of _ _ ?d1]) (auto simp: data first_def split: list.split)
  have ys1: "chain ?d1 (Some s) ys None"
  proof -
    have "xs = [] \<or> last xs \<notin> set ys" using dist(5) last_in_set [of xs] by blast
    with c(4) show ?thesis by (subst chain_cong [of _ _ ?d]) (auto simp: final_def)
  qed
  have "chain ?d2 (Some t) ys None"
  proof (cases ys)
    case (Cons y ys')
    with ys1 dist chain_head [of ?d1 "Some s" y ys' None "Some t"] show ?thesis by simp
  qed simp
  then have ys: "chain (timer_data ?q) (Some t) ys None"
    using dist by (subst chain_cong [of _ _ ?d2]) (auto simp: data)
  have map: "map (\<lambda>u. if u = s then t else u) ts = xs @ t # ys"
    using dist ts by (auto intro!: map_idI)
  have "timers ?q = first (xs @ t # ys) None"
    using q dist ts md(2) by (cases xs) auto
  moreover have "prev_timer (timer_data ?q t) = final None xs" "next_timer (timer_data ?q t) = first ys None"
    using data dist(6) by simp_all
  moreover have "prev_timer (timer_data ?q u) = None \<and> next_timer (timer_data ?q u) = None"
    if "u \<notin> set (xs @ t # ys)" for u
  proof (cases "u = s")
    case False
    then have "?d2 u = ?d u" using that by (auto simp: final_def first_def split: list.split)
    moreover have "prev_timer (?d u) = None \<and> next_timer (?d u) = None"
      using assms(1) ts that False by (auto simp: list_ok_def)
    ultimately show ?thesis using False that by (simp add: data)
  qed (simp add: data)
  ultimately show "list_ok ?q (map (\<lambda>u. if u = s then t else u) ts)"
    unfolding map using xs ys dist by (simp add: list_ok_def chain_append)
qed

lemma move_timer_ok:
  assumes "tq_ok q ts" "s \<in> set ts" "t \<notin> set ts"
  shows "tq_ok (move_timer t s q) (map (\<lambda>u. if u = s then t else u) ts)"
proof -
  let ?e = "move_entry t s (move_waiting t s q)" and ?q = "move_timer t s q"
  let ?ts = "map (\<lambda>u. if u = s then t else u) ts"
  have st: "s \<noteq> t" using assms(2, 3) by auto
  have core: "tq_core q ts" using assms(1) by (simp add: tq_ok_def)
  note en = move_entry_facts [OF assms]
  have "list_ok ?e ts" using core en(5-7) list_ok_cong [of ?e q ts] by (simp add: tq_core_def)
  note ln = move_links_facts [OF this assms(2, 3), folded move_timer_def]
  have same: "heap ?q = heap ?e" "\<And>u. waiting (timer_data ?q u) = waiting (timer_data ?e u)"
    "\<And>u. heap_index (timer_data ?q u) = heap_index (timer_data ?e u)"
    using ln(2) by (simp_all add: only_links_def)
  have ih: "in_heap ?q = (\<lambda>u. if u = s then t else u) ` in_heap q"
  proof -
    have "set (heap ?q) = (\<lambda>(time, u). (time, if u = s then t else u)) ` set (heap q)"
      using arg_cong [OF en(2), of set_mset] same(1) by simp
    then show ?thesis unfolding in_heap_def by (simp only: image_image) (rule image_cong, auto)
  qed
  have sets: "set ?ts = insert t (set ts - {s})"
  proof -
    have "(\<lambda>u. if u = s then t else u) ` (set ts - {s}) = (\<lambda>u. u) ` (set ts - {s})" by (rule image_cong) auto
    then have "(\<lambda>u. if u = s then t else u) ` insert s (set ts - {s}) = insert t (set ts - {s})"
      by (simp only: image_insert image_ident simp_thms if_True)
    then show ?thesis using assms(2) by (simp add: insert_absorb)
  qed
  have "tq_core ?q ?ts"
    unfolding tq_core_def
  proof (intro conjI ballI impI)
    show "heap_ok ?q" using en(1) only_links_heap_ok [OF ln(2)] by simp
    show "list_ok ?q ?ts" by (rule ln(1))
    have "in_heap q \<subseteq> set ts" using core by (simp add: tq_core_def)
    then show "in_heap ?q \<subseteq> set ?ts" unfolding ih set_map by (rule image_mono)
    show "length (heap ?q) \<le> no_index"
      using core arg_cong [OF en(2), of size] same(1) by (simp add: tq_core_def)
    fix u assume u: "u \<in> set ?ts" "u \<notin> in_heap ?q"
    show "heap_index (timer_data ?q u) = no_index"
    proof (cases "u = t")
      case True
      then have "s \<notin> in_heap q" using u(2) ih by auto
      then show ?thesis using True en(4) [of t] same(3) st core assms(2) by (simp add: tq_core_def)
    next
      case False
      then have "u \<in> set ts" "u \<noteq> s" using u(1) unfolding sets by auto
      moreover from this(2) have "u \<notin> in_heap q" using u(2) ih by force
      ultimately show ?thesis using False en(4) [of u] same(3) core by (simp add: tq_core_def)
    qed
  qed
  moreover have "waiting (timer_data ?q u) = [] \<longleftrightarrow> u \<notin> set ?ts" for u
  proof -
    have w: "waiting (timer_data q v) = [] \<longleftrightarrow> v \<notin> set ts" for v using assms(1) by (simp add: tq_ok_def)
    show ?thesis unfolding sets same(2) en(3) using w [of s] w [of u] assms(2) st by simp
  qed
  ultimately show ?thesis by (simp add: tq_ok_def)
qed

subsection \<open>Every queue in use\<close>

text \<open>
  The queues that a reactor can get from the operations.  A timer that is moved is active
  and its target is not; memory runs out before the heap has \<open>2 ^ 64 - 1\<close> entries.
\<close>

inductive in_use :: "('time::linorder) timer_queue \<Rightarrow> bool" where
  start: "(\<And>t. d t = new_timer) \<Longrightarrow> in_use (new_queue d)"
| enqueue: "in_use q \<Longrightarrow> length (heap q) < no_index \<Longrightarrow> in_use (snd (enqueue_timer is_inf time t op q))"
| ready: "in_use q \<Longrightarrow> get_ready_timers now q ops = Some (q', ops') \<Longrightarrow> in_use q'"
| cancel: "in_use q \<Longrightarrow> cancel_timer t ops m q = (n, q', ops') \<Longrightarrow> in_use q'"
| cancel_key: "in_use q \<Longrightarrow> cancel_timer_by_key t ops key q = (q', ops') \<Longrightarrow> in_use q'"
| move: "in_use q \<Longrightarrow> inactive q t \<Longrightarrow> \<not> inactive q s \<Longrightarrow> in_use (move_timer t s q)"

lemma new_queue_ok: "(\<And>t. d t = new_timer) \<Longrightarrow> tq_ok (new_queue d) []"
  by (simp add: tq_ok_def tq_core_def heap_ok_def linked_def ordered_def list_ok_def in_heap_def
      new_queue_def new_timer_def)

lemma in_use_ok: "in_use q \<Longrightarrow> \<exists>ts. tq_ok q ts"
proof (induction rule: in_use.induct)
  case (start d)
  then show ?case using new_queue_ok by blast
next
  case (enqueue q is_inf time t op)
  then obtain ts where ts: "tq_ok q ts" by blast
  show ?case
    using enqueue_new(1) [OF ts _ enqueue.hyps(2)] enqueue_active(2) [OF ts] by (cases "t \<in> set ts") blast+
next
  case (ready q now ops q' ops')
  then obtain ts where "tq_ok q ts" by blast
  from ready_loop_result [OF this, of now ops] ready.hyps(2) show ?case
    by (auto simp: get_ready_timers_loop)
next
  case (cancel q t ops m n q' ops')
  then obtain ts where ts: "tq_ok q ts" by blast
  show ?case
    using cancel.hyps(2) ts set_waiting_ok [OF ts, of t] unfolding cancel_timer_eq [OF ts]
    by (auto simp: Let_def split: if_splits)
next
  case (cancel_key q t ops key q' ops')
  then obtain ts where ts: "tq_ok q ts" by blast
  show ?case
    using cancel_key.hyps(2) ts set_waiting_ok [OF ts, of t] unfolding cancel_timer_by_key_eq [OF ts]
    by (auto simp: Let_def split: if_splits)
next
  case (move q t s)
  then obtain ts where ts: "tq_ok q ts" by blast
  then have "list_ok q ts" by (simp add: tq_ok_def tq_core_def)
  then have "t \<notin> set ts" "s \<in> set ts" using move.hyps inactive_iff by auto
  then show ?case using move_timer_ok [OF ts] by blast
qed

subsection \<open>Who is first\<close>

lemma up_heap_root:
  assumes "0 < k" "k < length (heap q)" "\<not> time_at q k < time_at q 0"
  shows "heap (up_heap k q) ! 0 = heap q ! 0"
  using assms
proof (induction k arbitrary: q rule: less_induct)
  case (less k q)
  show ?case
  proof (cases "time_at q k < time_at q (par k)")
    case True
    let ?q = "swap_heap k (par k) q"
    have p: "par k < k" "par k < length (heap q)" using par_less less.prems(1, 2) by (auto intro: less_trans)
    have "par k \<noteq> 0"
    proof
      assume "par k = 0"
      with True less.prems(3) show False by simp
    qed
    moreover have "heap ?q ! 0 = heap q ! 0" "heap ?q ! par k = heap q ! k"
      using nth_swapped [OF less.prems(2) p(2)] \<open>par k \<noteq> 0\<close> less.prems(1) by (simp_all add: heap_swap_heap)
    ultimately have "heap (up_heap (par k) ?q) ! 0 = heap q ! 0"
      using less.IH [OF p(1), of ?q] p(2) less.prems(3) by simp
    then show ?thesis using True less.prems(1) by (subst up_heap_eq) simp
  next
    case False
    then show ?thesis by (subst up_heap_eq) simp
  qed
qed

lemma enqueue_first:
  assumes "tq_ok q ts" "t \<notin> set ts" "length (heap q) < no_index" "\<not> is_inf time"
  shows "fst (enqueue_timer is_inf time t op q) \<longleftrightarrow> (\<forall>e \<in> set (heap q). time < fst e)"
proof -
  let ?q = "snd (enqueue_timer is_inf time t op q)" and ?p = "pushed time t q"
  note new = enqueue_new [OF assms(1-3), where is_inf = is_inf and time = time and op = op]
  have ok: "linked ?q" "ordered (heap ?q)" "linked q" "ordered (heap q)"
    using new(1) assms(1) by (auto simp: tq_ok_def tq_core_def heap_ok_def)
  have m: "mset (heap ?q) = add_mset (time, t) (mset (heap q))" using new(2) assms(4) by simp
  then have ne: "heap ?q \<noteq> []" by auto
  have h: "heap ?q = heap (up_heap (length (heap q)) ?p)" using new(5) assms(4) by (simp add: enter_heap_eq)
  have "fst (enqueue_timer is_inf time t op q) \<longleftrightarrow> heap_index (timer_data ?q t) = 0"
    using new(3) by (simp add: enqueue_timer_def Let_def)
  also have "\<dots> \<longleftrightarrow> heap ?q ! 0 = (time, t)"
  proof
    assume "heap ?q ! 0 = (time, t)"
    then show "heap_index (timer_data ?q t) = 0" using ok(1) ne by (auto simp: linked_def)
  next
    assume i: "heap_index (timer_data ?q t) = 0"
    have "(time, t) \<in># mset (heap ?q)" using m by simp
    then obtain j where j: "j < length (heap ?q)" "heap ?q ! j = (time, t)" by (auto simp: in_set_conv_nth)
    then have "heap_index (timer_data ?q t) = j" using ok(1) by (auto simp: linked_def)
    then show "heap ?q ! 0 = (time, t)" using i j by simp
  qed
  also have "\<dots> \<longleftrightarrow> (\<forall>e \<in> set (heap q). time < fst e)"
  proof
    assume all: "\<forall>e \<in> set (heap q). time < fst e"
    have "(time, t) \<in># mset (heap ?q)" using m by simp
    then obtain j where "j < length (heap ?q)" "heap ?q ! j = (time, t)" by (auto simp: in_set_conv_nth)
    then have "fst (heap ?q ! 0) \<le> time" using ordered_root [OF ok(2), of j] by simp
    moreover have "heap ?q ! 0 \<in># add_mset (time, t) (mset (heap q))" using ne unfolding m [symmetric] by simp
    then have "heap ?q ! 0 = (time, t) \<or> heap ?q ! 0 \<in> set (heap q)" by simp
    ultimately show "heap ?q ! 0 = (time, t)" using all by (meson leD)
  next
    assume root: "heap ?q ! 0 = (time, t)"
    show "\<forall>e \<in> set (heap q). time < fst e"
    proof (cases "heap q = []")
      case False
      have "snd (heap q ! 0) \<in> in_heap q" using False by (simp add: in_heap_def)
      then have "snd (heap q ! 0) \<in> set ts" using assms(1) by (auto simp: tq_ok_def tq_core_def)
      then have t0: "heap q ! 0 \<noteq> (time, t)" using assms(2) by auto
      have p0: "heap ?p ! 0 = heap q ! 0" "heap ?p ! length (heap q) = (time, t)" "length (heap ?p) = length (heap q) + 1"
        using False by (simp_all add: pushed_def nth_append)
      have "time < fst (heap q ! 0)"
      proof (rule ccontr)
        assume "\<not> time < fst (heap q ! 0)"
        then have "heap ?q ! 0 = heap q ! 0"
          using up_heap_root [of "length (heap q)" ?p] p0 False h by simp
        then show False using root t0 by simp
      qed
      moreover have "fst (heap q ! 0) \<le> fst e" if "e \<in> set (heap q)" for e
        using that ordered_root [OF ok(4)] by (auto simp: in_set_conv_nth)
      ultimately show ?thesis by (blast intro: less_le_trans)
    qed simp
  qed
  finally show ?thesis .
qed

lemma wake_iff_first:
  assumes "tq_ok q ts" "t \<notin> set ts" "length (heap q) < no_index"
  shows "fst (enqueue_timer is_inf time t op q) \<longleftrightarrow> \<not> is_inf time \<and> (\<forall>e \<in> set (heap q). time < fst e)"
proof (cases "is_inf time")
  case True
  have ok: "heap_ok q" "t \<notin> in_heap q" "list_ok q ts"
    using assms(1, 2) by (auto simp: tq_ok_def tq_core_def)
  let ?e = "enter_heap is_inf time t q"
  note en = enter_heap_facts [OF ok(1, 2), where is_inf = is_inf and time = time]
  have "list_ok ?e ts" using only_heap_list_ok [OF en(2)] ok(3) by simp
  from link_facts(2) [OF this assms(2)] en(4) [OF True]
  have "heap_index (timer_data (link t ?e) t) = no_index" by (simp add: only_links_def)
  then show ?thesis using True inactive_iff [OF ok(3), of t] assms(2)
    by (simp add: enqueue_timer_def Let_def no_index_def)
qed (use enqueue_first [OF assms] in simp)

text \<open>A queue for concrete runs: one timer with one operation.\<close>

definition one_timer :: "nat timer_queue" where
  "one_timer = snd (enqueue_timer (\<lambda>_. False) 5 1 \<lparr>op_key = 1, op_ec = None, cancellation_key = 0\<rparr>
     (new_queue (\<lambda>_. new_timer)))"

lemma empty_in_use: "in_use (new_queue (\<lambda>_. new_timer))"
  by (rule in_use.start) simp

lemma room: "length (heap (new_queue d)) < no_index"
  by (simp add: new_queue_def no_index_def)

lemma one_timer_in_use: "in_use one_timer"
  unfolding one_timer_def by (rule in_use.enqueue [OF empty_in_use room])

lemma one_timer_data:
  "waiting (timer_data one_timer 1) = [\<lparr>op_key = 1, op_ec = None, cancellation_key = 0\<rparr>]" "timers one_timer = Some 1"
  by (simp_all add: one_timer_def enqueue_timer_def inactive_def new_queue_def new_timer_def enter_heap_def link_def
      Let_def up_heap.simps at_link_def)

subsection \<open>Properties\<close>



text \<open>
  C22: \<open>get_ready_timers\<close> ends on every queue in use.  It appends the operations of exactly
  the timers that are due, those of an earlier time first and each timer's in the order
  they were added, with their errors cleared; the later timers stay.
\<close>

theorem ready_timers_delivered:
  assumes "in_use q"
  shows "\<exists>q' dues. get_ready_timers now q ops = Some (q', ops @ fired q dues) \<and> in_use q' \<and>
    mset dues = filter_mset (\<lambda>e. fst e \<le> now) (mset (heap q)) \<and> sorted (map fst dues) \<and>
    mset (heap q') = filter_mset (\<lambda>e. now < fst e) (mset (heap q)) \<and>
    (\<forall>t. t \<notin> snd ` set dues \<longrightarrow> waiting (timer_data q' t) = waiting (timer_data q t))"
proof -
  obtain ts where "tq_ok q ts" using in_use_ok [OF assms] by blast
  from ready_loop_result [OF this, of now ops] in_use.ready [OF assms] show ?thesis
    unfolding dues_of_def get_ready_timers_loop by blast
qed

lemma ready_timers_delivered_witness:
  "\<exists>q' dues. get_ready_timers 7 one_timer [] = Some (q', [] @ fired one_timer dues) \<and> in_use q' \<and>
    mset dues = filter_mset (\<lambda>e. fst e \<le> 7) (mset (heap one_timer)) \<and> sorted (map fst dues) \<and>
    mset (heap q') = filter_mset (\<lambda>e. 7 < fst e) (mset (heap one_timer)) \<and>
    (\<forall>t. t \<notin> snd ` set dues \<longrightarrow> waiting (timer_data q' t) = waiting (timer_data one_timer t))"
  by (rule ready_timers_delivered [OF one_timer_in_use])

text \<open>
  \<open>enqueue_timer\<close> asks to wake the reactor for a new timer exactly if the timer expires
  at all, and before every timer that is in the queue.
\<close>

theorem enqueue_wakes_for_first:
  assumes "in_use q" "inactive q t" "length (heap q) < no_index"
  shows "fst (enqueue_timer is_inf time t op q) \<longleftrightarrow> \<not> is_inf time \<and> (\<forall>e \<in> set (heap q). time < fst e)"
proof -
  obtain ts where ts: "tq_ok q ts" using in_use_ok [OF assms(1)] by blast
  then have "t \<notin> set ts" using assms(2) inactive_iff [of q ts t] by (simp add: tq_ok_def tq_core_def)
  from wake_iff_first [OF ts this assms(3)] show ?thesis .
qed

lemma enqueue_wakes_for_first_witness:
  "fst (enqueue_timer (\<lambda>_. False) (5 :: nat) 1 \<lparr>op_key = 1, op_ec = None, cancellation_key = 0\<rparr>
    (new_queue (\<lambda>_. new_timer))) \<longleftrightarrow>
   \<not> False \<and> (\<forall>e \<in> set (heap (new_queue (\<lambda>_. new_timer) :: nat timer_queue)). 5 < fst e)"
  by (rule enqueue_wakes_for_first [OF empty_in_use _ room]) (simp add: new_queue_def inactive_def new_timer_def)

text \<open>
  \<open>cancel_timer\<close> takes the oldest operations of an active timer, as many as it may,
  marks them as aborted and leaves the others and all other timers alone; the timer leaves
  the queue exactly if no operation is left.
\<close>

theorem cancel_takes_oldest:
  assumes "in_use q" "\<not> inactive q t" "cancel_timer t ops m q = (n, q', ops')"
  shows "n = min m (length (waiting (timer_data q t))) \<and>
    ops' = ops @ map (\<lambda>op. op\<lparr>op_ec := Some operation_aborted\<rparr>) (take m (waiting (timer_data q t))) \<and>
    waiting (timer_data q' t) = drop m (waiting (timer_data q t)) \<and>
    (\<forall>u. u \<noteq> t \<longrightarrow> waiting (timer_data q' u) = waiting (timer_data q u) \<and> (inactive q' u \<longleftrightarrow> inactive q u)) \<and>
    (inactive q' t \<longleftrightarrow> length (waiting (timer_data q t)) \<le> m) \<and>
    mset (heap q') = (if inactive q' t then filter_mset (\<lambda>e. snd e \<noteq> t) (mset (heap q)) else mset (heap q))"
proof -
  obtain ts where ts: "tq_ok q ts" using in_use_ok [OF assms(1)] by blast
  have l: "list_ok q ts" using ts by (simp add: tq_ok_def tq_core_def)
  have t: "t \<in> set ts" using assms(2) inactive_iff [OF l, of t] by simp
  let ?w = "waiting (timer_data q t)"
  have r: "n = min m (length ?w)" "ops' = ops @ map (op_ec_update (\<lambda>_. Some operation_aborted)) (take m ?w)"
    "q' = set_waiting t (drop m ?w) q"
    using assms(3) t unfolding cancel_timer_eq [OF ts] by (simp_all add: Let_def)
  note data = set_waiting_data [OF ts t, of "drop m ?w", folded r(3)]
  have "list_ok q' (if drop m ?w = [] then remove1 t ts else ts)"
    using set_waiting_ok [OF ts t, of "drop m ?w"] unfolding r(3) by (simp only: tq_ok_def tq_core_def)
  from inactive_iff [OF this] have act: "inactive q' u \<longleftrightarrow> u \<notin> set (if drop m ?w = [] then remove1 t ts else ts)" for u .
  have d: "distinct ts" using l by (simp add: list_ok_def)
  have it: "inactive q' t \<longleftrightarrow> length ?w \<le> m" unfolding act using d t by simp
  have iu: "inactive q' u \<longleftrightarrow> inactive q u" if "u \<noteq> t" for u
    unfolding act inactive_iff [OF l] using d that by simp
  show ?thesis using r(1, 2) data it iu by (simp add: without_def)
qed

lemma cancel_takes_oldest_witness: "waiting (timer_data (fst (snd (cancel_timer 1 [] 1 one_timer))) 1) = []"
proof -
  have "\<not> inactive one_timer 1" by (simp add: inactive_def one_timer_data)
  from cancel_takes_oldest [OF one_timer_in_use this, of "[]" 1] show ?thesis
    by (cases "cancel_timer 1 [] 1 one_timer") (simp add: one_timer_data [unfolded One_nat_def])
qed

end
