(* ===== verification/Op_Queue.thy ===== *)
theory Op_Queue
  imports Prelude
begin

text \<open>
  The queue of operations, \<open>detail/op_queue.hpp\<close>: a singly linked list through the
  \<open>next_\<close> fields of the operations themselves, with pointers to its front and its back.  An
  operation is its address, \<open>links\<close> the store of all \<open>next_\<close> fields, which the
  queues of a reactor share.  \<open>holds\<close> relates a queue to the list of its operations, and
  \<open>fifo\<close> is the interface that its clients rely on: \<open>Timer_Queue\<close> works on such lists.
\<close>

type_synonym op = nat
type_synonym links = "op \<Rightarrow> op option"

record op_queue =
  front :: "op option"
  back_op :: "op option"

subsection \<open>Operations\<close>

definition empty_queue :: op_queue where
  "empty_queue = \<lparr>front = None, back_op = None\<rparr>"

definition pop :: "links \<Rightarrow> op_queue \<Rightarrow> links \<times> op_queue" where
  "pop s q =
     (case front q of
        None \<Rightarrow> (s, q)
      | Some tmp \<Rightarrow>
          let q = q\<lparr>front := s tmp\<rparr>;
              q = (if front q = None then q\<lparr>back_op := None\<rparr> else q)
          in (s(tmp := None), q))"

definition push :: "links \<Rightarrow> op_queue \<Rightarrow> op \<Rightarrow> links \<times> op_queue" where
  "push s q h =
     (let s = s(h := None) in
      case back_op q of
        Some b \<Rightarrow> (s(b := Some h), q\<lparr>back_op := Some h\<rparr>)
      | None \<Rightarrow> (s, q\<lparr>front := Some h, back_op := Some h\<rparr>))"

text \<open>The result has the source queue last; it is empty then.\<close>

definition push_all :: "links \<Rightarrow> op_queue \<Rightarrow> op_queue \<Rightarrow> links \<times> op_queue \<times> op_queue" where
  "push_all s q other =
     (case front other of
        None \<Rightarrow> (s, q, other)
      | Some other_front \<Rightarrow>
          let (s, q) = (case back_op q of
                Some b \<Rightarrow> (s(b := Some other_front), q)
              | None \<Rightarrow> (s, q\<lparr>front := Some other_front\<rparr>))
          in (s, q\<lparr>back_op := back_op other\<rparr>, other\<lparr>front := None, back_op := None\<rparr>))"

definition is_empty :: "op_queue \<Rightarrow> bool" where
  "is_empty q \<longleftrightarrow> front q = None"

definition is_enqueued :: "links \<Rightarrow> op_queue \<Rightarrow> op \<Rightarrow> bool" where
  "is_enqueued s q h \<longleftrightarrow> s h \<noteq> None \<or> back_op q = Some h"

text \<open>The destructor; the result lists the operations in the order it destroys them.\<close>

partial_function (option) destroy_all :: "links \<Rightarrow> op_queue \<Rightarrow> op list \<Rightarrow> (links \<times> op_queue \<times> op list) option" where
  "destroy_all s q destroyed =
     (case front q of
        None \<Rightarrow> Some (s, q, destroyed)
      | Some h \<Rightarrow> (case pop s q of (s, q) \<Rightarrow> destroy_all s q (destroyed @ [h])))"

subsection \<open>The list of a queue\<close>

fun next_path :: "links \<Rightarrow> op option \<Rightarrow> op list \<Rightarrow> op option \<Rightarrow> bool" where
  "next_path s p [] n \<longleftrightarrow> p = n"
| "next_path s p (x # xs) n \<longleftrightarrow> p = Some x \<and> next_path s (s x) xs n"

definition holds :: "links \<Rightarrow> op_queue \<Rightarrow> op list \<Rightarrow> bool" where
  "holds s q xs \<longleftrightarrow> distinct xs \<and> next_path s (front q) xs None \<and>
     back_op q = (if xs = [] then None else Some (last xs))"

lemma next_path_other: "x \<notin> set xs \<Longrightarrow> next_path (s(x := n')) p xs n \<longleftrightarrow> next_path s p xs n"
  by (induction xs arbitrary: p) auto

lemma next_path_append: "next_path s p (xs @ ys) n \<longleftrightarrow> (\<exists>m. next_path s p xs m \<and> next_path s m ys n)"
  by (induction xs arbitrary: p) auto

lemma next_path_end:
  assumes "next_path s p xs n" "distinct xs" "xs \<noteq> []"
  shows "next_path (s(last xs := n')) p xs n'"
proof -
  obtain ys y where xs: "xs = ys @ [y]" using assms(3) by (meson rev_exhaust)
  then have "y \<notin> set ys" using assms(2) by simp
  with assms(1) xs show ?thesis by (simp add: next_path_append next_path_other)
qed

lemma holds_front: "holds s q xs \<Longrightarrow> front q = (case xs of [] \<Rightarrow> None | x # _ \<Rightarrow> Some x)"
  by (cases xs) (simp_all add: holds_def)

lemma holds_other: "holds s q xs \<Longrightarrow> x \<notin> set xs \<Longrightarrow> holds (s(x := n)) q xs"
  by (simp add: holds_def next_path_other)

lemma pop_holds:
  assumes "holds s q xs" "pop s q = (s', q')"
  shows "holds s' q' (tl xs)" "\<And>x. x \<noteq> hd xs \<Longrightarrow> s' x = s x" "xs \<noteq> [] \<Longrightarrow> s' (hd xs) = None"
proof -
  have "holds s' q' (tl xs) \<and> (\<forall>x. x \<noteq> hd xs \<longrightarrow> s' x = s x) \<and> (xs \<noteq> [] \<longrightarrow> s' (hd xs) = None)"
  proof (cases xs)
    case Nil
    then show ?thesis using assms by (simp add: holds_def pop_def)
  next
    case (Cons x ys)
    then show ?thesis using assms
      by (cases ys) (auto simp: holds_def pop_def next_path_other Let_def)
  qed
  then show "holds s' q' (tl xs)" "\<And>x. x \<noteq> hd xs \<Longrightarrow> s' x = s x" "xs \<noteq> [] \<Longrightarrow> s' (hd xs) = None" by blast+
qed

lemma push_holds:
  assumes "holds s q xs" "h \<notin> set xs" "push s q h = (s', q')"
  shows "holds s' q' (xs @ [h])"
proof (cases "xs = []")
  case False
  have "next_path (s(h := None)) (front q) xs None" using assms(1,2) by (simp add: holds_def next_path_other)
  then have "next_path (s(h := None, last xs := Some h)) (front q) xs (Some h)"
    using False assms(1) next_path_end by (auto simp: holds_def)
  moreover have "last xs \<noteq> h" using False assms(2) by (metis last_in_set)
  ultimately show ?thesis using assms False
    by (auto simp: holds_def push_def Let_def next_path_append)
qed (use assms in \<open>auto simp: holds_def push_def Let_def\<close>)

lemma push_other: "push s q h = (s', q') \<Longrightarrow> x \<noteq> h \<Longrightarrow> back_op q \<noteq> Some x \<Longrightarrow> s' x = s x"
  by (auto simp: push_def Let_def split: option.splits)

lemma push_all_holds:
  assumes "holds s q xs" "holds s r ys" "set xs \<inter> set ys = {}" "push_all s q r = (s', q', r')"
  shows "holds s' q' (xs @ ys)" "holds s' r' []"
proof -
  have "holds s' q' (xs @ ys) \<and> holds s' r' []"
  proof (cases ys)
    case Nil
    then show ?thesis using assms by (auto simp: holds_def push_all_def)
  next
    case (Cons y ys')
    show ?thesis
    proof (cases "xs = []")
      case True
      then show ?thesis using assms Cons by (auto simp: holds_def push_all_def Let_def)
    next
      case False
      then have "next_path (s(last xs := Some y)) (front q) xs (Some y)"
        using assms(1) next_path_end by (auto simp: holds_def)
      moreover have "last xs \<notin> set ys" using False assms(3) last_in_set by blast
      ultimately show ?thesis using assms False Cons
        by (auto simp: holds_def push_all_def Let_def next_path_append next_path_other)
    qed
  qed
  then show "holds s' q' (xs @ ys)" "holds s' r' []" by blast+
qed

lemma next_path_next: "next_path s p xs n \<Longrightarrow> n \<noteq> None \<Longrightarrow> x \<in> set xs \<Longrightarrow> s x \<noteq> None"
proof (induction xs arbitrary: p)
  case (Cons y ys)
  then show ?case by (cases ys) auto
qed simp

lemma enqueued_iff:
  assumes "holds s q xs" "h \<notin> set xs \<Longrightarrow> s h = None"
  shows "is_enqueued s q h \<longleftrightarrow> h \<in> set xs"
proof
  assume "is_enqueued s q h"
  then consider "s h \<noteq> None" | "xs \<noteq> []" "h = last xs"
    using assms(1) by (auto simp: is_enqueued_def holds_def split: if_splits)
  then show "h \<in> set xs"
  proof cases
    case 1
    then show ?thesis using assms(2) by metis
  qed auto
next
  assume h: "h \<in> set xs"
  then obtain ys y where xs: "xs = ys @ [y]" by (metis empty_iff list.set(1) rev_exhaust)
  have p: "next_path s (front q) ys (Some y)" "back_op q = Some y"
    using assms(1) xs by (auto simp: holds_def next_path_append)
  show "is_enqueued s q h"
    using next_path_next [OF p(1)] p(2) h xs by (auto simp: is_enqueued_def)
qed

lemma destroy_all_holds:
  "holds s q xs \<Longrightarrow> \<exists>s' q'. destroy_all s q ds = Some (s', q', ds @ xs) \<and> holds s' q' [] \<and> (\<forall>x \<in> set xs. s' x = None) \<and>
     (\<forall>x. x \<notin> set xs \<longrightarrow> s' x = s x)"
proof (induction xs arbitrary: s q ds)
  case Nil
  then have "front q = None" by (simp add: holds_def)
  then show ?case using Nil by (subst destroy_all.simps) simp
next
  case (Cons x xs)
  obtain s1 q1 where p: "pop s q = (s1, q1)" by fastforce
  note ph = pop_holds [OF Cons.prems p, simplified]
  from Cons.IH [OF ph(1), of "ds @ [x]"] obtain s' q' where
    "destroy_all s1 q1 (ds @ [x]) = Some (s', q', ds @ x # xs)" "holds s' q' []" "\<forall>x \<in> set xs. s' x = None"
    "\<forall>x. x \<notin> set xs \<longrightarrow> s' x = s1 x" by auto
  moreover have "front q = Some x" using Cons.prems by (simp add: holds_def)
  moreover have "x \<notin> set xs" using Cons.prems by (simp add: holds_def)
  ultimately show ?case using p ph by (subst destroy_all.simps) simp
qed

subsection \<open>The interface\<close>

text \<open>
  What a client relies on: the front is the head of the list, popping drops it, pushing appends,
  and an operation on one queue leaves a queue of other operations as it is.
\<close>

locale fifo =
  fixes rep :: "'s \<Rightarrow> 'q \<Rightarrow> 'a list \<Rightarrow> bool"
    and first :: "'q \<Rightarrow> 'a option"
    and dequeue :: "'s \<Rightarrow> 'q \<Rightarrow> 's \<times> 'q"
    and enqueue :: "'s \<Rightarrow> 'q \<Rightarrow> 'a \<Rightarrow> 's \<times> 'q"
  assumes first: "rep s q xs \<Longrightarrow> first q = (case xs of [] \<Rightarrow> None | x # _ \<Rightarrow> Some x)"
    and unique: "rep s q xs \<Longrightarrow> distinct xs"
    and dequeue: "rep s q xs \<Longrightarrow> dequeue s q = (s', q') \<Longrightarrow> rep s' q' (tl xs)"
    and dequeue_frame: "rep s q xs \<Longrightarrow> dequeue s q = (s', q') \<Longrightarrow> rep s r ys \<Longrightarrow>
      set xs \<inter> set ys = {} \<Longrightarrow> rep s' r ys"
    and enqueue: "rep s q xs \<Longrightarrow> x \<notin> set xs \<Longrightarrow> enqueue s q x = (s', q') \<Longrightarrow> rep s' q' (xs @ [x])"
    and enqueue_frame: "rep s q xs \<Longrightarrow> x \<notin> set ys \<Longrightarrow> enqueue s q x = (s', q') \<Longrightarrow> rep s r ys \<Longrightarrow>
      set xs \<inter> set ys = {} \<Longrightarrow> rep s' r ys"
begin

text \<open>One round of a loop that moves the front of a queue to the back of another.\<close>

lemma moved:
  assumes "rep s q (x # xs)" "rep s r ys" "set (x # xs) \<inter> set ys = {}"
    and "dequeue s q = (s1, q1)" "enqueue s1 r x = (s2, r1)"
  shows "first q = Some x \<and> rep s2 q1 xs \<and> rep s2 r1 (ys @ [x])"
proof -
  have 1: "rep s1 q1 xs" using dequeue [OF assms(1,4)] by simp
  have 2: "rep s1 r ys" using dequeue_frame [OF assms(1,4,2,3)] .
  have x: "x \<notin> set xs" "x \<notin> set ys" using unique [OF assms(1)] assms(3) by auto
  have 3: "rep s2 r1 (ys @ [x])" using enqueue [OF 2 x(2) assms(5)] .
  have "rep s2 q1 xs" using enqueue_frame [OF 2 x(1) assms(5) 1] assms(3) by auto
  with 3 first [OF assms(1)] show ?thesis by simp
qed

lemma moved_frame:
  assumes "rep s q (x # xs)" "rep s r ys" "rep s t zs"
    and "set (x # xs) \<inter> set zs = {}" "set ys \<inter> set zs = {}"
    and "set (x # xs) \<inter> set ys = {}" "dequeue s q = (s1, q1)" "enqueue s1 r x = (s2, r1)"
  shows "rep s2 t zs"
proof -
  have 1: "rep s1 t zs" using dequeue_frame [OF assms(1,7,3,4)] .
  have 2: "rep s1 r ys" using dequeue_frame [OF assms(1,7,2,6)] .
  show ?thesis using enqueue_frame [OF 2 _ assms(8) 1 assms(5)] assms(4) by simp
qed

end

interpretation opq: fifo holds front pop push
proof
  fix s s' q q' r xs ys and x :: op
  show "holds s q xs \<Longrightarrow> front q = (case xs of [] \<Rightarrow> None | x # _ \<Rightarrow> Some x)" by (rule holds_front)
  show "holds s q xs \<Longrightarrow> distinct xs" by (simp add: holds_def)
  show "holds s q xs \<Longrightarrow> pop s q = (s', q') \<Longrightarrow> holds s' q' (tl xs)" by (rule pop_holds(1))
  show "holds s q xs \<Longrightarrow> x \<notin> set xs \<Longrightarrow> push s q x = (s', q') \<Longrightarrow> holds s' q' (xs @ [x])"
    by (rule push_holds)
  assume h: "holds s q xs" and r: "holds s r ys" and d: "set xs \<inter> set ys = {}"
  show "holds s' r ys" if "pop s q = (s', q')"
  proof (cases xs)
    case Nil
    then show ?thesis using h r that by (simp add: pop_def holds_def)
  next
    case (Cons x xs')
    then have "x \<notin> set ys" using d by auto
    moreover have "s' = s(x := None)" using Cons h that by (auto simp: pop_def holds_def Let_def)
    ultimately show ?thesis using r by (simp add: holds_other)
  qed
  show "holds s' r ys" if "x \<notin> set ys" "push s q x = (s', q')"
  proof (cases "xs = []")
    case True
    then have "s' = s(x := None)" using h that(2) by (auto simp: push_def holds_def Let_def)
    then show ?thesis using r that(1) by (simp add: holds_other)
  next
    case False
    then have "last xs \<notin> set ys" using d last_in_set by blast
    moreover have "s' = s(x := None, last xs := Some x)"
      using False h that(2) by (auto simp: push_def holds_def Let_def)
    ultimately show ?thesis using r that(1) by (simp add: holds_other)
  qed
qed

subsection \<open>A queue is its list\<close>

lemma pop_unqueued: "holds s q xs \<Longrightarrow> pop s q = (s', q') \<Longrightarrow> xs \<noteq> [] \<Longrightarrow> \<not> is_enqueued s' q' (hd xs)"
  using pop_holds [of s q xs s' q'] by (cases xs) (auto simp: is_enqueued_def holds_def split: if_splits)

lemma push_queued: "push s q h = (s', q') \<Longrightarrow> is_enqueued s' q' h"
  by (auto simp: push_def is_enqueued_def Let_def split: option.splits)

lemma empty_queue_holds [simp]: "holds s empty_queue []"
  by (simp add: holds_def empty_queue_def)

lemma is_empty_iff: "holds s q xs \<Longrightarrow> is_empty q \<longleftrightarrow> xs = []"
  by (cases xs) (simp_all add: is_empty_def holds_def)

lemma holds_cong: "holds s q xs \<Longrightarrow> (\<And>x. x \<in> set xs \<Longrightarrow> s' x = s x) \<Longrightarrow> holds s' q xs"
proof -
  have "(\<And>x. x \<in> set xs \<Longrightarrow> s' x = s x) \<Longrightarrow> next_path s' p xs n = next_path s p xs n" for p n
    by (induction xs arbitrary: p) auto
  then show "holds s q xs \<Longrightarrow> (\<And>x. x \<in> set xs \<Longrightarrow> s' x = s x) \<Longrightarrow> holds s' q xs"
    by (simp add: holds_def)
qed

text \<open>
  C37: two queues of different operations over the same \<open>next_\<close> fields behave as the lists of
  their operations.  \<open>front\<close> is the head; \<open>pop\<close> drops it and unlinks it, so that it
  no longer counts as enqueued; \<open>push\<close> appends an operation of neither queue, which counts
  as enqueued from then on, and neither call changes the other queue; \<open>push\<close> of a whole
  queue appends it and leaves it empty; \<open>empty\<close> and \<open>is_enqueued\<close> answer for the list;
  and the destructor returns, after destroying every operation of the queue once, in order.
\<close>

theorem op_queue_refines_list:
  assumes "holds s q xs" "holds s r ys" "set xs \<inter> set ys = {}"
    and "\<forall>x. x \<notin> set xs \<union> set ys \<longrightarrow> s x = None"
  shows "front q = (case xs of [] \<Rightarrow> None | x # _ \<Rightarrow> Some x)
    \<and> (case pop s q of (s', q') \<Rightarrow>
         holds s' q' (tl xs) \<and> holds s' r ys \<and> (xs \<noteq> [] \<longrightarrow> \<not> is_enqueued s' q' (hd xs)))
    \<and> (\<forall>h. h \<notin> set xs \<union> set ys \<longrightarrow> (case push s q h of (s', q') \<Rightarrow>
         holds s' q' (xs @ [h]) \<and> holds s' r ys \<and> is_enqueued s' q' h))
    \<and> (case push_all s q r of (s', q', r') \<Rightarrow> holds s' q' (xs @ ys) \<and> holds s' r' [])
    \<and> (is_empty q \<longleftrightarrow> xs = [])
    \<and> (\<forall>h. h \<notin> set ys \<longrightarrow> (is_enqueued s q h \<longleftrightarrow> h \<in> set xs))
    \<and> (\<exists>s' q'. destroy_all s q [] = Some (s', q', xs) \<and> holds s' q' [] \<and> holds s' r ys)"
proof (intro conjI allI impI)
  show "front q = (case xs of [] \<Rightarrow> None | x # _ \<Rightarrow> Some x)" using assms(1) by (rule opq.first)
  show "case pop s q of (s', q') \<Rightarrow>
      holds s' q' (tl xs) \<and> holds s' r ys \<and> (xs \<noteq> [] \<longrightarrow> \<not> is_enqueued s' q' (hd xs))"
    using opq.dequeue [OF assms(1)] opq.dequeue_frame [OF assms(1) _ assms(2,3)] pop_unqueued [OF assms(1)]
    by (cases "pop s q") simp
  show "case push_all s q r of (s', q', r') \<Rightarrow> holds s' q' (xs @ ys) \<and> holds s' r' []"
    using push_all_holds [OF assms(1-3)] by (cases "push_all s q r") simp
  show "is_empty q \<longleftrightarrow> xs = []" using assms(1) by (rule is_empty_iff)
  show "is_enqueued s q h \<longleftrightarrow> h \<in> set xs" if "h \<notin> set ys" for h
    using enqueued_iff [OF assms(1)] assms(4) that by simp
  show "case push s q h of (s', q') \<Rightarrow> holds s' q' (xs @ [h]) \<and> holds s' r ys \<and> is_enqueued s' q' h"
    if "h \<notin> set xs \<union> set ys" for h
  proof -
    obtain s' q' where p: "push s q h = (s', q')" by fastforce
    have "holds s' q' (xs @ [h])" using opq.enqueue [OF assms(1) _ p] that by simp
    moreover have "holds s' r ys" using opq.enqueue_frame [OF assms(1) _ p assms(2,3)] that by simp
    ultimately show ?thesis using push_queued [OF p] p by simp
  qed
  obtain s' q' where d: "destroy_all s q [] = Some (s', q', xs)" "holds s' q' []"
    "\<forall>x. x \<notin> set xs \<longrightarrow> s' x = s x" using destroy_all_holds [OF assms(1), of "[]"] by auto
  have "holds s' r ys" using assms(2) by (rule holds_cong) (use d(3) assms(3) in blast)
  with d show "\<exists>s' q'. destroy_all s q [] = Some (s', q', xs) \<and> holds s' q' [] \<and> holds s' r ys" by blast
qed

text \<open>Operations 1 and 2 in one queue, 3 in another: 2 stays, 3 follows it.\<close>

lemma op_queue_refines_list_witness:
  "let s = Map.empty(1 \<mapsto> 2 :: nat); q = \<lparr>front = Some 1, back_op = Some 2\<rparr>; r = \<lparr>front = Some 3, back_op = Some 3\<rparr> in
   (case pop s q of (s', q') \<Rightarrow> holds s' q' [2] \<and> holds s' r [3] \<and> \<not> is_enqueued s' q' 1)
   \<and> (case push_all s q r of (s', q', r') \<Rightarrow> holds s' q' [1, 2, 3])"
proof -
  let ?s = "Map.empty(1 \<mapsto> 2 :: nat)" and ?q = "\<lparr>front = Some 1, back_op = Some 2\<rparr>" and ?r = "\<lparr>front = Some 3, back_op = Some 3\<rparr>"
  have "holds ?s ?q [1, 2]" "holds ?s ?r [3]" by (simp_all add: holds_def)
  note op_queue_refines_list [OF this]
  then show ?thesis by (auto simp: Let_def split: prod.splits)
qed

end
