(* ===== verification/Hash_Map.thy ===== *)
theory Hash_Map
  imports Prelude
begin

text \<open>
  \<open>detail/hash_map.hpp\<close>: a hash table whose entries are the nodes of one \<open>std::list\<close>.  Each
  bucket is a stretch of that list, from the iterator \<open>first\<close> to the iterator \<open>last\<close>; erased
  nodes go to a list of spares.  An iterator is the address of its node, or \<open>None\<close> for
  \<open>end()\<close>.
\<close>

type_synonym node = nat
type_synonym iter = "node option"

text \<open>
  \<open>entry\<close> holds what each node contains, \<open>next_node\<close> is the next address that
  the allocator gives out.
\<close>

record ('k, 'v) hash_map =
  map_size :: nat
  nodes :: "node list"
  spares :: "node list"
  entry :: "node \<Rightarrow> 'k \<times> 'v"
  buckets :: "(iter \<times> iter) list"
  next_node :: node

subsection \<open>Iterators of a list\<close>

definition head :: "node list \<Rightarrow> iter" where
  "head xs = (case xs of [] \<Rightarrow> None | x # _ \<Rightarrow> Some x)"

text \<open>\<open>++\<close> and \<open>--\<close>; \<open>end()\<close> is not incremented, the code checks before it does.\<close>

definition next_it :: "node list \<Rightarrow> iter \<Rightarrow> iter" where
  "next_it xs it = (case it of None \<Rightarrow> None | Some a \<Rightarrow> head (tl (dropWhile (\<lambda>x. x \<noteq> a) xs)))"

definition prev_it :: "node list \<Rightarrow> iter \<Rightarrow> iter" where
  "prev_it xs it = (case it of None \<Rightarrow> head (rev xs) | Some a \<Rightarrow> head (rev (takeWhile (\<lambda>x. x \<noteq> a) xs)))"

definition insert_before :: "iter \<Rightarrow> node \<Rightarrow> node list \<Rightarrow> node list" where
  "insert_before it n xs = (case it of
     None \<Rightarrow> xs @ [n]
   | Some a \<Rightarrow> takeWhile (\<lambda>x. x \<noteq> a) xs @ n # dropWhile (\<lambda>x. x \<noteq> a) xs)"

definition splice :: "iter \<Rightarrow> node \<Rightarrow> node list \<Rightarrow> node list" where
  "splice it n xs = insert_before it n (remove1 n xs)"

subsection \<open>Operations\<close>

definition hash_int :: "32 word \<Rightarrow> 64 word" where
  "hash_int i = scast i"

definition hash_pointer :: "64 word \<Rightarrow> 64 word" where
  "hash_pointer p = p + drop_bit 3 p"

definition empty_map :: "(node \<Rightarrow> 'k \<times> 'v) \<Rightarrow> ('k, 'v) hash_map" where
  "empty_map e = \<lparr>map_size = 0, nodes = [], spares = [], entry = e, buckets = [], next_node = 0\<rparr>"

definition map_empty :: "('k, 'v) hash_map \<Rightarrow> bool" where
  "map_empty m \<longleftrightarrow> nodes m = []"

definition bucket_of :: "('k \<Rightarrow> 64 word) \<Rightarrow> ('k, 'v) hash_map \<Rightarrow> 'k \<Rightarrow> nat" where
  "bucket_of h m k = unat (h k) mod length (buckets m)"

text \<open>No result: the loop does not end, or looks at \<open>end()\<close>.\<close>

partial_function (option) find_loop :: "('k, 'v) hash_map \<Rightarrow> 'k \<Rightarrow> iter \<Rightarrow> iter \<Rightarrow> iter option" where
  "find_loop m k it end_it =
     (if it \<noteq> end_it then
        (case it of
           None \<Rightarrow> None
         | Some n \<Rightarrow> if fst (entry m n) = k then Some it else find_loop m k (next_it (nodes m) it) end_it)
      else Some None)"

definition hash_find :: "('k \<Rightarrow> 64 word) \<Rightarrow> 'k \<Rightarrow> ('k, 'v) hash_map \<Rightarrow> iter option" where
  "hash_find h k m =
     (if buckets m \<noteq> [] then
        case buckets m ! bucket_of h m k of (it, last_it) \<Rightarrow>
          if it = None then Some None else find_loop m k it (next_it (nodes m) last_it)
      else Some None)"

definition hash_sizes :: "nat list" where
  "hash_sizes = [3, 13, 23, 53, 97, 193, 389, 769, 1543, 3079, 6151, 12289, 24593, 49157, 98317, 196613,
     393241, 786433, 1572869, 3145739, 6291469, 12582917, 25165843]"

fun first_above :: "nat \<Rightarrow> nat list \<Rightarrow> nat" where
  "first_above num_elems [] = 0"
| "first_above num_elems [s] = s"
| "first_above num_elems (s # ss) = (if num_elems < s then s else first_above num_elems ss)"

definition hash_size :: "nat \<Rightarrow> nat" where
  "hash_size num_elems = first_above num_elems hash_sizes"

definition set_bucket :: "nat \<Rightarrow> iter \<times> iter \<Rightarrow> ('k, 'v) hash_map \<Rightarrow> ('k, 'v) hash_map" where
  "set_bucket b fl m = m\<lparr>buckets := (buckets m)[b := fl]\<rparr>"

partial_function (option) rehash_loop ::
  "('k \<Rightarrow> 64 word) \<Rightarrow> iter \<Rightarrow> ('k, 'v) hash_map \<Rightarrow> ('k, 'v) hash_map option" where
  "rehash_loop h it m =
     (case it of
        None \<Rightarrow> Some m
      | Some n \<Rightarrow>
          let bucket = bucket_of h m (fst (entry m n)); (f, l) = buckets m ! bucket in
          if l = None then rehash_loop h (next_it (nodes m) it) (set_bucket bucket (it, it) m)
          else
            let l = next_it (nodes m) l in
            if l = it then rehash_loop h (next_it (nodes m) it) (set_bucket bucket (f, l) m)
            else
              let xs = splice l n (nodes m) in
              rehash_loop h (next_it (nodes m) it) (set_bucket bucket (f, prev_it xs l) (m\<lparr>nodes := xs\<rparr>)))"

definition rehash :: "('k \<Rightarrow> 64 word) \<Rightarrow> nat \<Rightarrow> ('k, 'v) hash_map \<Rightarrow> ('k, 'v) hash_map option" where
  "rehash h num_buckets m =
     (if num_buckets = length (buckets m) then Some m
      else rehash_loop h (head (nodes m)) (m\<lparr>buckets := replicate num_buckets (None, None)\<rparr>))"

definition values_insert :: "iter \<Rightarrow> 'k \<times> 'v \<Rightarrow> ('k, 'v) hash_map \<Rightarrow> ('k, 'v) hash_map \<times> iter" where
  "values_insert it v m =
     (case spares m of
        [] \<Rightarrow> (let n = next_node m in
          (m\<lparr>next_node := n + 1, entry := (entry m)(n := v), nodes := insert_before it n (nodes m)\<rparr>, Some n))
      | n # ns \<Rightarrow> (let xs = insert_before it n (nodes m) in
          (m\<lparr>entry := (entry m)(n := v), spares := ns, nodes := xs\<rparr>, prev_it xs it)))"

definition values_erase :: "'k \<times> 'v \<Rightarrow> node \<Rightarrow> ('k, 'v) hash_map \<Rightarrow> ('k, 'v) hash_map" where
  "values_erase value n m =
     m\<lparr>entry := (entry m)(n := value), spares := n # spares m, nodes := remove1 n (nodes m)\<rparr>"

text \<open>The result is the table, the iterator and whether the entry is new.\<close>

definition insert_new :: "nat \<Rightarrow> iter \<Rightarrow> 'k \<times> 'v \<Rightarrow> ('k, 'v) hash_map \<Rightarrow> ('k, 'v) hash_map \<times> iter \<times> bool" where
  "insert_new bucket it v m =
     (case values_insert it v m of (m, n) \<Rightarrow>
        let f = fst (buckets m ! bucket) in
        ((set_bucket bucket (if f = None then n else f, n) m)\<lparr>map_size := map_size m + 1\<rparr>, n, True))"

definition hash_insert ::
  "('k \<Rightarrow> 64 word) \<Rightarrow> 'k \<times> 'v \<Rightarrow> ('k, 'v) hash_map \<Rightarrow> (('k, 'v) hash_map \<times> iter \<times> bool) option" where
  "hash_insert h v m =
     (case (if map_size m + 1 \<ge> length (buckets m) then rehash h (hash_size (map_size m + 1)) m else Some m) of
        None \<Rightarrow> None
      | Some m \<Rightarrow>
          let bucket = bucket_of h m (fst v); (it, last_it) = buckets m ! bucket in
          if it = None then Some (insert_new bucket None v m)
          else
            let end_it = next_it (nodes m) last_it in
            case find_loop m (fst v) it end_it of
              None \<Rightarrow> None
            | Some (Some n) \<Rightarrow> Some (m, Some n, False)
            | Some None \<Rightarrow> Some (insert_new bucket end_it v m))"

text \<open>\<open>value\<close> is \<open>value_type()\<close>.\<close>

definition hash_erase :: "('k \<Rightarrow> 64 word) \<Rightarrow> 'k \<times> 'v \<Rightarrow> node \<Rightarrow> ('k, 'v) hash_map \<Rightarrow> ('k, 'v) hash_map" where
  "hash_erase h value n m =
     (let bucket = bucket_of h m (fst (entry m n));
          (f, l) = buckets m ! bucket;
          is_first = (Some n = f);
          is_last = (Some n = l);
          fl = (if is_first \<and> is_last then (None, None)
                else if is_first then (next_it (nodes m) f, l)
                else if is_last then (f, prev_it (nodes m) l)
                else (f, l));
          m = values_erase value n (set_bucket bucket fl m)
      in m\<lparr>map_size := map_size m - 1\<rparr>)"

definition hash_erase_key ::
  "('k \<Rightarrow> 64 word) \<Rightarrow> 'k \<times> 'v \<Rightarrow> 'k \<Rightarrow> ('k, 'v) hash_map \<Rightarrow> ('k, 'v) hash_map option" where
  "hash_erase_key h value k m =
     (case hash_find h k m of
        None \<Rightarrow> None
      | Some None \<Rightarrow> Some m
      | Some (Some n) \<Rightarrow> Some (hash_erase h value n m))"

definition hash_clear :: "('k, 'v) hash_map \<Rightarrow> ('k, 'v) hash_map" where
  "hash_clear m = m\<lparr>nodes := [], map_size := 0, buckets := replicate (length (buckets m)) (None, None)\<rparr>"

text \<open>A client changes a value through an iterator, \<open>it->second\<close>.\<close>

definition set_value :: "node \<Rightarrow> 'v \<Rightarrow> ('k, 'v) hash_map \<Rightarrow> ('k, 'v) hash_map" where
  "set_value n v m = m\<lparr>entry := (entry m)(n := (fst (entry m n), v))\<rparr>"

end
