(* ===== verification/Hash_Map_Properties.thy ===== *)
theory Hash_Map_Properties
  imports Hash_Map "HOL-Library.Sublist" "HOL-Library.Multiset"
begin

text \<open>
  The hash table against the finite map that it stands for, \<open>contents\<close>: every operation
  ends and changes the map as its name says, and every bucket stays one stretch of the list.
\<close>

subsection \<open>Lists and iterators\<close>

lemma head_simps [simp]: "head [] = None" "head (x # xs) = Some x"
  by (simp_all add: head_def)

lemma head_hd: "xs \<noteq> [] \<Longrightarrow> head xs = Some (hd xs)"
  by (cases xs) simp_all

lemma head_None [simp]: "head xs = None \<longleftrightarrow> xs = []"
  by (cases xs) simp_all

lemma next_it_at: "a \<notin> set as \<Longrightarrow> next_it (as @ a # bs) (Some a) = head bs"
  by (induction as) (auto simp: next_it_def)

lemma prev_it_at: "a \<notin> set as \<Longrightarrow> prev_it (as @ a # bs) (Some a) = head (rev as)"
proof -
  assume "a \<notin> set as"
  then have "takeWhile (\<lambda>x. x \<noteq> a) (as @ a # bs) = as" by (induction as) auto
  then show ?thesis by (simp add: prev_it_def)
qed

lemma insert_before_end [simp]: "insert_before None n xs = xs @ [n]"
  by (simp add: insert_before_def)

lemma insert_before_at: "a \<notin> set as \<Longrightarrow> insert_before (Some a) n (as @ a # bs) = as @ n # a # bs"
proof -
  assume "a \<notin> set as"
  then have "takeWhile (\<lambda>x. x \<noteq> a) (as @ a # bs) = as" "dropWhile (\<lambda>x. x \<noteq> a) (as @ a # bs) = a # bs"
    by (induction as) auto
  then show ?thesis by (simp add: insert_before_def)
qed

lemma insert_before_head: "set as \<inter> set bs = {} \<Longrightarrow> insert_before (head bs) n (as @ bs) = as @ n # bs"
  by (cases bs) (simp_all add: insert_before_at)

lemma same_split: "as @ a # bs = cs @ a # ds \<Longrightarrow> distinct (as @ a # bs) \<Longrightarrow> as = cs \<and> bs = ds"
  by (subst (asm) append_Cons_eq_iff) auto

lemma sublist_grow:
  assumes "distinct (as @ a # bs)" "sublist ys (as @ a # bs)" "a \<notin> set ys"
  shows "sublist ys (as @ a # zs @ bs)" "sublist ys (as @ bs)"
proof -
  obtain ps ss where x: "as @ a # bs = ps @ ys @ ss" using assms(2) by (auto simp: sublist_def)
  then have "a \<in> set ps \<or> a \<in> set ss"
    using assms(3) by (metis Un_iff list.set_intros(1) set_append in_set_conv_decomp)
  then have "sublist ys (as @ a # zs @ bs) \<and> sublist ys (as @ bs)"
  proof
    assume "a \<in> set ps"
    then obtain p1 p2 where p: "ps = p1 @ a # p2" "a \<notin> set p1" by (meson split_list_first)
    then have "as @ a # bs = p1 @ a # (p2 @ ys @ ss)" using x by simp
    then have "as = p1 \<and> bs = p2 @ ys @ ss" using assms(1) by (rule same_split)
    then show ?thesis
      using sublist_appendI [of ys "as @ a # zs @ p2" ss] sublist_appendI [of ys "as @ p2" ss] by simp
  next
    assume "a \<in> set ss"
    then obtain s1 s2 where s: "ss = s1 @ a # s2" "a \<notin> set s1" by (meson split_list_first)
    then have "as @ a # bs = (ps @ ys @ s1) @ a # s2" using x by simp
    then have "as = ps @ ys @ s1 \<and> bs = s2" using assms(1) by (rule same_split)
    then show ?thesis
      using sublist_appendI [of ys ps "s1 @ a # zs @ bs"] sublist_appendI [of ys ps "s1 @ bs"] by simp
  qed
  then show "sublist ys (as @ a # zs @ bs)" "sublist ys (as @ bs)" by blast+
qed

subsection \<open>Buckets\<close>

text \<open>
  \<open>g\<close> tells the bucket of a node: the nodes of a bucket are a stretch of the list, and the
  bucket points to its ends.
\<close>

definition ends :: "node list \<Rightarrow> iter \<times> iter" where
  "ends ys = (head ys, head (rev ys))"

definition members :: "(node \<Rightarrow> nat) \<Rightarrow> nat \<Rightarrow> node list \<Rightarrow> node list" where
  "members g b xs = filter (\<lambda>n. g n = b) xs"

definition spans :: "(node \<Rightarrow> nat) \<Rightarrow> (iter \<times> iter) list \<Rightarrow> node list \<Rightarrow> bool" where
  "spans g bs xs \<longleftrightarrow> (\<forall>b < length bs. bs ! b = ends (members g b xs) \<and> sublist (members g b xs) xs)"

lemma members_simps [simp]:
  "members g b [] = []"
  "members g b (x # xs) = (if g x = b then x # members g b xs else members g b xs)"
  "members g b (xs @ ys) = members g b xs @ members g b ys"
  by (simp_all add: members_def)

lemma members_sub: "set (members g b xs) \<subseteq> set xs" "x \<in> set (members g b xs) \<Longrightarrow> g x = b"
  "distinct xs \<Longrightarrow> distinct (members g b xs)"
  by (auto simp: members_def)

lemma spans_empty: "spans g (replicate k (None, None)) []"
  by (simp add: spans_def ends_def)

lemma ends_snoc: "ends (ys @ [x]) = (if ys = [] then Some x else fst (ends ys), Some x)"
  by (cases ys) (simp_all add: ends_def)

text \<open>A node put at the end of its bucket, or at the end of the list if its bucket is empty.\<close>

lemma spans_put:
  assumes "spans g bs (as @ cs)" "distinct (as @ cs)" "x \<notin> set (as @ cs)" "g x < length bs"
    and at: "if members g (g x) (as @ cs) = [] then cs = []
      else as \<noteq> [] \<and> last as = last (members g (g x) (as @ cs))"
  shows "spans g (bs[g x := (if fst (bs ! g x) = None then Some x else fst (bs ! g x), Some x)]) (as @ x # cs)"
  unfolding spans_def
proof (intro allI impI)
  let ?bs = "bs[g x := (if fst (bs ! g x) = None then Some x else fst (bs ! g x), Some x)]"
  let ?m = "members g (g x) (as @ cs)"
  fix b assume "b < length ?bs"
  then have b: "b < length bs" by simp
  then have old: "bs ! b = ends (members g b (as @ cs))" "sublist (members g b (as @ cs)) (as @ cs)"
    using assms(1) by (auto simp: spans_def)
  have gx: "bs ! g x = ends ?m" "sublist ?m (as @ cs)" using assms(1,4) by (auto simp: spans_def)
  show "?bs ! b = ends (members g b (as @ x # cs)) \<and> sublist (members g b (as @ x # cs)) (as @ x # cs)"
  proof (cases "?m = []")
    case True
    then have "cs = []" using at by simp
    moreover have "sublist (members g b as) (as @ [x])" using old(2) \<open>cs = []\<close>
      by (metis append.right_neutral prefix_imp_sublist prefixI sublist_order.order_trans)
    moreover have "sublist [x] (as @ [x])" by (simp add: suffix_imp_sublist suffixI)
    ultimately show ?thesis using True old gx b assms(4)
      by (cases "b = g x") (auto simp: ends_def)
  next
    case False
    then have ne: "as \<noteq> []" "last as = last ?m" using at by auto
    then obtain as' a where as: "as = as' @ [a]" by (meson rev_exhaust)
    then have a: "a = last ?m" "a \<notin> set cs" "a \<notin> set as'" using ne assms(2) by auto
    then have ga: "g a = g x" using members_sub(2) [OF last_in_set [OF False]] by simp
    have cs: "members g (g x) cs = []"
    proof (rule ccontr)
      assume n: "members g (g x) cs \<noteq> []"
      then have "last ?m = last (members g (g x) cs)" by simp
      then have "last ?m \<in> set cs" using members_sub(1) last_in_set [OF n] by auto
      then show False using a by simp
    qed
    show ?thesis
    proof (cases "b = g x")
      case True
      obtain ps ss where p: "as @ cs = ps @ ?m @ ss" using gx(2) unfolding sublist_def by blast
      obtain m' where m: "?m = m' @ [a]" using False a(1) by (metis append_butlast_last_id)
      have "as' @ a # cs = (ps @ m') @ a # ss" using p unfolding m by (simp add: as del: members_simps)
      then have "as' = ps @ m' \<and> cs = ss" by (rule same_split) (use assms(2) as in simp)
      then have "as @ x # cs = ps @ (?m @ [x]) @ ss" unfolding m using as by simp
      then have "sublist (?m @ [x]) (as @ x # cs)" by (metis sublist_appendI)
      moreover have "members g (g x) (as @ x # cs) = ?m @ [x]" using cs by simp
      moreover have "fst (bs ! g x) \<noteq> None" using gx(1) False by (simp add: ends_def del: members_simps)
      then have "?bs ! g x = ends (?m @ [x])" using gx(1) False assms(4)
        by (simp add: ends_snoc del: members_simps)
      ultimately show ?thesis using True by simp
    next
      case False
      then have "a \<notin> set (members g b (as @ cs))" using ga members_sub(2) by auto
      then have "sublist (members g b (as @ cs)) (as' @ a # [x] @ cs)"
        using sublist_grow(1) [of as' a cs _ "[x]"] old(2) assms(2) unfolding as by (simp del: members_simps)
      with old(1) False as show ?thesis by auto
    qed
  qed
qed

text \<open>A node taken out of the list.\<close>

lemma new_ends:
  assumes "Some n = f \<longleftrightarrow> ls = []" "Some n = l \<longleftrightarrow> rs = []"
    and "rs \<noteq> [] \<Longrightarrow> next_it xs (Some n) = head rs" "ls \<noteq> [] \<Longrightarrow> prev_it xs (Some n) = head (rev ls)"
    and "f = head (ls @ n # rs)" "l = head (rev (ls @ n # rs))"
  shows "(if Some n = f \<and> Some n = l then (None, None)
      else if Some n = f then (next_it xs f, l)
      else if Some n = l then (f, prev_it xs l) else (f, l)) = ends (ls @ rs)"
proof (cases "ls = []"; cases "rs = []")
  assume "ls \<noteq> []" "rs \<noteq> []"
  then show ?thesis using assms by (cases ls; cases rs rule: rev_cases) (simp_all add: ends_def)
next
  assume "ls \<noteq> []" "rs = []"
  then show ?thesis using assms by (cases ls) (simp_all add: ends_def)
next
  assume "ls = []" "rs \<noteq> []"
  then show ?thesis using assms by (cases rs rule: rev_cases) (simp_all add: ends_def)
qed (use assms in \<open>simp add: ends_def\<close>)

lemma spans_remove:
  assumes "spans g bs (as @ n # cs)" "distinct (as @ n # cs)" "g n < length bs"
    and f: "(f, l) = bs ! g n"
  shows "spans g (bs[g n := (if Some n = f \<and> Some n = l then (None, None)
      else if Some n = f then (next_it (as @ n # cs) f, l)
      else if Some n = l then (f, prev_it (as @ n # cs) l) else (f, l))]) (as @ cs)"
  unfolding spans_def
proof (intro allI impI)
  let ?fl = "if Some n = f \<and> Some n = l then (None, None)
      else if Some n = f then (next_it (as @ n # cs) f, l)
      else if Some n = l then (f, prev_it (as @ n # cs) l) else (f, l)"
  fix b assume "b < length (bs[g n := ?fl])"
  then have b: "b < length bs" by simp
  then have old: "bs ! b = ends (members g b (as @ n # cs))" "sublist (members g b (as @ n # cs)) (as @ n # cs)"
    using assms(1) by (auto simp: spans_def)
  show "bs[g n := ?fl] ! b = ends (members g b (as @ cs)) \<and> sublist (members g b (as @ cs)) (as @ cs)"
  proof (cases "b = g n")
    case False
    then have "n \<notin> set (members g b (as @ n # cs))" using members_sub(2) by auto
    then show ?thesis using sublist_grow(2) [OF assms(2) old(2)] old(1) False by simp
  next
    case True
    let ?l = "members g b as" and ?r = "members g b cs"
    have m: "members g b (as @ n # cs) = ?l @ n # ?r" using True by simp
    obtain ps ss where "as @ n # cs = ps @ (?l @ n # ?r) @ ss" using old(2) unfolding m sublist_def by blast
    then have "as @ n # cs = (ps @ ?l) @ n # (?r @ ss)" by simp
    from same_split [OF this assms(2)] have s: "as = ps @ ?l" "cs = ?r @ ss" by blast+
    have "as @ cs = ps @ (?l @ ?r) @ ss" by (subst s(1), subst s(2)) simp
    then have sub: "sublist (members g b (as @ cs)) (as @ cs)" unfolding sublist_def members_simps(3) by blast
    have fl: "f = head (?l @ n # ?r)" "l = head (rev (?l @ n # ?r))"
      using f old(1) True unfolding m ends_def by simp_all
    have d: "n \<notin> set as" "n \<notin> set ?l" "n \<notin> set ?r"
      using assms(2) members_sub(1) [of g b as] members_sub(1) [of g b cs] by auto
    have "Some n = f \<longleftrightarrow> ?l = []" using fl(1) d(2) by (cases ?l) (simp, force)
    moreover have "Some n = l \<longleftrightarrow> ?r = []" using fl(2) d(3) by (cases ?r rule: rev_cases) (simp, force)
    moreover have "next_it (as @ n # cs) (Some n) = head ?r" if "?r \<noteq> []"
      using next_it_at [OF d(1), of cs] that arg_cong [OF s(2), of head] by (cases ?r) simp_all
    moreover have "prev_it (as @ n # cs) (Some n) = head (rev ?l)" if "?l \<noteq> []"
      using prev_it_at [OF d(1), of cs] that arg_cong [OF s(1), of "\<lambda>xs. head (rev xs)"]
      by (cases ?l rule: rev_cases) simp_all
    ultimately have "?fl = ends (?l @ ?r)" using fl by (rule new_ends)
    then show ?thesis using sub True assms(3) by simp
  qed
qed

subsection \<open>Searching a bucket\<close>

abbreviation key :: "('k, 'v) hash_map \<Rightarrow> node \<Rightarrow> 'k" where
  "key m n \<equiv> fst (entry m n)"

abbreviation node_bucket :: "('k \<Rightarrow> 64 word) \<Rightarrow> ('k, 'v) hash_map \<Rightarrow> node \<Rightarrow> nat" where
  "node_bucket h m n \<equiv> bucket_of h m (key m n)"

lemma find_loop_finds:
  "nodes m = ps @ ys @ ss \<Longrightarrow> distinct (nodes m) \<Longrightarrow>
   find_loop m k (head (ys @ ss)) (head ss) = Some (find (\<lambda>n. key m n = k) ys)"
proof (induction ys arbitrary: ps)
  case Nil
  then show ?case by (subst find_loop.simps) simp
next
  case (Cons y ys)
  then have "head ss \<noteq> Some y" by (cases ss) auto
  moreover have "next_it (nodes m) (Some y) = head (ys @ ss)" using Cons.prems by (simp add: next_it_at)
  moreover have "find_loop m k (head (ys @ ss)) (head ss) = Some (find (\<lambda>n. key m n = k) ys)"
    using Cons.IH [of "ps @ [y]"] Cons.prems by simp
  ultimately show ?case by (subst find_loop.simps) auto
qed

definition ordered :: "('k \<Rightarrow> 64 word) \<Rightarrow> ('k, 'v) hash_map \<Rightarrow> bool" where
  "ordered h m \<longleftrightarrow> distinct (nodes m) \<and> spans (node_bucket h m) (buckets m) (nodes m)"

lemma find_members: "find (\<lambda>n. key m n = k) (members (node_bucket h m) (bucket_of h m k) xs) = find (\<lambda>n. key m n = k) xs"
  by (induction xs) auto

lemma bucket_in: "buckets m \<noteq> [] \<Longrightarrow> bucket_of h m k < length (buckets m)"
  by (simp add: bucket_of_def)

text \<open>The search of one bucket decides for the whole table.\<close>

lemma bucket_search:
  assumes "ordered h m" "buckets m \<noteq> []" "buckets m ! bucket_of h m k = (f, l)"
  defines "ys \<equiv> members (node_bucket h m) (bucket_of h m k) (nodes m)"
  shows "f = None \<longleftrightarrow> ys = []" "f = head ys" "l = head (rev ys)"
    "ys \<noteq> [] \<Longrightarrow> find_loop m k f (next_it (nodes m) l) = Some (find (\<lambda>n. key m n = k) (nodes m))"
    "ys = [] \<Longrightarrow> find (\<lambda>n. key m n = k) (nodes m) = None"
    "ys \<noteq> [] \<Longrightarrow> \<exists>as cs. nodes m = as @ cs \<and> as \<noteq> [] \<and> last as = last ys \<and> next_it (nodes m) l = head cs"
proof -
  have s: "(f, l) = ends ys" "sublist ys (nodes m)"
    using assms bucket_in [OF assms(2), of h k] unfolding ordered_def spans_def by auto
  then show fl: "f = None \<longleftrightarrow> ys = []" "f = head ys" "l = head (rev ys)" by (auto simp: ends_def)
  have fnd: "find (\<lambda>n. key m n = k) ys = find (\<lambda>n. key m n = k) (nodes m)"
    unfolding ys_def by (rule find_members)
  then show "ys = [] \<Longrightarrow> find (\<lambda>n. key m n = k) (nodes m) = None" by simp
  have d: "distinct (nodes m)" using assms(1) by (simp add: ordered_def)
  obtain ps ss where x: "nodes m = ps @ ys @ ss" using s(2) by (auto simp: sublist_def)
  assume ne: "ys \<noteq> []"
  then obtain ys' y where y: "ys = ys' @ [y]" by (meson rev_exhaust)
  have nx: "next_it (nodes m) l = head ss"
    using x d fl(3) unfolding y by (simp add: next_it_at [of y "ps @ ys'" ss, simplified])
  have "f = head (ys @ ss)" using fl(2) ne by (cases ys) auto
  then show "find_loop m k f (next_it (nodes m) l) = Some (find (\<lambda>n. key m n = k) (nodes m))"
    using find_loop_finds [OF x d] nx fnd by simp
  show "\<exists>as cs. nodes m = as @ cs \<and> as \<noteq> [] \<and> last as = last ys \<and> next_it (nodes m) l = head cs"
    using x nx ne by (intro exI [of _ "ps @ ys"] exI [of _ ss]) simp
qed

subsection \<open>Rehashing\<close>

lemma bucket_split:
  assumes "spans g bs xs" "b < length bs"
  obtains as cs where "xs = as @ cs"
    and "if members g b xs = [] then cs = [] else as \<noteq> [] \<and> last as = last (members g b xs)"
proof (cases "members g b xs = []")
  case True
  then show ?thesis using that [of xs "[]"] by simp
next
  case False
  have "sublist (members g b xs) xs" using assms by (simp add: spans_def)
  then obtain ps ss where "xs = (ps @ members g b xs) @ ss" unfolding sublist_def by auto
  then show ?thesis using False that [of "ps @ members g b xs" ss] by simp
qed

lemma next_last: "as \<noteq> [] \<Longrightarrow> distinct (as @ bs) \<Longrightarrow> next_it (as @ bs) (Some (last as)) = head bs"
  by (cases as rule: rev_cases) (simp_all add: next_it_at)

lemma bucket_set [simp]:
  "bucket_of h (set_bucket b fl m) k = bucket_of h m k" "bucket_of h (m\<lparr>nodes := xs\<rparr>) k = bucket_of h m k"
  "bucket_of h (m\<lparr>map_size := s\<rparr>) k = bucket_of h m k"
  by (simp_all add: bucket_of_def set_bucket_def)

lemma set_bucket_simps [simp]:
  "nodes (set_bucket b fl m) = nodes m" "entry (set_bucket b fl m) = entry m"
  "spares (set_bucket b fl m) = spares m" "map_size (set_bucket b fl m) = map_size m"
  "next_node (set_bucket b fl m) = next_node m" "buckets (set_bucket b fl m) = (buckets m)[b := fl]"
  by (simp_all add: set_bucket_def)

lemma nodes_same: "nodes m = xs \<Longrightarrow> m\<lparr>nodes := xs\<rparr> = m"
  by auto

lemma rehash_step:
  assumes "nodes m = done @ x # rest" "distinct (nodes m)" "spans (node_bucket h m) (buckets m) done" "buckets m \<noteq> []"
  shows "\<exists>as cs l. done = as @ cs \<and>
    spans (node_bucket h m) ((buckets m)[node_bucket h m x := (l, Some x)]) (as @ x # cs) \<and>
    rehash_loop h (Some x) m = rehash_loop h (head rest)
      (set_bucket (node_bucket h m x) (l, Some x) (m\<lparr>nodes := as @ x # cs @ rest\<rparr>))"
proof -
  let ?b = "node_bucket h m x"
  let ?ys = "members (node_bucket h m) ?b done"
  have b: "?b < length (buckets m)" using assms(4) by (rule bucket_in)
  obtain as cs where d: "done = as @ cs" and
    at: "if ?ys = [] then cs = [] else as \<noteq> [] \<and> last as = last ?ys"
    using bucket_split [OF assms(3) b] .
  obtain f l where fl: "buckets m ! ?b = (f, l)" by fastforce
  then have "(f, l) = ends ?ys" using assms(3) b by (simp add: spans_def)
  then have f: "f = head ?ys" "l = head (rev ?ys)" by (simp_all add: ends_def)
  let ?f = "if f = None then Some x else f"
  have sp: "spans (node_bucket h m) ((buckets m)[?b := (?f, Some x)]) (as @ x # cs)"
  proof -
    have "distinct (as @ cs)" "x \<notin> set (as @ cs)" using assms(1,2) d by auto
    from spans_put [OF assms(3) [unfolded d] this b at [unfolded d]] show ?thesis by (simp only: fl fst_conv)
  qed
  have nx: "next_it (nodes m) (Some x) = head rest" using assms(1,2) by (simp add: next_it_at)
  have "rehash_loop h (Some x) m = rehash_loop h (head rest)
      (set_bucket ?b (?f, Some x) (m\<lparr>nodes := as @ x # cs @ rest\<rparr>))"
  proof (cases "?ys = []")
    case True
    then have "l = None" "f = None" "cs = []" using f at by simp_all
    moreover have "m\<lparr>nodes := as @ x # rest\<rparr> = m" using assms(1) d \<open>cs = []\<close> by (simp add: nodes_same)
    ultimately show ?thesis using nx fl
      by (subst rehash_loop.simps) (simp add: Let_def)
  next
    case False
    then have as: "as \<noteq> []" "last as = last ?ys" using at by auto
    then have l: "l = Some (last as)" "f = Some (hd ?ys)"
      using False f by (simp_all add: head_hd hd_rev del: members_simps)
    have n: "next_it (nodes m) l = head (cs @ x # rest)"
      using next_last [OF as(1), of "cs @ x # rest"] assms(1,2) l(1) d by simp
    show ?thesis
    proof (cases cs)
      case Nil
      moreover have "m\<lparr>nodes := as @ x # rest\<rparr> = m" using assms(1) d Nil by (simp add: nodes_same)
      ultimately show ?thesis using nx n l fl
        by (subst rehash_loop.simps) (simp add: Let_def)
    next
      case (Cons c cs')
      have c: "c \<noteq> x" "c \<notin> set as" "x \<notin> set done" using assms(1,2) d Cons by auto
      have "splice (Some c) x (nodes m) = as @ x # cs @ rest"
        using assms(1) c d Cons by (simp add: splice_def remove1_append insert_before_at)
      moreover have "prev_it (as @ x # cs @ rest) (Some c) = Some x"
        using prev_it_at [of c "as @ [x]" "cs' @ rest"] c Cons by simp
      ultimately show ?thesis using nx n l fl c Cons
        by (subst rehash_loop.simps) (simp add: Let_def)
    qed
  qed
  with d sp show ?thesis by blast
qed

lemma rehash_loop_orders:
  "nodes m = done @ rest \<Longrightarrow> distinct (nodes m) \<Longrightarrow> spans (node_bucket h m) (buckets m) done \<Longrightarrow> buckets m \<noteq> [] \<Longrightarrow>
   \<exists>xs bs. rehash_loop h (head rest) m = Some (m\<lparr>nodes := xs, buckets := bs\<rparr>) \<and> mset xs = mset (nodes m) \<and>
     length bs = length (buckets m) \<and> ordered h (m\<lparr>nodes := xs, buckets := bs\<rparr>)"
proof (induction rest arbitrary: m "done")
  case Nil
  then have "ordered h m" by (simp add: ordered_def)
  then show ?case by (intro exI [of _ "nodes m"] exI [of _ "buckets m"]) (simp add: rehash_loop.simps)
next
  case (Cons x rest)
  from rehash_step [OF Cons.prems] obtain as cs l where d: "done = as @ cs"
    and s: "spans (node_bucket h m) ((buckets m)[node_bucket h m x := (l, Some x)]) (as @ x # cs)"
    and r: "rehash_loop h (Some x) m = rehash_loop h (head rest)
      (set_bucket (node_bucket h m x) (l, Some x) (m\<lparr>nodes := as @ x # cs @ rest\<rparr>))" by blast
  let ?m = "set_bucket (node_bucket h m x) (l, Some x) (m\<lparr>nodes := as @ x # cs @ rest\<rparr>)"
  have "distinct (nodes ?m)" using Cons.prems(1,2) d by auto
  with Cons.IH [of ?m "as @ x # cs"] s Cons.prems(4) obtain xs bs where
    i: "rehash_loop h (head rest) ?m = Some (?m\<lparr>nodes := xs, buckets := bs\<rparr>)" "mset xs = mset (nodes ?m)"
      "length bs = length (buckets m)" "ordered h (?m\<lparr>nodes := xs, buckets := bs\<rparr>)" by auto
  have "?m\<lparr>nodes := xs, buckets := bs\<rparr> = m\<lparr>nodes := xs, buckets := bs\<rparr>" by (simp add: set_bucket_def)
  note i = i [unfolded this]
  have "mset (nodes ?m) = mset (nodes m)" using Cons.prems(1) d by simp
  then show ?case using i r by (intro exI [of _ xs] exI [of _ bs]) simp
qed

lemma rehash_orders:
  assumes "distinct (nodes m)" "ordered h m" "0 < k"
  shows "\<exists>xs bs. rehash h k m = Some (m\<lparr>nodes := xs, buckets := bs\<rparr>) \<and> mset xs = mset (nodes m) \<and>
     length bs = k \<and> ordered h (m\<lparr>nodes := xs, buckets := bs\<rparr>)"
proof (cases "k = length (buckets m)")
  case True
  then show ?thesis using assms(2)
    by (intro exI [of _ "nodes m"] exI [of _ "buckets m"]) (simp add: rehash_def)
next
  case False
  let ?m = "m\<lparr>buckets := replicate k (None, None)\<rparr>"
  have "\<exists>xs bs. rehash_loop h (head (nodes m)) ?m = Some (?m\<lparr>nodes := xs, buckets := bs\<rparr>) \<and> mset xs = mset (nodes ?m) \<and>
     length bs = length (buckets ?m) \<and> ordered h (?m\<lparr>nodes := xs, buckets := bs\<rparr>)"
    by (rule rehash_loop_orders [of _ "[]"]) (use assms in \<open>simp_all add: spans_empty\<close>)
  then show ?thesis using False by (simp add: rehash_def)
qed

subsection \<open>The invariant\<close>

definition contents :: "('k, 'v) hash_map \<Rightarrow> 'k \<Rightarrow> 'v option" where
  "contents m = map_of (map (entry m) (nodes m))"

definition shape :: "('k \<Rightarrow> 64 word) \<Rightarrow> ('k, 'v) hash_map \<Rightarrow> bool" where
  "shape h m \<longleftrightarrow> distinct (nodes m @ spares m) \<and> (\<forall>n \<in> set (nodes m @ spares m). n < next_node m) \<and>
     map_size m = length (nodes m) \<and> distinct (map (key m) (nodes m)) \<and> ordered h m"

definition hash_ok :: "('k \<Rightarrow> 64 word) \<Rightarrow> ('k, 'v) hash_map \<Rightarrow> bool" where
  "hash_ok h m \<longleftrightarrow> shape h m \<and> (nodes m = [] \<or> map_size m < length (buckets m) \<or> length (buckets m) = 25165843)"

lemma hash_okD: "hash_ok h m \<Longrightarrow> shape h m" "hash_ok h m \<Longrightarrow> buckets m = [] \<Longrightarrow> nodes m = []"
  by (auto simp: hash_ok_def)

lemma contents_Some:
  "distinct (map (key m) (nodes m)) \<Longrightarrow> contents m k = Some v \<longleftrightarrow> (\<exists>n \<in> set (nodes m). entry m n = (k, v))"
  by (force simp: contents_def map_of_eq_Some_iff comp_def)

lemma contents_None: "contents m k = None \<longleftrightarrow> k \<notin> key m ` set (nodes m)"
  by (force simp: contents_def map_of_eq_None_iff)

lemma contents_cong:
  assumes "distinct (map (key m) (nodes m))" "distinct (map (key m') (nodes m'))"
    and "entry m' ` set (nodes m') = entry m ` set (nodes m)"
  shows "contents m' = contents m"
proof
  fix k
  have "contents m' k = Some v \<longleftrightarrow> contents m k = Some v" for v
    using assms by (simp add: contents_Some) (metis (no_types, lifting) image_iff)
  then show "contents m' k = contents m k" by (metis option.exhaust)
qed

lemma find_key:
  assumes "shape h m"
  shows "case find (\<lambda>n. key m n = k) (nodes m) of None \<Rightarrow> contents m k = None
    | Some n \<Rightarrow> n \<in> set (nodes m) \<and> key m n = k \<and> contents m k = Some (snd (entry m n))"
proof (cases "find (\<lambda>n. key m n = k) (nodes m)")
  case None
  then have "contents m k = None" by (auto simp: find_None_iff contents_None)
  with None show ?thesis by simp
next
  case (Some n)
  then have "n \<in> set (nodes m)" "key m n = k" by (auto simp: find_Some_iff)
  moreover have "contents m k = Some (snd (entry m n))"
    using assms calculation by (subst contents_Some) (auto simp: shape_def intro!: bexI [of _ n])
  ultimately show ?thesis using Some by simp
qed

lemma hash_find_finds:
  assumes "hash_ok h m"
  shows "hash_find h k m = Some (find (\<lambda>n. key m n = k) (nodes m))"
proof (cases "buckets m = []")
  case True
  then show ?thesis using hash_okD(2) [OF assms] by (simp add: hash_find_def)
next
  case False
  obtain f l where fl: "buckets m ! bucket_of h m k = (f, l)" by fastforce
  have "ordered h m" using hash_okD(1) [OF assms] by (simp add: shape_def)
  note s = bucket_search [OF this False fl]
  show ?thesis
  proof (cases "f = None")
    case True
    then have "find (\<lambda>n. key m n = k) (nodes m) = None" using s(1,5) by blast
    then show ?thesis using True False fl by (simp add: hash_find_def)
  next
    case 1: False
    then have "find_loop m k f (next_it (nodes m) l) = Some (find (\<lambda>n. key m n = k) (nodes m))" using s(1,4) by blast
    moreover obtain n where "f = Some n" using 1 by blast
    ultimately show ?thesis using False fl by (simp add: hash_find_def)
  qed
qed

lemma spans_cong: "spans g bs xs \<Longrightarrow> (\<And>x. x \<in> set xs \<Longrightarrow> g' x = g x) \<Longrightarrow> spans g' bs xs"
proof -
  assume "\<And>x. x \<in> set xs \<Longrightarrow> g' x = g x"
  then have "members g' b xs = members g b xs" for b by (simp add: members_def cong: filter_cong)
  then show "spans g bs xs \<Longrightarrow> spans g' bs xs" by (simp add: spans_def)
qed

subsection \<open>Inserting\<close>

lemma values_insert_puts:
  assumes "nodes m = as @ cs" "shape h m" "values_insert (head cs) v m = (m', it)"
  obtains n where "it = Some n" "nodes m' = as @ n # cs" "entry m' = (entry m)(n := v)" "n \<notin> set (as @ cs)"
    "distinct (nodes m' @ spares m')" "\<forall>x \<in> set (nodes m' @ spares m'). x < next_node m'"
    "buckets m' = buckets m" "map_size m' = map_size m"
proof (cases "spares m")
  case Nil
  let ?n = "next_node m"
  have f: "?n \<notin> set (as @ cs)" "\<forall>x \<in> set (as @ cs). x < ?n" using assms(1,2) Nil by (auto simp: shape_def)
  have "insert_before (head cs) ?n (as @ cs) = as @ ?n # cs"
    using assms(1,2) by (intro insert_before_head) (auto simp: shape_def)
  then have m': "m' = m\<lparr>next_node := ?n + 1, entry := (entry m)(?n := v), nodes := as @ ?n # cs\<rparr>" "it = Some ?n"
    using assms(1,3) Nil by (auto simp: values_insert_def Let_def)
  show ?thesis by (rule that [of ?n]) (use m' f assms(1,2) Nil in \<open>auto simp: shape_def less_Suc_eq\<close>)
next
  case (Cons n ns)
  have f: "n \<notin> set (as @ cs)" using assms(1,2) Cons by (auto simp: shape_def)
  have i: "insert_before (head cs) n (as @ cs) = as @ n # cs"
    using assms(1,2) by (intro insert_before_head) (auto simp: shape_def)
  have p: "prev_it (as @ n # cs) (head cs) = Some n"
  proof (cases cs)
    case (Cons c cs')
    have "c \<notin> set (as @ [n])" using Cons f assms(1,2) by (auto simp: shape_def)
    then show ?thesis using prev_it_at [of c "as @ [n]" cs'] Cons by simp
  qed (simp add: prev_it_def)
  then have m': "m' = m\<lparr>entry := (entry m)(n := v), spares := ns, nodes := as @ n # cs\<rparr>" "it = Some n"
    using assms(1,3) i Cons by (auto simp: values_insert_def Let_def)
  show ?thesis by (rule that [of n]) (use m' f assms(1,2) Cons in \<open>auto simp: shape_def\<close>)
qed

lemma insert_new_ok:
  assumes m: "shape h m" "buckets m \<noteq> []" "contents m (fst v) = None" "nodes m = as @ cs"
    and at: "if members (node_bucket h m) (bucket_of h m (fst v)) (nodes m) = [] then cs = []
      else as \<noteq> [] \<and> last as = last (members (node_bucket h m) (bucket_of h m (fst v)) (nodes m))"
    and i: "insert_new (bucket_of h m (fst v)) (head cs) v m = (m', it, new)"
  obtains n where "it = Some n" "new" "shape h m'" "nodes m' = as @ n # cs" "n \<notin> set (nodes m)"
    "entry m' = (entry m)(n := v)" "length (buckets m') = length (buckets m)" "contents m' = (contents m)(fst v \<mapsto> snd v)"
proof -
  obtain m1 it1 where v: "values_insert (head cs) v m = (m1, it1)" by fastforce
  from values_insert_puts [OF m(4,1) v] obtain n where n: "it1 = Some n" "nodes m1 = as @ n # cs"
    "entry m1 = (entry m)(n := v)" "n \<notin> set (as @ cs)" "distinct (nodes m1 @ spares m1)"
    "\<forall>x \<in> set (nodes m1 @ spares m1). x < next_node m1" "buckets m1 = buckets m" "map_size m1 = map_size m" .
  let ?b = "bucket_of h m (fst v)" and ?g = "(node_bucket h m)(n := bucket_of h m (fst v))"
  let ?fl = "(if fst (buckets m ! ?b) = None then Some n else fst (buckets m ! ?b), Some n)"
  have m': "m' = (set_bucket ?b ?fl m1)\<lparr>map_size := map_size m1 + 1\<rparr>" "it = Some n" new
    using i v n(1,7) by (auto simp: insert_new_def Let_def)
  have keys: "distinct (map (key m) (nodes m))" "fst v \<notin> key m ` set (nodes m)"
    using m(1,3) by (auto simp: shape_def contents_None)
  have g: "?g x = node_bucket h m x" if "x \<in> set (as @ cs)" for x using that n(4) by auto
  have mem: "members ?g b (nodes m) = members (node_bucket h m) b (nodes m)" for b
    using g m(4) by (simp add: members_def cong: filter_cong)
  have sp: "spans ?g (buckets m) (as @ cs)"
    using m(1,4) g spans_cong [of "node_bucket h m" "buckets m" "as @ cs" ?g] by (auto simp: shape_def ordered_def)
  have lt: "?g n < length (buckets m)" using bucket_in [OF m(2)] by simp
  have d: "distinct (as @ cs)" using m(1,4) by (auto simp: shape_def)
  have "if members ?g (?g n) (as @ cs) = [] then cs = []
      else as \<noteq> [] \<and> last as = last (members ?g (?g n) (as @ cs))"
    using at mem m(4) by (simp only: fun_upd_same)
  from spans_put [OF sp d n(4) lt this]
  have "spans ?g ((buckets m)[?b := ?fl]) (as @ n # cs)" by (simp only: fun_upd_same)
  then have "spans ?g (buckets m') (nodes m')" using m' n by simp
  then have "spans (node_bucket h m') (buckets m') (nodes m')"
    by (rule spans_cong) (use m' n in \<open>auto simp: bucket_of_def\<close>)
  moreover have "distinct (map (key m') (nodes m'))"
  proof -
    have "map (key m') (as @ cs) = map (key m) (as @ cs)" using n(3,4) m' by (intro map_cong) auto
    then have "distinct (map (key m') as @ map (key m') cs)" "fst v \<notin> set (map (key m') (as @ cs))"
      using keys m(4) by (simp_all only: map_append [symmetric]) auto
    then show ?thesis using n(2,3) m' by auto
  qed
  ultimately have s: "shape h m'" using n m' m(1,4) by (auto simp: shape_def ordered_def)
  have "contents m' = (contents m)(fst v \<mapsto> snd v)"
  proof
    fix k
    have "contents m' k = Some w \<longleftrightarrow> ((contents m)(fst v \<mapsto> snd v)) k = Some w" for w
    proof (cases "k = fst v")
      case True
      then show ?thesis using s n m' keys(2) m(4)
        by (subst contents_Some) (auto simp: shape_def image_iff prod_eq_iff)
    next
      case False
      then show ?thesis using s n m' keys(1) m(4)
        by (subst contents_Some) (auto simp: shape_def contents_Some)
    qed
    then show "contents m' k = ((contents m)(fst v \<mapsto> snd v)) k" by (metis option.exhaust)
  qed
  with s m' n m(4) show ?thesis by (intro that [of n]) simp_all
qed

lemma first_above_pos: "0 \<notin> set ss \<Longrightarrow> ss \<noteq> [] \<Longrightarrow> 0 < first_above k ss"
  by (induction k ss rule: first_above.induct) auto

lemma first_above_last: "ss \<noteq> [] \<Longrightarrow> first_above k ss = last ss \<or> k < first_above k ss"
  by (induction k ss rule: first_above.induct) auto

lemma hash_size_bounds: "0 < hash_size k" "hash_size k = 25165843 \<or> k < hash_size k"
  using first_above_pos [of hash_sizes k] first_above_last [of hash_sizes k]
  by (simp_all add: hash_size_def hash_sizes_def)

text \<open>Growing the table first.\<close>

lemma grow_ok:
  assumes "hash_ok h m"
  obtains m' where "(if map_size m + 1 \<ge> length (buckets m) then rehash h (hash_size (map_size m + 1)) m else Some m) = Some m'"
    "shape h m'" "contents m' = contents m" "entry m' = entry m" "set (nodes m') = set (nodes m)" "buckets m' \<noteq> []"
    "map_size m' = map_size m" "map_size m' + 1 < length (buckets m') \<or> length (buckets m') = 25165843"
proof (cases "map_size m + 1 \<ge> length (buckets m)")
  case False
  then have "buckets m \<noteq> []" by auto
  then show ?thesis using that [of m] assms False by (auto simp: hash_ok_def)
next
  case full: True
  let ?k = "hash_size (map_size m + 1)"
  have s: "shape h m" using assms by (rule hash_okD)
  then obtain xs bs where r: "rehash h ?k m = Some (m\<lparr>nodes := xs, buckets := bs\<rparr>)" "mset xs = mset (nodes m)"
    "length bs = ?k" "ordered h (m\<lparr>nodes := xs, buckets := bs\<rparr>)"
    using rehash_orders [of m h ?k] hash_size_bounds(1) by (auto simp: shape_def)
  let ?m = "m\<lparr>nodes := xs, buckets := bs\<rparr>"
  have x: "set xs = set (nodes m)" "length xs = length (nodes m)" using r(2) by (metis set_mset_mset) (metis size_mset r(2))
  have d: "distinct (map (key m) xs)"
  proof -
    have "mset (map (key m) xs) = mset (map (key m) (nodes m))" using r(2) by simp
    from mset_eq_imp_distinct_iff [OF this] show ?thesis using s by (simp add: shape_def)
  qed
  have "distinct xs" using s mset_eq_imp_distinct_iff [OF r(2)] by (simp add: shape_def)
  then have "shape h ?m" using s r(4) d x by (auto simp: shape_def)
  moreover have "contents ?m = contents m"
    by (rule contents_cong) (use d x s in \<open>auto simp: shape_def\<close>)
  moreover have "bs \<noteq> []" using r(3) hash_size_bounds(1) [of "map_size m + 1"] by auto
  moreover have "map_size m + 1 < length bs \<or> length bs = 25165843"
    using r(3) hash_size_bounds(2) [of "map_size m + 1"] by auto
  ultimately show ?thesis using x(1) full r(1) by (intro that [of ?m]) simp_all
qed

definition insert_spec :: "('k \<Rightarrow> 64 word) \<Rightarrow> 'k \<times> 'v \<Rightarrow> ('k, 'v) hash_map \<Rightarrow> (('k, 'v) hash_map \<times> iter \<times> bool) option \<Rightarrow> bool" where
  "insert_spec h v m r \<longleftrightarrow> (\<exists>m' n new. r = Some (m', Some n, new) \<and> hash_ok h m' \<and>
     (new \<longleftrightarrow> contents m (fst v) = None) \<and>
     contents m' = (if new then (contents m)(fst v \<mapsto> snd v) else contents m) \<and>
     n \<in> set (nodes m') \<and> key m' n = fst v \<and> set (nodes m) \<subseteq> set (nodes m') \<and>
     (\<forall>x \<in> set (nodes m). entry m' x = entry m x))"

lemma hash_insert_ok:
  assumes "hash_ok h m"
  shows "insert_spec h v m (hash_insert h v m)"
proof -
  obtain m1 where g: "(if map_size m + 1 \<ge> length (buckets m) then rehash h (hash_size (map_size m + 1)) m else Some m) = Some m1"
    "shape h m1" "contents m1 = contents m" "entry m1 = entry m" "set (nodes m1) = set (nodes m)" "buckets m1 \<noteq> []"
    "map_size m1 = map_size m" "map_size m1 + 1 < length (buckets m1) \<or> length (buckets m1) = 25165843"
    using grow_ok [OF assms] .
  let ?b = "bucket_of h m1 (fst v)"
  obtain f l where fl: "buckets m1 ! ?b = (f, l)" by fastforce
  have "ordered h m1" using g(2) by (simp add: shape_def)
  note b = bucket_search [OF this g(6) fl]
  note fk = find_key [OF g(2), of "fst v"]
  have put: "insert_spec h v m (Some (insert_new ?b (head cs) v m1))"
    if "nodes m1 = as @ cs" "contents m1 (fst v) = None"
      "if members (node_bucket h m1) ?b (nodes m1) = [] then cs = []
       else as \<noteq> [] \<and> last as = last (members (node_bucket h m1) ?b (nodes m1))" for as cs
  proof -
    obtain m' it new where i: "insert_new ?b (head cs) v m1 = (m', it, new)" by (cases "insert_new ?b (head cs) v m1")
    from insert_new_ok [OF g(2,6) that(2,1,3) i] obtain n where n: "it = Some n" "new" "shape h m'"
      "nodes m' = as @ n # cs" "n \<notin> set (nodes m1)" "entry m' = (entry m1)(n := v)"
      "length (buckets m') = length (buckets m1)" "contents m' = (contents m1)(fst v \<mapsto> snd v)" .
    have "map_size m' = length (nodes m')" "map_size m1 = length (nodes m1)" using n(3) g(2) by (auto simp: shape_def)
    then have "hash_ok h m'" using n(3,4,7) g(8) that(1) by (auto simp: hash_ok_def)
    moreover have "n \<in> set (nodes m')" "set (nodes m) \<subseteq> set (nodes m')" using n(4) g(5) that(1) by auto
    moreover have "\<forall>x \<in> set (nodes m). entry m' x = entry m x" using n(5,6) g(4,5) by auto
    ultimately show ?thesis using i n(1,2,6,8) g(3) that(2) by (auto simp: insert_spec_def)
  qed
  show ?thesis
  proof (cases "f = None")
    case True
    then have e: "members (node_bucket h m1) ?b (nodes m1) = []" "find (\<lambda>n. key m1 n = fst v) (nodes m1) = None"
      using b(1,5) by blast+
    have "hash_insert h v m = Some (insert_new ?b (head []) v m1)" using True g(1) fl by (simp add: hash_insert_def)
    then show ?thesis using put [of "nodes m1" "[]"] e fk by simp
  next
    case False
    then have ne: "members (node_bucket h m1) ?b (nodes m1) \<noteq> []" using b(1) by blast
    then obtain as cs where a: "nodes m1 = as @ cs" "as \<noteq> []" "last as = last (members (node_bucket h m1) ?b (nodes m1))"
      "next_it (nodes m1) l = head cs" using b(6) by blast
    obtain f' where f: "f = Some f'" using False by blast
    have fnd: "find_loop m1 (fst v) f (head cs) = Some (find (\<lambda>n. key m1 n = fst v) (nodes m1))"
      using b(4) [OF ne] a(4) by simp
    show ?thesis
    proof (cases "find (\<lambda>n. key m1 n = fst v) (nodes m1)")
      case None
      then have "hash_insert h v m = Some (insert_new ?b (head cs) v m1)"
        using f g(1) fl a(4) fnd by (simp add: hash_insert_def Let_def)
      then show ?thesis using put [OF a(1)] a(2,3) ne None fk by simp
    next
      case (Some n)
      then have "hash_insert h v m = Some (m1, Some n, False)"
        using f g(1) fl a(4) fnd by (simp add: hash_insert_def Let_def)
      moreover have "hash_ok h m1" using g(2,8) by (auto simp: hash_ok_def)
      ultimately show ?thesis using Some fk g(3-5) by (auto simp: insert_spec_def)
    qed
  qed
qed

subsection \<open>Erasing\<close>

lemma contents_remove:
  assumes "distinct (map (key m) (as @ n # cs))" "nodes m = as @ n # cs" "nodes m' = as @ cs"
    and "\<And>x. x \<in> set (as @ cs) \<Longrightarrow> entry m' x = entry m x"
  shows "contents m' = (contents m)(key m n := None)" "distinct (map (key m') (nodes m'))"
proof -
  have e: "map (entry m') (as @ cs) = map (entry m) (as @ cs)" using assms(4) by (intro map_cong) auto
  have c: "contents m' = map_of (map (entry m) (as @ cs))" unfolding contents_def assms(3) e ..
  have "map (key m') (as @ cs) = map (key m) (as @ cs)" using assms(4) by (intro map_cong) auto
  moreover have "distinct (map (key m) (as @ cs))" using assms(1) by simp
  ultimately show "distinct (map (key m') (nodes m'))" unfolding assms(3) by (simp only:)
  have "key m n \<notin> fst ` set (map (entry m) (as @ cs))" using assms(1) by auto
  then have "map_of (map (entry m) (as @ cs)) (key m n) = None" unfolding map_of_eq_None_iff .
  moreover have "map_of (map (entry m) (as @ cs)) k = contents m k" if "k \<noteq> key m n" for k
    using that by (cases "entry m n") (auto simp: contents_def assms(2) map_add_def split: option.splits)
  ultimately show "contents m' = (contents m)(key m n := None)" unfolding c by (intro ext) simp
qed

lemma hash_erase_ok:
  assumes "hash_ok h m" "n \<in> set (nodes m)"
  shows "hash_ok h (hash_erase h value n m)" "contents (hash_erase h value n m) = (contents m)(key m n := None)"
    "set (nodes (hash_erase h value n m)) = set (nodes m) - {n}"
    "x \<noteq> n \<Longrightarrow> entry (hash_erase h value n m) x = entry m x"
proof -
  obtain as cs where x: "nodes m = as @ n # cs" using assms(2) by (meson split_list)
  have s: "shape h m" using assms(1) by (rule hash_okD)
  have ne: "buckets m \<noteq> []" using hash_okD(2) [OF assms(1)] x by auto
  let ?b = "node_bucket h m n"
  obtain f l where fl: "(f, l) = buckets m ! ?b" by (metis surj_pair)
  let ?fl = "if Some n = f \<and> Some n = l then (None, None)
      else if Some n = f then (next_it (as @ n # cs) f, l)
      else if Some n = l then (f, prev_it (as @ n # cs) l) else (f, l)"
  let ?m = "hash_erase h value n m"
  have d: "distinct (as @ n # cs)" using s x by (auto simp: shape_def)
  have m: "?m = (values_erase value n (set_bucket ?b ?fl m))\<lparr>map_size := map_size m - 1\<rparr>"
    unfolding hash_erase_def Let_def fl [symmetric] prod.case x by (simp add: values_erase_def)
  have nd: "nodes ?m = as @ cs" "spares ?m = n # spares m" "entry ?m = (entry m)(n := value)"
    "buckets ?m = (buckets m)[?b := ?fl]" "next_node ?m = next_node m" "map_size ?m = map_size m - 1"
    unfolding m using d x by (simp_all add: values_erase_def remove1_append)
  show e: "x \<noteq> n \<Longrightarrow> entry ?m x = entry m x" for x using nd(3) by simp
  show "set (nodes ?m) = set (nodes m) - {n}" using nd(1) x d by auto
  have "spans (node_bucket h m) (buckets m) (as @ n # cs)" using s x by (simp add: shape_def ordered_def)
  from spans_remove [OF this d bucket_in [OF ne] fl]
  have "spans (node_bucket h m) (buckets ?m) (as @ cs)" unfolding nd(4) .
  then have sp: "spans (node_bucket h ?m) (buckets ?m) (nodes ?m)"
    unfolding nd(1) by (rule spans_cong) (use d nd(3,4) in \<open>auto simp: bucket_of_def\<close>)
  have k: "distinct (map (key m) (as @ n # cs))" using s x by (simp add: shape_def)
  have e': "entry ?m y = entry m y" if "y \<in> set (as @ cs)" for y using that d nd(3) by auto
  show "contents ?m = (contents m)(key m n := None)" using contents_remove(1) [OF k x nd(1) e'] .
  have "distinct (map (key ?m) (nodes ?m))" using contents_remove(2) [OF k x nd(1) e'] .
  moreover have "map_size ?m = length (nodes ?m)" using s x nd by (simp add: shape_def)
  ultimately have "shape h ?m" using s x nd(1,2,5) sp by (auto simp: shape_def ordered_def)
  then show "hash_ok h ?m" using assms(1) x nd(1,4,6) by (auto simp: hash_ok_def)
qed

lemma hash_erase_key_ok:
  assumes "hash_ok h m"
  shows "\<exists>m'. hash_erase_key h value k m = Some m' \<and> hash_ok h m' \<and> contents m' = (contents m)(k := None)"
proof -
  note fk = find_key [OF hash_okD(1) [OF assms], of k]
  show ?thesis
  proof (cases "find (\<lambda>n. key m n = k) (nodes m)")
    case None
    then have "contents m k = None" using fk by simp
    then have "contents m = (contents m)(k := None)" by (metis fun_upd_triv)
    then show ?thesis using hash_find_finds [OF assms, of k] None assms by (simp add: hash_erase_key_def)
  next
    case (Some n)
    then have "n \<in> set (nodes m)" "key m n = k" using fk by auto
    with hash_erase_ok [OF assms, of n] show ?thesis using hash_find_finds [OF assms, of k] Some
      by (simp add: hash_erase_key_def)
  qed
qed

subsection \<open>The other operations\<close>

lemma empty_map_ok: "hash_ok h (empty_map e)"
  by (simp add: hash_ok_def shape_def ordered_def spans_def empty_map_def)

lemma hash_clear_ok:
  assumes "hash_ok h m"
  shows "hash_ok h (hash_clear m)" "contents (hash_clear m) = Map.empty"
proof -
  have "spans g (replicate k (None, None)) []" for g k by (rule spans_empty)
  then show "hash_ok h (hash_clear m)"
    using assms by (auto simp: hash_ok_def shape_def ordered_def hash_clear_def)
  show "contents (hash_clear m) = Map.empty" by (simp add: contents_def hash_clear_def)
qed

lemma set_value_ok:
  assumes "hash_ok h m" "n \<in> set (nodes m)"
  shows "hash_ok h (set_value n v m)" "contents (set_value n v m) = (contents m)(key m n \<mapsto> v)"
proof -
  let ?m = "set_value n v m"
  have k: "key ?m = key m" by (auto simp: set_value_def)
  have b: "bucket_of h ?m = bucket_of h m" by (intro ext) (simp add: bucket_of_def set_value_def)
  have f: "nodes ?m = nodes m" "spares ?m = spares m" "buckets ?m = buckets m" "map_size ?m = map_size m"
    "next_node ?m = next_node m" by (simp_all add: set_value_def)
  have kn: "key ?m n' = key m n'" for n' using k by metis
  have "shape h ?m = shape h m" by (simp only: shape_def ordered_def kn b f)
  then show "hash_ok h ?m" using assms(1) by (simp only: hash_ok_def f)
  have d: "distinct (map (key m) (nodes m))" "distinct (map (key ?m) (nodes ?m))"
    using hash_okD(1) [OF assms(1)] k f by (auto simp: shape_def)
  show "contents ?m = (contents m)(key m n \<mapsto> v)"
  proof
    fix q
    have "contents ?m q = Some w \<longleftrightarrow> ((contents m)(key m n \<mapsto> v)) q = Some w" for w
    proof (cases "q = key m n")
      case True
      then show ?thesis using d(1) assms(2)
        by (subst contents_Some [OF d(2)]) (auto simp: set_value_def distinct_map inj_on_def)
    next
      case False
      then show ?thesis using assms(2)
        by (subst contents_Some [OF d(2)], subst fun_upd_other [OF False], subst contents_Some [OF d(1)])
          (force simp: set_value_def)
    qed
    then show "contents ?m q = ((contents m)(key m n \<mapsto> v)) q" by (metis option.exhaust)
  qed
qed

subsection \<open>The interface\<close>

text \<open>
  What a client relies on: \<open>live\<close> gives the entry that an iterator refers to, if it refers to one.
\<close>

locale table =
  fixes ok :: "'t \<Rightarrow> bool" and cont :: "'t \<Rightarrow> 'k \<Rightarrow> 'v option" and live :: "'t \<Rightarrow> 'i \<Rightarrow> ('k \<times> 'v) option"
    and lookup :: "'k \<Rightarrow> 't \<Rightarrow> 'i option option" and add :: "'k \<times> 'v \<Rightarrow> 't \<Rightarrow> ('t \<times> 'i option \<times> bool) option"
    and remove :: "'i \<Rightarrow> 't \<Rightarrow> 't" and store :: "'i \<Rightarrow> 'v \<Rightarrow> 't \<Rightarrow> 't"
  assumes live: "ok t \<Longrightarrow> live t i = Some (k, v) \<Longrightarrow> cont t k = Some v"
    and lookup: "ok t \<Longrightarrow> \<exists>r. lookup k t = Some r \<and>
      (case r of None \<Rightarrow> cont t k = None | Some i \<Rightarrow> \<exists>v. live t i = Some (k, v))"
    and add: "ok t \<Longrightarrow> \<exists>t' i v'. add (k, v) t = Some (t', Some i, cont t k = None) \<and> ok t' \<and>
      cont t' = (if cont t k = None then (cont t)(k \<mapsto> v) else cont t) \<and> live t' i = Some (k, v')"
    and remove: "ok t \<Longrightarrow> live t i = Some (k, v) \<Longrightarrow> ok (remove i t) \<and> cont (remove i t) = (cont t)(k := None)"
    and store: "ok t \<Longrightarrow> live t i = Some (k, v) \<Longrightarrow> ok (store i w t) \<and> cont (store i w t) = (cont t)(k \<mapsto> w) \<and>
      live (store i w t) i = Some (k, w)"
begin

lemma lookup_cases:
  assumes "ok t"
  obtains "lookup k t = Some None" "cont t k = None"
  | i v where "lookup k t = Some (Some i)" "live t i = Some (k, v)" "cont t k = Some v"
proof -
  obtain r where r: "lookup k t = Some r" "case r of None \<Rightarrow> cont t k = None | Some i \<Rightarrow> \<exists>v. live t i = Some (k, v)"
    using lookup [OF assms, of k] by blast
  then show ?thesis using that live [OF assms] by (cases r) auto
qed

text \<open>Add an entry unless there is one, and change its value in place.\<close>

lemma add_and_store:
  assumes "ok t" "add (k, v) t = Some (t', Some i, new)"
  shows "\<exists>v'. live t' i = Some (k, v') \<and> v' = (case cont t k of None \<Rightarrow> v | Some u \<Rightarrow> u) \<and>
    (new \<longleftrightarrow> cont t k = None) \<and> ok (store i w t') \<and> cont (store i w t') = (cont t)(k \<mapsto> w)"
proof -
  obtain v' where a: "ok t'" "cont t' = (if cont t k = None then (cont t)(k \<mapsto> v) else cont t)"
    "live t' i = Some (k, v')" "new \<longleftrightarrow> cont t k = None" using add [OF assms(1), of k v] assms(2) by auto
  have "cont t' k = Some v'" using live [OF a(1,3)] .
  with a(2) have "v' = (case cont t k of None \<Rightarrow> v | Some u \<Rightarrow> u)" by (auto split: option.splits if_splits)
  moreover have "(cont t')(k \<mapsto> w) = (cont t)(k \<mapsto> w)" using a(2) by auto
  ultimately show ?thesis using store [OF a(1,3), of w] a(3,4) by simp
qed

end

definition live_entry :: "('k, 'v) hash_map \<Rightarrow> node \<Rightarrow> ('k \<times> 'v) option" where
  "live_entry m n = (if n \<in> set (nodes m) then Some (entry m n) else None)"

interpretation tab: table "hash_ok h" contents live_entry "hash_find h" "hash_insert h" "hash_erase h dflt" set_value
  for h :: "'k \<Rightarrow> 64 word" and dflt :: "'k \<times> 'v"
proof
  fix m :: "('k, 'v) hash_map" and n k v w
  assume ok: "hash_ok h m"
  note fk = find_key [OF hash_okD(1) [OF ok], of k]
  show "\<exists>r. hash_find h k m = Some r \<and>
      (case r of None \<Rightarrow> contents m k = None | Some i \<Rightarrow> \<exists>v. live_entry m i = Some (k, v))"
    using hash_find_finds [OF ok, of k] fk by (auto simp: live_entry_def prod_eq_iff split: option.splits)
  obtain m' i new where a: "hash_insert h (k, v) m = Some (m', Some i, new)" "hash_ok h m'"
    "new \<longleftrightarrow> contents m k = None" "contents m' = (if new then (contents m)(k \<mapsto> v) else contents m)"
    "i \<in> set (nodes m')" "key m' i = k"
    using hash_insert_ok [OF ok, of "(k, v)"] unfolding insert_spec_def fst_conv snd_conv by blast
  have "live_entry m' i = Some (k, snd (entry m' i))" using a(5,6) by (simp add: live_entry_def prod_eq_iff)
  with a(1,2,4) show "\<exists>m' i v'. hash_insert h (k, v) m = Some (m', Some i, contents m k = None) \<and> hash_ok h m' \<and>
      contents m' = (if contents m k = None then (contents m)(k \<mapsto> v) else contents m) \<and> live_entry m' i = Some (k, v')"
    unfolding a(3) by blast
  assume l: "live_entry m n = Some (k, v)"
  then have n: "n \<in> set (nodes m)" "entry m n = (k, v)" by (auto simp: live_entry_def split: if_splits)
  show "contents m k = Some v" using hash_okD(1) [OF ok] n by (subst contents_Some) (auto simp: shape_def)
  show "hash_ok h (hash_erase h dflt n m) \<and> contents (hash_erase h dflt n m) = (contents m)(k := None)"
    using hash_erase_ok [OF ok n(1)] n(2) by simp
  show "hash_ok h (set_value n w m) \<and> contents (set_value n w m) = (contents m)(k \<mapsto> w) \<and>
      live_entry (set_value n w m) n = Some (k, w)"
    using set_value_ok [OF ok n(1)] n by (simp add: live_entry_def set_value_def)
qed

text \<open>The tables that a client can have: made empty and changed by the operations.\<close>

inductive built :: "('k \<Rightarrow> 64 word) \<Rightarrow> ('k, 'v) hash_map \<Rightarrow> bool" for h where
  made: "built h (empty_map e)"
| inserted: "built h m \<Longrightarrow> hash_insert h v m = Some (m', it, new) \<Longrightarrow> built h m'"
| erased: "built h m \<Longrightarrow> n \<in> set (nodes m) \<Longrightarrow> built h (hash_erase h value n m)"
| erased_key: "built h m \<Longrightarrow> hash_erase_key h value k m = Some m' \<Longrightarrow> built h m'"
| cleared: "built h m \<Longrightarrow> built h (hash_clear m)"
| written: "built h m \<Longrightarrow> n \<in> set (nodes m) \<Longrightarrow> built h (set_value n v m)"

lemma built_ok: "built h m \<Longrightarrow> hash_ok h m"
proof (induction rule: built.induct)
  case (inserted m v m' it new)
  then show ?case using hash_insert_ok [of h m v] by (auto simp: insert_spec_def)
next
  case (erased_key m w k m')
  then show ?case using hash_erase_key_ok [of h m w k] by auto
qed (simp_all add: empty_map_ok hash_erase_ok hash_clear_ok set_value_ok)

lemma contents_size:
  assumes "shape h m"
  shows "map_size m = card (dom (contents m))" "map_empty m \<longleftrightarrow> contents m = Map.empty"
proof -
  have "dom (contents m) = key m ` set (nodes m)" using contents_None [of m] by (auto simp: dom_def)
  moreover have "card (key m ` set (nodes m)) = length (nodes m)"
    using assms distinct_card [of "map (key m) (nodes m)"] by (simp add: shape_def)
  ultimately show "map_size m = card (dom (contents m))" using assms by (simp add: shape_def)
  show "map_empty m \<longleftrightarrow> contents m = Map.empty" by (auto simp: map_empty_def contents_def)
qed

subsection \<open>A table is its map\<close>

text \<open>
  C34: Every table that the operations can make behaves as the finite map it stands for.
  \<open>find\<close> ends and returns the entry of a key, or \<open>end()\<close> if there is none; \<open>insert\<close> ends, and adds the
  entry exactly if the key is new, else it leaves the map as it is and returns the old entry;
  \<open>erase\<close> of a key or of an iterator removes that key only; \<open>clear\<close> removes all; and the
  count is the number of keys.
\<close>

theorem hash_map_refines_map:
  assumes "built h m"
  shows "(\<exists>it. hash_find h k m = Some it \<and> (case it of
        None \<Rightarrow> contents m k = None
      | Some n \<Rightarrow> n \<in> set (nodes m) \<and> key m n = k \<and> contents m k = Some (snd (entry m n))))
    \<and> (\<exists>m' n new. hash_insert h (k, v) m = Some (m', Some n, new) \<and> (new \<longleftrightarrow> contents m k = None) \<and>
        contents m' = (if new then (contents m)(k \<mapsto> v) else contents m) \<and> n \<in> set (nodes m') \<and> key m' n = k)
    \<and> (\<exists>m'. hash_erase_key h dflt k m = Some m' \<and> contents m' = (contents m)(k := None))
    \<and> (\<forall>n \<in> set (nodes m). contents (hash_erase h dflt n m) = (contents m)(key m n := None) \<and>
        contents (set_value n v m) = (contents m)(key m n \<mapsto> v))
    \<and> contents (hash_clear m) = Map.empty
    \<and> (map_empty m \<longleftrightarrow> contents m = Map.empty) \<and> map_size m = card (dom (contents m))"
proof (intro conjI ballI)
  have ok: "hash_ok h m" using assms by (rule built_ok)
  then have s: "shape h m" by (rule hash_okD)
  show "\<exists>it. hash_find h k m = Some it \<and> (case it of
        None \<Rightarrow> contents m k = None
      | Some n \<Rightarrow> n \<in> set (nodes m) \<and> key m n = k \<and> contents m k = Some (snd (entry m n)))"
    using hash_find_finds [OF ok] find_key [OF s] by blast
  show "\<exists>m' n new. hash_insert h (k, v) m = Some (m', Some n, new) \<and> (new \<longleftrightarrow> contents m k = None) \<and>
      contents m' = (if new then (contents m)(k \<mapsto> v) else contents m) \<and> n \<in> set (nodes m') \<and> key m' n = k"
    using hash_insert_ok [OF ok, of "(k, v)"] by (auto simp: insert_spec_def)
  show "\<exists>m'. hash_erase_key h dflt k m = Some m' \<and> contents m' = (contents m)(k := None)"
    using hash_erase_key_ok [OF ok] by blast
  show "contents (hash_clear m) = Map.empty" using ok by (rule hash_clear_ok)
  show "map_empty m \<longleftrightarrow> contents m = Map.empty" "map_size m = card (dom (contents m))"
    using contents_size [OF s] by blast+
  fix n assume n: "n \<in> set (nodes m)"
  show "contents (hash_erase h dflt n m) = (contents m)(key m n := None)" by (rule hash_erase_ok [OF ok n])
  show "contents (set_value n v m) = (contents m)(key m n \<mapsto> v)" by (rule set_value_ok [OF ok n])
qed

lemma hash_map_refines_map_witness:
  "\<exists>m :: (32 word, nat) hash_map. hash_insert hash_int (5, 7) (empty_map (\<lambda>_. (0, 0))) = Some (m, Some 0, True) \<and>
     (\<exists>it. hash_find hash_int 5 m = Some it \<and> (case it of None \<Rightarrow> False | Some n \<Rightarrow> snd (entry m n) = 7))"
proof -
  let ?e = "empty_map (\<lambda>_. (0, 0)) :: (32 word, nat) hash_map"
  have e: "built hash_int ?e" by (rule built.made)
  obtain m' n new where i: "hash_insert hash_int (5, 7) ?e = Some (m', Some n, new)"
    "new \<longleftrightarrow> contents ?e 5 = None" "contents m' = (if new then (contents ?e)(5 \<mapsto> 7) else contents ?e)"
    using hash_map_refines_map [OF e, of 5 7 "(0, 0)", THEN conjunct2, THEN conjunct1] by blast
  have "contents ?e = Map.empty" by (simp add: contents_def empty_map_def)
  then have c: "contents m' 5 = Some 7" new using i(2,3) by simp_all
  have r: "rehash hash_int 3 ?e = Some (?e\<lparr>buckets := replicate 3 (None, None)\<rparr>)"
    by (simp add: rehash_def empty_map_def rehash_loop.simps)
  have "n = 0" using i(1) r
    by (auto simp: hash_insert_def empty_map_def hash_size_def hash_sizes_def insert_new_def values_insert_def
      bucket_of_def Let_def nth_replicate split: if_splits)
  moreover have "built hash_int m'" using e i(1) by (rule built.inserted)
  note hash_map_refines_map [OF this, of 5 0 "(0, 0)", THEN conjunct1]
  then have "\<exists>it. hash_find hash_int 5 m' = Some it \<and> (case it of None \<Rightarrow> False | Some n \<Rightarrow> snd (entry m' n) = 7)"
    by (elim exE, rename_tac it, case_tac it) (simp_all add: c)
  ultimately show ?thesis using i(1) c(2) by (intro exI [of _ m']) simp
qed

text \<open>
  In every such table each bucket is one stretch of the list of all entries, so a search
  looks at the entries of one bucket only; no key occurs twice; the erased nodes are not in the list; and there are
  more buckets than entries, unless the largest size is reached or the table is empty.
\<close>

theorem hash_map_invariant:
  assumes "built h m"
  shows "(\<forall>b < length (buckets m). \<exists>as cs. nodes m = as @ members (node_bucket h m) b (nodes m) @ cs \<and>
      buckets m ! b = ends (members (node_bucket h m) b (nodes m)))
    \<and> distinct (map (key m) (nodes m)) \<and> distinct (nodes m @ spares m)
    \<and> (nodes m = [] \<or> map_size m < length (buckets m) \<or> length (buckets m) = 25165843)"
  using built_ok [OF assms] by (auto simp: hash_ok_def shape_def ordered_def spans_def sublist_def)

lemma hash_map_invariant_witness:
  "\<exists>m :: (64 word, bool) hash_map. hash_insert hash_pointer (5, True) (empty_map (\<lambda>_. (0, False))) = Some (m, Some 0, True) \<and>
     (nodes m = [] \<or> map_size m < length (buckets m) \<or> length (buckets m) = 25165843)"
proof -
  let ?e = "empty_map (\<lambda>_. (0, False)) :: (64 word, bool) hash_map"
  have "rehash hash_pointer 3 ?e = Some (?e\<lparr>buckets := replicate 3 (None, None)\<rparr>)"
    by (simp add: rehash_def empty_map_def rehash_loop.simps)
  then have "\<exists>m. hash_insert hash_pointer (5, True) ?e = Some (m, Some 0, True)"
    by (simp add: hash_insert_def empty_map_def hash_size_def hash_sizes_def insert_new_def values_insert_def
      bucket_of_def Let_def nth_replicate)
  then obtain m where m: "hash_insert hash_pointer (5, True) ?e = Some (m, Some 0, True)" by blast
  have "built hash_pointer m" by (rule built.inserted [OF built.made m])
  from hash_map_invariant [OF this] m show ?thesis by blast
qed

end
