(* ===== verification/Reactor_Queue.thy ===== *)
theory Reactor_Queue
  imports Op_Queue Hash_Map_Properties
begin

text \<open>
  \<open>detail/reactor_op_queue.hpp\<close>: the operations of a reactor that wait for their descriptors,
  a hash table from descriptors to queues of operations.  The value of an entry is
  its queue; \<open>mapped_type\<close> copies and assigns nothing, which makes no difference here because
  all queues that the table copies or assigns are empty.  Operations are handed over by moving
  them to the queue \<open>ops\<close> of the caller; all queues share the \<open>next_\<close> fields.
\<close>

record 'd reactor_queue =
  operations :: "('d, op_queue) hash_map"
  next_fields :: links
  ec_of :: "op \<Rightarrow> asio_error option"

subsection \<open>Operations\<close>

definition no_operations :: "links \<Rightarrow> (op \<Rightarrow> asio_error option) \<Rightarrow> (node \<Rightarrow> 'd \<times> op_queue) \<Rightarrow> 'd reactor_queue" where
  "no_operations s e nds = \<lparr>operations = empty_map nds, next_fields = s, ec_of = e\<rparr>"

definition enqueue_operation ::
  "('d \<Rightarrow> 64 word) \<Rightarrow> 'd \<Rightarrow> op \<Rightarrow> 'd reactor_queue \<Rightarrow> (bool \<times> 'd reactor_queue) option" where
  "enqueue_operation h descriptor o' r =
     (case hash_insert h (descriptor, empty_queue) (operations r) of
        Some (m, Some n, new) \<Rightarrow>
          (case push (next_fields r) (snd (entry m n)) o' of
             (s, q) \<Rightarrow> Some (new, r\<lparr>operations := set_value n q m, next_fields := s\<rparr>))
      | _ \<Rightarrow> None)"

text \<open>The queue that an iterator refers to, and its change in place.\<close>

definition queue_at :: "node \<Rightarrow> 'd reactor_queue \<Rightarrow> op_queue" where
  "queue_at i r = snd (entry (operations r) i)"

definition put_queue :: "node \<Rightarrow> links \<times> op_queue \<Rightarrow> 'd reactor_queue \<Rightarrow> 'd reactor_queue" where
  "put_queue i = (\<lambda>(s, q) r. r\<lparr>operations := set_value i q (operations r), next_fields := s\<rparr>)"

definition pop_at :: "node \<Rightarrow> 'd reactor_queue \<Rightarrow> 'd reactor_queue" where
  "pop_at i r = put_queue i (pop (next_fields r) (queue_at i r)) r"

definition set_ec :: "op \<Rightarrow> asio_error option \<Rightarrow> 'd reactor_queue \<Rightarrow> 'd reactor_queue" where
  "set_ec o' e r = r\<lparr>ec_of := (ec_of r)(o' := e)\<rparr>"

definition push_ops :: "op \<Rightarrow> op_queue \<Rightarrow> 'd reactor_queue \<Rightarrow> op_queue \<times> 'd reactor_queue" where
  "push_ops o' ops r = (case push (next_fields r) ops o' of (s, ops) \<Rightarrow> (ops, r\<lparr>next_fields := s\<rparr>))"

definition erase_at :: "('d \<Rightarrow> 64 word) \<Rightarrow> 'd \<Rightarrow> node \<Rightarrow> 'd reactor_queue \<Rightarrow> 'd reactor_queue" where
  "erase_at h dflt i r = r\<lparr>operations := hash_erase h (dflt, empty_queue) i (operations r)\<rparr>"

partial_function (option) cancel_all_loop ::
  "asio_error option \<Rightarrow> node \<Rightarrow> op_queue \<Rightarrow> 'd reactor_queue \<Rightarrow> (op_queue \<times> 'd reactor_queue) option" where
  "cancel_all_loop e i ops r =
     (case front (queue_at i r) of
        None \<Rightarrow> Some (ops, r)
      | Some o' \<Rightarrow>
          let r = set_ec o' e r;
              r = pop_at i r;
              (ops, r) = push_ops o' ops r
          in cancel_all_loop e i ops r)"

definition cancel_operations_at ::
  "('d \<Rightarrow> 64 word) \<Rightarrow> 'd \<Rightarrow> iter \<Rightarrow> op_queue \<Rightarrow> asio_error option \<Rightarrow> 'd reactor_queue \<Rightarrow>
   (bool \<times> op_queue \<times> 'd reactor_queue) option" where
  "cancel_operations_at h dflt it ops e r =
     (case it of
        None \<Rightarrow> Some (False, ops, r)
      | Some i \<Rightarrow> map_option (\<lambda>(ops, r). (True, ops, erase_at h dflt i r)) (cancel_all_loop e i ops r))"

definition cancel_operations ::
  "('d \<Rightarrow> 64 word) \<Rightarrow> 'd \<Rightarrow> 'd \<Rightarrow> op_queue \<Rightarrow> asio_error option \<Rightarrow> 'd reactor_queue \<Rightarrow>
   (bool \<times> op_queue \<times> 'd reactor_queue) option" where
  "cancel_operations h dflt descriptor ops e r =
     (case hash_find h descriptor (operations r) of
        None \<Rightarrow> None
      | Some it \<Rightarrow> cancel_operations_at h dflt it ops e r)"

text \<open>\<open>cancellation_key\<close> gives the key of an operation.\<close>

partial_function (option) cancel_some_loop ::
  "(op \<Rightarrow> nat) \<Rightarrow> nat \<Rightarrow> asio_error option \<Rightarrow> node \<Rightarrow> op_queue \<Rightarrow> op_queue \<Rightarrow> bool \<Rightarrow> 'd reactor_queue \<Rightarrow>
   (bool \<times> op_queue \<times> op_queue \<times> 'd reactor_queue) option" where
  "cancel_some_loop keys k e i ops other_ops result r =
     (case front (queue_at i r) of
        None \<Rightarrow> Some (result, ops, other_ops, r)
      | Some o' \<Rightarrow>
          let r = pop_at i r in
          if keys o' = k then
            let r = set_ec o' e r; (ops, r) = push_ops o' ops r
            in cancel_some_loop keys k e i ops other_ops True r
          else
            let (other_ops, r) = push_ops o' other_ops r
            in cancel_some_loop keys k e i ops other_ops result r)"

definition push_back :: "node \<Rightarrow> op_queue \<Rightarrow> 'd reactor_queue \<Rightarrow> 'd reactor_queue" where
  "push_back i other_ops r =
     (case push_all (next_fields r) (queue_at i r) other_ops of (s, q, _) \<Rightarrow> put_queue i (s, q) r)"

definition cancel_operations_by_key_at ::
  "('d \<Rightarrow> 64 word) \<Rightarrow> 'd \<Rightarrow> (op \<Rightarrow> nat) \<Rightarrow> iter \<Rightarrow> op_queue \<Rightarrow> nat \<Rightarrow> asio_error option \<Rightarrow> 'd reactor_queue \<Rightarrow>
   (bool \<times> op_queue \<times> 'd reactor_queue) option" where
  "cancel_operations_by_key_at h dflt keys it ops k e r =
     (case it of
        None \<Rightarrow> Some (False, ops, r)
      | Some i \<Rightarrow>
          (case cancel_some_loop keys k e i ops empty_queue False r of
             None \<Rightarrow> None
           | Some (result, ops, other_ops, r) \<Rightarrow>
               let r = push_back i other_ops r
               in Some (result, ops, if is_empty (queue_at i r) then erase_at h dflt i r else r)))"

definition cancel_operations_by_key ::
  "('d \<Rightarrow> 64 word) \<Rightarrow> 'd \<Rightarrow> (op \<Rightarrow> nat) \<Rightarrow> 'd \<Rightarrow> op_queue \<Rightarrow> nat \<Rightarrow> asio_error option \<Rightarrow> 'd reactor_queue \<Rightarrow>
   (bool \<times> op_queue \<times> 'd reactor_queue) option" where
  "cancel_operations_by_key h dflt keys descriptor ops k e r =
     (case hash_find h descriptor (operations r) of
        None \<Rightarrow> None
      | Some it \<Rightarrow> cancel_operations_by_key_at h dflt keys it ops k e r)"

definition has_no_operations :: "'d reactor_queue \<Rightarrow> bool" where
  "has_no_operations r \<longleftrightarrow> map_empty (operations r)"

definition has_operation :: "('d \<Rightarrow> 64 word) \<Rightarrow> 'd \<Rightarrow> 'd reactor_queue \<Rightarrow> bool option" where
  "has_operation h descriptor r = map_option (\<lambda>it. it \<noteq> None) (hash_find h descriptor (operations r))"

text \<open>
  \<open>performs\<close> tells whether an operation completes when it is performed.
\<close>

partial_function (option) perform_loop ::
  "(op \<Rightarrow> bool) \<Rightarrow> node \<Rightarrow> op_queue \<Rightarrow> 'd reactor_queue \<Rightarrow> (bool \<times> op_queue \<times> 'd reactor_queue) option" where
  "perform_loop performs i ops r =
     (case front (queue_at i r) of
        None \<Rightarrow> Some (False, ops, r)
      | Some o' \<Rightarrow>
          if performs o' then
            let r = pop_at i r; (ops, r) = push_ops o' ops r
            in perform_loop performs i ops r
          else Some (True, ops, r))"

definition perform_operations_at ::
  "('d \<Rightarrow> 64 word) \<Rightarrow> 'd \<Rightarrow> (op \<Rightarrow> bool) \<Rightarrow> iter \<Rightarrow> op_queue \<Rightarrow> 'd reactor_queue \<Rightarrow>
   (bool \<times> op_queue \<times> 'd reactor_queue) option" where
  "perform_operations_at h dflt performs it ops r =
     (case it of
        None \<Rightarrow> Some (False, ops, r)
      | Some i \<Rightarrow> map_option (\<lambda>(unfinished, ops, r). (unfinished, ops, if unfinished then r else erase_at h dflt i r))
          (perform_loop performs i ops r))"

definition perform_operations ::
  "('d \<Rightarrow> 64 word) \<Rightarrow> 'd \<Rightarrow> (op \<Rightarrow> bool) \<Rightarrow> 'd \<Rightarrow> op_queue \<Rightarrow> 'd reactor_queue \<Rightarrow>
   (bool \<times> op_queue \<times> 'd reactor_queue) option" where
  "perform_operations h dflt performs descriptor ops r =
     (case hash_find h descriptor (operations r) of
        None \<Rightarrow> None
      | Some it \<Rightarrow> perform_operations_at h dflt performs it ops r)"

partial_function (option) get_all_loop ::
  "('d \<Rightarrow> 64 word) \<Rightarrow> 'd \<Rightarrow> iter \<Rightarrow> op_queue \<Rightarrow> 'd reactor_queue \<Rightarrow> (op_queue \<times> 'd reactor_queue) option" where
  "get_all_loop h dflt it ops r =
     (case it of
        None \<Rightarrow> Some (ops, r)
      | Some op_iter \<Rightarrow>
          let it = next_it (nodes (operations r)) it in
          case push_all (next_fields r) ops (queue_at op_iter r) of (s, ops, q) \<Rightarrow>
          let r = put_queue op_iter (s, q) r;
              r = erase_at h dflt op_iter r
          in get_all_loop h dflt it ops r)"

definition get_all_operations ::
  "('d \<Rightarrow> 64 word) \<Rightarrow> 'd \<Rightarrow> op_queue \<Rightarrow> 'd reactor_queue \<Rightarrow> (op_queue \<times> 'd reactor_queue) option" where
  "get_all_operations h dflt ops r = get_all_loop h dflt (head (nodes (operations r))) ops r"

end
