(* ===== verification/Reactor_Properties.thy ===== *)
theory Reactor_Properties
  imports Reactor_Queue
begin

text \<open>
  The operations that wait in a reactor, against the lists of operations that the descriptors
  have: \<open>serving\<close> relates the two.  The table and the queues are used through their
  interfaces \<open>table\<close> and \<open>fifo\<close>.
\<close>

subsection \<open>The queues of a table\<close>

text \<open>
  \<open>Q\<close> lists the operations of each descriptor; the caller has two more queues.  Only a descriptor
  of \<open>D\<close> may have an empty queue in the table.
\<close>

definition apart :: "('d \<Rightarrow> op list) \<Rightarrow> op list \<Rightarrow> op list \<Rightarrow> bool" where
  "apart Q zs ws \<longleftrightarrow> (\<forall>d d'. d \<noteq> d' \<longrightarrow> set (Q d) \<inter> set (Q d') = {}) \<and>
     (\<forall>d. set (Q d) \<inter> (set zs \<union> set ws) = {}) \<and> set zs \<inter> set ws = {}"

definition queues ::
  "('d \<Rightarrow> 64 word) \<Rightarrow> 'd set \<Rightarrow> ('d \<Rightarrow> op list) \<Rightarrow> op_queue \<times> op list \<Rightarrow> op_queue \<times> op list \<Rightarrow> 'd reactor_queue \<Rightarrow> bool" where
  "queues h D Q a b r \<longleftrightarrow> hash_ok h (operations r) \<and> apart Q (snd a) (snd b) \<and>
     holds (next_fields r) (fst a) (snd a) \<and> holds (next_fields r) (fst b) (snd b) \<and>
     (\<forall>d. case contents (operations r) d of
        None \<Rightarrow> Q d = [] \<and> d \<notin> D
      | Some q \<Rightarrow> holds (next_fields r) q (Q d) \<and> (Q d = [] \<longrightarrow> d \<in> D))"

abbreviation entry_of :: "'d reactor_queue \<Rightarrow> node \<Rightarrow> ('d \<times> op_queue) option" where
  "entry_of r i \<equiv> live_entry (operations r) i"

lemma queuesD:
  assumes "queues h D Q (ops, zs) (oth, ws) r"
  shows "hash_ok h (operations r)" "apart Q zs ws" "holds (next_fields r) ops zs" "holds (next_fields r) oth ws"
    "contents (operations r) d = Some q \<Longrightarrow> holds (next_fields r) q (Q d)"
    "contents (operations r) d = None \<Longrightarrow> Q d = []" "contents (operations r) d = None \<Longrightarrow> d \<notin> D"
    "contents (operations r) d = Some q \<Longrightarrow> Q d = [] \<Longrightarrow> d \<in> D"
  using assms by (auto simp: queues_def split: option.splits dest: spec [of _ d])

lemma queuesI:
  assumes "hash_ok h (operations r)" "apart Q zs ws" "holds (next_fields r) ops zs" "holds (next_fields r) oth ws"
    "\<And>d q. contents (operations r) d = Some q \<Longrightarrow> holds (next_fields r) q (Q d) \<and> (Q d = [] \<longrightarrow> d \<in> D)"
    "\<And>d. contents (operations r) d = None \<Longrightarrow> Q d = [] \<and> d \<notin> D"
  shows "queues h D Q (ops, zs) (oth, ws) r"
  using assms by (auto simp: queues_def split: option.splits)

lemma apart_swap: "apart Q zs ws \<longleftrightarrow> apart Q ws zs"
  by (auto simp: apart_def)

lemma queues_swap: "queues h D Q a b r \<longleftrightarrow> queues h D Q b a r"
  by (auto simp: queues_def apart_swap [of Q "snd a"])

lemma entry_queue:
  "queues h D Q a b r \<Longrightarrow> entry_of r i = Some (d, q) \<Longrightarrow> contents (operations r) d = Some q"
  by (auto simp: queues_def intro: tab.live)

lemma queue_at_entry: "entry_of r i = Some (d, q) \<Longrightarrow> queue_at i r = q"
  by (auto simp: live_entry_def queue_at_def split: if_splits)

lemma set_ec_simps [simp]:
  "operations (set_ec x e r) = operations r" "next_fields (set_ec x e r) = next_fields r"
  "ec_of (set_ec x e r) = (ec_of r)(x := e)"
  by (simp_all add: set_ec_def)

lemma queues_set_ec [simp]: "queues h D Q a b (set_ec x e r) = queues h D Q a b r"
  by (simp only: queues_def set_ec_simps)

lemma apart_move:
  assumes "apart Q zs ws" "Q d = xs @ ys" "distinct (Q d)"
  shows "apart (Q(d := ys)) (zs @ xs) ws"
proof -
  have d: "set (Q d) = set xs \<union> set ys" "set xs \<inter> set ys = {}" using assms(2,3) by auto
  have sub: "set ((Q(d := ys)) d') \<subseteq> set (Q d')" for d' using d(1) by auto
  have 1: "\<And>d1 d2. d1 \<noteq> d2 \<Longrightarrow> set (Q d1) \<inter> set (Q d2) = {}" "\<And>d'. set (Q d') \<inter> (set zs \<union> set ws) = {}"
    "set zs \<inter> set ws = {}" using assms(1) unfolding apart_def by blast+
  have "set ((Q(d := ys)) d1) \<inter> set ((Q(d := ys)) d2) = {}" if "d1 \<noteq> d2" for d1 d2
    using 1(1) [OF that] sub [of d1] sub [of d2] by blast
  moreover have "set ((Q(d := ys)) d') \<inter> (set (zs @ xs) \<union> set ws) = {}" for d'
  proof (cases "d' = d")
    case True
    then show ?thesis using 1(2) [of d] d by auto
  next
    case False
    then show ?thesis using 1(1) [of d' d] 1(2) [of d'] d(1) by auto
  qed
  moreover have "set (zs @ xs) \<inter> set ws = {}" using 1(2) [of d] 1(3) d(1) by auto
  ultimately show ?thesis unfolding apart_def by blast
qed

text \<open>A round of a loop: the first operation of a descriptor goes to the caller's queue.\<close>

lemma move_front:
  assumes r: "queues h {d} Q (ops, zs) (oth, ws) r" "entry_of r i = Some (d, q)" "Q d = x # xs"
    and m: "push_ops x ops (pop_at i r) = (ops', r')"
  shows "front (queue_at i r) = Some x" "queues h {d} (Q(d := xs)) (ops', zs @ [x]) (oth, ws) r'"
    "\<exists>q'. entry_of r' i = Some (d, q')" "ec_of r' = ec_of r"
proof -
  let ?s = "next_fields r"
  obtain s1 q1 where p: "pop ?s q = (s1, q1)" by fastforce
  obtain s2 where u: "push s1 ops x = (s2, ops')" "r' = r\<lparr>operations := set_value i q1 (operations r), next_fields := s2\<rparr>"
    using m p queue_at_entry [OF r(2)] by (auto simp: push_ops_def pop_at_def put_queue_def split: prod.splits)
  note D = queuesD [OF r(1)]
  have c: "contents (operations r) d = Some q" using entry_queue [OF r(1,2)] .
  have q: "holds ?s q (x # xs)" using D(5) [OF c] r(3) by simp
  have ap: "set (x # xs) \<inter> set zs = {}" "set (x # xs) \<inter> set ws = {}" "set zs \<inter> set ws = {}"
    "\<And>d'. d' \<noteq> d \<Longrightarrow> set (x # xs) \<inter> set (Q d') = {}" "\<And>d'. set zs \<inter> set (Q d') = {}"
    using D(2) unfolding apart_def r(3) [symmetric] by blast+
  note mv = opq.moved [OF q D(3) ap(1) p u(1)]
  note fr = opq.moved_frame [OF q D(3) _ _ _ ap(1) p u(1)]
  show "front (queue_at i r) = Some x" using mv queue_at_entry [OF r(2)] by simp
  note st = tab.store [OF D(1) r(2), of q1]
  show "\<exists>q'. entry_of r' i = Some (d, q')" "ec_of r' = ec_of r" using st u(2) by auto
  show "queues h {d} (Q(d := xs)) (ops', zs @ [x]) (oth, ws) r'"
  proof (rule queuesI)
    show "hash_ok h (operations r')" using st u(2) by simp
    show "apart (Q(d := xs)) (zs @ [x]) ws" using apart_move [OF D(2), of d "[x]" xs] r(3) opq.unique [OF q] by simp
    show "holds (next_fields r') ops' (zs @ [x])" using mv u(2) by simp
    show "holds (next_fields r') oth ws" using fr [OF D(4) ap(2,3)] u(2) by simp
    show "holds (next_fields r') q' ((Q(d := xs)) d') \<and> ((Q(d := xs)) d' = [] \<longrightarrow> d' \<in> {d})"
      if "contents (operations r') d' = Some q'" for d' q'
    proof (cases "d' = d")
      case True
      then show ?thesis using that st mv u(2) by simp
    next
      case False
      then have "contents (operations r) d' = Some q'" using that st u(2) by simp
      with D(5,8) [of d' q'] False show ?thesis using fr [of q' "Q d'"] ap(4,5) u(2) by auto
    qed
    show "(Q(d := xs)) d' = [] \<and> d' \<notin> {d}" if "contents (operations r') d' = None" for d'
      using that st u(2) D(6) [of d'] by (auto split: if_splits)
  qed
qed

text \<open>The queue of a descriptor is done.\<close>

lemma front_done:
  assumes "queues h D Q (ops, zs) (oth, ws) r" "entry_of r i = Some (d, q)" "Q d = []"
  shows "front (queue_at i r) = None"
proof -
  have "holds (next_fields r) q []" using queuesD(5) [OF assms(1) entry_queue [OF assms(1,2)]] assms(3) by simp
  then show ?thesis using queue_at_entry [OF assms(2)] opq.first by fastforce
qed

lemma erase_done:
  assumes r: "queues h {d} Q (ops, zs) (oth, ws) r" "entry_of r i = Some (d, q)" "Q d = []"
  shows "queues h {} Q (ops, zs) (oth, ws) (erase_at h dflt i r)"
proof -
  note D = queuesD [OF r(1)]
  have e: "hash_ok h (operations (erase_at h dflt i r))" "contents (operations (erase_at h dflt i r)) = (contents (operations r))(d := None)"
    using tab.remove [OF D(1) r(2), of "(dflt, empty_queue)"] by (simp_all add: erase_at_def)
  have n: "next_fields (erase_at h dflt i r) = next_fields r" by (simp add: erase_at_def)
  show ?thesis
  proof (rule queuesI, goal_cases)
    case (5 d' q')
    then have "d' \<noteq> d" "contents (operations r) d' = Some q'" using e(2) by (auto split: if_splits)
    then show ?case using n D(5,8) by fastforce
  next
    case (6 d')
    then show ?case using e(2) D(6) [of d'] r(3) by (cases "d' = d") simp_all
  qed (use e(1) n D in simp_all)
qed

lemma keep_entry:
  assumes "queues h {d} Q (ops, zs) (oth, ws) r" "Q d \<noteq> []"
  shows "queues h {} Q (ops, zs) (oth, ws) r"
proof -
  note D = queuesD [OF assms(1)]
  have "Q d' = [] \<longrightarrow> d' \<in> {}" if "contents (operations r) d' = Some q'" for d' q'
    using D(8) [OF that] assms(2) by blast
  then show ?thesis by (intro queuesI) (use D in blast)+
qed

lemma queues_weaken:
  assumes "queues h {} Q (ops, zs) (oth, ws) r" "entry_of r i = Some (d, q)"
  shows "queues h {d} Q (ops, zs) (oth, ws) r"
proof -
  note D = queuesD [OF assms(1)]
  have "d' \<notin> {d}" if "contents (operations r) d' = None" for d' using that entry_queue [OF assms] by auto
  then show ?thesis by (intro queuesI) (use D in blast)+
qed

subsection \<open>The loops\<close>

lemmas upds = fun_upd_upd append_assoc append_Cons append_Nil simp_thms

lemma cancel_all_loop_moves:
  "queues h {d} Q (ops, zs) (oth, ws) r \<Longrightarrow> entry_of r i = Some (d, q) \<Longrightarrow> Q d = xs \<Longrightarrow>
   \<exists>ops' r' q'. cancel_all_loop e i ops r = Some (ops', r') \<and> queues h {d} (Q(d := [])) (ops', zs @ xs) (oth, ws) r' \<and>
     entry_of r' i = Some (d, q') \<and> ec_of r' = (\<lambda>x. if x \<in> set xs then e else ec_of r x)"
proof (induction xs arbitrary: Q ops zs r q)
  case Nil
  then have "front (queue_at i r) = None" by (blast intro: front_done)
  moreover have "Q(d := []) = Q" using Nil.prems(3) by auto
  ultimately show ?case using Nil.prems by (subst cancel_all_loop.simps) simp
next
  case (Cons x xs)
  let ?r = "set_ec x e r"
  obtain ops1 r1 where m: "push_ops x ops (pop_at i ?r) = (ops1, r1)" by fastforce
  have 1: "queues h {d} Q (ops, zs) (oth, ws) ?r" "entry_of ?r i = Some (d, q)" using Cons.prems by simp_all
  note mv = move_front [OF 1 Cons.prems(3) m]
  obtain q1 where "entry_of r1 i = Some (d, q1)" using mv(3) by blast
  from Cons.IH [OF mv(2) this fun_upd_same, unfolded upds] obtain ops' r' q' where
    i: "cancel_all_loop e i ops1 r1 = Some (ops', r')" "queues h {d} (Q(d := [])) (ops', zs @ x # xs) (oth, ws) r'"
      "entry_of r' i = Some (d, q')" "ec_of r' = (\<lambda>y. if y \<in> set xs then e else ec_of r1 y)" by blast
  have "front (queue_at i r) = Some x" using mv(1) by (simp add: queue_at_def)
  then have "cancel_all_loop e i ops r = Some (ops', r')" using i(1) m by (subst cancel_all_loop.simps) (simp add: Let_def)
  moreover have "ec_of r' = (\<lambda>y. if y \<in> set (x # xs) then e else ec_of r y)" using i(4) mv(4) by auto
  ultimately show ?case using i(2,3) by blast
qed

lemma cancel_some_loop_moves:
  "queues h {d} Q (ops, zs) (oth, ws) r \<Longrightarrow> entry_of r i = Some (d, q) \<Longrightarrow> Q d = xs \<Longrightarrow>
   \<exists>ops' oth' r' q'. cancel_some_loop keys k e i ops oth b r = Some (b \<or> (\<exists>x \<in> set xs. keys x = k), ops', oth', r') \<and>
     queues h {d} (Q(d := [])) (ops', zs @ filter (\<lambda>x. keys x = k) xs) (oth', ws @ filter (\<lambda>x. keys x \<noteq> k) xs) r' \<and>
     entry_of r' i = Some (d, q') \<and> ec_of r' = (\<lambda>x. if x \<in> set xs \<and> keys x = k then e else ec_of r x)"
proof (induction xs arbitrary: Q ops zs oth ws b r q)
  case Nil
  then have "front (queue_at i r) = None" by (blast intro: front_done)
  moreover have "Q(d := []) = Q" using Nil.prems(3) by auto
  ultimately show ?case using Nil.prems by (subst cancel_some_loop.simps) simp
next
  case (Cons x xs)
  show ?case
  proof (cases "keys x = k")
    case True
    have pe: "set_ec x e (pop_at i r) = pop_at i (set_ec x e r)"
      by (simp add: pop_at_def set_ec_def put_queue_def queue_at_def split: prod.splits)
    let ?r = "set_ec x e r"
    obtain ops1 r1 where m: "push_ops x ops (pop_at i ?r) = (ops1, r1)" by fastforce
    have 1: "queues h {d} Q (ops, zs) (oth, ws) ?r" "entry_of ?r i = Some (d, q)" using Cons.prems by simp_all
    note mv = move_front [OF 1 Cons.prems(3) m]
    obtain q1 where "entry_of r1 i = Some (d, q1)" using mv(3) by blast
    from Cons.IH [OF mv(2) this fun_upd_same, of True, unfolded upds] obtain ops' oth' r' q' where
      i: "cancel_some_loop keys k e i ops1 oth True r1 = Some (True, ops', oth', r')"
        "queues h {d} (Q(d := [])) (ops', zs @ x # filter (\<lambda>x. keys x = k) xs) (oth', ws @ filter (\<lambda>x. keys x \<noteq> k) xs) r'"
        "entry_of r' i = Some (d, q')" "ec_of r' = (\<lambda>y. if y \<in> set xs \<and> keys y = k then e else ec_of r1 y)" by blast
    have "front (queue_at i r) = Some x" using mv(1) by (simp add: queue_at_def)
    then have "cancel_some_loop keys k e i ops oth b r = Some (True, ops', oth', r')"
      using i(1) m True pe by (subst cancel_some_loop.simps) (simp add: Let_def)
    moreover have "ec_of r' = (\<lambda>y. if y \<in> set (x # xs) \<and> keys y = k then e else ec_of r y)"
      using i(4) mv(4) True by auto
    moreover have f: "(b \<or> (\<exists>y \<in> set (x # xs). keys y = k)) = True"
      "filter (\<lambda>y. keys y = k) (x # xs) = x # filter (\<lambda>y. keys y = k) xs"
      "filter (\<lambda>y. keys y \<noteq> k) (x # xs) = filter (\<lambda>y. keys y \<noteq> k) xs" using True by simp_all
    ultimately show ?thesis unfolding f using i(2,3) by blast
  next
    case False
    obtain oth1 r1 where m: "push_ops x oth (pop_at i r) = (oth1, r1)" by fastforce
    have 1: "queues h {d} Q (oth, ws) (ops, zs) r" using Cons.prems(1) by (simp add: queues_swap)
    note mv = move_front [OF 1 Cons.prems(2,3) m]
    obtain q1 where q1: "entry_of r1 i = Some (d, q1)" using mv(3) by blast
    have "queues h {d} (Q(d := xs)) (ops, zs) (oth1, ws @ [x]) r1" using mv(2) by (simp add: queues_swap)
    from Cons.IH [OF this q1 fun_upd_same, of b, unfolded upds] obtain ops' oth' r' q' where
      i: "cancel_some_loop keys k e i ops oth1 b r1 = Some (b \<or> (\<exists>x \<in> set xs. keys x = k), ops', oth', r')"
        "queues h {d} (Q(d := [])) (ops', zs @ filter (\<lambda>x. keys x = k) xs) (oth', ws @ x # filter (\<lambda>x. keys x \<noteq> k) xs) r'"
        "entry_of r' i = Some (d, q')" "ec_of r' = (\<lambda>y. if y \<in> set xs \<and> keys y = k then e else ec_of r1 y)" by blast
    have "cancel_some_loop keys k e i ops oth b r = Some (b \<or> (\<exists>x \<in> set xs. keys x = k), ops', oth', r')"
      using i(1) m False mv(1) by (subst cancel_some_loop.simps) (simp add: Let_def)
    moreover have "ec_of r' = (\<lambda>y. if y \<in> set (x # xs) \<and> keys y = k then e else ec_of r y)"
      using i(4) mv(4) False by auto
    moreover have f: "(\<exists>y \<in> set (x # xs). keys y = k) = (\<exists>y \<in> set xs. keys y = k)"
      "filter (\<lambda>y. keys y = k) (x # xs) = filter (\<lambda>y. keys y = k) xs"
      "filter (\<lambda>y. keys y \<noteq> k) (x # xs) = x # filter (\<lambda>y. keys y \<noteq> k) xs" using False by simp_all
    ultimately show ?thesis unfolding f using i(2,3) by blast
  qed
qed

lemma perform_loop_moves:
  "queues h {d} Q (ops, zs) (oth, ws) r \<Longrightarrow> entry_of r i = Some (d, q) \<Longrightarrow> Q d = xs \<Longrightarrow>
   \<exists>ops' r' q'. perform_loop performs i ops r = Some (dropWhile performs xs \<noteq> [], ops', r') \<and>
     queues h {d} (Q(d := dropWhile performs xs)) (ops', zs @ takeWhile performs xs) (oth, ws) r' \<and>
     entry_of r' i = Some (d, q') \<and> ec_of r' = ec_of r"
proof (induction xs arbitrary: Q ops zs r q)
  case Nil
  then have "front (queue_at i r) = None" by (blast intro: front_done)
  moreover have "Q(d := []) = Q" using Nil.prems(3) by auto
  ultimately show ?case using Nil.prems by (subst perform_loop.simps) simp
next
  case (Cons x xs)
  obtain ops1 r1 where m: "push_ops x ops (pop_at i r) = (ops1, r1)" by fastforce
  note mv = move_front [OF Cons.prems m]
  show ?case
  proof (cases "performs x")
    case True
    obtain q1 where "entry_of r1 i = Some (d, q1)" using mv(3) by blast
    from Cons.IH [OF mv(2) this fun_upd_same, unfolded upds] obtain ops' r' q' where
      i: "perform_loop performs i ops1 r1 = Some (dropWhile performs xs \<noteq> [], ops', r')"
        "queues h {d} (Q(d := dropWhile performs xs)) (ops', zs @ x # takeWhile performs xs) (oth, ws) r'"
        "entry_of r' i = Some (d, q')" "ec_of r' = ec_of r1" by blast
    then show ?thesis using m mv(1,4) True by (subst perform_loop.simps) (simp add: Let_def)
  next
    case False
    moreover have "Q(d := x # xs) = Q" using Cons.prems(3) by auto
    ultimately show ?thesis using mv(1) Cons.prems by (subst perform_loop.simps) simp
  qed
qed

text \<open>The operations that were kept go back to the queue of their descriptor.\<close>

lemma push_all_frame:
  assumes "holds s q xs" "holds s t zs" "set xs \<inter> set zs = {}" "push_all s q other = (s', q', other')"
  shows "holds s' t zs"
proof (cases "xs = []")
  case True
  then have "s' = s" using assms(1,4) by (auto simp: push_all_def holds_def split: option.splits)
  then show ?thesis using assms(2) by simp
next
  case False
  then have "last xs \<notin> set zs" using assms(3) last_in_set by blast
  moreover have "s' = s \<or> (\<exists>x. s' = s(last xs := x))"
    using False assms(1,4) by (auto simp: push_all_def holds_def split: option.splits)
  ultimately show ?thesis using assms(2) by (auto simp: holds_other)
qed

lemma push_back_kept:
  assumes r: "queues h {d} Q (ops, zs) (oth, ws) r" "entry_of r i = Some (d, q)" "Q d = []"
  shows "queues h {d} (Q(d := ws)) (ops, zs) (empty_queue, []) (push_back i oth r)"
    "\<exists>q'. entry_of (push_back i oth r) i = Some (d, q') \<and> holds (next_fields (push_back i oth r)) q' ws"
    "ec_of (push_back i oth r) = ec_of r"
proof -
  let ?s = "next_fields r" and ?r = "push_back i oth r"
  note D = queuesD [OF r(1)]
  obtain s1 q1 oth1 where p: "push_all ?s q oth = (s1, q1, oth1)" by (metis prod_cases3)
  then have r': "?r = r\<lparr>operations := set_value i q1 (operations r), next_fields := s1\<rparr>"
    using queue_at_entry [OF r(2)] by (simp add: push_back_def put_queue_def)
  have q: "holds ?s q []" using D(5) [OF entry_queue [OF r(1,2)]] r(3) by simp
  have h: "holds s1 q1 ws" using push_all_holds(1) [OF q D(4) _ p] by simp
  have fr: "holds ?s t ts \<Longrightarrow> holds s1 t ts" for t ts by (rule push_all_frame [OF q _ _ p]) simp_all
  note st = tab.store [OF D(1) r(2), of q1]
  show "\<exists>q'. entry_of ?r i = Some (d, q') \<and> holds (next_fields ?r) q' ws" "ec_of ?r = ec_of r" using st r' h by auto
  have ap: "set ws \<inter> set zs = {}" "\<And>d'. set (Q d') \<inter> set ws = {}" "\<And>d'. set (Q d') \<inter> set zs = {}"
    "\<And>d1 d2. d1 \<noteq> d2 \<Longrightarrow> set (Q d1) \<inter> set (Q d2) = {}" using D(2) unfolding apart_def by blast+
  show "queues h {d} (Q(d := ws)) (ops, zs) (empty_queue, []) ?r"
  proof (rule queuesI, goal_cases)
    case 1
    then show ?case using st r' by simp
  next
    case 2
    have "set ((Q(d := ws)) d1) \<inter> set ((Q(d := ws)) d2) = {}" if "d1 \<noteq> d2" for d1 d2
      using that ap(2) [of d1] ap(2) [of d2] ap(4) [OF that] by auto
    moreover have "set ((Q(d := ws)) d') \<inter> (set zs \<union> set []) = {}" for d' using ap(1,3) by simp
    ultimately show ?case unfolding apart_def by simp
  next
    case 3
    then show ?case using fr [OF D(3)] r' by simp
  next
    case 4
    then show ?case by simp
  next
    case (5 d' q')
    show ?case
    proof (cases "d' = d")
      case True
      then show ?thesis using 5 st h r' by simp
    next
      case False
      then have "contents (operations r) d' = Some q'" using 5 st r' by simp
      with D(5,8) False show ?thesis using fr [of q' "Q d'"] r' by fastforce
    qed
  next
    case (6 d')
    then have "d' \<noteq> d" "contents (operations r) d' = None" using st r' by (auto split: if_splits)
    then show ?case using D(6) by simp
  qed
qed

subsection \<open>The operations of a descriptor\<close>

abbreviation serving :: "('d \<Rightarrow> 64 word) \<Rightarrow> 'd reactor_queue \<Rightarrow> ('d \<Rightarrow> op list) \<Rightarrow> op_queue \<Rightarrow> op list \<Rightarrow> bool" where
  "serving h r Q ops zs \<equiv> queues h {} Q (ops, zs) (empty_queue, []) r"

lemma serving_start: "holds s ops zs \<Longrightarrow> serving h (no_operations s e nds) (\<lambda>_. []) ops zs"
  by (rule queuesI) (simp_all add: no_operations_def empty_map_ok apart_def contents_def, simp add: empty_map_def)

lemma find_descriptor:
  assumes "serving h r Q ops zs"
  obtains "hash_find h d (operations r) = Some None" "Q d = []"
  | i q where "hash_find h d (operations r) = Some (Some i)" "entry_of r i = Some (d, q)" "Q d \<noteq> []"
      "queues h {d} Q (ops, zs) (empty_queue, []) r"
proof -
  note D = queuesD [OF assms]
  show ?thesis
  proof (rule tab.lookup_cases [OF D(1), of d], goal_cases)
    case 1
    then show ?thesis using D(6) [of d] that(1) by blast
  next
    case (2 i q)
    then show ?thesis using D(8) [of d q] queues_weaken [OF assms] that(2) by blast
  qed
qed

lemma enqueue_appends:
  assumes r: "serving h r Q ops zs" and x: "\<forall>d. x \<notin> set (Q d)" "x \<notin> set zs"
  shows "\<exists>r'. enqueue_operation h d x r = Some (Q d = [], r') \<and> serving h r' (Q(d := Q d @ [x])) ops zs \<and> ec_of r' = ec_of r"
proof -
  let ?s = "next_fields r"
  note D = queuesD [OF r]
  obtain m i new where a: "hash_insert h (d, empty_queue) (operations r) = Some (m, Some i, new)"
    using tab.add [OF D(1), of d empty_queue] by blast
  obtain v where v: "live_entry m i = Some (d, v)"
    "v = (case contents (operations r) d of None \<Rightarrow> empty_queue | Some u \<Rightarrow> u)" "new \<longleftrightarrow> contents (operations r) d = None"
    "\<And>w. hash_ok h (set_value i w m)" "\<And>w. contents (set_value i w m) = (contents (operations r))(d \<mapsto> w)"
    using tab.add_and_store [OF D(1) a] by blast
  have e: "snd (entry m i) = v" using v(1) by (auto simp: live_entry_def split: if_splits)
  obtain s1 q1 where p: "push ?s v x = (s1, q1)" by fastforce
  let ?r = "r\<lparr>operations := set_value i q1 m, next_fields := s1\<rparr>"
  have new: "new \<longleftrightarrow> Q d = []" using v(3) D(6) [of d] D(8) [of d] by (cases "contents (operations r) d") auto
  have q: "holds ?s v (Q d)"
    using v(2) D(5,6) [of d] by (cases "contents (operations r) d") simp_all
  have h: "holds s1 q1 (Q d @ [x])" using opq.enqueue [OF q _ p] x(1) by simp
  have fr: "holds ?s t ts \<Longrightarrow> x \<notin> set ts \<Longrightarrow> set (Q d) \<inter> set ts = {} \<Longrightarrow> holds s1 t ts" for t ts
    using opq.enqueue_frame [OF q _ p] by blast
  have ap: "\<And>d'. set (Q d') \<inter> set zs = {}" "\<And>d1 d2. d1 \<noteq> d2 \<Longrightarrow> set (Q d1) \<inter> set (Q d2) = {}"
    using D(2) unfolding apart_def by blast+
  have "serving h ?r (Q(d := Q d @ [x])) ops zs"
  proof (rule queuesI, goal_cases)
    case 1
    then show ?case using v(4) by simp
  next
    case 2
    have "set ((Q(d := Q d @ [x])) d1) \<inter> set ((Q(d := Q d @ [x])) d2) = {}" if "d1 \<noteq> d2" for d1 d2
      using ap(2) [OF that] that x(1) by auto
    moreover have "set ((Q(d := Q d @ [x])) d') \<inter> set zs = {}" for d' using ap(1) [of d'] x(2) by auto
    ultimately show ?case unfolding apart_def by simp
  next
    case 3
    then show ?case using fr [OF D(3) x(2)] ap(1) by simp
  next
    case 4
    then show ?case by simp
  next
    case (5 d' q')
    show ?case
    proof (cases "d' = d")
      case True
      then show ?thesis using 5 v(5) h by simp
    next
      case False
      then have "contents (operations r) d' = Some q'" using 5 v(5) by simp
      with D(5,8) False show ?thesis using fr [of q' "Q d'"] x(1) ap(2) [of d d'] by fastforce
    qed
  next
    case (6 d')
    then have "d' \<noteq> d" "contents (operations r) d' = None" using v(5) by (auto split: if_splits)
    then show ?case using D(6) by simp
  qed
  then show ?thesis using a e p new by (simp add: enqueue_operation_def)
qed

lemma cancel_takes_all:
  assumes r: "serving h r Q ops zs"
  shows "\<exists>ops' r'. cancel_operations h dflt d ops e r = Some (Q d \<noteq> [], ops', r') \<and>
    serving h r' (Q(d := [])) ops' (zs @ Q d) \<and> ec_of r' = (\<lambda>x. if x \<in> set (Q d) then e else ec_of r x)"
proof (rule find_descriptor [OF r, of d])
  assume f: "hash_find h d (operations r) = Some None" "Q d = []"
  then have "Q(d := []) = Q" by auto
  then show ?thesis using f r by (simp add: cancel_operations_def cancel_operations_at_def)
next
  fix i q
  assume f: "hash_find h d (operations r) = Some (Some i)" "entry_of r i = Some (d, q)" "Q d \<noteq> []"
    "queues h {d} Q (ops, zs) (empty_queue, []) r"
  from cancel_all_loop_moves [OF f(4,2) refl, of e] obtain ops' r' q' where
    l: "cancel_all_loop e i ops r = Some (ops', r')" "queues h {d} (Q(d := [])) (ops', zs @ Q d) (empty_queue, []) r'"
      "entry_of r' i = Some (d, q')" "ec_of r' = (\<lambda>x. if x \<in> set (Q d) then e else ec_of r x)" by blast
  have "serving h (erase_at h dflt i r') (Q(d := [])) ops' (zs @ Q d)"
    using erase_done [OF l(2,3)] by simp
  moreover have "ec_of (erase_at h dflt i r') = ec_of r'" by (simp add: erase_at_def)
  ultimately show ?thesis using f(1,3) l(1,4) by (simp add: cancel_operations_def cancel_operations_at_def)
qed

lemma cancel_by_key_takes:
  assumes r: "serving h r Q ops zs"
  shows "\<exists>ops' r'. cancel_operations_by_key h dflt keys d ops k e r = Some (\<exists>x \<in> set (Q d). keys x = k, ops', r') \<and>
    serving h r' (Q(d := filter (\<lambda>x. keys x \<noteq> k) (Q d))) ops' (zs @ filter (\<lambda>x. keys x = k) (Q d)) \<and>
    ec_of r' = (\<lambda>x. if x \<in> set (Q d) \<and> keys x = k then e else ec_of r x)"
proof (rule find_descriptor [OF r, of d])
  assume f: "hash_find h d (operations r) = Some None" "Q d = []"
  then have "Q(d := []) = Q" by auto
  then show ?thesis using f r by (simp add: cancel_operations_by_key_def cancel_operations_by_key_at_def)
next
  fix i q
  assume f: "hash_find h d (operations r) = Some (Some i)" "entry_of r i = Some (d, q)" "Q d \<noteq> []"
    "queues h {d} Q (ops, zs) (empty_queue, []) r"
  let ?ws = "filter (\<lambda>x. keys x \<noteq> k) (Q d)" and ?zs = "zs @ filter (\<lambda>x. keys x = k) (Q d)"
  from cancel_some_loop_moves [OF f(4,2) refl, of keys k e False] obtain ops' oth' r1 q1 where
    l: "cancel_some_loop keys k e i ops empty_queue False r = Some (\<exists>x \<in> set (Q d). keys x = k, ops', oth', r1)"
      "queues h {d} (Q(d := [])) (ops', ?zs) (oth', ?ws) r1" "entry_of r1 i = Some (d, q1)"
      "ec_of r1 = (\<lambda>x. if x \<in> set (Q d) \<and> keys x = k then e else ec_of r x)"
    unfolding append_Nil simp_thms by blast
  let ?r = "push_back i oth' r1"
  note b = push_back_kept [OF l(2,3) fun_upd_same, unfolded fun_upd_upd]
  obtain q2 where q2: "entry_of ?r i = Some (d, q2)" "holds (next_fields ?r) q2 ?ws" using b(2) by blast
  have e: "is_empty (queue_at i ?r) \<longleftrightarrow> ?ws = []"
    using is_empty_iff [OF q2(2)] queue_at_entry [OF q2(1)] by simp
  let ?r' = "if is_empty (queue_at i ?r) then erase_at h dflt i ?r else ?r"
  have "serving h ?r' (Q(d := ?ws)) ops' ?zs"
    using e erase_done [OF b(1) q2(1)] keep_entry [OF b(1)] by (simp del: filter_empty_conv)
  moreover have "ec_of ?r' = ec_of r1" using b(3) by (simp add: erase_at_def)
  ultimately show ?thesis using f(1) l(1,4)
    by (simp add: cancel_operations_by_key_def cancel_operations_by_key_at_def Let_def del: if_split)
qed

lemma perform_takes_prefix:
  assumes r: "serving h r Q ops zs"
  shows "\<exists>ops' r'. perform_operations h dflt performs d ops r = Some (dropWhile performs (Q d) \<noteq> [], ops', r') \<and>
    serving h r' (Q(d := dropWhile performs (Q d))) ops' (zs @ takeWhile performs (Q d)) \<and> ec_of r' = ec_of r"
proof (rule find_descriptor [OF r, of d])
  assume f: "hash_find h d (operations r) = Some None" "Q d = []"
  then have "Q(d := []) = Q" by auto
  then show ?thesis using f r by (simp add: perform_operations_def perform_operations_at_def)
next
  fix i q
  assume f: "hash_find h d (operations r) = Some (Some i)" "entry_of r i = Some (d, q)" "Q d \<noteq> []"
    "queues h {d} Q (ops, zs) (empty_queue, []) r"
  from perform_loop_moves [OF f(4,2) refl, of performs] obtain ops' r1 q1 where
    l: "perform_loop performs i ops r = Some (dropWhile performs (Q d) \<noteq> [], ops', r1)"
      "queues h {d} (Q(d := dropWhile performs (Q d))) (ops', zs @ takeWhile performs (Q d)) (empty_queue, []) r1"
      "entry_of r1 i = Some (d, q1)" "ec_of r1 = ec_of r" by blast
  let ?r' = "if dropWhile performs (Q d) \<noteq> [] then r1 else erase_at h dflt i r1"
  have "serving h ?r' (Q(d := dropWhile performs (Q d))) ops' (zs @ takeWhile performs (Q d))"
    using erase_done [OF l(2,3)] keep_entry [OF l(2)] by (simp del: dropWhile_eq_Nil_conv)
  moreover have "ec_of ?r' = ec_of r" using l(4) by (simp add: erase_at_def)
  ultimately show ?thesis using f(1) l(1)
    by (simp add: perform_operations_def perform_operations_at_def del: if_split)
qed

lemma has_operation_iff:
  assumes "serving h r Q ops zs"
  shows "has_operation h d r = Some (Q d \<noteq> [])"
  by (rule find_descriptor [OF assms, of d]) (simp_all add: has_operation_def)

lemma has_none_iff:
  assumes "serving h r Q ops zs"
  shows "has_no_operations r \<longleftrightarrow> (\<forall>d. Q d = [])"
proof -
  note D = queuesD [OF assms]
  have "has_no_operations r \<longleftrightarrow> contents (operations r) = Map.empty"
    using contents_size(2) [OF hash_okD(1) [OF D(1)]] by (simp add: has_no_operations_def)
  also have "\<dots> \<longleftrightarrow> (\<forall>d. Q d = [])"
  proof
    assume "contents (operations r) = Map.empty"
    then show "\<forall>d. Q d = []" using D(6) by simp
  next
    assume "\<forall>d. Q d = []"
    then show "contents (operations r) = Map.empty" using D(8) by (intro ext) (metis empty_iff not_Some_eq)
  qed
  finally show ?thesis .
qed

subsection \<open>All operations\<close>

lemma nodes_erase [simp]: "nodes (operations (erase_at h dflt n r)) = remove1 n (nodes (operations r))"
  by (simp add: erase_at_def hash_erase_def values_erase_def Let_def split: prod.splits)

lemma nodes_put [simp]: "nodes (operations (put_queue i sq r)) = nodes (operations r)"
  by (simp add: put_queue_def set_value_def split: prod.splits)

lemma take_queue:
  assumes r: "serving h r Q ops zs" "entry_of r i = Some (d, q)"
    and p: "push_all (next_fields r) ops (queue_at i r) = (s1, ops', q')"
  shows "serving h (erase_at h dflt i (put_queue i (s1, q') r)) (Q(d := [])) ops' (zs @ Q d)"
proof -
  let ?s = "next_fields r" and ?r = "put_queue i (s1, q') r"
  note D = queuesD [OF r(1)]
  have q: "holds ?s q (Q d)" using D(5) [OF entry_queue [OF r]] .
  have ap: "set zs \<inter> set (Q d) = {}" "\<And>d'. set zs \<inter> set (Q d') = {}"
    "\<And>d1 d2. d1 \<noteq> d2 \<Longrightarrow> set (Q d1) \<inter> set (Q d2) = {}" using D(2) unfolding apart_def by blast+
  note p' = p [unfolded queue_at_entry [OF r(2)]]
  note h = push_all_holds [OF D(3) q ap(1) p']
  note fr = push_all_frame [OF D(3) _ _ p']
  note st = tab.store [OF D(1) r(2), of q']
  have r': "operations ?r = set_value i q' (operations r)" "next_fields ?r = s1" by (simp_all add: put_queue_def)
  have "queues h {d} (Q(d := [])) (ops', zs @ Q d) (empty_queue, []) ?r"
  proof (rule queuesI, goal_cases)
    case 1
    then show ?case using st r' by simp
  next
    case 2
    show ?case using apart_move [OF D(2), of d "Q d" "[]"] opq.unique [OF q] by simp
  next
    case 3
    then show ?case using h(1) r' by simp
  next
    case 4
    then show ?case by simp
  next
    case (5 d' t)
    show ?case
    proof (cases "d' = d")
      case True
      then show ?thesis using 5 st h(2) r' by simp
    next
      case False
      then have "contents (operations r) d' = Some t" using 5 st r' by simp
      with D(5,8) False show ?thesis using fr [of t "Q d'"] ap(2) [of d'] r' by fastforce
    qed
  next
    case (6 d')
    then have "d' \<noteq> d" "contents (operations r) d' = None" using st r' by (auto split: if_splits)
    then show ?case using D(6) by simp
  qed
  from erase_done [OF this, of i q'] show ?thesis using st r' by simp
qed

lemma get_all_loop_moves:
  "serving h r Q ops zs \<Longrightarrow> nodes (operations r) = rest \<Longrightarrow>
   \<exists>ops' r' ds. get_all_loop h dflt (head rest) ops r = Some (ops', r') \<and> ec_of r' = ec_of r \<and>
     distinct ds \<and> set ds = {d. Q d \<noteq> []} \<and> serving h r' (\<lambda>_. []) ops' (zs @ concat (map Q ds))"
proof (induction rest arbitrary: Q ops zs r)
  case Nil
  then have "contents (operations r) d = None" for d by (simp add: contents_def)
  then have "Q = (\<lambda>_. [])" using queuesD(6) [OF Nil.prems(1)] by (intro ext) blast
  then show ?case using Nil.prems by (subst get_all_loop.simps) (auto intro!: exI [of _ "[]"])
next
  case (Cons i rest)
  obtain d q where l: "entry_of r i = Some (d, q)" using Cons.prems(2) by (cases "entry (operations r) i") (simp add: live_entry_def)
  obtain s1 ops1 q1 where p: "push_all (next_fields r) ops (queue_at i r) = (s1, ops1, q1)" by (metis prod_cases3)
  let ?r = "erase_at h dflt i (put_queue i (s1, q1) r)"
  note t = take_queue [OF Cons.prems(1) l p, of dflt]
  have "nodes (operations ?r) = rest" using Cons.prems(2) by simp
  from Cons.IH [OF t this] obtain ops' r' ds where i: "get_all_loop h dflt (head rest) ops1 ?r = Some (ops', r')"
    "ec_of r' = ec_of ?r" "distinct ds" "set ds = {d'. (Q(d := [])) d' \<noteq> []}"
    "serving h r' (\<lambda>_. []) ops' ((zs @ Q d) @ concat (map (Q(d := [])) ds))" by blast
  have "d \<notin> set ds" using i(4) by simp
  then have m: "map (Q(d := [])) ds = map Q ds" by (intro map_cong) auto
  have "Q d \<noteq> []" using queuesD(8) [OF Cons.prems(1) entry_queue [OF Cons.prems(1) l]] by blast
  then have "set (d # ds) = {d. Q d \<noteq> []}" using i(4) by auto
  moreover have "next_it (nodes (operations r)) (Some i) = head rest" using Cons.prems(2) by (simp add: next_it_def)
  then have "get_all_loop h dflt (head (i # rest)) ops r = Some (ops', r')"
    using i(1) p by (subst get_all_loop.simps) (simp add: Let_def)
  moreover have "ec_of r' = ec_of r" using i(2) by (simp add: erase_at_def put_queue_def)
  moreover have "distinct (d # ds)" using i(3) \<open>d \<notin> set ds\<close> by simp
  moreover have "serving h r' (\<lambda>_. []) ops' (zs @ concat (map Q (d # ds)))" using i(5) m by simp
  ultimately show ?case by blast
qed

subsection \<open>The reactor's operations are lists\<close>

text \<open>
  C35: When the table of queues stands for the lists \<open>Q\<close> of the operations of each descriptor, every
  call ends and does to these lists what it promises.  A new operation goes to the end of its
  descriptor's list, and the answer says whether it is the only one; performing hands
  over the operations of the descriptor in order up to the first that is not complete, and the answer
  says whether one is left; the lists of other descriptors do not change; and the two questions
  are answered for the lists.
\<close>

theorem reactor_performs_in_order:
  assumes "serving h r Q ops zs"
  shows "(\<forall>x. x \<notin> set zs \<and> (\<forall>d'. x \<notin> set (Q d')) \<longrightarrow> (\<exists>r'. enqueue_operation h d x r = Some (Q d = [], r') \<and>
        serving h r' (Q(d := Q d @ [x])) ops zs))
    \<and> (\<exists>ops' r'. perform_operations h dflt performs d ops r = Some (dropWhile performs (Q d) \<noteq> [], ops', r') \<and>
        serving h r' (Q(d := dropWhile performs (Q d))) ops' (zs @ takeWhile performs (Q d)))
    \<and> has_operation h d r = Some (Q d \<noteq> []) \<and> (has_no_operations r \<longleftrightarrow> (\<forall>d. Q d = []))"
  using enqueue_appends [OF assms] perform_takes_prefix [OF assms] has_operation_iff [OF assms] has_none_iff [OF assms]
  by blast

lemma reactor_performs_in_order_witness:
  "\<exists>r'. enqueue_operation hash_int 3 8 (no_operations Map.empty (\<lambda>_. None) (\<lambda>_. (0, empty_queue))) = Some (True, r') \<and>
     serving hash_int r' ((\<lambda>_. [])(3 := [8])) empty_queue []"
proof -
  have "serving hash_int (no_operations Map.empty (\<lambda>_. None) (\<lambda>_. (0, empty_queue))) (\<lambda>_. []) empty_queue []"
    by (rule serving_start) simp
  from reactor_performs_in_order [OF this, where d = 3, THEN conjunct1] show ?thesis by simp
qed

text \<open>
  C36: Cancelling ends and hands over the operations in order, with the error set for these and no
  others: those of a descriptor, those of a descriptor that have a certain key (the
  others keep their order), or, without an error, all operations of all descriptors, each descriptor's in order.
  The answer says whether there was anything to cancel.
\<close>

theorem reactor_cancels_in_order:
  assumes "serving h r Q ops zs"
  shows "(\<exists>ops' r'. cancel_operations h dflt d ops e r = Some (Q d \<noteq> [], ops', r') \<and>
        serving h r' (Q(d := [])) ops' (zs @ Q d) \<and> ec_of r' = (\<lambda>x. if x \<in> set (Q d) then e else ec_of r x))
    \<and> (\<exists>ops' r'. cancel_operations_by_key h dflt keys d ops k e r = Some (\<exists>x \<in> set (Q d). keys x = k, ops', r') \<and>
        serving h r' (Q(d := filter (\<lambda>x. keys x \<noteq> k) (Q d))) ops' (zs @ filter (\<lambda>x. keys x = k) (Q d)) \<and>
        ec_of r' = (\<lambda>x. if x \<in> set (Q d) \<and> keys x = k then e else ec_of r x))
    \<and> (\<exists>ops' r' ds. get_all_operations h dflt ops r = Some (ops', r') \<and> ec_of r' = ec_of r \<and>
        distinct ds \<and> set ds = {d. Q d \<noteq> []} \<and> serving h r' (\<lambda>_. []) ops' (zs @ concat (map Q ds)))"
  using cancel_takes_all [OF assms] cancel_by_key_takes [OF assms] get_all_loop_moves [OF assms refl]
  unfolding get_all_operations_def by blast

lemma reactor_cancels_in_order_witness:
  "\<exists>r ops' r'. enqueue_operation hash_int 3 8 (no_operations Map.empty (\<lambda>_. None) (\<lambda>_. (0, empty_queue))) = Some (True, r) \<and>
     cancel_operations hash_int 0 3 empty_queue (Some operation_aborted) r = Some (True, ops', r') \<and>
     holds (next_fields r') ops' [8] \<and> ec_of r' 8 = Some operation_aborted"
proof -
  obtain r where r: "enqueue_operation hash_int 3 8 (no_operations Map.empty (\<lambda>_. None) (\<lambda>_. (0, empty_queue))) = Some (True, r)"
    "serving hash_int r ((\<lambda>_. [])(3 := [8])) empty_queue []"
  proof -
    have "serving hash_int (no_operations Map.empty (\<lambda>_. None) (\<lambda>_. (0, empty_queue))) (\<lambda>_. []) empty_queue []"
      by (rule serving_start) simp
    from enqueue_appends [OF this, of 8 3] show ?thesis using that by auto
  qed
  from reactor_cancels_in_order [OF r(2), where d = 3 and dflt = 0 and e = "Some operation_aborted", THEN conjunct1]
  obtain ops' r' where
    c: "cancel_operations hash_int 0 3 empty_queue (Some operation_aborted) r = Some (True, ops', r')"
      "serving hash_int r' ((\<lambda>_. [])(3 := [])) ops' [8]"
      "ec_of r' = (\<lambda>x. if x \<in> set [8] then Some operation_aborted else ec_of r x)"
    by (simp only: fun_upd_same fun_upd_upd append_Nil list.distinct not_False_eq_True) blast
  from c(3) have "ec_of r' 8 = Some operation_aborted" by simp
  then show ?thesis using r(1) c(1) queuesD(3) [OF c(2)] by blast
qed

end
