(* ===== verification/Streambuf.thy ===== *)
theory Streambuf
  imports Prelude
begin

text \<open>
  \<open>basic_streambuf.hpp\<close>: a \<open>std::streambuf\<close> over one vector.  The bytes that were committed
  and not yet consumed lie between \<open>gptr()\<close> and \<open>pptr()\<close>; the pointers are offsets into the
  vector, whose first element \<open>eback()\<close> always is.  Allocation does not fail.  \<open>contents_of\<close> is what
  \<open>data()\<close> shows, and against it the operations are those of a queue of bytes.
\<close>

record streambuf =
  max_size_sb :: nat
  vec :: "byte list"
  gnext :: nat
  gend :: nat
  pnext :: nat
  pend :: nat

definition buffer_delta :: nat where "buffer_delta = 128"

definition new_streambuf :: "nat \<Rightarrow> streambuf" where
  "new_streambuf maximum_size =
     (let e = min maximum_size buffer_delta in
      \<lparr>max_size_sb = maximum_size, vec = resize [] (max e 1), gnext = 0, gend = 0, pnext = 0, pend = e\<rparr>)"

definition sb_size :: "streambuf \<Rightarrow> nat" where
  "sb_size sb = pnext sb - gnext sb"

definition sb_data :: "streambuf \<Rightarrow> byte list" where
  "sb_data sb = take (pnext sb - gnext sb) (drop (gnext sb) (vec sb))"

subsection \<open>Room for output\<close>

text \<open>
  The result is the exception, if one is thrown, with the state that the call leaves.
  \<open>memmove\<close> has moved the bytes by then.
\<close>

definition reserve :: "nat \<Rightarrow> streambuf \<Rightarrow> error option \<times> streambuf" where
  "reserve n sb =
     (let gn = gnext sb; pn = pnext sb; e = pend sb in
      if n \<le> e - pn then (None, sb)
      else
        let (pn, sb) = (if gn > 0 then
              let pn = pn - gn in (pn, sb\<lparr>vec := take pn (drop gn (vec sb)) @ drop pn (vec sb)\<rparr>)
            else (pn, sb)) in
        if n > e - pn \<and> \<not> (n \<le> max_size_sb sb \<and> pn \<le> max_size_sb sb - n) then (Some Length_Error, sb)
        else
          let (e, sb) = (if n > e - pn then (pn + n, sb\<lparr>vec := resize (vec sb) (max (pn + n) 1)\<rparr>) else (e, sb))
          in (None, sb\<lparr>gnext := 0, gend := pn, pnext := pn, pend := e\<rparr>))"

text \<open>The buffer that \<open>prepare\<close> returns is the offset and the size; its client writes bytes there.\<close>

definition prepare :: "nat \<Rightarrow> streambuf \<Rightarrow> (error + nat \<times> nat) \<times> streambuf" where
  "prepare n sb =
     (case reserve n sb of
        (Some e, sb) \<Rightarrow> (Inl e, sb)
      | (None, sb) \<Rightarrow> (Inr (pnext sb, n), sb))"

definition write_at :: "nat \<Rightarrow> byte list \<Rightarrow> streambuf \<Rightarrow> streambuf" where
  "write_at i bs sb = sb\<lparr>vec := take i (vec sb) @ bs @ drop (i + length bs) (vec sb)\<rparr>"

subsection \<open>Moving the positions\<close>

text \<open>
  \<open>pbump\<close> and \<open>gbump\<close> take an \<open>int\<close>: a count of \<open>2 ^ 31\<close> or more moves backwards.
\<close>

definition bump :: "nat \<Rightarrow> nat \<Rightarrow> error + nat" where
  "bump p n =
     (let i = int p + sint (of_nat n :: 32 word) in
      if i < 0 then Inl Out_Of_Bounds else Inr (nat i))"

definition commit :: "nat \<Rightarrow> streambuf \<Rightarrow> error + streambuf" where
  "commit n sb =
     (let n = min n (pend sb - pnext sb) in
      ebind (bump (pnext sb) n) (\<lambda>pn. Inr (sb\<lparr>pnext := pn, gend := pn\<rparr>)))"

definition consume :: "nat \<Rightarrow> streambuf \<Rightarrow> error + streambuf" where
  "consume n sb =
     (let sb = (if gend sb < pnext sb then sb\<lparr>gend := pnext sb\<rparr> else sb);
          n = (if gnext sb + n > pnext sb then pnext sb - gnext sb else n)
      in ebind (bump (gnext sb) n) (\<lambda>gn. Inr (sb\<lparr>gnext := gn\<rparr>)))"

subsection \<open>Single characters\<close>

text \<open>\<open>None\<close> is \<open>eof\<close>.\<close>

definition underflow :: "streambuf \<Rightarrow> byte option \<times> streambuf" where
  "underflow sb =
     (if gnext sb < pnext sb then (Some (vec sb ! gnext sb), sb\<lparr>gend := pnext sb\<rparr>) else (None, sb))"

definition overflow :: "byte option \<Rightarrow> streambuf \<Rightarrow> error option \<times> streambuf" where
  "overflow c sb =
     (case c of
        None \<Rightarrow> (None, sb)
      | Some b \<Rightarrow>
          (case (if pnext sb = pend sb then
              let buffer_size = pnext sb - gnext sb in
              if buffer_size < max_size_sb sb \<and> max_size_sb sb - buffer_size < buffer_delta
              then reserve (max_size_sb sb - buffer_size) sb
              else reserve buffer_delta sb
            else (None, sb)) of
             (Some e, sb) \<Rightarrow> (Some e, sb)
           | (None, sb) \<Rightarrow> (None, sb\<lparr>vec := (vec sb)[pnext sb := b], pnext := pnext sb + 1\<rparr>)))"

text \<open>
  \<open>sputc\<close> and \<open>sgetc\<close>, \<open>sbumpc\<close> of \<open>std::streambuf\<close>, which use the space and the bytes at hand and ask
  the virtual functions only when there are none.
\<close>

definition sputc :: "byte \<Rightarrow> streambuf \<Rightarrow> error option \<times> streambuf" where
  "sputc b sb =
     (if pnext sb < pend sb then (None, sb\<lparr>vec := (vec sb)[pnext sb := b], pnext := pnext sb + 1\<rparr>)
      else overflow (Some b) sb)"

definition sgetc :: "streambuf \<Rightarrow> byte option \<times> streambuf" where
  "sgetc sb = (if gnext sb < gend sb then (Some (vec sb ! gnext sb), sb) else underflow sb)"

definition sbumpc :: "streambuf \<Rightarrow> byte option \<times> streambuf" where
  "sbumpc sb =
     (case sgetc sb of
        (None, sb) \<Rightarrow> (None, sb)
      | (Some b, sb) \<Rightarrow> (Some b, sb\<lparr>gnext := gnext sb + 1\<rparr>))"

subsection \<open>A queue of bytes\<close>

definition sb_ok :: "streambuf \<Rightarrow> bool" where
  "sb_ok sb \<longleftrightarrow> gnext sb \<le> gend sb \<and> gend sb \<le> pnext sb \<and> pnext sb \<le> pend sb \<and> pend sb \<le> length (vec sb) \<and>
     pend sb \<le> max_size_sb sb"


lemma take_resize: "k \<le> length xs \<Longrightarrow> k \<le> n \<Longrightarrow> take k (resize xs n) = take k xs"
  by (simp add: resize_def min_def)

lemma length_sb_data: "sb_ok sb \<Longrightarrow> length (sb_data sb) = sb_size sb"
  by (auto simp: sb_ok_def sb_data_def sb_size_def min_def)

lemma new_streambuf_ok: "sb_ok (new_streambuf m)" "sb_data (new_streambuf m) = []"
  by (simp_all add: sb_ok_def new_streambuf_def sb_data_def Let_def)

lemma bump_small: "n < 2 ^ 31 \<Longrightarrow> bump p n = Inr (p + n)"
proof -
  assume n: "n < 2 ^ 31"
  then have "sint (of_nat n :: 32 word) = int n"
    by (simp add: signed_of_nat signed_take_bit_int_eq_self)
  then show ?thesis by (simp add: bump_def Let_def)
qed

text \<open>What \<open>memmove\<close> leaves in the vector.\<close>

definition shifted :: "streambuf \<Rightarrow> byte list" where
  "shifted sb = (let s = pnext sb - gnext sb in take s (drop (gnext sb) (vec sb)) @ drop s (vec sb))"

lemma shifted_facts:
  assumes "sb_ok sb"
  shows "length (shifted sb) = length (vec sb)" "take (sb_size sb) (shifted sb) = sb_data sb"
    "drop (sb_size sb) (shifted sb) = drop (sb_size sb) (vec sb)"
  using assms by (auto simp: sb_ok_def shifted_def sb_data_def sb_size_def Let_def min_def)

lemma reserve_fits:
  assumes ok: "sb_ok sb" and r: "reserve n sb = (None, sb')"
  shows "sb_ok sb' \<and> sb_data sb' = sb_data sb \<and> pnext sb' + n \<le> pend sb' \<and> max_size_sb sb' = max_size_sb sb"
proof (cases "n \<le> pend sb - pnext sb")
  case True
  then show ?thesis using r ok by (auto simp: reserve_def Let_def sb_ok_def)
next
  case False
  let ?s = "pnext sb - gnext sb"
  let ?v = "if gnext sb > 0 then shifted sb else vec sb"
  have v: "length ?v = length (vec sb)" "take ?s ?v = sb_data sb"
    using shifted_facts(1,2) [OF ok] by (auto simp: sb_size_def sb_data_def)
  have o: "gnext sb \<le> gend sb" "gend sb \<le> pnext sb" "pnext sb \<le> pend sb" "pend sb \<le> length (vec sb)" "pend sb \<le> max_size_sb sb"
    using ok by (auto simp: sb_ok_def)
  show ?thesis
  proof (cases "n > pend sb - ?s")
    case full: True
    then have fit: "n \<le> max_size_sb sb" "?s \<le> max_size_sb sb - n"
      and sb': "sb' = sb\<lparr>vec := resize ?v (max (?s + n) 1), gnext := 0, gend := ?s, pnext := ?s, pend := ?s + n\<rparr>"
      using r False by (auto simp: reserve_def Let_def shifted_def split: if_splits)
    have "sb_data sb' = take ?s ?v" using sb' v(1) o by (simp add: sb_data_def take_resize)
    then show ?thesis using sb' v(2) fit by (auto simp: sb_ok_def)
  next
    case fits: False
    then have sb': "sb' = sb\<lparr>vec := ?v, gnext := 0, gend := ?s, pnext := ?s, pend := pend sb\<rparr>"
      using r False by (auto simp: reserve_def Let_def shifted_def split: if_splits)
    have "sb_data sb' = take ?s ?v" using sb' by (simp add: sb_data_def)
    then show ?thesis using sb' v o fits False by (auto simp: sb_ok_def)
  qed
qed

lemma reserve_fails_iff:
  assumes "sb_ok sb"
  shows "fst (reserve n sb) \<noteq> None \<longleftrightarrow> max_size_sb sb < sb_size sb + n"
  using assms by (auto simp: reserve_def Let_def sb_ok_def sb_size_def)

lemma reserve_failed:
  assumes "reserve n sb = (Some e, sb')"
  shows "e = Length_Error" "sb' = (if gnext sb > 0 then sb\<lparr>vec := shifted sb\<rparr> else sb)"
  using assms by (auto simp: reserve_def shifted_def Let_def split: if_splits)

lemma write_ok:
  assumes "sb_ok sb" "length bs \<le> k" "pnext sb + k \<le> pend sb"
  shows "sb_ok (write_at (pnext sb) bs sb)" "sb_data (write_at (pnext sb) bs sb) = sb_data sb"
    "take (pnext sb + length bs - gnext sb) (drop (gnext sb) (vec (write_at (pnext sb) bs sb))) = sb_data sb @ bs"
proof -
  have o: "gnext sb \<le> pnext sb" "pnext sb + length bs \<le> length (vec sb)" using assms by (auto simp: sb_ok_def)
  let ?v = "vec (write_at (pnext sb) bs sb)"
  have v: "?v = take (pnext sb) (vec sb) @ bs @ drop (pnext sb + length bs) (vec sb)" by (simp add: write_at_def)
  then show "sb_ok (write_at (pnext sb) bs sb)" using assms o by (auto simp: sb_ok_def write_at_def)
  have d: "drop (gnext sb) (take (pnext sb) (vec sb)) = sb_data sb"
    by (simp add: sb_data_def drop_take)
  have g: "drop (gnext sb) ?v = sb_data sb @ bs @ drop (pnext sb + length bs) (vec sb)"
    unfolding v using o d by simp
  have l: "length (sb_data sb) = pnext sb - gnext sb" using length_sb_data [OF assms(1)] by (simp add: sb_size_def)
  have "sb_data (write_at (pnext sb) bs sb) = take (pnext sb - gnext sb) (drop (gnext sb) ?v)"
    by (simp add: sb_data_def write_at_def)
  then show "sb_data (write_at (pnext sb) bs sb) = sb_data sb" unfolding g using l by simp
  show "take (pnext sb + length bs - gnext sb) (drop (gnext sb) ?v) = sb_data sb @ bs"
    unfolding g using l o by simp
qed

lemma prepare_write_commit:
  assumes ok: "sb_ok sb" and p: "prepare n sb = (Inr (i, n'), sb1)" and bs: "length bs \<le> n" "length bs < 2 ^ 31"
  shows "\<exists>sb2. commit (length bs) (write_at i bs sb1) = Inr sb2 \<and> sb_ok sb2 \<and> sb_data sb2 = sb_data sb @ bs \<and>
    max_size_sb sb2 = max_size_sb sb"
proof -
  have r: "reserve n sb = (None, sb1)" "i = pnext sb1" using p by (auto simp: prepare_def split: prod.splits option.splits)
  note f = reserve_fits [OF ok r(1)]
  let ?w = "write_at i bs sb1"
  have w: "sb_ok ?w" "take (pnext sb1 + length bs - gnext sb1) (drop (gnext sb1) (vec ?w)) = sb_data sb @ bs"
    using write_ok [of sb1 bs n] f bs(1) r(2) by simp_all
  have s: "gnext ?w = gnext sb1" "pnext ?w = pnext sb1" "pend ?w = pend sb1" "max_size_sb ?w = max_size_sb sb1"
    by (simp_all add: write_at_def)
  have "min (length bs) (pend sb1 - pnext sb1) = length bs" using f bs(1) by auto
  then have c: "commit (length bs) ?w = Inr (?w\<lparr>pnext := pnext sb1 + length bs, gend := pnext sb1 + length bs\<rparr>)"
    using bs(2) s by (simp add: commit_def bump_small)
  let ?c = "?w\<lparr>pnext := pnext sb1 + length bs, gend := pnext sb1 + length bs\<rparr>"
  have "sb_ok ?c" using w(1) s f bs(1) by (auto simp: sb_ok_def)
  moreover have "sb_data ?c = sb_data sb @ bs" unfolding w(2) [symmetric] by (simp add: sb_data_def s)
  ultimately show ?thesis using c f s by simp
qed

lemma consume_drops:
  assumes ok: "sb_ok sb" and n: "min n (sb_size sb) < 2 ^ 31"
  shows "\<exists>sb'. consume n sb = Inr sb' \<and> sb_ok sb' \<and> sb_data sb' = drop n (sb_data sb) \<and> max_size_sb sb' = max_size_sb sb"
proof -
  let ?k = "min n (pnext sb - gnext sb)"
  have o: "gnext sb \<le> gend sb" "gend sb \<le> pnext sb" using ok by (auto simp: sb_ok_def)
  then have k: "(if gnext sb + n > pnext sb then pnext sb - gnext sb else n) = ?k" by auto
  let ?s = "if gend sb < pnext sb then sb\<lparr>gend := pnext sb\<rparr> else sb"
  have s: "gnext ?s = gnext sb" "pnext ?s = pnext sb" "vec ?s = vec sb" "max_size_sb ?s = max_size_sb sb" "pend ?s = pend sb"
    "gend ?s = pnext sb" using o by auto
  have c: "consume n sb = Inr (?s\<lparr>gnext := gnext sb + ?k\<rparr>)"
    unfolding consume_def Let_def s k using n by (simp add: bump_small sb_size_def)
  have "sb_ok (?s\<lparr>gnext := gnext sb + ?k\<rparr>)" using ok s o by (auto simp: sb_ok_def)
  moreover have "sb_data (?s\<lparr>gnext := gnext sb + ?k\<rparr>) = drop n (sb_data sb)"
    using o by (simp add: sb_data_def s drop_take min_def add.commute)
  ultimately show ?thesis using c s(4) by simp
qed

lemma put_byte:
  assumes ok: "sb_ok sb" "pnext sb < pend sb"
  shows "sb_ok (sb\<lparr>vec := (vec sb)[pnext sb := b], pnext := pnext sb + 1\<rparr>)"
    "sb_data (sb\<lparr>vec := (vec sb)[pnext sb := b], pnext := pnext sb + 1\<rparr>) = sb_data sb @ [b]"
proof -
  have o: "gnext sb \<le> pnext sb" "pnext sb < length (vec sb)" using ok by (auto simp: sb_ok_def)
  show "sb_ok (sb\<lparr>vec := (vec sb)[pnext sb := b], pnext := pnext sb + 1\<rparr>)" using ok by (auto simp: sb_ok_def)
  have "(vec sb)[pnext sb := b] = take (pnext sb) (vec sb) @ b # drop (Suc (pnext sb)) (vec sb)"
    using o(2) by (rule upd_conv_take_nth_drop)
  then show "sb_data (sb\<lparr>vec := (vec sb)[pnext sb := b], pnext := pnext sb + 1\<rparr>) = sb_data sb @ [b]"
    using o by (simp add: sb_data_def drop_take Suc_diff_le)
qed

lemma sputc_appends:
  assumes ok: "sb_ok sb"
  shows "if sb_size sb = max_size_sb sb then fst (sputc b sb) = Some Length_Error
    else \<exists>sb'. sputc b sb = (None, sb') \<and> sb_ok sb' \<and> sb_data sb' = sb_data sb @ [b] \<and> max_size_sb sb' = max_size_sb sb"
proof (cases "pnext sb < pend sb")
  case True
  then have "sb_size sb \<noteq> max_size_sb sb" using ok by (auto simp: sb_ok_def sb_size_def)
  then show ?thesis using True put_byte [OF ok True] by (simp add: sputc_def)
next
  case False
  then have e: "pnext sb = pend sb" using ok by (auto simp: sb_ok_def)
  let ?n = "if sb_size sb < max_size_sb sb \<and> max_size_sb sb - sb_size sb < buffer_delta
    then max_size_sb sb - sb_size sb else buffer_delta"
  have size: "sb_size sb \<le> max_size_sb sb" using ok by (auto simp: sb_ok_def sb_size_def)
  have put: "sputc b sb = (case reserve ?n sb of (Some e, sb) \<Rightarrow> (Some e, sb)
     | (None, sb) \<Rightarrow> (None, sb\<lparr>vec := (vec sb)[pnext sb := b], pnext := pnext sb + 1\<rparr>))"
    using False e by (simp add: sputc_def overflow_def sb_size_def Let_def)
  obtain err sb1 where r: "reserve ?n sb = (err, sb1)" by fastforce
  show ?thesis
  proof (cases "sb_size sb = max_size_sb sb")
    case True
    then have n: "?n = buffer_delta" "0 < buffer_delta" by (simp_all add: buffer_delta_def)
    then have "err \<noteq> None" using reserve_fails_iff [OF ok, of ?n] r True by simp
    then obtain e' where e: "reserve ?n sb = (Some e', sb1)" using r by auto
    then show ?thesis unfolding put e reserve_failed(1) [OF e] using True by simp
  next
    case False
    then have "sb_size sb + ?n \<le> max_size_sb sb" using size by (auto simp: not_less)
    then have "err = None" using reserve_fails_iff [OF ok, of ?n] r by simp
    then have n: "reserve ?n sb = (None, sb1)" using r by simp
    note f = reserve_fits [OF ok n]
    have "0 < ?n" using size False by (auto simp: buffer_delta_def)
    then have "pnext sb1 < pend sb1" using f by linarith
    from put_byte [OF _ this, of b] f show ?thesis unfolding put n using False by simp
  qed
qed

lemma sbumpc_takes:
  assumes ok: "sb_ok sb"
  shows "case sbumpc sb of (c, sb') \<Rightarrow> sb_ok sb' \<and> sb_data sb' = tl (sb_data sb) \<and> max_size_sb sb' = max_size_sb sb \<and>
    c = (case sb_data sb of [] \<Rightarrow> None | b # _ \<Rightarrow> Some b)"
proof (cases "gnext sb < pnext sb")
  case False
  then have "sb_data sb = []" by (simp add: sb_data_def)
  then show ?thesis using False ok by (auto simp: sbumpc_def sgetc_def underflow_def sb_ok_def)
next
  case True
  then have l: "gnext sb < length (vec sb)" using ok by (auto simp: sb_ok_def)
  have d: "sb_data sb = vec sb ! gnext sb # take (pnext sb - Suc (gnext sb)) (drop (Suc (gnext sb)) (vec sb))"
    using True by (simp add: sb_data_def Cons_nth_drop_Suc [OF l, symmetric] take_Cons')
  show ?thesis using True ok d by (auto simp: sbumpc_def sgetc_def underflow_def sb_ok_def sb_data_def)
qed



text \<open>
  A \<open>prepare\<close> that throws has moved the bytes already but not the positions, so the bytes of
  the buffer have changed: unless nothing was consumed or all of them fit before the position, the first ones are
  those that came \<open>gptr()\<close> places later.
\<close>

theorem failed_prepare_corrupts:
  assumes "sb_ok sb" "max_size_sb sb < sb_size sb + n" "gnext sb \<le> sb_size sb"
  shows "\<exists>sb'. prepare n sb = (Inl Length_Error, sb') \<and>
    sb_data sb' = drop (gnext sb) (sb_data sb) @ drop (sb_size sb - gnext sb) (sb_data sb)"
proof -
  obtain e sb' where r: "reserve n sb = (Some e, sb')"
    using reserve_fails_iff [OF assms(1), of n] assms(2) by (cases "reserve n sb") auto
  note f = reserve_failed [OF r]
  have p: "prepare n sb = (Inl Length_Error, sb')" using r f(1) by (simp add: prepare_def)
  let ?s = "sb_size sb" and ?g = "gnext sb"
  have o: "?g \<le> pnext sb" "pnext sb \<le> length (vec sb)" using assms(1) by (auto simp: sb_ok_def)
  have v: "vec sb' = shifted sb" "gnext sb' = ?g" "pnext sb' = pnext sb"
    using f(2) by (auto simp: shifted_def)
  have l: "length (sb_data sb) = ?s" by (rule length_sb_data [OF assms(1)])
  have "shifted sb = sb_data sb @ drop ?s (vec sb)"
    using shifted_facts [OF assms(1)] by (metis append_take_drop_id)
  then have d: "drop ?g (shifted sb) = drop ?g (sb_data sb) @ drop ?s (vec sb)"
    using l assms(3) by simp
  have "take ?s (drop ?g (shifted sb)) = drop ?g (sb_data sb) @ take ?g (drop ?s (vec sb))"
    unfolding d using l assms(3) by simp
  moreover have "take ?g (drop ?s (vec sb)) = drop (?s - ?g) (sb_data sb)"
    using assms(3) o by (simp add: sb_data_def sb_size_def drop_take)
  ultimately show ?thesis using p v by (auto simp: sb_data_def sb_size_def)
qed

lemma failed_prepare_corrupts_witness:
  "\<exists>sb sb'. sb_data sb = [2, 3] \<and> prepare 5 sb = (Inl Length_Error, sb') \<and> sb_data sb' = [3, 3]"
proof -
  let ?sb = "\<lparr>max_size_sb = 4, vec = [1, 2, 3, 4], gnext = 1, gend = 3, pnext = 3, pend = 4\<rparr>"
  have "sb_ok ?sb" by (simp add: sb_ok_def)
  moreover have "sb_size ?sb = 2" "sb_data ?sb = [2, 3]" by (simp_all add: sb_size_def sb_data_def)
  ultimately have "\<exists>sb'. prepare 5 ?sb = (Inl Length_Error, sb') \<and> sb_data sb' = [3, 3]"
    using failed_prepare_corrupts [of ?sb 5] by simp
  with \<open>sb_data ?sb = [2, 3]\<close> show ?thesis by blast
qed

end
