(* ===== verification/Read_Until.thy ===== *)
theory Read_Until
  imports Streambuf
begin

text \<open>
  \<open>impl/read_until.hpp\<close>: reading from a stream into a stream buffer (\<open>basic_streambuf_ref\<close>, which only
  forwards) until a delimiter has come.  The template parameter \<open>SyncReadStream\<close>
  is the argument \<open>read_some\<close>: what it delivers, its error and its next state.  The search goes on where the
  last one stopped and does not look at older bytes again; \<open>occurs\<close> says what it has to find.
\<close>

type_synonym 's stream = "'s \<Rightarrow> nat \<Rightarrow> byte list \<times> asio_error option \<times> 's"

subsection \<open>Searching\<close>

datatype found = Full | Partial | No_Match

text \<open>The inner loop; \<open>started\<close> says whether \<open>test_iter2\<close> has left \<open>first2\<close>.\<close>

fun match_from :: "bool \<Rightarrow> 'a list \<Rightarrow> 'a list \<Rightarrow> found" where
  "match_from started xs [] = Full"
| "match_from started [] (p # ps) = (if started then Partial else No_Match)"
| "match_from started (x # xs) (p # ps) = (if x \<noteq> p then No_Match else match_from True xs ps)"

text \<open>The iterator is an index.\<close>

fun partial_search :: "'a list \<Rightarrow> 'a list \<Rightarrow> nat \<times> bool" where
  "partial_search [] pat = (0, False)"
| "partial_search (x # xs) pat =
     (case match_from False (x # xs) pat of
        Full \<Rightarrow> (0, True)
      | Partial \<Rightarrow> (0, False)
      | No_Match \<Rightarrow> (case partial_search xs pat of (i, b) \<Rightarrow> (i + 1, b)))"

fun find_byte :: "byte \<Rightarrow> byte list \<Rightarrow> nat" where
  "find_byte delim [] = 0"
| "find_byte delim (x # xs) = (if x = delim then 0 else find_byte delim xs + 1)"

text \<open>
  The search of one round, over the bytes from \<open>search_position\<close>: \<open>Inl\<close> is the result, \<open>Inr\<close> the next
  \<open>search_position\<close>.
\<close>

definition char_step :: "byte \<Rightarrow> nat \<Rightarrow> byte list \<Rightarrow> nat + nat" where
  "char_step delim search_position d =
     (let i = search_position + find_byte delim (drop search_position d) in
      if i \<noteq> length d then Inl (i + 1) else Inr (length d))"

definition string_step :: "byte list \<Rightarrow> nat \<Rightarrow> byte list \<Rightarrow> nat + nat" where
  "string_step delim search_position d =
     (case partial_search (drop search_position d) delim of
        (i, full) \<Rightarrow>
          if search_position + i \<noteq> length d then
            if full then Inl (search_position + i + length delim) else Inr (search_position + i)
          else Inr (length d))"

definition match_step :: "(byte list \<Rightarrow> nat \<times> bool) \<Rightarrow> nat \<Rightarrow> byte list \<Rightarrow> nat + nat" where
  "match_step match_condition search_position d =
     (case match_condition (drop search_position d) of
        (i, full) \<Rightarrow>
          if full then Inl (search_position + i)
          else if search_position + i \<noteq> length d then Inr (search_position + i)
          else Inr (length d))"

subsection \<open>Reading\<close>

text \<open>
  The end of a round: the error that ends the loop, if there is one.  \<open>capacity\<close> is that of the vector.
\<close>

definition read_more ::
  "(streambuf \<Rightarrow> nat) \<Rightarrow> 's stream \<Rightarrow> streambuf \<Rightarrow> 's \<Rightarrow> error + asio_error option \<times> streambuf \<times> 's" where
  "read_more capacity read_some b s =
     (if sb_size b = max_size_sb b then Inr (Some not_found, b, s)
      else
        let bytes_to_read = min (max 512 (capacity b - sb_size b)) (min 65536 (max_size_sb b - sb_size b)) in
        case prepare bytes_to_read b of
          (Inl e, _) \<Rightarrow> Inl e
        | (Inr (i, n), b) \<Rightarrow>
            (case read_some s n of (bs, ec, s) \<Rightarrow>
               ebind (commit (length bs) (write_at i bs b)) (\<lambda>b. Inr (ec, b, s))))"

text \<open>The loop, for any buffer: \<open>data\<close> shows its bytes, \<open>refill\<close> is the end of a round.\<close>

partial_function (option) until_loop ::
  "(nat \<Rightarrow> byte list \<Rightarrow> nat + nat) \<Rightarrow> ('b \<Rightarrow> byte list) \<Rightarrow> ('b \<Rightarrow> 's \<Rightarrow> error + asio_error option \<times> 'b \<times> 's) \<Rightarrow>
   nat \<Rightarrow> 'b \<Rightarrow> 's \<Rightarrow> (error + nat \<times> asio_error option \<times> 'b \<times> 's) option" where
  "until_loop step data refill search_position b s =
     (case step search_position (data b) of
        Inl n \<Rightarrow> Some (Inr (n, None, b, s))
      | Inr search_position \<Rightarrow>
          (case refill b s of
             Inl e \<Rightarrow> Some (Inl e)
           | Inr (Some ec, b, s) \<Rightarrow> Some (Inr (0, Some ec, b, s))
           | Inr (None, b, s) \<Rightarrow> until_loop step data refill search_position b s))"

definition read_until_char ::
  "(streambuf \<Rightarrow> nat) \<Rightarrow> 's stream \<Rightarrow> byte \<Rightarrow> streambuf \<Rightarrow> 's \<Rightarrow>
   (error + nat \<times> asio_error option \<times> streambuf \<times> 's) option" where
  "read_until_char capacity read_some delim b s = until_loop (char_step delim) sb_data (read_more capacity read_some) 0 b s"

definition read_until_string ::
  "(streambuf \<Rightarrow> nat) \<Rightarrow> 's stream \<Rightarrow> byte list \<Rightarrow> streambuf \<Rightarrow> 's \<Rightarrow>
   (error + nat \<times> asio_error option \<times> streambuf \<times> 's) option" where
  "read_until_string capacity read_some delim b s = until_loop (string_step delim) sb_data (read_more capacity read_some) 0 b s"

definition read_until_match ::
  "(streambuf \<Rightarrow> nat) \<Rightarrow> 's stream \<Rightarrow> (byte list \<Rightarrow> nat \<times> bool) \<Rightarrow> streambuf \<Rightarrow> 's \<Rightarrow>
   (error + nat \<times> asio_error option \<times> streambuf \<times> 's) option" where
  "read_until_match capacity read_some match_condition b s =
     until_loop (match_step match_condition) sb_data (read_more capacity read_some) 0 b s"

text \<open>The overloads without an \<open>error_code\<close> throw it.\<close>

definition throw_ec ::
  "(error + nat \<times> asio_error option \<times> 'b \<times> 's) option \<Rightarrow> (error + nat \<times> 'b \<times> 's) option" where
  "throw_ec r = map_option (\<lambda>x. ebind x (\<lambda>(n, ec, b, s).
     case ec of None \<Rightarrow> Inr (n, b, s) | Some e \<Rightarrow> Inl (System_Error e))) r"

definition read_until_char_throw ::
  "(streambuf \<Rightarrow> nat) \<Rightarrow> 's stream \<Rightarrow> byte \<Rightarrow> streambuf \<Rightarrow> 's \<Rightarrow> (error + nat \<times> streambuf \<times> 's) option" where
  "read_until_char_throw capacity read_some delim b s = throw_ec (read_until_char capacity read_some delim b s)"

definition read_until_string_throw ::
  "(streambuf \<Rightarrow> nat) \<Rightarrow> 's stream \<Rightarrow> byte list \<Rightarrow> streambuf \<Rightarrow> 's \<Rightarrow> (error + nat \<times> streambuf \<times> 's) option" where
  "read_until_string_throw capacity read_some delim b s = throw_ec (read_until_string capacity read_some delim b s)"

definition read_until_match_throw ::
  "(streambuf \<Rightarrow> nat) \<Rightarrow> 's stream \<Rightarrow> (byte list \<Rightarrow> nat \<times> bool) \<Rightarrow> streambuf \<Rightarrow> 's \<Rightarrow> (error + nat \<times> streambuf \<times> 's) option" where
  "read_until_match_throw capacity read_some match_condition b s =
     throw_ec (read_until_match capacity read_some match_condition b s)"

subsection \<open>What the search finds\<close>

definition occurs :: "'a list \<Rightarrow> 'a list \<Rightarrow> nat \<Rightarrow> bool" where
  "occurs pat d i \<longleftrightarrow> i < length d \<and> take (length pat) (drop i d) = pat"

text \<open>\<open>pat\<close> does not occur at \<open>i\<close>, whatever comes after \<open>d\<close>.\<close>

definition ruled_out :: "'a list \<Rightarrow> 'a list \<Rightarrow> nat \<Rightarrow> bool" where
  "ruled_out pat d i \<longleftrightarrow> (\<exists>j < length pat. i + j < length d \<and> d ! (i + j) \<noteq> pat ! j)"

lemma ruled_out_extends: "ruled_out pat d i \<Longrightarrow> ruled_out pat (d @ e) i"
  by (auto simp: ruled_out_def nth_append)

lemma ruled_out_not_occurs: "ruled_out pat d i \<Longrightarrow> \<not> occurs pat d i"
proof
  assume "ruled_out pat d i" "occurs pat d i"
  then obtain j where j: "j < length pat" "i + j < length d" "d ! (i + j) \<noteq> pat ! j" by (auto simp: ruled_out_def)
  have "take (length pat) (drop i d) ! j = d ! (i + j)" using j by simp
  moreover have e: "take (length pat) (drop i d) = pat" using \<open>occurs pat d i\<close> by (simp add: occurs_def)
  note arg_cong [OF e, of "\<lambda>l. l ! j"]
  ultimately show False using j(3) by metis
qed

lemma match_from_Full: "match_from st xs pat = Full \<longleftrightarrow> take (length pat) xs = pat"
  by (induction st xs pat rule: match_from.induct) auto

lemma match_from_No: "match_from True xs pat = No_Match \<longleftrightarrow> (\<exists>j < length pat. j < length xs \<and> xs ! j \<noteq> pat ! j)"
proof (induction True xs pat rule: match_from.induct)
  case (3 x xs p ps)
  show ?case
  proof
    assume l: "match_from True (x # xs) (p # ps) = No_Match"
    show "\<exists>j < length (p # ps). j < length (x # xs) \<and> (x # xs) ! j \<noteq> (p # ps) ! j"
    proof (cases "x = p")
      case True
      then obtain j where "j < length ps" "j < length xs" "xs ! j \<noteq> ps ! j" using l 3 by auto
      then show ?thesis by (intro exI [of _ "Suc j"]) simp
    qed auto
  next
    assume "\<exists>j < length (p # ps). j < length (x # xs) \<and> (x # xs) ! j \<noteq> (p # ps) ! j"
    then obtain j where "j < length (p # ps)" "j < length (x # xs)" "(x # xs) ! j \<noteq> (p # ps) ! j" by blast
    then show "match_from True (x # xs) (p # ps) = No_Match" using 3 by (cases j) auto
  qed
qed auto

lemma match_first_No: "match_from False (x # xs) pat = No_Match \<longleftrightarrow> ruled_out pat (x # xs) 0"
proof (cases pat)
  case (Cons p ps)
  then have "match_from False (x # xs) pat = match_from True (x # xs) pat" by simp
  then show ?thesis by (simp add: match_from_No ruled_out_def)
qed (simp add: ruled_out_def)

lemma match_from_Partial: "match_from st xs pat = Partial \<Longrightarrow> length xs < length pat"
  by (induction st xs pat rule: match_from.induct) (auto split: if_splits)

lemma ruled_out_Suc [simp]: "ruled_out pat (x # xs) (Suc i) = ruled_out pat xs i"
  by (simp add: ruled_out_def)

lemma occurs_Suc [simp]: "occurs pat (x # xs) (Suc i) = occurs pat xs i"
  by (simp add: occurs_def)

lemma partial_search_sound:
  "partial_search d pat = (i, full) \<Longrightarrow>
   i \<le> length d \<and> (\<forall>j < i. ruled_out pat d j) \<and> (full \<longrightarrow> occurs pat d i) \<and>
   (\<not> full \<and> i < length d \<longrightarrow> length d < i + length pat)"
proof (induction d arbitrary: i)
  case (Cons x xs)
  show ?case
  proof (cases "match_from False (x # xs) pat")
    case Full
    then have "i = 0" full using Cons.prems by simp_all
    then show ?thesis using Full match_from_Full [of False "x # xs" pat] by (simp add: occurs_def)
  next
    case Partial
    then show ?thesis using Cons.prems match_from_Partial [OF Partial] by simp
  next
    case No_Match
    obtain k where k: "partial_search xs pat = (k, full)" "i = Suc k"
      using Cons.prems No_Match by (auto split: prod.splits)
    have "ruled_out pat (x # xs) 0" using No_Match by (simp add: match_first_No)
    with Cons.IH [OF k(1)] k(2) show ?thesis by (auto simp: less_Suc_eq_0_disj)
  qed
qed simp

lemma find_byte_sound:
  "find_byte c d \<le> length d" "\<forall>j < find_byte c d. d ! j \<noteq> c" "find_byte c d < length d \<Longrightarrow> d ! find_byte c d = c"
  by (induction d) (auto simp: less_Suc_eq_0_disj split: if_splits)

text \<open>The interface of a search that goes on where it stopped.\<close>

locale search =
  fixes step :: "nat \<Rightarrow> byte list \<Rightarrow> nat + nat" and pat :: "byte list"
  assumes step: "p \<le> length d \<Longrightarrow> \<forall>j < p. ruled_out pat d j \<Longrightarrow>
    (case step p d of
       Inl n \<Rightarrow> \<exists>i. n = i + length pat \<and> occurs pat d i \<and> (\<forall>j < i. ruled_out pat d j)
     | Inr p' \<Rightarrow> p' \<le> length d \<and> (\<forall>j < p'. ruled_out pat d j) \<and> (\<forall>j. \<not> occurs pat d j))"

lemma occurs_drop: "occurs pat (drop p d) i \<longleftrightarrow> occurs pat d (p + i)"
  by (auto simp: occurs_def add.commute)

lemma ruled_out_drop: "ruled_out pat (drop p d) i \<Longrightarrow> ruled_out pat d (p + i)"
  by (auto simp: ruled_out_def add.assoc)

lemma ruled_out_below:
  assumes "\<forall>j < p. ruled_out pat d j" "\<forall>j < i. ruled_out pat (drop p d) j" "j < p + i"
  shows "ruled_out pat d j"
proof (cases "j < p")
  case False
  then have "ruled_out pat (drop p d) (j - p)" using assms(2,3) by simp
  then show ?thesis using False ruled_out_drop [of pat p d "j - p"] by simp
qed (use assms(1) in simp)

lemma occurs_length: "occurs pat d i \<Longrightarrow> i + length pat \<le> length d"
proof -
  assume "occurs pat d i"
  then have "length (take (length pat) (drop i d)) = length pat" "i < length d" by (auto simp: occurs_def)
  then show ?thesis by simp
qed

interpretation str: search "string_step delim" delim for delim
proof
  fix p d assume p: "p \<le> length d" "\<forall>j < p. ruled_out delim d j"
  obtain i full where s: "partial_search (drop p d) delim = (i, full)" by fastforce
  note f = partial_search_sound [OF s]
  have r: "\<forall>j < p + i. ruled_out delim d j" using ruled_out_below [OF p(2)] f by blast
  show "case string_step delim p d of
       Inl n \<Rightarrow> \<exists>i. n = i + length delim \<and> occurs delim d i \<and> (\<forall>j < i. ruled_out delim d j)
     | Inr p' \<Rightarrow> p' \<le> length d \<and> (\<forall>j < p'. ruled_out delim d j) \<and> (\<forall>j. \<not> occurs delim d j)"
  proof (cases full)
    case True
    then have o: "occurs delim d (p + i)" using f by (simp add: occurs_drop)
    then have "p + i \<noteq> length d" by (simp add: occurs_def)
    then show ?thesis using True s r o by (auto simp: string_step_def)
  next
    case False
    have no: "\<not> occurs delim d j" for j
    proof
      assume o: "occurs delim d j"
      then have "\<not> j < p + i" using r ruled_out_not_occurs by blast
      moreover have "p + i < length d" using o calculation by (auto simp: occurs_def)
      ultimately show False using f False occurs_length [OF o] by auto
    qed
    have e: "p + i \<le> length d" using f p(1) by auto
    show ?thesis
    proof (cases "p + i = length d")
      case True
      then show ?thesis using False s r no by (simp add: string_step_def)
    next
      case neq: False
      then show ?thesis using False s r no e by (simp add: string_step_def)
    qed
  qed
qed

interpretation chr: search "char_step c" "[c]" for c
proof
  fix p d assume p: "p \<le> length d" "\<forall>j < p. ruled_out [c] d j"
  let ?i = "find_byte c (drop p d)"
  note f = find_byte_sound [of c "drop p d"]
  have "\<forall>j < ?i. ruled_out [c] (drop p d) j" using f(1,2) by (auto simp: ruled_out_def)
  then have r: "\<forall>j < p + ?i. ruled_out [c] d j" using ruled_out_below [OF p(2)] by blast
  show "case char_step c p d of
       Inl n \<Rightarrow> \<exists>i. n = i + length [c] \<and> occurs [c] d i \<and> (\<forall>j < i. ruled_out [c] d j)
     | Inr p' \<Rightarrow> p' \<le> length d \<and> (\<forall>j < p'. ruled_out [c] d j) \<and> (\<forall>j. \<not> occurs [c] d j)"
  proof (cases "p + ?i = length d")
    case True
    have "\<not> occurs [c] d j" for j using r ruled_out_not_occurs [of "[c]" d j] True by (auto simp: occurs_def)
    then show ?thesis using True r by (simp add: char_step_def)
  next
    case False
    then have l: "p + ?i < length d" using f(1) p(1) by auto
    then have "d ! (p + ?i) = c" using f(3) p(1) by simp
    then have "occurs [c] d (p + ?i)" using l by (simp add: occurs_def take_Suc hd_drop_conv_nth)
    then show ?thesis using False r by (auto simp: char_step_def)
  qed
qed

subsection \<open>The loop ends with the first occurrence\<close>

text \<open>What a stream does when asked for some bytes: it delivers some, at most as many, or an error.\<close>

definition delivers :: "'s stream \<Rightarrow> bool" where
  "delivers rd \<longleftrightarrow> (\<forall>s n. 0 < n \<longrightarrow> (case rd s n of (bs, ec, _) \<Rightarrow> length bs \<le> n \<and> (ec = None \<longleftrightarrow> bs \<noteq> [])))"

definition first_or_none :: "byte list \<Rightarrow> nat \<Rightarrow> asio_error option \<Rightarrow> byte list \<Rightarrow> bool" where
  "first_or_none pat n ec d \<longleftrightarrow> (case ec of
     None \<Rightarrow> \<exists>i. n = i + length pat \<and> occurs pat d i \<and> (\<forall>j < i. \<not> occurs pat d j)
   | Some _ \<Rightarrow> n = 0 \<and> (\<forall>i. \<not> occurs pat d i))"

lemma read_more_reads:
  assumes "sb_ok b" "delivers rd"
  shows "\<exists>ec b' s' new. read_more cap rd b s = Inr (ec, b', s') \<and> sb_ok b' \<and> sb_data b' = sb_data b @ new \<and>
    max_size_sb b' = max_size_sb b \<and> (ec = None \<longleftrightarrow> new \<noteq> []) \<and> sb_size b' = sb_size b + length new \<and>
    (sb_size b = max_size_sb b \<longrightarrow> ec = Some not_found)"
proof (cases "sb_size b = max_size_sb b")
  case True
  then show ?thesis using assms(1) by (auto simp: read_more_def)
next
  case False
  let ?n = "min (max 512 (cap b - sb_size b)) (min 65536 (max_size_sb b - sb_size b))"
  have size: "sb_size b \<le> max_size_sb b" using assms(1) by (auto simp: sb_ok_def sb_size_def)
  then have n: "0 < ?n" "sb_size b + ?n \<le> max_size_sb b" "?n \<le> 65536" using False by auto
  then obtain b1 where r: "reserve ?n b = (None, b1)"
    using reserve_fails_iff [OF assms(1), of ?n] by (cases "reserve ?n b") auto
  then have p: "prepare ?n b = (Inr (pnext b1, ?n), b1)" by (simp add: prepare_def)
  obtain bs ec s' where d: "rd s ?n = (bs, ec, s')" by (metis prod_cases3)
  have bs: "length bs \<le> ?n" "ec = None \<longleftrightarrow> bs \<noteq> []"
  proof -
    note assms(2) [unfolded delivers_def, rule_format, OF n(1), of s, unfolded d prod.case]
    then show "length bs \<le> ?n" "ec = None \<longleftrightarrow> bs \<noteq> []" by (rule conjunct1, rule conjunct2)
  qed
  obtain b2 where c: "commit (length bs) (write_at (pnext b1) bs b1) = Inr b2" "sb_ok b2" "sb_data b2 = sb_data b @ bs"
    "max_size_sb b2 = max_size_sb b"
    using prepare_write_commit [OF assms(1) p bs(1)] bs(1) n(3) by auto
  have "read_more cap rd b s = Inr (ec, b2, s')" using False p d c(1) by (simp add: read_more_def Let_def)
  moreover have "sb_size b2 = sb_size b + length bs"
    using length_sb_data [OF c(2)] length_sb_data [OF assms(1)] c(3) by simp
  ultimately show ?thesis using c bs(2) False by blast
qed

text \<open>The interface of a buffer that a stream fills: \<open>room\<close> is how much it can still take.\<close>

locale filling =
  fixes data :: "'b \<Rightarrow> byte list" and refill :: "'s stream \<Rightarrow> 'b \<Rightarrow> 's \<Rightarrow> error + asio_error option \<times> 'b \<times> 's"
    and ok :: "'b \<Rightarrow> bool" and room :: "'b \<Rightarrow> nat"
  assumes refill: "ok b \<Longrightarrow> delivers rd \<Longrightarrow> \<exists>ec b' s' new. refill rd b s = Inr (ec, b', s') \<and> ok b' \<and> data b' = data b @ new \<and>
    (ec = None \<longleftrightarrow> new \<noteq> []) \<and> room b' + length new = room b"

locale searching = search step pat + filling data refill ok room
  for step pat and data :: "'b \<Rightarrow> byte list" and refill :: "'s stream \<Rightarrow> 'b \<Rightarrow> 's \<Rightarrow> error + asio_error option \<times> 'b \<times> 's"
    and ok room

context searching begin

lemma until_loop_finds:
  "ok b \<Longrightarrow> delivers rd \<Longrightarrow> p \<le> length (data b) \<Longrightarrow> \<forall>j < p. ruled_out pat (data b) j \<Longrightarrow>
   \<exists>n ec b' s' new. until_loop step data (refill rd) p b s = Some (Inr (n, ec, b', s')) \<and> ok b' \<and>
     data b' = data b @ new \<and> first_or_none pat n ec (data b')"
proof (induction "room b" arbitrary: p b s rule: less_induct)
  case less
  note st = step [OF less.prems(3,4)]
  show ?case
  proof (cases "step p (data b)")
    case (Inl n)
    then have "first_or_none pat n None (data b)"
      using st by (auto simp: first_or_none_def dest: ruled_out_not_occurs)
    moreover have "until_loop step data (refill rd) p b s = Some (Inr (n, None, b, s))" using Inl by (subst until_loop.simps) simp
    ultimately show ?thesis using less.prems(1) by (metis append_Nil2)
  next
    case (Inr p')
    then have p': "p' \<le> length (data b)" "\<forall>j < p'. ruled_out pat (data b) j" "\<forall>j. \<not> occurs pat (data b) j"
      using st by simp_all
    obtain ec b1 s1 new where m: "refill rd b s = Inr (ec, b1, s1)" "ok b1" "data b1 = data b @ new"
      "ec = None \<longleftrightarrow> new \<noteq> []" "room b1 + length new = room b"
      using refill [OF less.prems(1,2), of s] by blast
    show ?thesis
    proof (cases ec)
      case (Some e)
      then have "until_loop step data (refill rd) p b s = Some (Inr (0, Some e, b1, s1))"
        using Inr m(1) by (subst until_loop.simps) simp
      moreover have "first_or_none pat 0 (Some e) (data b1)" using Some m(3,4) p'(3) by (simp add: first_or_none_def)
      ultimately show ?thesis using m(2,3) by blast
    next
      case None
      then have "room b1 < room b" using m(4,5) by (cases new) auto
      moreover have "\<forall>j < p'. ruled_out pat (data b1) j" using p'(2) m(3) ruled_out_extends by metis
      ultimately obtain n ec' b' s' new' where
        i: "until_loop step data (refill rd) p' b1 s1 = Some (Inr (n, ec', b', s'))" "ok b'" "data b' = data b1 @ new'"
          "first_or_none pat n ec' (data b')"
        using less.hyps [of b1 p' s1] m(2,3) less.prems(2) p'(1) by auto
      have "until_loop step data (refill rd) p b s = Some (Inr (n, ec', b', s'))"
        using Inr m(1) None i(1) by (subst until_loop.simps) simp
      moreover have "data b' = data b @ (new @ new')" using i(3) m(3) by simp
      ultimately show ?thesis using i(2,4) by blast
    qed
  qed
qed

end

interpretation sbuf: filling sb_data "read_more cap" sb_ok "\<lambda>b. max_size_sb b - sb_size b" for cap
proof
  fix b and rd :: "'a stream" and s
  assume "sb_ok b" "delivers rd"
  from read_more_reads [OF this, of cap s] obtain ec b' s' new where m: "read_more cap rd b s = Inr (ec, b', s')" "sb_ok b'"
    "sb_data b' = sb_data b @ new" "max_size_sb b' = max_size_sb b" "ec = None \<longleftrightarrow> new \<noteq> []" "sb_size b' = sb_size b + length new"
    by blast
  have "sb_size b' \<le> max_size_sb b'" using m(2) by (auto simp: sb_ok_def sb_size_def)
  then show "\<exists>ec b' s' new. read_more cap rd b s = Inr (ec, b', s') \<and> sb_ok b' \<and> sb_data b' = sb_data b @ new \<and>
    (ec = None \<longleftrightarrow> new \<noteq> []) \<and> max_size_sb b' - sb_size b' + length new = max_size_sb b - sb_size b"
    using m by (intro exI [of _ ec] exI [of _ b'] exI [of _ s'] exI [of _ new]) simp
qed

interpretation str_sb: searching "string_step delim" delim sb_data "read_more cap" sb_ok "\<lambda>b. max_size_sb b - sb_size b" for delim cap ..

interpretation chr_sb: searching "char_step c" "[c]" sb_data "read_more cap" sb_ok "\<lambda>b. max_size_sb b - sb_size b" for c cap ..

text \<open>
  C28: \<open>read_until\<close> ends on every stream that delivers something or fails when it is asked for bytes, and what it
  says is true of all bytes in the buffer, the old and the new, however the reads cut the delimiter: the
  result is the end of its first occurrence, or an error when there is none.
\<close>

theorem read_until_finds_first:
  assumes "sb_ok b" "delivers rd"
  shows "(\<exists>n ec b' s' new. read_until_string cap rd delim b s = Some (Inr (n, ec, b', s')) \<and> sb_ok b' \<and>
      sb_data b' = sb_data b @ new \<and> first_or_none delim n ec (sb_data b'))
    \<and> (\<exists>n ec b' s' new. read_until_char cap rd c b s = Some (Inr (n, ec, b', s')) \<and> sb_ok b' \<and>
      sb_data b' = sb_data b @ new \<and> first_or_none [c] n ec (sb_data b'))"
  using str_sb.until_loop_finds [OF assms, of 0 delim cap s] chr_sb.until_loop_finds [OF assms, of 0 c cap s]
  by (simp add: read_until_string_def read_until_char_def)

lemma read_until_finds_first_witness:
  "let rd = (\<lambda>s n. case s of [] \<Rightarrow> ([], Some eof, []) | x # s \<Rightarrow> ([x], None, s)) in
   \<exists>n ec b' s' new. read_until_string (\<lambda>_. 0) rd [13, 10] (new_streambuf 99) [7, 13, 13, 10, 8] = Some (Inr (n, ec, b', s')) \<and>
     sb_data b' = new \<and> first_or_none [13, 10] n ec new"
proof -
  let ?rd = "\<lambda>s n :: nat. case s of [] \<Rightarrow> ([], Some eof, []) | x # s \<Rightarrow> ([x :: byte], None, s)"
  have "delivers ?rd" by (auto simp: delivers_def split: list.splits)
  from read_until_finds_first [OF new_streambuf_ok(1) [of 99] this, where cap = "\<lambda>_. 0" and delim = "[13, 10]"
    and s = "[7, 13, 13, 10, 8]", THEN conjunct1]
  show ?thesis unfolding new_streambuf_ok(2) Let_def append_Nil by blast
qed

end
