(* ===== verification/Endpoint.thy ===== *)
theory Endpoint
  imports Subnet_Properties
begin

text \<open>
  The endpoint of a TCP connection, an address and a port: \<open>ip/detail/endpoint.hpp\<close> and
  \<open>ip/detail/impl/endpoint.ipp\<close>.  The union of the two \<open>sockaddr\<close> structures is a datatype
  whose constructor is the family; ports and IPv4 addresses are in network order in it.
\<close>

subsection \<open>Byte order of ports\<close>

type_synonym u16 = "16 word"

definition short_at :: "byte \<Rightarrow> byte \<Rightarrow> u16" where
  "short_at b0 b1 = or (ucast b0) (push_bit 8 (ucast b1))"

definition host_to_network_short :: "u16 \<Rightarrow> u16" where
  "host_to_network_short v = short_at (ucast (drop_bit 8 v)) (ucast v)"

text \<open>The byte at the lower address is the lower one.\<close>

definition network_to_host_short :: "u16 \<Rightarrow> u16" where
  "network_to_host_short v = or (push_bit 8 (ucast (ucast v :: byte))) (ucast (ucast (drop_bit 8 v) :: byte))"

subsection \<open>Endpoints\<close>

datatype ip_endpoint =
    Sockaddr_In (sin_port: u16) (sin_addr: u32)
  | Sockaddr_In6 (sin6_port: u16) (sin6_flowinfo: u32) (sin6_addr: "byte list") (sin6_scope_id: nat)

definition af_inet :: int where "af_inet = 2"

definition ep_any :: ip_endpoint where
  "ep_any = Sockaddr_In 0 0"

definition ep_of_family :: "int \<Rightarrow> u16 \<Rightarrow> ip_endpoint" where
  "ep_of_family family port_num =
     (if family = af_inet then Sockaddr_In (host_to_network_short port_num) 0
      else Sockaddr_In6 (host_to_network_short port_num) 0 (replicate 16 0) 0)"

definition ep_of_address :: "address \<Rightarrow> u16 \<Rightarrow> error + ip_endpoint" where
  "ep_of_address addr port_num =
     (if type_of addr = ipv4 then
        ebind (to_v4 addr) (\<lambda>a. Inr (Sockaddr_In (host_to_network_short port_num) (host_to_network_long (v4_to_uint a))))
      else
        ebind (to_v6 addr) (\<lambda>a. Inr (Sockaddr_In6 (host_to_network_short port_num) 0
          (take 16 (v6_to_bytes a)) (scope_id a mod 2 ^ 32))))"

definition ep_is_v4 :: "ip_endpoint \<Rightarrow> bool" where
  "ep_is_v4 e \<longleftrightarrow> (case e of Sockaddr_In _ _ \<Rightarrow> True | _ \<Rightarrow> False)"

text \<open>The sizes of \<open>sockaddr_in\<close>, \<open>sockaddr_in6\<close> and \<open>sockaddr_storage\<close>.\<close>

definition ep_size :: "ip_endpoint \<Rightarrow> nat" where
  "ep_size e = (if ep_is_v4 e then 16 else 28)"

definition ep_resize :: "nat \<Rightarrow> ip_endpoint \<Rightarrow> error + ip_endpoint" where
  "ep_resize new_size e = (if new_size > 128 then Inl (System_Error invalid_argument) else Inr e)"

definition ep_port :: "ip_endpoint \<Rightarrow> u16" where
  "ep_port e =
     (if ep_is_v4 e then network_to_host_short (sin_port e) else network_to_host_short (sin6_port e))"

definition ep_set_port :: "u16 \<Rightarrow> ip_endpoint \<Rightarrow> ip_endpoint" where
  "ep_set_port port_num e =
     (case e of
        Sockaddr_In _ a \<Rightarrow> Sockaddr_In (host_to_network_short port_num) a
      | Sockaddr_In6 _ fl a sc \<Rightarrow> Sockaddr_In6 (host_to_network_short port_num) fl a sc)"

definition ep_address :: "ip_endpoint \<Rightarrow> address" where
  "ep_address e =
     (if ep_is_v4 e then address_of_v4 (v4_of_uint (network_to_host_long (sin_addr e)))
      else address_of_v6 (v6_of_bytes (sin6_addr e) (sin6_scope_id e)))"

definition ep_set_address :: "address \<Rightarrow> ip_endpoint \<Rightarrow> error + ip_endpoint" where
  "ep_set_address addr e = ep_of_address addr (ep_port e)"

definition ep_equal :: "ip_endpoint \<Rightarrow> ip_endpoint \<Rightarrow> bool" where
  "ep_equal e1 e2 \<longleftrightarrow> address_equal (ep_address e1) (ep_address e2) \<and> ep_port e1 = ep_port e2"

definition ep_less :: "ip_endpoint \<Rightarrow> ip_endpoint \<Rightarrow> bool" where
  "ep_less e1 e2 \<longleftrightarrow>
     (if address_less (ep_address e1) (ep_address e2) then True
      else if \<not> address_equal (ep_address e1) (ep_address e2) then False
      else ep_port e1 < ep_port e2)"

definition ep_to_string :: "inet_lib \<Rightarrow> ip_endpoint \<Rightarrow> error + string" where
  "ep_to_string L e =
     ebind (to_string L (ep_address e)) (\<lambda>a.
       Inr ((if ep_is_v4 e then a else CHR ''['' # a @ '']'') @ CHR '':'' # show_nat (unat (ep_port e))))"

subsection \<open>What an endpoint keeps\<close>

lemma short_order [simp]: "network_to_host_short (host_to_network_short v) = v"
  by (rule bit_word_eqI)
    (auto simp: network_to_host_short_def host_to_network_short_def short_at_def bit_simps bit_byte)

lemma short_order' [simp]: "host_to_network_short (network_to_host_short v) = v"
  by (rule bit_word_eqI)
    (auto simp: network_to_host_short_def host_to_network_short_def short_at_def bit_simps bit_byte)

text \<open>The addresses that the constructors of \<open>address\<close> make, with a scope of 32 bits.\<close>

definition plain_address :: "address \<Rightarrow> bool" where
  "plain_address a \<longleftrightarrow> (\<exists>x. a = address_of_v4 x) \<or> (\<exists>x. a = address_of_v6 x \<and> v6_ok x \<and> scope_id x < 2 ^ 32)"

definition ep_ok :: "ip_endpoint \<Rightarrow> bool" where
  "ep_ok e \<longleftrightarrow> (case e of Sockaddr_In _ _ \<Rightarrow> True | Sockaddr_In6 _ _ a sc \<Rightarrow> length a = 16 \<and> sc < 2 ^ 32)"

lemma plain_equal: "plain_address a \<Longrightarrow> plain_address b \<Longrightarrow> address_equal a b \<longleftrightarrow> a = b"
  by (auto simp: plain_address_def address_equal_def address_of_v4_def address_of_v6_def v6_equal_iff)

lemma v4_total: "x \<noteq> y \<Longrightarrow> v4_less x y \<longleftrightarrow> \<not> v4_less y x"
proof -
  assume "x \<noteq> y"
  then have "v4_to_uint x \<noteq> v4_to_uint y" by (simp add: v4_uint_eq)
  then show ?thesis unfolding v4_less_def by (simp add: not_less le_less)
qed

lemma v6_total: "v6_ok x \<Longrightarrow> v6_ok y \<Longrightarrow> x \<noteq> y \<Longrightarrow> v6_less x y \<longleftrightarrow> \<not> v6_less y x"
proof -
  assume o: "v6_ok x" "v6_ok y" "x \<noteq> y"
  then have "value6 x \<noteq> value6 y \<or> scope_id x \<noteq> scope_id y" using v6_eqI by blast
  then show ?thesis unfolding v6_less_iff [OF o(1,2)] v6_less_iff [OF o(2,1)] by arith
qed

lemma plain_total:
  assumes "plain_address a" "plain_address b" "a \<noteq> b"
  shows "address_less a b \<longleftrightarrow> \<not> address_less b a"
proof -
  have t: "address_less (address_of_v4 x) (address_of_v6 y)" "\<not> address_less (address_of_v6 y) (address_of_v4 x)"
    "address_less (address_of_v4 x) (address_of_v4 x') = v4_less x x'"
    "address_less (address_of_v6 y) (address_of_v6 y') = v6_less y y'" for x x' y y'
    by (simp_all add: address_less_def address_of_v4_def address_of_v6_def type_less_def)
  consider (four) x y where "a = address_of_v4 x" "b = address_of_v4 y"
    | (six) x y where "a = address_of_v6 x" "b = address_of_v6 y" "v6_ok x" "v6_ok y"
    | (mixed) x y where "a = address_of_v4 x \<and> b = address_of_v6 y \<or> a = address_of_v6 y \<and> b = address_of_v4 x"
    using assms(1,2) unfolding plain_address_def by blast
  then show ?thesis
  proof cases
    case four
    then show ?thesis using v4_total [of x y] assms(3) by (auto simp: t)
  next
    case six
    then show ?thesis using v6_total [of x y] assms(3) by (auto simp: t)
  next
    case mixed
    then show ?thesis by (auto simp: t)
  qed
qed

lemma plain_irrefl: "plain_address a \<Longrightarrow> \<not> address_less a a"
  by (auto simp: plain_address_def address_less_def address_of_v4_def address_of_v6_def type_less_def v6_less_iff v4_less_def)

lemma plain_trans:
  "plain_address a \<Longrightarrow> plain_address b \<Longrightarrow> plain_address c \<Longrightarrow> address_less a b \<Longrightarrow> address_less b c \<Longrightarrow> address_less a c"
  by (auto simp: plain_address_def address_less_def address_of_v4_def address_of_v6_def type_less_def v6_less_iff v4_less_def)

lemma ep_address_plain: "ep_ok e \<Longrightarrow> plain_address (ep_address e)"
  by (cases e) (auto simp: ep_ok_def plain_address_def ep_address_def ep_is_v4_def v6_ok_def v6_of_bytes_def)

lemma ep_of_plain:
  assumes "plain_address a"
  shows "\<exists>e. ep_of_address a p = Inr e \<and> ep_ok e \<and> ep_address e = a \<and> ep_port e = p"
  using assms
  by (auto simp: plain_address_def ep_of_address_def to_v4_def to_v6_def address_of_v4_def address_of_v6_def ep_ok_def
      ep_address_def ep_port_def ep_is_v4_def v6_to_bytes_def v6_of_bytes_def v6_ok_def)

lemma ep_equal_iff:
  "ep_ok e1 \<Longrightarrow> ep_ok e2 \<Longrightarrow> ep_equal e1 e2 \<longleftrightarrow> ep_address e1 = ep_address e2 \<and> ep_port e1 = ep_port e2"
  using plain_equal [OF ep_address_plain ep_address_plain, of e1 e2] by (simp add: ep_equal_def)

lemma ep_less_iff:
  "ep_ok e1 \<Longrightarrow> ep_ok e2 \<Longrightarrow> ep_less e1 e2 \<longleftrightarrow>
     address_less (ep_address e1) (ep_address e2) \<or> ep_address e1 = ep_address e2 \<and> ep_port e1 < ep_port e2"
  using plain_equal [OF ep_address_plain ep_address_plain, of e1 e2] by (auto simp: ep_less_def)

lemma ep_less_trans:
  assumes "ep_ok e1" "ep_ok e2" "ep_ok e3" "ep_less e1 e2" "ep_less e2 e3"
  shows "ep_less e1 e3"
  using assms plain_trans [OF ep_address_plain ep_address_plain ep_address_plain, of e1 e2 e3] by (auto simp: ep_less_iff)

lemma set_port_keeps:
  "ep_address (ep_set_port p e) = ep_address e" "ep_port (ep_set_port p e) = p" "ep_ok (ep_set_port p e) = ep_ok e"
  by (cases e; simp add: ep_set_port_def ep_address_def ep_port_def ep_is_v4_def ep_ok_def)+

text \<open>
  An endpoint made from an address and a port has that address and that port; setting one of them keeps the
  other; two endpoints are equal exactly if both agree, whatever the flow information; and the order is total on
  them, by address and then by port.
\<close>

theorem endpoint_keeps_address_and_port:
  assumes "plain_address a" "ep_ok e1" "ep_ok e2"
  shows "(\<exists>e. ep_of_address a p = Inr e \<and> ep_ok e \<and> ep_address e = a \<and> ep_port e = p)
    \<and> (\<exists>e. ep_set_address a e1 = Inr e \<and> ep_ok e \<and> ep_address e = a \<and> ep_port e = ep_port e1)
    \<and> ep_address (ep_set_port p e1) = ep_address e1 \<and> ep_port (ep_set_port p e1) = p
    \<and> (ep_equal e1 e2 \<longleftrightarrow> ep_address e1 = ep_address e2 \<and> ep_port e1 = ep_port e2)
    \<and> (if ep_equal e1 e2 then \<not> ep_less e1 e2 \<and> \<not> ep_less e2 e1 else ep_less e1 e2 \<longleftrightarrow> \<not> ep_less e2 e1)"
proof (intro conjI)
  show "\<exists>e. ep_of_address a p = Inr e \<and> ep_ok e \<and> ep_address e = a \<and> ep_port e = p" by (rule ep_of_plain [OF assms(1)])
  show "\<exists>e. ep_set_address a e1 = Inr e \<and> ep_ok e \<and> ep_address e = a \<and> ep_port e = ep_port e1"
    unfolding ep_set_address_def by (rule ep_of_plain [OF assms(1)])
  show "ep_address (ep_set_port p e1) = ep_address e1" "ep_port (ep_set_port p e1) = p" by (rule set_port_keeps)+
  show "ep_equal e1 e2 \<longleftrightarrow> ep_address e1 = ep_address e2 \<and> ep_port e1 = ep_port e2" using assms(2,3) by (rule ep_equal_iff)
  note pl = ep_address_plain [OF assms(2)] ep_address_plain [OF assms(3)]
  show "if ep_equal e1 e2 then \<not> ep_less e1 e2 \<and> \<not> ep_less e2 e1 else ep_less e1 e2 \<longleftrightarrow> \<not> ep_less e2 e1"
  proof (cases "ep_address e1 = ep_address e2")
    case True
    then show ?thesis using plain_irrefl [OF pl(1)] assms(2,3) by (auto simp: ep_equal_iff ep_less_iff)
  next
    case False
    then show ?thesis using plain_total [OF pl False] assms(2,3) by (auto simp: ep_equal_iff ep_less_iff)
  qed
qed

lemma endpoint_keeps_address_and_port_witness:
  "\<exists>e. ep_of_address (address_of_v4 v4_loopback) 5500 = Inr e \<and> ep_address e = address_of_v4 v4_loopback \<and> ep_port e = 5500"
proof -
  have "plain_address (address_of_v4 v4_loopback)" "ep_ok ep_any" by (auto simp: plain_address_def ep_ok_def ep_any_def)
  from endpoint_keeps_address_and_port [OF this this(2), of 5500] show ?thesis by blast
qed

end
