(* ===== verification/Well_Formed.thy ===== *)
theory Well_Formed
  imports Subnet_Text Endpoint
begin

text \<open>
  What comes out of asio's parsers is well formed, whatever text goes in: the IPv6 state
  machine (\<open>Inet\<close>) fills exactly sixteen bytes, and the networks, host ranges and
  endpoints (\<open>Subnet\<close>, \<open>Endpoint\<close>) built from a parsed address keep its form.
\<close>

subsection \<open>The IPv6 parser\<close>

text \<open>What every state of the IPv6 parser keeps of the two arrays it fills.\<close>

definition pton6_inv :: "pton_state \<Rightarrow> byte list \<Rightarrow> byte list \<Rightarrow> nat \<Rightarrow> bool" where
  "pton6_inv st front back sc \<longleftrightarrow>
     even (length front) \<and> even (length back) \<and> length front + length back \<le> 16 \<and>
     (st = fword \<or> st = fcolon \<longrightarrow> back = []) \<and> sc < 2 ^ 16"

lemma even_below: "even n \<Longrightarrow> n \<le> 16 \<Longrightarrow> n \<noteq> 16 \<Longrightarrow> n \<le> (14 :: nat)"
  by (auto elim!: evenE)

lemma pton6_inv_word:
  "pton6_inv fword front back sc \<Longrightarrow> length front \<noteq> 16 \<Longrightarrow> pton6_inv st (front @ word_bytes w) back sc"
  "pton6_inv bword front back sc \<Longrightarrow> length front + length back \<noteq> 16 \<Longrightarrow> st = bword \<or> st = scope \<Longrightarrow>
   pton6_inv st front (back @ word_bytes w) sc"
  using even_below [of "length front + length back"] by (auto simp: pton6_inv_def word_bytes_def)

lemma pton6_inv_state:
  "pton6_inv fcolon front back sc = pton6_inv fword front back sc"
  "pton6_inv fword front back sc \<Longrightarrow> pton6_inv bword front back sc"
  by (auto simp: pton6_inv_def)

lemma pton6_inv_join:
  "pton6_inv st front back sc \<Longrightarrow> length (join_bytes front back) = 16" "pton6_inv st front back sc \<Longrightarrow> sc < 2 ^ 16"
  by (auto simp: pton6_inv_def join_bytes_def)

lemma pton6_loop_typed:
  "pton6_loop st p w front back sc = Some (bytes, sc') \<Longrightarrow> pton6_inv st front back sc \<Longrightarrow>
   length bytes = 16 \<and> sc' < 2 ^ 16"
proof (induction st p w front "back" sc rule: pton6_loop.induct)
  case (1 st p w front bk sc)
  note w = \<open>pton6_loop st p w front bk sc = _\<close> [unfolded pton6_loop.simps [of st p w front bk sc]]
  have le: "\<not> w > 0xFFFF" using w by (simp split: if_splits)
  note IH = "1.IH" [OF le] and inv = \<open>pton6_inv st front bk sc\<close>
  show ?case
  proof (cases st)
    case fword
    then show ?thesis using w le inv IH(1) [OF fword] IH(2) [OF fword] IH(3) [OF fword]
      by (auto simp: pton6_inv_word pton6_inv_state pton6_inv_join split: option.splits if_splits
          dest!: pton6_inv_word(1) [where w = w and st = scope] dest: pton6_inv_join)
  next
    case fcolon
    then show ?thesis using w le inv IH(4,5) [OF fcolon]
      by (auto simp: pton6_inv_state split: if_splits)
  next
    case bword
    then show ?thesis using w le inv IH(6) [OF bword] IH(7) [OF bword] IH(8) [OF bword]
      by (auto simp: pton6_inv_word pton6_inv_join split: option.splits if_splits
          dest!: pton6_inv_word(2) [where w = w and st = scope] dest: pton6_inv_join)
  next
    case scope
    then have "pton6_inv scope front bk w" using le inv by (simp add: pton6_inv_def)
    then show ?thesis using scope w le inv IH(9) [OF scope]
      by (auto simp: pton6_inv_join split: if_splits)
  qed
qed

lemma inet_pton6_typed: "inet_pton6 src = Some (bytes, sc) \<Longrightarrow> length bytes = 16 \<and> sc < 2 ^ 16"
  unfolding inet_pton6_def by (erule pton6_loop_typed) (simp add: pton6_inv_def)

subsection \<open>Addresses and networks made from text\<close>

definition v6_parsed :: "address_v6 \<Rightarrow> bool" where "v6_parsed a \<longleftrightarrow> v6_ok a \<and> scope_id a < 2 ^ 16"

lemma v6_parsed_any: "v6_parsed v6_any"
  by (simp add: v6_parsed_def v6_ok_def v6_any_def)

lemma make_address_v6_typed: "make_address_v6_ec asio_inet str = Inr (a, ec) \<Longrightarrow> v6_parsed a"
  using v6_parsed_any inet_pton6_typed
  by (fastforce simp: make_address_v6_ec_def asio_inet_def v6_parsed_def v6_ok_def v6_of_bytes_def split: option.splits)

definition net6_ok :: "network_v6 \<Rightarrow> bool" where
  "net6_ok n \<longleftrightarrow> v6_parsed (address6 n) \<and> prefix_length6 n \<le> 128"

lemma net6_typed: "net6 a p = Inr n \<Longrightarrow> v6_parsed a \<Longrightarrow> net6_ok n"
  by (auto simp: net6_def net6_ok_def split: if_splits)

lemma make_network_v6_typed:
  assumes "make_network_v6 asio_inet str = Inr n"
  shows "net6_ok n"
proof -
  have "make_network_v6_ec asio_inet str = Inr (n, None)"
    using assms by (auto simp: make_network_v6_def throwing_def ebind_eq_Inr_iff split: option.splits)
  then show ?thesis
    by (auto simp: make_network_v6_ec_def ebind_eq_Inr_iff split: option.splits if_splits
        dest!: make_address_v6_typed net6_typed)
qed

lemma make_address_typed: "make_address asio_inet str = Inr a \<Longrightarrow> plain_address a"
  using make_address_v6_typed
  by (fastforce simp: make_address_def make_address_ec_def throwing_def ebind_eq_Inr_iff plain_address_def v6_parsed_def
      split: option.splits if_splits)

lemma canonical6_typed: "net6_ok n \<Longrightarrow> \<exists>c. canonical6 n = Inr c \<and> net6_ok c"
  using network6_value [of n] by (auto simp: canonical6_def net6_def net6_ok_def v6_parsed_def)

lemma hosts6_typed:
  assumes "net6_ok n"
  shows "v6_parsed ((v6_next ^^ i) (begin6 (hosts6 n)))" "v6_parsed (end6 (hosts6 n))"
proof -
  have n: "v6_ok (address6 n)" "prefix_length6 n \<le> 128" "scope_id (address6 n) < 2 ^ 16"
    using assms by (simp_all add: net6_ok_def v6_parsed_def)
  show "v6_parsed ((v6_next ^^ i) (begin6 (hosts6 n)))"
    using v6_walk [OF network6_value(1) [OF n(1,2)], of i] network6_value(2) [OF n(1,2)] n(3)
    by (simp add: hosts6_value(1) [OF n(1,2)] v6_parsed_def)
  show "v6_parsed (end6 (hosts6 n))"
    using hosts6_value(2,3) [OF n(1,2)] n(3) by (simp add: v6_parsed_def)
qed

lemma endpoint_typed: "v6_parsed a \<Longrightarrow> \<exists>e. ep_of_address (address_of_v6 a) port = Inr e \<and> ep_ok e"
  using ep_of_plain [of "address_of_v6 a" port] by (fastforce simp: v6_parsed_def plain_address_def)

lemma parse_example: "inet_pton6 ''fe80::1%3'' = Some ([0xFE, 0x80] @ replicate 13 0 @ [1], 3)"
  by (simp add: inet_pton6_def pton6_loop.simps at_nul_def hex_value_def code_def word_bytes_def join_bytes_def decimal_def)
    (simp add: replicate_append_same numeral_eq_Suc)

lemma network_example:
  "make_network_v6 asio_inet ''fe80::1%3/64'' =
     Inr \<lparr>address6 = Addr_v6 ([0xFE, 0x80] @ replicate 13 0 @ [1]) 3, prefix_length6 = 64\<rparr>"
  using parse_example
  by (simp add: make_network_v6_def make_network_v6_ec_def find_first_def decimal_def code_def make_address_v6_ec_def
      asio_inet_def throwing_def atoi_def net6_def v6_of_bytes_def decimal_value_def blank_def)

text \<open>
  C19: The network \<open>make_network_v6\<close> returns is well formed, whatever it is given to parse: its
  address has sixteen bytes and a scope of at most 16 bits and its prefix at most 128 bits.
  So are its canonical form, both ends of its range of hosts and every address an iterator
  reaches from the first, an endpoint can be made of its address, and its own text gives the
  same network again.
\<close>

theorem parsed_networks_well_formed:
  assumes "make_network_v6 asio_inet str = Inr n"
  shows "net6_ok n \<and> (\<exists>c. canonical6 n = Inr c \<and> net6_ok c) \<and>
    v6_parsed ((v6_next ^^ i) (begin6 (hosts6 n))) \<and> v6_parsed (end6 (hosts6 n)) \<and>
    (\<exists>e. ep_of_address (address_of_v6 (address6 n)) port = Inr e \<and> ep_ok e) \<and>
    (\<exists>s. net6_to_string asio_inet n = Inr s \<and> make_network_v6 asio_inet s = Inr n)"
proof -
  have n: "net6_ok n" using assms by (rule make_network_v6_typed)
  then have "v6_parsed (address6 n)" "prefix_length6 n \<le> 128" by (simp_all add: net6_ok_def)
  then show ?thesis
    using n canonical6_typed hosts6_typed endpoint_typed asio_text.network_v6_round_trip [of n] by (simp add: v6_parsed_def)
qed

lemma parsed_networks_well_formed_witness:
  "let n = \<lparr>address6 = Addr_v6 ([0xFE, 0x80] @ replicate 13 0 @ [1]) 3, prefix_length6 = 64\<rparr> in
   net6_ok n \<and> (\<exists>c. canonical6 n = Inr c \<and> net6_ok c) \<and>
   v6_parsed ((v6_next ^^ 5) (begin6 (hosts6 n))) \<and> v6_parsed (end6 (hosts6 n)) \<and>
   (\<exists>e. ep_of_address (address_of_v6 (address6 n)) 80 = Inr e \<and> ep_ok e) \<and>
   (\<exists>s. net6_to_string asio_inet n = Inr s \<and> make_network_v6 asio_inet s = Inr n)"
  unfolding Let_def by (rule parsed_networks_well_formed [OF network_example])

end
