(* ===== verification/Strand.thy ===== *)
theory Strand
  imports Prelude "HOL-Library.Multiset"
begin

text \<open>
  Strands: \<open>detail/impl/strand_executor_service\<close> (\<open>.hpp\<close>, \<open>.ipp\<close>) and, for an \<open>io_context\<close>,
  \<open>detail/impl/strand_service.ipp\<close>.  A strand promises that its handlers never run at the same time and run
  in the order in which they came.  The threads interleave at the sections of the code that hold the mutex of the
  strand; what a thread does is its stack of calls.  The executor under the strand is the
  multiset of invokers that it has taken and not yet called: it may call them at any time, in any order, on any thread,
  and \<open>dispatch\<close> and \<open>execute\<close> may call them at once.  The queues are lists (\<open>Op_Queue\<close> has their links).
\<close>

type_synonym handler = nat
type_synonym strand = nat

subsection \<open>One strand\<close>

text \<open>\<open>strand_service::strand_impl\<close> has no \<open>shutdown_\<close>; it is \<open>False\<close> there.\<close>

record strand_impl =
  locked :: bool
  was_shut_down :: bool
  waiting_queue :: "handler list"
  ready_queue :: "handler list"

definition new_strand :: strand_impl where
  "new_strand = \<lparr>locked = False, was_shut_down = False, waiting_queue = [], ready_queue = []\<rparr>"

text \<open>Which of the 193 mutexes a strand shares, from its address and the salt.\<close>

definition mutex_index :: "64 word \<Rightarrow> 64 word \<Rightarrow> nat" where
  "mutex_index address salt =
     (let i = address;
          i = i + drop_bit 3 address;
          i = xor i (salt + 0x9e3779b9 + push_bit 6 i + drop_bit 2 i)
      in unat i mod 193)"

text \<open>
  What a caller learns in the section that holds the mutex: the handler is destroyed, waits, or the caller
  has the lock and has to schedule the strand.  \<open>strand_service\<close> may also run it at once.
\<close>

datatype verdict = Destroyed | Queued | First | Immediate

definition enqueue :: "handler \<Rightarrow> strand_impl \<Rightarrow> verdict \<times> strand_impl" where
  "enqueue p impl =
     (if was_shut_down impl then (Destroyed, impl)
      else if locked impl then (Queued, impl\<lparr>waiting_queue := waiting_queue impl @ [p]\<rparr>)
      else (First, impl\<lparr>locked := True\<rparr>))"

definition do_post :: "handler \<Rightarrow> strand_impl \<Rightarrow> verdict \<times> strand_impl" where
  "do_post p impl =
     (if locked impl then (Queued, impl\<lparr>waiting_queue := waiting_queue impl @ [p]\<rparr>)
      else (First, impl\<lparr>locked := True\<rparr>))"

definition do_dispatch :: "bool \<Rightarrow> handler \<Rightarrow> strand_impl \<Rightarrow> verdict \<times> strand_impl" where
  "do_dispatch can_dispatch p impl =
     (if can_dispatch \<and> \<not> locked impl then (Immediate, impl\<lparr>locked := True\<rparr>)
      else if locked impl then (Queued, impl\<lparr>waiting_queue := waiting_queue impl @ [p]\<rparr>)
      else (First, impl\<lparr>locked := True\<rparr>))"

text \<open>The owner of the lock pushes its handler after the mutex is free again.\<close>

definition push_ready :: "handler \<Rightarrow> strand_impl \<Rightarrow> strand_impl" where
  "push_ready p impl = impl\<lparr>ready_queue := ready_queue impl @ [p]\<rparr>"

definition push_waiting_to_ready :: "strand_impl \<Rightarrow> bool \<times> strand_impl" where
  "push_waiting_to_ready impl =
     (let ready = ready_queue impl @ waiting_queue impl; more_handlers = (ready \<noteq> []) in
      (more_handlers, impl\<lparr>ready_queue := ready, waiting_queue := [], locked := more_handlers\<rparr>))"

text \<open>The handlers that a shutdown destroys, in the order of the queue \<open>ops\<close>.\<close>

definition shut_down :: "strand_impl \<Rightarrow> handler list \<times> strand_impl" where
  "shut_down impl =
     (waiting_queue impl @ ready_queue impl, impl\<lparr>was_shut_down := True, waiting_queue := [], ready_queue := []\<rparr>)"

subsection \<open>Threads\<close>

datatype how = Execute | Dispatch | Post | Defer

text \<open>
  The stack of a thread, innermost first: the code of a handler, a call that has the lock and has yet to push
  its handler or to hand the invoker to the executor, \<open>run_ready_handlers\<close>, the immediate call of
  \<open>strand_service\<close>, \<open>on_invoker_exit\<close>, an exception on its way out.  The empty stack is code outside all handlers.
\<close>

datatype frame =
    Code handler
  | Push_Ready strand handler how
  | Submit strand how
  | Run_Ready strand
  | Direct strand
  | Leave strand
  | Unwind

record strands =
  impls :: "strand_impl list"
  stacks :: "frame list list"
  pending :: "strand multiset"

text \<open>\<open>call_stack<strand_impl>::contains\<close>.\<close>

definition running_in :: "strand \<Rightarrow> frame list \<Rightarrow> bool" where
  "running_in s st \<longleftrightarrow> list_ex (\<lambda>f. f = Run_Ready s \<or> f = Direct s) st"

fun user_code :: "frame list \<Rightarrow> bool" where
  "user_code [] = True"
| "user_code (Code p # st) = True"
| "user_code _ = False"

definition impl_of :: "strands \<Rightarrow> strand \<Rightarrow> strand_impl" where
  "impl_of sys s = impls sys ! s"

definition put_strand :: "nat \<Rightarrow> frame list \<Rightarrow> strand \<Rightarrow> strand_impl \<Rightarrow> strands \<Rightarrow> strands" where
  "put_strand i st s x sys = sys\<lparr>stacks := (stacks sys)[i := st], impls := (impls sys)[s := x]\<rparr>"

definition put_stack :: "nat \<Rightarrow> frame list \<Rightarrow> strands \<Rightarrow> strands" where
  "put_stack i st sys = sys\<lparr>stacks := (stacks sys)[i := st]\<rparr>"

text \<open>What a step shows: \<open>Ran\<close> is a handler that runs at once, in the strand that is running already.\<close>

datatype strand_event =
    Accepted strand handler | Began strand handler | Entered strand handler | Ran strand handler
  | Discarded "handler list" | Internal

text \<open>The end of the section of \<open>enqueue\<close>, \<open>do_post\<close> or \<open>do_dispatch\<close>.\<close>

definition called :: "nat \<Rightarrow> how \<Rightarrow> strand \<Rightarrow> handler \<Rightarrow> frame list \<Rightarrow> verdict \<times> strand_impl \<Rightarrow> strands \<Rightarrow> strand_event \<times> strands" where
  "called i how s p st r sys =
     (case r of (v, x) \<Rightarrow>
        (case v of
           Destroyed \<Rightarrow> (Discarded [p], put_strand i st s x sys)
         | Queued \<Rightarrow> (Accepted s p, put_strand i st s x sys)
         | First \<Rightarrow> (Accepted s p, put_strand i (Push_Ready s p how # st) s x sys)
         | Immediate \<Rightarrow> (Entered s p, put_strand i (Code p # Direct s # st) s x sys)))"

text \<open>\<open>dispatch\<close> and \<open>execute\<close> run the handler at once when the thread is in the strand, \<open>execute\<close> if its executor may block.\<close>

definition do_execute :: "nat \<Rightarrow> bool \<Rightarrow> strand \<Rightarrow> handler \<Rightarrow> frame list \<Rightarrow> strands \<Rightarrow> strand_event \<times> strands" where
  "do_execute i blocking s p st sys =
     (if blocking \<and> running_in s st then (Ran s p, put_stack i (Code p # st) sys)
      else called i Execute s p st (enqueue p (impl_of sys s)) sys)"

definition dispatch :: "nat \<Rightarrow> strand \<Rightarrow> handler \<Rightarrow> frame list \<Rightarrow> strands \<Rightarrow> strand_event \<times> strands" where
  "dispatch i s p st sys =
     (if running_in s st then (Ran s p, put_stack i (Code p # st) sys)
      else called i Dispatch s p st (enqueue p (impl_of sys s)) sys)"

definition post :: "nat \<Rightarrow> strand \<Rightarrow> handler \<Rightarrow> frame list \<Rightarrow> strands \<Rightarrow> strand_event \<times> strands" where
  "post i s p st sys = called i Post s p st (enqueue p (impl_of sys s)) sys"

definition defer_handler :: "nat \<Rightarrow> strand \<Rightarrow> handler \<Rightarrow> frame list \<Rightarrow> strands \<Rightarrow> strand_event \<times> strands" where
  "defer_handler i s p st sys = called i Defer s p st (enqueue p (impl_of sys s)) sys"

definition call :: "nat \<Rightarrow> how \<Rightarrow> bool \<Rightarrow> strand \<Rightarrow> handler \<Rightarrow> frame list \<Rightarrow> strands \<Rightarrow> strand_event \<times> strands" where
  "call i how blocking s p st sys =
     (case how of
        Execute \<Rightarrow> do_execute i blocking s p st sys
      | Dispatch \<Rightarrow> dispatch i s p st sys
      | Post \<Rightarrow> post i s p st sys
      | Defer \<Rightarrow> defer_handler i s p st sys)"

lemma call_eq:
  "call i how blocking s p st sys =
     (if running_in s st \<and> (how = Dispatch \<or> how = Execute \<and> blocking) then (Ran s p, put_stack i (Code p # st) sys)
      else called i how s p st (enqueue p (impl_of sys s)) sys)"
  by (cases how) (simp_all add: call_def do_execute_def dispatch_def post_def defer_handler_def)

definition io_post :: "nat \<Rightarrow> strand \<Rightarrow> handler \<Rightarrow> frame list \<Rightarrow> strands \<Rightarrow> strand_event \<times> strands" where
  "io_post i s p st sys = called i Post s p st (do_post p (impl_of sys s)) sys"

definition io_dispatch :: "nat \<Rightarrow> bool \<Rightarrow> strand \<Rightarrow> handler \<Rightarrow> frame list \<Rightarrow> strands \<Rightarrow> strand_event \<times> strands" where
  "io_dispatch i can_dispatch s p st sys =
     (if running_in s st then (Ran s p, put_stack i (Code p # st) sys)
      else called i Post s p st (do_dispatch can_dispatch p (impl_of sys s)) sys)"

definition run_ready_handlers :: "nat \<Rightarrow> strand \<Rightarrow> frame list \<Rightarrow> strands \<Rightarrow> strand_event \<times> strands" where
  "run_ready_handlers i s st sys =
     (case ready_queue (impl_of sys s) of
        [] \<Rightarrow> (Internal, put_stack i (Leave s # st) sys)
      | p # ready \<Rightarrow> (Began s p, put_strand i (Code p # Run_Ready s # st) s ((impl_of sys s)\<lparr>ready_queue := ready\<rparr>) sys))"

text \<open>The destructor, which also schedules the rest of the strand when a handler has thrown.\<close>

definition on_invoker_exit :: "nat \<Rightarrow> strand \<Rightarrow> frame list \<Rightarrow> strands \<Rightarrow> strand_event \<times> strands" where
  "on_invoker_exit i s st sys =
     (case push_waiting_to_ready (impl_of sys s) of (more_handlers, x) \<Rightarrow>
        (Internal, put_strand i (if more_handlers then Submit s Post # st else st) s x sys))"

definition shutdown_service :: "strands \<Rightarrow> strand_event \<times> strands" where
  "shutdown_service sys =
     (Discarded (concat (map (fst \<circ> shut_down) (impls sys))), sys\<lparr>impls := map (snd \<circ> shut_down) (impls sys)\<rparr>)"

text \<open>The next step of a thread by itself: a handler returns, an exception leaves the handler and the strand.\<close>

fun go :: "nat \<Rightarrow> frame list \<Rightarrow> strands \<Rightarrow> (strand_event \<times> strands) option" where
  "go i (Push_Ready s p how # st) sys = Some (Internal, put_strand i (Submit s how # st) s (push_ready p (impl_of sys s)) sys)"
| "go i (Submit s how # st) sys = Some (Internal, put_stack i st sys\<lparr>pending := add_mset s (pending sys)\<rparr>)"
| "go i (Run_Ready s # st) sys = Some (run_ready_handlers i s st sys)"
| "go i (Direct s # st) sys = Some (Internal, put_stack i (Leave s # st) sys)"
| "go i (Leave s # st) sys = Some (on_invoker_exit i s st sys)"
| "go i (Code p # st) sys = Some (Internal, put_stack i st sys)"
| "go i (Unwind # Code p # st) sys = Some (Internal, put_stack i (Unwind # st) sys)"
| "go i (Unwind # Run_Ready s # st) sys = Some (Internal, put_stack i (Leave s # Unwind # st) sys)"
| "go i (Unwind # Direct s # st) sys = Some (Internal, put_stack i (Leave s # Unwind # st) sys)"
| "go i (Unwind # st) sys = Some (Internal, put_stack i st sys)"
| "go i [] sys = None"

text \<open>
  The choices: what the code of a thread calls, whether a handler throws and who catches it, when the executor
  calls an invoker.  A context is shut down after its threads.
\<close>

datatype strand_action =
    Call how bool strand handler
  | Io_Post strand handler
  | Io_Dispatch bool strand handler
  | Go
  | Now
  | Take strand
  | Throw
  | Catch
  | Shut_Down

definition strand_step :: "nat \<Rightarrow> strand_action \<Rightarrow> strands \<Rightarrow> (strand_event \<times> strands) option" where
  "strand_step i a sys =
     (if i < length (stacks sys) then
        let st = stacks sys ! i in
        case a of
          Call how blocking s p \<Rightarrow>
            if user_code st \<and> s < length (impls sys) then Some (call i how blocking s p st sys) else None
        | Io_Post s p \<Rightarrow>
            if user_code st \<and> s < length (impls sys) \<and> \<not> was_shut_down (impl_of sys s)
            then Some (io_post i s p st sys) else None
        | Io_Dispatch can_dispatch s p \<Rightarrow>
            if user_code st \<and> s < length (impls sys) \<and> \<not> was_shut_down (impl_of sys s)
            then Some (io_dispatch i can_dispatch s p st sys) else None
        | Go \<Rightarrow> go i st sys
        | Now \<Rightarrow>
            (case st of
               Submit s how # st \<Rightarrow>
                 if how = Dispatch \<or> how = Execute then Some (Internal, put_stack i (Run_Ready s # st) sys) else None
             | _ \<Rightarrow> None)
        | Take s \<Rightarrow>
            if user_code st \<and> s \<in># pending sys
            then Some (Internal, put_stack i (Run_Ready s # st) sys\<lparr>pending := pending sys - {#s#}\<rparr>) else None
        | Throw \<Rightarrow> (case st of Code p # st \<Rightarrow> Some (Internal, put_stack i (Unwind # st) sys) | _ \<Rightarrow> None)
        | Catch \<Rightarrow> (case st of Unwind # Code p # st \<Rightarrow> Some (Internal, put_stack i (Code p # st) sys) | _ \<Rightarrow> None)
        | Shut_Down \<Rightarrow>
            if list_all (\<lambda>st. st = []) (stacks sys)
            then Some (shutdown_service sys) else None
      else None)"

definition idle :: "nat \<Rightarrow> nat \<Rightarrow> strands" where
  "idle threads n = \<lparr>impls = replicate n new_strand, stacks = replicate threads [], pending = {#}\<rparr>"

inductive strand_run :: "strands \<Rightarrow> strand_event list \<Rightarrow> strands \<Rightarrow> bool" where
  start: "strand_run sys [] sys"
| step: "strand_run sys tr sys' \<Longrightarrow> strand_step i a sys' = Some (e, sys'') \<Longrightarrow> strand_run sys (tr @ [e]) sys''"

text \<open>A schedule that is given, for examples.\<close>

fun play :: "(nat \<times> strand_action) list \<Rightarrow> strands \<Rightarrow> (strand_event list \<times> strands) option" where
  "play [] sys = Some ([], sys)"
| "play ((i, a) # as) sys =
     (case strand_step i a sys of
        None \<Rightarrow> None
      | Some (e, sys) \<Rightarrow> map_option (\<lambda>(es, sys). (e # es, sys)) (play as sys))"

lemma play_run: "play as sys' = Some (es, sys'') \<Longrightarrow> strand_run sys tr sys' \<Longrightarrow> strand_run sys (tr @ es) sys''"
proof (induction as arbitrary: sys' es tr)
  case (Cons x as)
  obtain i a where x: "x = (i, a)" by fastforce
  obtain e sys1 es' where e: "strand_step i a sys' = Some (e, sys1)" "play as sys1 = Some (es', sys'')" "es = e # es'"
    using Cons.prems(1) x by (auto split: option.splits)
  from Cons.IH [OF e(2) strand_run.step [OF Cons.prems(2) e(1)]] e(3) show ?case by simp
qed simp

end
