(* ===== verification/Strand_Properties.thy ===== *)
theory Strand_Properties
  imports Strand "HOL-Library.Sublist"
begin

text \<open>
  What a strand promises, for every schedule: its handlers never run on two threads, they begin in the order in which
  they were accepted, and none is forgotten.
\<close>

declare run_ready_handlers_def [simp] on_invoker_exit_def [simp] shutdown_service_def [simp]

subsection \<open>Counting over the stacks\<close>

definition weigh :: "(frame \<Rightarrow> 'a :: comm_monoid_add) \<Rightarrow> frame list \<Rightarrow> 'a" where
  "weigh f st = sum_list (map f st)"

definition total :: "(frame \<Rightarrow> 'a :: comm_monoid_add) \<Rightarrow> frame list list \<Rightarrow> 'a" where
  "total f sts = sum_list (map (weigh f) sts)"

lemma weigh_simps [simp]:
  "weigh f [] = 0" "weigh f (x # st) = f x + weigh f st" "weigh f (st @ st') = weigh f st + weigh f st'"
  by (simp_all add: weigh_def)

lemma total_update:
  "i < length sts \<Longrightarrow> sts ! i = old @ st \<Longrightarrow>
   total (f :: frame \<Rightarrow> 'a :: cancel_comm_monoid_add) (sts[i := new @ st]) + weigh f old = total f sts + weigh f new"
proof -
  assume i: "i < length sts" "sts ! i = old @ st"
  have "weigh f st + (total f (sts[i := new @ st]) + weigh f old) = weigh f st + (total f sts + weigh f new)"
    using sum_list_replace [of i sts "weigh f" "new @ st"] i by (simp add: total_def ac_simps)
  then show ?thesis by (simp only: add_left_cancel)
qed

lemma total_idle: "list_all (\<lambda>st. st = []) sts \<Longrightarrow> total f sts = 0"
  by (induction sts) (simp_all add: total_def)

fun of_strand :: "strand \<Rightarrow> frame \<Rightarrow> nat" where
  "of_strand s (Push_Ready s' p how) = of_bool (s' = s)"
| "of_strand s (Submit s' how) = of_bool (s' = s)"
| "of_strand s (Run_Ready s') = of_bool (s' = s)"
| "of_strand s (Direct s') = of_bool (s' = s)"
| "of_strand s (Leave s') = of_bool (s' = s)"
| "of_strand s _ = 0"

fun submits :: "strand \<Rightarrow> frame \<Rightarrow> nat" where
  "submits s (Submit s' how) = of_bool (s' = s)"
| "submits s _ = 0"

fun pushes :: "strand \<Rightarrow> frame \<Rightarrow> handler multiset" where
  "pushes s (Push_Ready s' p how) = (if s' = s then {#p#} else {#})"
| "pushes s _ = {#}"

text \<open>How often the lock of a strand is held, how often its invoker is on the way, and what is yet to be pushed.\<close>

definition held :: "strand \<Rightarrow> strands \<Rightarrow> nat" where
  "held s sys = total (of_strand s) (stacks sys) + count (pending sys) s"

definition on_the_way :: "strand \<Rightarrow> strands \<Rightarrow> nat" where
  "on_the_way s sys = total (submits s) (stacks sys) + count (pending sys) s"

definition pushing :: "strand \<Rightarrow> strands \<Rightarrow> handler multiset" where
  "pushing s sys = total (pushes s) (stacks sys)"

lemma pushing_held: "size (pushing s sys) + on_the_way s sys \<le> held s sys"
proof -
  have f: "size (pushes s f) + submits s f \<le> of_strand s f" for f by (cases f) auto
  have w: "size (weigh (pushes s) st) + weigh (submits s) st \<le> weigh (of_strand s) st" for st
  proof (induction st)
    case (Cons x st)
    then show ?case using f [of x] by simp
  qed simp
  have "size (total (pushes s) sts) + total (submits s) sts \<le> total (of_strand s) sts" for sts
    unfolding total_def
  proof (induction sts)
    case (Cons x sts)
    then show ?case using w [of x] by simp
  qed simp
  from this [of "stacks sys"] show ?thesis by (simp add: held_def on_the_way_def pushing_def)
qed

subsection \<open>What a schedule has accepted and begun\<close>

definition accepted :: "strand \<Rightarrow> strand_event list \<Rightarrow> handler list" where
  "accepted s tr = concat (map (\<lambda>e. case e of Accepted s' p \<Rightarrow> if s' = s then [p] else []
     | Entered s' p \<Rightarrow> if s' = s then [p] else [] | _ \<Rightarrow> []) tr)"

definition begun :: "strand \<Rightarrow> strand_event list \<Rightarrow> handler list" where
  "begun s tr = concat (map (\<lambda>e. case e of Began s' p \<Rightarrow> if s' = s then [p] else []
     | Entered s' p \<Rightarrow> if s' = s then [p] else [] | _ \<Rightarrow> []) tr)"

lemma accepted_snoc [simp]:
  "accepted s [] = []"
  "accepted s (tr @ [Accepted s' p]) = accepted s tr @ (if s' = s then [p] else [])"
  "accepted s (tr @ [Entered s' p]) = accepted s tr @ (if s' = s then [p] else [])"
  "accepted s (tr @ [Began s' p]) = accepted s tr" "accepted s (tr @ [Ran s' p]) = accepted s tr"
  "accepted s (tr @ [Discarded ps]) = accepted s tr" "accepted s (tr @ [Internal]) = accepted s tr"
  by (simp_all add: accepted_def)

lemma begun_snoc [simp]:
  "begun s [] = []"
  "begun s (tr @ [Began s' p]) = begun s tr @ (if s' = s then [p] else [])"
  "begun s (tr @ [Entered s' p]) = begun s tr @ (if s' = s then [p] else [])"
  "begun s (tr @ [Accepted s' p]) = begun s tr" "begun s (tr @ [Ran s' p]) = begun s tr"
  "begun s (tr @ [Discarded ps]) = begun s tr" "begun s (tr @ [Internal]) = begun s tr"
  by (simp_all add: begun_def)

text \<open>
  The invariant of one strand.  Whoever waits was accepted after all who are ready, and one
  handler may be between the two queues; \<open>lost\<close> is what a shutdown destroyed.
\<close>

definition strand_ok :: "strand \<Rightarrow> strand_event list \<Rightarrow> strands \<Rightarrow> bool" where
  "strand_ok s tr sys \<longleftrightarrow>
     (let x = impl_of sys s in
      held s sys = of_bool (locked x) \<and>
      (\<not> locked x \<longrightarrow> ready_queue x = [] \<and> waiting_queue x = []) \<and>
      (pushing s sys \<noteq> {#} \<longrightarrow> ready_queue x = []) \<and>
      (0 < on_the_way s sys \<and> \<not> was_shut_down x \<longrightarrow> ready_queue x \<noteq> []) \<and>
      (was_shut_down x \<longrightarrow> ready_queue x = [] \<and> waiting_queue x = [] \<and> pushing s sys = {#}) \<and>
      (\<exists>l lost. mset l = pushing s sys \<and> (\<not> was_shut_down x \<longrightarrow> lost = []) \<and>
         accepted s tr = begun s tr @ ready_queue x @ l @ waiting_queue x @ lost))"

text \<open>The strands that the frames and invokers name exist.\<close>

definition names_ok :: "strands \<Rightarrow> bool" where
  "names_ok sys \<longleftrightarrow> (\<forall>s. length (impls sys) \<le> s \<longrightarrow> held s sys = 0)"

lemma totals:
  assumes "i < length (stacks sys)" "stacks sys ! i = old @ st" "stacks sys' = (stacks sys)[i := new @ st]"
  shows "held s sys' + weigh (of_strand s) old + count (pending sys) s = held s sys + weigh (of_strand s) new + count (pending sys') s"
    "on_the_way s sys' + weigh (submits s) old + count (pending sys) s = on_the_way s sys + weigh (submits s) new + count (pending sys') s"
    "pushing s sys' + weigh (pushes s) old = pushing s sys + weigh (pushes s) new"
  using total_update [OF assms(1,2), of "of_strand s" new] total_update [OF assms(1,2), of "submits s" new]
    total_update [OF assms(1,2), of "pushes s" new] assms(3)
  by (simp_all add: held_def on_the_way_def pushing_def)

lemma frame_names:
  assumes "names_ok sys" "i < length (stacks sys)" "stacks sys ! i = f # st" "of_strand s f = 1"
  shows "s < length (impls sys)"
proof (rule ccontr)
  assume "\<not> s < length (impls sys)"
  then have "held s sys = 0" using assms(1) by (simp add: names_ok_def)
  moreover have "held s (sys\<lparr>stacks := (stacks sys)[i := [] @ st]\<rparr>) + 1 = held s sys"
    using totals(1) [of i sys "[f]" st "sys\<lparr>stacks := (stacks sys)[i := [] @ st]\<rparr>" "[]" s] assms(2-4) by simp
  ultimately show False by simp
qed

subsection \<open>The effects of the steps\<close>

text \<open>
  Every step is one of these: the lock moves from one place to another (or is not concerned), a
  handler is accepted, pushed or begun, the lock is given up, the strands are shut down.
\<close>

inductive effect :: "nat \<Rightarrow> strand_event \<Rightarrow> strands \<Rightarrow> strands \<Rightarrow> bool" where
  move: "stacks sys ! i = old @ st \<Longrightarrow>
    (\<And>s. weigh (of_strand s) new + count P s = weigh (of_strand s) old + count (pending sys) s) \<Longrightarrow>
    (\<And>s. weigh (submits s) new + count P s \<le> weigh (submits s) old + count (pending sys) s) \<Longrightarrow>
    (\<And>s. weigh (pushes s) new = {#}) \<Longrightarrow> (\<And>s. weigh (pushes s) old = {#}) \<Longrightarrow>
    (\<And>s. accepted s [e] = []) \<Longrightarrow> (\<And>s. begun s [e] = []) \<Longrightarrow>
    effect i e sys (sys\<lparr>stacks := (stacks sys)[i := new @ st], pending := P\<rparr>)"
| queue: "s < length (impls sys) \<Longrightarrow> locked (impl_of sys s) \<Longrightarrow> \<not> was_shut_down (impl_of sys s) \<Longrightarrow>
    effect i (Accepted s p) sys
      (sys\<lparr>impls := (impls sys)[s := (impl_of sys s)\<lparr>waiting_queue := waiting_queue (impl_of sys s) @ [p]\<rparr>]\<rparr>)"
| acquire: "s < length (impls sys) \<Longrightarrow> \<not> locked (impl_of sys s) \<Longrightarrow> \<not> was_shut_down (impl_of sys s) \<Longrightarrow>
    stacks sys ! i = st \<Longrightarrow> (e, new) = (Accepted s p, [Push_Ready s p how]) \<or> (e, new) = (Entered s p, [Code p, Direct s]) \<Longrightarrow>
    effect i e sys
      (sys\<lparr>stacks := (stacks sys)[i := new @ st], impls := (impls sys)[s := (impl_of sys s)\<lparr>locked := True\<rparr>]\<rparr>)"
| push: "s < length (impls sys) \<Longrightarrow> stacks sys ! i = Push_Ready s p how # st \<Longrightarrow>
    effect i Internal sys
      (sys\<lparr>stacks := (stacks sys)[i := Submit s how # st], impls := (impls sys)[s := push_ready p (impl_of sys s)]\<rparr>)"
| begin_it: "s < length (impls sys) \<Longrightarrow> stacks sys ! i = Run_Ready s # st \<Longrightarrow> ready_queue (impl_of sys s) = p # ready \<Longrightarrow>
    effect i (Began s p) sys
      (sys\<lparr>stacks := (stacks sys)[i := Code p # Run_Ready s # st],
           impls := (impls sys)[s := (impl_of sys s)\<lparr>ready_queue := ready\<rparr>]\<rparr>)"
| leave: "s < length (impls sys) \<Longrightarrow> stacks sys ! i = Leave s # st \<Longrightarrow>
    push_waiting_to_ready (impl_of sys s) = (more_handlers, x) \<Longrightarrow>
    effect i Internal sys
      (sys\<lparr>stacks := (stacks sys)[i := (if more_handlers then [Submit s Post] else []) @ st], impls := (impls sys)[s := x]\<rparr>)"
| shut: "list_all (\<lambda>st. st = []) (stacks sys) \<Longrightarrow>
    effect i (Discarded ps) sys (sys\<lparr>impls := map (snd \<circ> shut_down) (impls sys)\<rparr>)"

lemma same_stack [simp]: "sys\<lparr>stacks := (stacks sys)[i := stacks sys ! i], impls := x\<rparr> = sys\<lparr>impls := x\<rparr>"
  by simp

lemma effect_call:
  assumes "s < length (impls sys)" "\<not> was_shut_down (impl_of sys s) \<or> r = enqueue p (impl_of sys s)"
    "r = enqueue p (impl_of sys s) \<or> r = do_post p (impl_of sys s) \<or> r = do_dispatch c p (impl_of sys s)"
    "called i how s p (stacks sys ! i) r sys = (e, sys')"
  shows "effect i e sys sys'"
proof -
  let ?x = "impl_of sys s" and ?st = "stacks sys ! i"
  consider "r = (Destroyed, ?x)"
    | "locked ?x" "\<not> was_shut_down ?x" "r = (Queued, ?x\<lparr>waiting_queue := waiting_queue ?x @ [p]\<rparr>)"
    | "\<not> locked ?x" "\<not> was_shut_down ?x" "r = (First, ?x\<lparr>locked := True\<rparr>) \<or> r = (Immediate, ?x\<lparr>locked := True\<rparr>)"
    using assms(2,3) by (auto simp: enqueue_def do_post_def do_dispatch_def split: if_splits)
  then show ?thesis
  proof cases
    case 1
    then have "e = Discarded [p]" "sys' = sys\<lparr>stacks := (stacks sys)[i := [] @ ?st], pending := pending sys\<rparr>"
      using assms(1,4) by (simp_all add: called_def put_strand_def impl_of_def)
    then show ?thesis using effect.move [of sys i "[]" ?st "[]" "pending sys" "Discarded [p]"]
      by (simp add: accepted_def begun_def)
  next
    case 2
    then show ?thesis using assms(1,4) effect.queue [of s sys i p] by (simp add: called_def put_strand_def)
  next
    case 3
    then show ?thesis using assms(1,4) effect.acquire [of s sys i ?st e _ p how]
      by (auto simp: called_def put_strand_def)
  qed
qed


lemma effect_move:
  assumes "stacks sys ! i = old @ st"
    "\<And>s. weigh (of_strand s) new = weigh (of_strand s) old" "\<And>s. weigh (submits s) new = 0"
    "\<And>s. weigh (pushes s) new = {#}" "\<And>s. weigh (pushes s) old = {#}" "e = Internal \<or> e = Ran s' p"
  shows "effect i e sys (put_stack i (new @ st) sys)"
proof -
  have "effect i e sys (sys\<lparr>stacks := (stacks sys)[i := new @ st], pending := pending sys\<rparr>)"
    using assms by (intro effect.move [where old = old]) (auto simp: accepted_def begun_def)
  then show ?thesis by (simp add: put_stack_def)
qed

lemma effect_go:
  assumes "names_ok sys" "i < length (stacks sys)" "go i (stacks sys ! i) sys = Some (e, sys')"
  shows "effect i e sys sys'"
proof -
  note names = frame_names [OF assms(1,2)]
  show ?thesis
    using assms(3)
  proof (cases "(i, stacks sys ! i, sys)" rule: go.cases)
    case (1 j s p how st sys2)
    then have st: "stacks sys ! i = Push_Ready s p how # st" by auto
    show ?thesis using assms(3) st names [of "Push_Ready s p how" st s] effect.push [of s sys i p how st]
      by (simp add: put_strand_def)
  next
    case (2 j s how st sys2)
    then have st: "stacks sys ! i = Submit s how # st" by auto
    show ?thesis using assms(3) st effect.move [of sys i "[Submit s how]" st "[]" "add_mset s (pending sys)" Internal]
      by (auto simp: put_stack_def accepted_def begun_def)
  next
    case (3 j s st sys2)
    then have st: "stacks sys ! i = Run_Ready s # st" by auto
    show ?thesis
    proof (cases "ready_queue (impl_of sys s)")
      case Nil
      then show ?thesis using assms(3) st effect_move [of sys i "[Run_Ready s]" st "[Leave s]" Internal] by simp
    next
      case (Cons p ready)
      then show ?thesis using assms(3) st names [of "Run_Ready s" st s] effect.begin_it [of s sys i st p ready]
        by (simp add: put_strand_def)
    qed
  next
    case (4 j s st sys2)
    then have st: "stacks sys ! i = Direct s # st" by auto
    show ?thesis using assms(3) st effect_move [of sys i "[Direct s]" st "[Leave s]" Internal] by simp
  next
    case (5 j s st sys2)
    then have st: "stacks sys ! i = Leave s # st" by auto
    obtain m x where "push_waiting_to_ready (impl_of sys s) = (m, x)" by fastforce
    then show ?thesis using assms(3) st names [of "Leave s" st s] effect.leave [of s sys i st m x] by (simp add: put_strand_def split: if_splits)
  next
    case (6 j p st sys2)
    then have st: "stacks sys ! i = Code p # st" by auto
    show ?thesis using assms(3) st effect_move [of sys i "[Code p]" st "[]" Internal] by simp
  next
    case (7 j p st sys2)
    then have st: "stacks sys ! i = Unwind # Code p # st" by auto
    show ?thesis using assms(3) st effect_move [of sys i "[Unwind, Code p]" st "[Unwind]" Internal] by simp
  next
    case (8 j s st sys2)
    then have st: "stacks sys ! i = Unwind # Run_Ready s # st" by auto
    show ?thesis using assms(3) st effect_move [of sys i "[Unwind, Run_Ready s]" st "[Leave s, Unwind]" Internal] by simp
  next
    case (9 j s st sys2)
    then have st: "stacks sys ! i = Unwind # Direct s # st" by auto
    show ?thesis using assms(3) st effect_move [of sys i "[Unwind, Direct s]" st "[Leave s, Unwind]" Internal] by simp
  qed (use assms(3) in \<open>auto intro: effect_move [where old = "[Unwind]" and new = "[]", simplified]\<close>)
qed

lemma effect_step:
  assumes "names_ok sys" "strand_step i a sys = Some (e, sys')"
  shows "i < length (stacks sys) \<and> effect i e sys sys'"
proof -
  let ?st = "stacks sys ! i"
  have i: "i < length (stacks sys)" using assms(2) by (simp add: strand_step_def split: if_splits)
  note s = assms(2) [unfolded strand_step_def, simplified i Let_def if_True]
  show ?thesis
  proof (cases a)
    case (Call how blocking s' p)
    then have c: "s' < length (impls sys)" "call i how blocking s' p ?st sys = (e, sys')" using s i by (simp_all split: if_splits)
    show ?thesis
    proof (cases "running_in s' ?st \<and> (how = Dispatch \<or> how = Execute \<and> blocking)")
      case True
      then show ?thesis using c i effect_move [of sys i "[]" ?st "[Code p]" e s' p] by (auto simp: call_eq)
    next
      case False
      then show ?thesis using c i effect_call [of s' sys "enqueue p (impl_of sys s')" p False i how e sys'] by (simp only: call_eq if_not_P [OF False]) simp
    qed
  next
    case (Io_Post s' p)
    then show ?thesis using s i effect_call [of s' sys "do_post p (impl_of sys s')" p False i Post e sys']
      by (simp add: io_post_def split: if_splits)
  next
    case (Io_Dispatch c s' p)
    then have c: "s' < length (impls sys)" "\<not> was_shut_down (impl_of sys s')" "io_dispatch i c s' p ?st sys = (e, sys')"
      using s i by (simp_all split: if_splits)
    show ?thesis
    proof (cases "running_in s' ?st")
      case True
      then show ?thesis using c i effect_move [of sys i "[]" ?st "[Code p]" e s' p] by (auto simp: io_dispatch_def)
    next
      case False
      then show ?thesis using c i effect_call [of s' sys "do_dispatch c p (impl_of sys s')" p c i Post e sys']
        by (simp add: io_dispatch_def)
    qed
  next
    case Go
    then show ?thesis using s i effect_go [OF assms(1) i] by simp
  next
    case Now
    then obtain s' how st where "?st = Submit s' how # st" "e = Internal" "sys' = put_stack i (Run_Ready s' # st) sys"
      using s i by (auto split: list.splits frame.splits if_splits)
    then show ?thesis using i effect_move [of sys i "[Submit s' how]" st "[Run_Ready s']" Internal] by simp
  next
    case (Take s')
    then have "s' \<in># pending sys" "e = Internal" "sys' = put_stack i (Run_Ready s' # ?st) sys\<lparr>pending := pending sys - {#s'#}\<rparr>"
      using s i by (auto split: if_splits)
    moreover have "of_bool (s' = z) + count (pending sys - {#s'#}) z = count (pending sys) z" for z
      using calculation(1) by (cases "s' = z") (auto simp: Suc_diff_1)
    ultimately show ?thesis using i effect.move [of sys i "[]" ?st "[Run_Ready s']" "pending sys - {#s'#}" Internal]
      by (simp add: put_stack_def accepted_def begun_def)
  next
    case Throw
    then obtain p st where "?st = Code p # st" "e = Internal" "sys' = put_stack i (Unwind # st) sys"
      using s i by (auto split: list.splits frame.splits)
    then show ?thesis using i effect_move [of sys i "[Code p]" st "[Unwind]" Internal] by simp
  next
    case Catch
    then obtain p st where "?st = Unwind # Code p # st" "e = Internal" "sys' = put_stack i (Code p # st) sys"
      using s i by (auto split: list.splits frame.splits)
    then show ?thesis using i effect_move [of sys i "[Unwind, Code p]" st "[Code p]" Internal] by simp
  next
    case Shut_Down
    then show ?thesis using s i effect.shut [of sys i] by (auto split: if_splits)
  qed
qed


subsection \<open>The invariant\<close>

lemma strand_ok_simps:
  "strand_ok s tr sys \<Longrightarrow> held s sys = of_bool (locked (impl_of sys s))"
  "strand_ok s tr sys \<Longrightarrow> \<not> locked (impl_of sys s) \<Longrightarrow> ready_queue (impl_of sys s) = [] \<and> waiting_queue (impl_of sys s) = []"
  "strand_ok s tr sys \<Longrightarrow> pushing s sys \<noteq> {#} \<Longrightarrow> ready_queue (impl_of sys s) = []"
  "strand_ok s tr sys \<Longrightarrow> \<not> locked (impl_of sys s) \<Longrightarrow> pushing s sys = {#} \<and> on_the_way s sys = 0"
  using pushing_held [of s sys] by (auto simp: strand_ok_def Let_def)

text \<open>A strand that a step does not concern.\<close>

lemma strand_ok_other:
  assumes "strand_ok s tr sys" "impl_of sys' s = impl_of sys s" "held s sys' = held s sys"
    "on_the_way s sys' \<le> on_the_way s sys" "pushing s sys' = pushing s sys" "accepted s [e] = []" "begun s [e] = []"
  shows "strand_ok s (tr @ [e]) sys'"
proof -
  have "accepted s (tr @ [e]) = accepted s tr" "begun s (tr @ [e]) = begun s tr"
    using assms(6,7) by (simp_all add: accepted_def begun_def)
  then show ?thesis using assms(1-5) unfolding strand_ok_def Let_def by auto
qed

text \<open>The lock is at one place, so a strand that runs is not on its way.\<close>

lemma holder_alone:
  assumes "strand_ok s tr sys" "i < length (stacks sys)" "stacks sys ! i = f # st" "of_strand s f = 1"
    "submits s f = 0" "pushes s f = {#}"
  shows "locked (impl_of sys s)" "on_the_way s sys = 0" "pushing s sys = {#}"
proof -
  let ?sys = "sys\<lparr>stacks := (stacks sys)[i := [] @ st]\<rparr>"
  have "held s ?sys + 1 = held s sys" "on_the_way s ?sys = on_the_way s sys" "pushing s ?sys = pushing s sys"
    using totals [of i sys "[f]" st ?sys "[]" s] assms by simp_all
  with pushing_held [of s ?sys] strand_ok_simps(1) [OF assms(1)]
  show "locked (impl_of sys s)" "on_the_way s sys = 0" "pushing s sys = {#}"
    by (auto simp: of_bool_def split: if_splits)
qed

lemma totals_same:
  "stacks sys' = stacks sys \<Longrightarrow> pending sys' = pending sys \<Longrightarrow>
   held s sys' = held s sys \<and> on_the_way s sys' = on_the_way s sys \<and> pushing s sys' = pushing s sys"
  by (simp add: held_def on_the_way_def pushing_def)

lemma effect_ok:
  assumes "effect i e sys sys'" "i < length (stacks sys)" "strand_ok s tr sys" "s < length (impls sys)"
  shows "strand_ok s (tr @ [e]) sys'"
  using assms
proof (induction rule: effect.induct)
  case (move sys i old st new P e)
  let ?sys = "sys\<lparr>stacks := (stacks sys)[i := new @ st], pending := P\<rparr>"
  have "held s ?sys = held s sys" "on_the_way s ?sys \<le> on_the_way s sys" "pushing s ?sys = pushing s sys"
    using totals [of i sys old st ?sys new s] move.prems(1) move.hyps(1) move.hyps(2) [of s] move.hyps(3) [of s]
      move.hyps(4) [of s] move.hyps(5) [of s] by simp_all
  then show ?case using move.hyps(6,7) by (intro strand_ok_other [OF move.prems(2)]) (simp_all add: impl_of_def)
next
  case (queue r sys i p)
  let ?sys = "sys\<lparr>impls := (impls sys)[r := (impl_of sys r)\<lparr>waiting_queue := waiting_queue (impl_of sys r) @ [p]\<rparr>]\<rparr>"
  have t: "held s ?sys = held s sys" "on_the_way s ?sys = on_the_way s sys" "pushing s ?sys = pushing s sys"
    using totals_same [of ?sys sys s] by simp_all
  show ?case
  proof (cases "r = s")
    case True
    then show ?thesis using queue.prems(2) queue.hyps t unfolding strand_ok_def Let_def by (auto simp: impl_of_def)
  next
    case False
    then show ?thesis using t by (intro strand_ok_other [OF queue.prems(2)]) (simp_all add: impl_of_def accepted_def begun_def)
  qed
next
  case (acquire r sys i st e new p how)
  let ?sys = "sys\<lparr>stacks := (stacks sys)[i := new @ st], impls := (impls sys)[r := (impl_of sys r)\<lparr>locked := True\<rparr>]\<rparr>"
  have t: "held s ?sys = held s sys + of_bool (r = s)" "on_the_way s ?sys = on_the_way s sys"
      "pushing s ?sys = pushing s sys + (if r = s \<and> e = Accepted s p then {#p#} else {#})"
    using totals [of i sys "[]" st ?sys new s] acquire.prems(1) acquire.hyps(4,5) by (auto split: if_splits)
  show ?case
  proof (cases "r = s")
    case True
    have u: "ready_queue (impl_of sys s) = []" "waiting_queue (impl_of sys s) = []" "pushing s sys = {#}" "on_the_way s sys = 0"
      using acquire.hyps(2) True strand_ok_simps(2,4) [OF acquire.prems(2)] by simp_all
    have a: "accepted s tr = begun s tr" and h: "held s sys = 0"
      using acquire.prems(2) u acquire.hyps(2,3) True by (auto simp: strand_ok_def Let_def)
    show ?thesis using acquire.hyps t u a h True unfolding strand_ok_def Let_def
      by (auto simp: impl_of_def)
  next
    case False
    then show ?thesis using t acquire.hyps(5)
      by (intro strand_ok_other [OF acquire.prems(2)]) (auto simp: impl_of_def accepted_def begun_def)
  qed
next
  case (push r sys i p how st)
  let ?sys = "sys\<lparr>stacks := (stacks sys)[i := Submit r how # st], impls := (impls sys)[r := push_ready p (impl_of sys r)]\<rparr>"
  have t: "held s ?sys = held s sys" "on_the_way s ?sys = on_the_way s sys + of_bool (r = s)"
      "pushing s ?sys + (if r = s then {#p#} else {#}) = pushing s sys"
    using totals [of i sys "[Push_Ready r p how]" st ?sys "[Submit r how]" s] push.prems(1) push.hyps(2) by simp_all
  show ?case
  proof (cases "r = s")
    case True
    have one: "held s sys \<le> 1" using strand_ok_simps(1) [OF push.prems(2)] by simp
    have "size (pushing s ?sys) + 1 = size (pushing s sys)" using arg_cong [OF t(3), of size] True by simp
    then have "size (pushing s ?sys) = 0" using one pushing_held [of s sys] by linarith
    then have "pushing s ?sys = {#}" by simp
    then have "pushing s sys = {#p#}" using t(3) True by simp
    moreover from this have "locked (impl_of sys s)" using strand_ok_simps(4) [OF push.prems(2)] by auto
    ultimately show ?thesis using push.hyps t push.prems(2) True unfolding strand_ok_def Let_def
      by (auto simp: impl_of_def push_ready_def)
  next
    case False
    then show ?thesis using t push.hyps
      by (intro strand_ok_other [OF push.prems(2)]) (auto simp: impl_of_def accepted_def begun_def)
  qed
next
  case (begin_it r sys i st p ready)
  let ?sys = "sys\<lparr>stacks := (stacks sys)[i := Code p # Run_Ready r # st],
           impls := (impls sys)[r := (impl_of sys r)\<lparr>ready_queue := ready\<rparr>]\<rparr>"
  have t: "held s ?sys = held s sys" "on_the_way s ?sys = on_the_way s sys" "pushing s ?sys = pushing s sys"
    using totals [of i sys "[]" "Run_Ready r # st" ?sys "[Code p]" s] begin_it.prems(1) begin_it.hyps(2) by simp_all
  show ?case
  proof (cases "r = s")
    case True
    have "on_the_way s sys = 0" "pushing s sys = {#}"
      using holder_alone(2,3) [OF begin_it.prems(2,1) begin_it.hyps(2)] True by simp_all
    then show ?thesis using begin_it.hyps t begin_it.prems(2) True unfolding strand_ok_def Let_def
      by (auto simp: impl_of_def)
  next
    case False
    then show ?thesis using t begin_it.hyps
      by (intro strand_ok_other [OF begin_it.prems(2)]) (auto simp: impl_of_def accepted_def begun_def)
  qed
next
  case (leave r sys i st more x)
  let ?sys = "sys\<lparr>stacks := (stacks sys)[i := (if more then [Submit r Post] else []) @ st], impls := (impls sys)[r := x]\<rparr>"
  have t: "held s ?sys + (if r = s \<and> \<not> more then 1 else 0) = held s sys"
      "on_the_way s ?sys = on_the_way s sys + of_bool (r = s \<and> more)" "pushing s ?sys = pushing s sys"
    using totals [of i sys "[Leave r]" st ?sys "if more then [Submit r Post] else []" s] leave.prems(1) leave.hyps(2)
    by (auto split: if_splits)
  show ?case
  proof (cases "r = s")
    case True
    let ?y = "impl_of sys s"
    have h: "locked ?y" "on_the_way s sys = 0" "pushing s sys = {#}"
      using holder_alone [OF leave.prems(2,1) leave.hyps(2)] True by simp_all
    have x: "impl_of ?sys s = ?y\<lparr>ready_queue := ready_queue ?y @ waiting_queue ?y, waiting_queue := [], locked := more\<rparr>"
        "more \<longleftrightarrow> ready_queue ?y \<noteq> [] \<or> waiting_queue ?y \<noteq> []"
      using leave.hyps(1,3) True by (auto simp: impl_of_def push_waiting_to_ready_def Let_def)
    have "held s ?sys = of_bool more" using t(1) strand_ok_simps(1) [OF leave.prems(2)] h(1) True by (cases more) simp_all
    then show ?thesis using leave.prems(2) h t(2,3) x(2) True unfolding strand_ok_def Let_def x(1) by (cases more) auto
  next
    case False
    then show ?thesis using t leave.hyps
      by (intro strand_ok_other [OF leave.prems(2)]) (auto simp: impl_of_def accepted_def begun_def)
  qed
next
  case (shut sys i ps)
  let ?sys = "sys\<lparr>impls := map (snd \<circ> shut_down) (impls sys)\<rparr>"
  have t: "held s ?sys = held s sys" "on_the_way s ?sys = on_the_way s sys" "pushing s ?sys = pushing s sys"
    using totals_same [of ?sys sys s] by simp_all
  have none: "pushing s sys = {#}"
    using total_idle [OF shut.hyps, of "pushes s"] by (simp add: pushing_def)
  have x: "impl_of ?sys s = (impl_of sys s)\<lparr>was_shut_down := True, waiting_queue := [], ready_queue := []\<rparr>"
    using shut.prems(3) by (simp add: impl_of_def shut_down_def)
  show ?case using shut.prems(2) none t unfolding strand_ok_def Let_def x by auto
qed


lemma effect_keeps:
  assumes "effect i e sys sys'" "i < length (stacks sys)"
  shows "length (impls sys') = length (impls sys)" "length (stacks sys') = length (stacks sys)"
  using assms by (induction rule: effect.induct) simp_all

lemma effect_names:
  assumes "effect i e sys sys'" "i < length (stacks sys)" "names_ok sys"
  shows "names_ok sys'"
  using assms
proof (induction rule: effect.induct)
  case (move sys i old st new P e)
  let ?sys = "sys\<lparr>stacks := (stacks sys)[i := new @ st], pending := P\<rparr>"
  have "held s ?sys = held s sys" for s
    using totals(1) [of i sys old st ?sys new s] move.prems(1) move.hyps(1) move.hyps(2) [of s] by simp
  then show ?case using move.prems(2) by (simp add: names_ok_def)
next
  case (queue r sys i p)
  let ?sys = "sys\<lparr>impls := (impls sys)[r := (impl_of sys r)\<lparr>waiting_queue := waiting_queue (impl_of sys r) @ [p]\<rparr>]\<rparr>"
  have "held s ?sys = held s sys" for s using totals_same [of ?sys sys s] by simp
  then show ?case using queue.prems(2) by (simp add: names_ok_def)
next
  case (acquire r sys i st e new p how)
  let ?sys = "sys\<lparr>stacks := (stacks sys)[i := new @ st], impls := (impls sys)[r := (impl_of sys r)\<lparr>locked := True\<rparr>]\<rparr>"
  have "held s ?sys = held s sys + of_bool (r = s)" for s
    using totals(1) [of i sys "[]" st ?sys new s] acquire.prems(1) acquire.hyps(4,5) by (auto split: if_splits)
  then show ?case using acquire.prems(2) acquire.hyps(1) by (simp add: names_ok_def)
next
  case (push r sys i p how st)
  let ?sys = "sys\<lparr>stacks := (stacks sys)[i := Submit r how # st], impls := (impls sys)[r := push_ready p (impl_of sys r)]\<rparr>"
  have "held s ?sys = held s sys" for s
    using totals(1) [of i sys "[Push_Ready r p how]" st ?sys "[Submit r how]" s] push.prems(1) push.hyps(2) by simp
  then show ?case using push.prems(2) by (simp add: names_ok_def)
next
  case (begin_it r sys i st p ready)
  let ?sys = "sys\<lparr>stacks := (stacks sys)[i := Code p # Run_Ready r # st],
           impls := (impls sys)[r := (impl_of sys r)\<lparr>ready_queue := ready\<rparr>]\<rparr>"
  have "held s ?sys = held s sys" for s
    using totals(1) [of i sys "[]" "Run_Ready r # st" ?sys "[Code p]" s] begin_it.prems(1) begin_it.hyps(2) by simp
  then show ?case using begin_it.prems(2) by (simp add: names_ok_def)
next
  case (leave r sys i st more x)
  let ?sys = "sys\<lparr>stacks := (stacks sys)[i := (if more then [Submit r Post] else []) @ st], impls := (impls sys)[r := x]\<rparr>"
  have le: "held s ?sys \<le> held s sys" for s
    using totals(1) [of i sys "[Leave r]" st ?sys "if more then [Submit r Post] else []" s] leave.prems(1) leave.hyps(2)
    by (cases more) simp_all
  have "held s ?sys = 0" if "length (impls sys) \<le> s" for s
    using le [of s] leave.prems(2) that by (simp add: names_ok_def)
  then show ?case by (simp add: names_ok_def)
next
  case (shut sys i ps)
  let ?sys = "sys\<lparr>impls := map (snd \<circ> shut_down) (impls sys)\<rparr>"
  have "held s ?sys = held s sys" for s using totals_same [of ?sys sys s] by simp
  then show ?case using shut.prems(2) by (simp add: names_ok_def)
qed

lemma run_ok:
  assumes "strand_run (idle threads n) tr sys"
  shows "length (impls sys) = n \<and> length (stacks sys) = threads \<and> names_ok sys \<and> (\<forall>s < n. strand_ok s tr sys)"
  using assms
proof (induction "idle threads n" tr sys rule: strand_run.induct)
  case start
  have idle: "list_all (\<lambda>st. st = []) (replicate threads ([] :: frame list))" by (simp add: list_all_iff)
  then show ?case
    by (simp add: total_idle [OF idle] idle_def names_ok_def held_def strand_ok_def Let_def on_the_way_def pushing_def impl_of_def new_strand_def)
next
  case (step tr sys i a e sys')
  then have k: "length (impls sys) = n" "length (stacks sys) = threads" "names_ok sys" "\<forall>s < n. strand_ok s tr sys" by simp_all
  have e: "i < length (stacks sys)" "effect i e sys sys'" using effect_step [OF k(3) step.hyps(3)] by simp_all
  show ?case using effect_keeps [OF e(2,1)] effect_names [OF e(2,1) k(3)] effect_ok [OF e(2,1)] k by simp
qed


subsection \<open>Mutual exclusion and order\<close>

lemma weigh_one: "i < length sts \<Longrightarrow> weigh f (sts ! i) \<le> total (f :: frame \<Rightarrow> nat) sts"
  by (induction sts arbitrary: i) (auto simp: total_def nth_Cons trans_le_add2 split: nat.split)

lemma weigh_two:
  "i < length sts \<Longrightarrow> j < length sts \<Longrightarrow> i \<noteq> j \<Longrightarrow> weigh f (sts ! i) + weigh f (sts ! j) \<le> total (f :: frame \<Rightarrow> nat) sts"
proof (induction sts arbitrary: i j)
  case (Cons st sts)
  have t: "total f (st # sts) = weigh f st + total f sts" by (simp add: total_def)
  show ?case
  proof (cases i; cases j)
    fix i' j' assume "i = Suc i'" "j = Suc j'"
    then show ?thesis using Cons.IH [of i' j'] Cons.prems t by simp
  qed (use Cons.prems weigh_one [of _ sts f] t in auto)
qed simp

lemma running_weighs: "length (filter (\<lambda>f. f = Run_Ready s \<or> f = Direct s) st) \<le> weigh (of_strand s) st"
  by (induction st) (auto intro: le_SucI trans_le_add2)

lemma strand_example:
  "strand_run (idle 2 1) [Accepted 0 7, Internal, Internal, Internal, Accepted 0 8, Began 0 7]
     \<lparr>impls = [\<lparr>locked = True, was_shut_down = False, waiting_queue = [8], ready_queue = []\<rparr>],
      stacks = [[], [Code 7, Run_Ready 0]], pending = {#}\<rparr>"
proof -
  have "play [(0, Call Post False 0 7), (0, Go), (0, Go), (1, Take 0), (0, Call Dispatch True 0 8), (1, Go)] (idle 2 1) =
    Some ([Accepted 0 7, Internal, Internal, Internal, Accepted 0 8, Began 0 7],
      \<lparr>impls = [\<lparr>locked = True, was_shut_down = False, waiting_queue = [8], ready_queue = []\<rparr>],
       stacks = [[], [Code 7, Run_Ready 0]], pending = {#}\<rparr>)"
    by (simp add: idle_def new_strand_def strand_step_def call_eq called_def enqueue_def running_in_def impl_of_def put_strand_def
        put_stack_def push_ready_def numeral_2_eq_2)
  from play_run [OF this strand_run.start] show ?thesis by simp
qed

text \<open>
  C23: The handlers of a strand never run at the same time: in every schedule of any number of threads and
  strands, whatever is posted, dispatched, executed or thrown, a strand is on the stack of at most one thread, and there only once.
\<close>

theorem strand_mutual_exclusion:
  assumes "strand_run (idle threads n) tr sys" "i < threads" "j < threads"
    "running_in s (stacks sys ! i)" "running_in s (stacks sys ! j)"
  shows "i = j \<and> length (filter (\<lambda>f. f = Run_Ready s \<or> f = Direct s) (stacks sys ! i)) = 1"
proof -
  let ?r = "\<lambda>k. length (filter (\<lambda>f. f = Run_Ready s \<or> f = Direct s) (stacks sys ! k))"
  have k: "length (impls sys) = n" "length (stacks sys) = threads" "names_ok sys" "\<forall>s < n. strand_ok s tr sys"
    using run_ok [OF assms(1)] by simp_all
  have "held s sys \<le> 1"
  proof (cases "s < n")
    case True
    then show ?thesis using strand_ok_simps(1) [of s tr sys] k(4) by simp
  next
    case False
    then show ?thesis using k by (simp add: names_ok_def)
  qed
  then have one: "total (of_strand s) (stacks sys) \<le> 1" by (simp add: held_def)
  have on: "1 \<le> ?r i" "1 \<le> ?r j"
    using assms(4,5) by (auto simp: running_in_def list_ex_iff Suc_le_eq filter_empty_conv)
  then have w: "1 \<le> weigh (of_strand s) (stacks sys ! i)" "1 \<le> weigh (of_strand s) (stacks sys ! j)"
    using running_weighs le_trans by blast+
  have "i = j" using weigh_two [of i "stacks sys" j "of_strand s"] one w assms(2,3) k(2) by (cases "i = j") auto
  moreover have "?r i \<le> 1"
    using running_weighs [of s "stacks sys ! i"] weigh_one [of i "stacks sys" "of_strand s"] one assms(2) k(2) by simp
  ultimately show ?thesis using on by simp
qed

lemma strand_mutual_exclusion_witness:
  "let st = [Code 7, Run_Ready 0] in
   (1 :: nat) = 1 \<and> length (filter (\<lambda>f. f = Run_Ready 0 \<or> f = Direct 0) st) = 1"
  unfolding Let_def using strand_mutual_exclusion [OF strand_example, of 1 1 0] by (simp add: running_in_def)

text \<open>
  C24: The handlers of a strand begin in the order in which they were accepted: those that have
  begun are the first of the accepted ones, and as long as the strand is not shut down the others are still in its queues.
\<close>

theorem strand_in_order:
  assumes "strand_run (idle threads n) tr sys" "s < n"
  shows "prefix (begun s tr) (accepted s tr) \<and>
    (\<not> was_shut_down (impl_of sys s) \<longrightarrow>
      mset (drop (length (begun s tr)) (accepted s tr)) =
      mset (ready_queue (impl_of sys s)) + pushing s sys + mset (waiting_queue (impl_of sys s)))"
  using run_ok [OF assms(1)] assms(2) by (auto simp: strand_ok_def Let_def)

lemma strand_in_order_witness:
  "let tr = [Accepted 0 7, Internal, Internal, Internal, Accepted 0 8, Began 0 7] in
   prefix (begun 0 tr) (accepted 0 tr) \<and> mset (drop (length (begun 0 tr)) (accepted 0 tr)) = {#8#}"
  unfolding Let_def using strand_in_order [OF strand_example, of 0]
  by (simp add: impl_of_def pushing_def total_def)

subsection \<open>Every handler is called\<close>

text \<open>The steps that call no operation of a strand: the handlers that were accepted run to their ends.\<close>

fun drains :: "strand_action \<Rightarrow> bool" where
  "drains Go = True"
| "drains Now = True"
| "drains (Take s) = True"
| "drains Throw = True"
| "drains Catch = True"
| "drains _ = False"

inductive drain_run :: "strands \<Rightarrow> strand_event list \<Rightarrow> strands \<Rightarrow> bool" where
  none: "drain_run sys [] sys"
| more: "drain_run sys es sys' \<Longrightarrow> drains a \<Longrightarrow> strand_step i a sys' = Some (e, sys'') \<Longrightarrow> drain_run sys (es @ [e]) sys''"

lemma play_drain:
  "play as sys' = Some (es, sys'') \<Longrightarrow> list_all (drains \<circ> snd) as \<Longrightarrow> drain_run sys tr sys' \<Longrightarrow> drain_run sys (tr @ es) sys''"
proof (induction as arbitrary: sys' es tr)
  case (Cons x as)
  obtain i a where x: "x = (i, a)" by fastforce
  obtain e sys1 es' where e: "strand_step i a sys' = Some (e, sys1)" "play as sys1 = Some (es', sys'')" "es = e # es'"
    using Cons.prems(1) x by (auto split: option.splits)
  from Cons.IH [OF e(2) _ drain_run.more [OF Cons.prems(3) _ e(1)]] e(3) x Cons.prems(2) show ?case by simp
qed simp

fun phase :: "nat \<Rightarrow> frame \<Rightarrow> nat" where
  "phase k (Code p) = 3"
| "phase k (Push_Ready s p how) = k + 5"
| "phase k (Submit s how) = 4"
| "phase k (Run_Ready s) = 10"
| "phase k (Direct s) = 10"
| "phase k (Leave s) = 5"
| "phase k Unwind = 1"

text \<open>A loop on top of the stack that has something to do has less before it than one that has to leave.\<close>

fun phases :: "nat \<Rightarrow> strand_impl list \<Rightarrow> frame list \<Rightarrow> nat" where
  "phases k xs (Run_Ready s # st) = (if ready_queue (xs ! s) \<noteq> [] then 1 else 6) + weigh (phase k) st"
| "phases k xs st = weigh (phase k) st"

definition handlers_left :: "strand_impl list \<Rightarrow> nat" where
  "handlers_left xs = sum_list (map (\<lambda>x. length (ready_queue x) + length (waiting_queue x)) xs)"

definition work :: "strands \<Rightarrow> nat" where
  "work sys = (let k = 20 + 10 * length (stacks sys) in
     k * handlers_left (impls sys) + sum_list (map (phases k (impls sys)) (stacks sys)) + 3 * size (pending sys))"

lemma phases_le: "phases k xs st \<le> weigh (phase k) st"
  by (cases "(k, xs, st)" rule: phases.cases) simp_all

lemma phases_change:
  "phases k xs' st \<le> phases k xs st + 5"
  "(\<And>s. ready_queue (xs ! s) \<noteq> [] \<Longrightarrow> ready_queue (xs' ! s) \<noteq> []) \<Longrightarrow> phases k xs' st \<le> phases k xs st"
  by (cases "(k, xs, st)" rule: phases.cases; simp)+

lemma phases_sum:
  "(\<And>st. phases k xs' st \<le> phases k xs st + d) \<Longrightarrow> i < length sts \<Longrightarrow>
   sum_list (map (phases k xs') (sts[i := new])) + phases k xs (sts ! i) \<le>
   sum_list (map (phases k xs) sts) + phases k xs' new + d * length sts"
proof (induction sts arbitrary: i)
  case (Cons st sts)
  have le: "sum_list (map (phases k xs') sts) \<le> sum_list (map (phases k xs) sts) + d * length sts" for sts
  proof (induction sts)
    case (Cons st sts)
    then show ?case using \<open>\<And>st. phases k xs' st \<le> phases k xs st + d\<close> [of st] by simp
  qed simp
  show ?case
  proof (cases i)
    case 0
    then show ?thesis using le [of sts] by simp
  next
    case (Suc j)
    then show ?thesis using Cons.IH [OF Cons.prems(1), of j] Cons.prems(1) [of st] Cons.prems(2) by simp
  qed
qed simp


lemma handlers_left_update:
  "s < length xs \<Longrightarrow> handlers_left (xs[s := x]) + length (ready_queue (xs ! s)) + length (waiting_queue (xs ! s)) =
    handlers_left xs + length (ready_queue x) + length (waiting_queue x)"
  using sum_list_replace [of s xs "\<lambda>x. length (ready_queue x) + length (waiting_queue x)" x] by (simp add: handlers_left_def)

lemma work_put_stack:
  assumes "i < length (stacks sys)" "stacks sys ! i = st" "k = 20 + 10 * length (stacks sys)"
    "phases k (impls sys) new + 3 * size P < phases k (impls sys) st + 3 * size (pending sys)"
  shows "work (sys\<lparr>stacks := (stacks sys)[i := new], pending := P\<rparr>) < work sys"
  using phases_sum [of k "impls sys" "impls sys" 0 i "stacks sys" new] assms by (simp add: work_def Let_def)

lemma work_put:
  assumes "i < length (stacks sys)" "stacks sys ! i = st" "k = 20 + 10 * length (stacks sys)"
    "\<And>st. phases k xs st \<le> phases k (impls sys) st + d"
    "k * handlers_left xs + phases k xs new + d * length (stacks sys) < k * handlers_left (impls sys) + phases k (impls sys) st"
  shows "work (sys\<lparr>stacks := (stacks sys)[i := new], impls := xs\<rparr>) < work sys"
  using phases_sum [of k xs "impls sys" d i "stacks sys" new] assms by (simp add: work_def Let_def)

lemma work_move:
  assumes "i < length (stacks sys)" "stacks sys ! i = old @ st" "weigh (phase k) new < weigh (phase k) old"
    "k = 20 + 10 * length (stacks sys)" "\<And>s st'. old @ st \<noteq> Run_Ready s # st'"
  shows "work (put_stack i (new @ st) sys) < work sys"
proof -
  have "phases k (impls sys) (old @ st) = weigh (phase k) (old @ st)"
    using assms(5) by (cases "(k, impls sys, old @ st)" rule: phases.cases) auto
  then show ?thesis using work_put_stack [OF assms(1,2,4), of "new @ st" "pending sys"] phases_le [of k "impls sys" "new @ st"] assms(3)
    by (simp add: put_stack_def)
qed

lemma go_decreases:
  assumes "i < length (stacks sys)" "names_ok sys" "go i (stacks sys ! i) sys = Some (e, sys')"
  shows "work sys' < work sys"
proof -
  define k where k: "k = 20 + 10 * length (stacks sys)"
  note names = frame_names [OF assms(2,1)] and move = work_move [OF assms(1) _ _ k]
  show ?thesis
  proof (cases "(i, stacks sys ! i, sys)" rule: go.cases)
    case (1 j s p how st sys2)
    then have st: "stacks sys ! i = Push_Ready s p how # st" by auto
    let ?xs = "(impls sys)[s := push_ready p (impl_of sys s)]"
    have s: "s < length (impls sys)" using names st by simp
    have h: "handlers_left ?xs = handlers_left (impls sys) + 1"
      using handlers_left_update [OF s, of "push_ready p (impl_of sys s)"] by (simp add: push_ready_def impl_of_def)
    have "phases k ?xs st' \<le> phases k (impls sys) st' + 0" for st'
      using s phases_change(2) [of "impls sys" ?xs k st'] by (auto simp: nth_list_update push_ready_def impl_of_def)
    from work_put [OF assms(1) st k this, of "Submit s how # st"] h show ?thesis
      using assms(3) st by (auto simp: put_strand_def)
  next
    case (2 j s how st sys2)
    then have st: "stacks sys ! i = Submit s how # st" by auto
    then show ?thesis using assms(3) work_put_stack [OF assms(1) st k, of st "add_mset s (pending sys)"] phases_le [of k "impls sys" st]
      by (auto simp: put_stack_def)
  next
    case (3 j s st sys2)
    then have st: "stacks sys ! i = Run_Ready s # st" by auto
    show ?thesis
    proof (cases "ready_queue (impl_of sys s)")
      case Nil
      then show ?thesis using assms(3) st work_put_stack [OF assms(1) st k, of "Leave s # st" "pending sys"]
        by (auto simp: put_stack_def impl_of_def)
    next
      case (Cons p ready)
      let ?xs = "(impls sys)[s := (impl_of sys s)\<lparr>ready_queue := ready\<rparr>]"
      have s: "s < length (impls sys)" using names st by simp
      have h: "handlers_left (impls sys) = handlers_left ?xs + 1"
        using handlers_left_update [OF s, of "(impl_of sys s)\<lparr>ready_queue := ready\<rparr>"] Cons by (simp add: impl_of_def)
      from work_put [OF assms(1) st k phases_change(1), of ?xs "Code p # Run_Ready s # st"] h Cons k show ?thesis
        using assms(3) st by (auto simp: put_strand_def impl_of_def)
    qed
  next
    case (4 j s st sys2)
    then have st: "stacks sys ! i = Direct s # st" by auto
    then show ?thesis using assms(3) move [of "[Direct s]" st "[Leave s]"] by auto
  next
    case (5 j s st sys2)
    then have st: "stacks sys ! i = Leave s # st" by auto
    obtain m x where x: "push_waiting_to_ready (impl_of sys s) = (m, x)" by fastforce
    let ?new = "if m then Submit s Post # st else st" and ?xs = "(impls sys)[s := x]"
    have s: "s < length (impls sys)" using names st by simp
    have h: "handlers_left ?xs = handlers_left (impls sys)"
      using handlers_left_update [OF s, of x] x by (auto simp: push_waiting_to_ready_def impl_of_def Let_def)
    have "phases k ?xs st' \<le> phases k (impls sys) st' + 0" for st'
      using s x phases_change(2) [of "impls sys" ?xs k st']
      by (auto simp: nth_list_update push_waiting_to_ready_def impl_of_def Let_def)
    from work_put [OF assms(1) st k this, of ?new] h phases_le [of k ?xs st] show ?thesis
      using assms(3) st x by (auto simp: put_strand_def split: if_splits)
  next
    case (6 j p st sys2)
    then have st: "stacks sys ! i = Code p # st" by auto
    then show ?thesis using assms(3) move [of "[Code p]" st "[]"] by auto
  next
    case (7 j p st sys2)
    then have st: "stacks sys ! i = Unwind # Code p # st" by auto
    then show ?thesis using assms(3) move [of "[Unwind, Code p]" st "[Unwind]"] by auto
  next
    case (8 j s st sys2)
    then have st: "stacks sys ! i = Unwind # Run_Ready s # st" by auto
    then show ?thesis using assms(3) move [of "[Unwind, Run_Ready s]" st "[Leave s, Unwind]"] by auto
  next
    case (9 j s st sys2)
    then have st: "stacks sys ! i = Unwind # Direct s # st" by auto
    then show ?thesis using assms(3) move [of "[Unwind, Direct s]" st "[Leave s, Unwind]"] by auto
  qed (use assms(3) in \<open>auto intro!: work_move [OF assms(1) _ _ k, where old = "[Unwind]" and new = "[]", simplified]\<close>)
qed


lemma on_the_way_ready:
  assumes "strand_ok s tr sys" "\<not> was_shut_down (impl_of sys s)" "0 < on_the_way s sys"
  shows "ready_queue (impls sys ! s) \<noteq> []"
  using assms by (simp add: strand_ok_def Let_def impl_of_def)

lemma drain_decreases:
  assumes "names_ok sys" "\<forall>s < length (impls sys). strand_ok s tr sys \<and> \<not> was_shut_down (impl_of sys s)"
    "drains a" "strand_step i a sys = Some (e, sys')"
  shows "work sys' < work sys"
proof -
  let ?st = "stacks sys ! i"
  define k where k: "k = 20 + 10 * length (stacks sys)"
  have i: "i < length (stacks sys)" using assms(4) by (simp add: strand_step_def split: if_splits)
  note s = assms(4) [unfolded strand_step_def, simplified i Let_def if_True]
  have ready: "ready_queue (impls sys ! s) \<noteq> []" if "0 < on_the_way s sys" for s
  proof -
    have "s < length (impls sys)"
    proof (rule ccontr)
      assume "\<not> s < length (impls sys)"
      then have "held s sys = 0" using assms(1) by (simp add: names_ok_def)
      then show False using pushing_held [of s sys] that by simp
    qed
    then show ?thesis using assms(2) on_the_way_ready that by blast
  qed
  show ?thesis
  proof (cases a)
    case Go
    then show ?thesis using s go_decreases [OF i assms(1)] by simp
  next
    case Now
    then obtain s' how st where st: "?st = Submit s' how # st" "sys' = put_stack i (Run_Ready s' # st) sys"
      using s by (auto split: list.splits frame.splits if_splits)
    have "0 < on_the_way s' sys"
      using weigh_one [OF i, of "submits s'"] st(1) by (simp add: on_the_way_def)
    from ready [OF this] show ?thesis
      using st work_put_stack [OF i st(1) k, of "Run_Ready s' # st" "pending sys"] by (simp add: put_stack_def)
  next
    case (Take s')
    then have t: "user_code ?st" "s' \<in># pending sys" "sys' = put_stack i (Run_Ready s' # ?st) sys\<lparr>pending := pending sys - {#s'#}\<rparr>"
      using s by (auto split: if_splits)
    have "0 < on_the_way s' sys" using t(2) by (simp add: on_the_way_def)
    note r = ready [OF this]
    have ph: "phases k (impls sys) ?st = weigh (phase k) ?st" using t(1) by (cases ?st rule: user_code.cases) simp_all
    have "size (pending sys - {#s'#}) + 1 = size (pending sys)" using t(2) by (metis Suc_eq_plus1 insert_DiffM size_add_mset)
    then show ?thesis
      using t(3) r ph work_put_stack [OF i refl k, of "Run_Ready s' # ?st" "pending sys - {#s'#}"] by (simp add: put_stack_def)
  next
    case Throw
    then obtain p st where "?st = [Code p] @ st" "sys' = put_stack i ([Unwind] @ st) sys"
      using s by (auto split: list.splits frame.splits)
    then show ?thesis using work_move [OF i, of "[Code p]" st k "[Unwind]"] k by simp
  next
    case Catch
    then obtain p st where "?st = [Unwind, Code p] @ st" "sys' = put_stack i ([Code p] @ st) sys"
      using s by (auto split: list.splits frame.splits)
    then show ?thesis using work_move [OF i, of "[Unwind, Code p]" st k "[Code p]"] k by simp
  qed (use assms(3) in simp_all)
qed

lemma effect_shut_down:
  assumes "effect i e sys sys'" "\<nexists>ps. e = Discarded ps" "s < length (impls sys)"
  shows "was_shut_down (impl_of sys' s) = was_shut_down (impl_of sys s)"
  using assms
  by (induction rule: effect.induct) (auto simp: impl_of_def nth_list_update push_ready_def push_waiting_to_ready_def Let_def)

lemma drain_no_discard: "drains a \<Longrightarrow> strand_step i a sys = Some (e, sys') \<Longrightarrow> \<nexists>ps. e = Discarded ps"
  by (cases a; cases "(i, stacks sys ! i, sys)" rule: go.cases)
    (auto simp: strand_step_def Let_def split: if_splits list.splits frame.splits prod.splits)

lemma drain_ok:
  assumes "drain_run sys es sys'" "strand_run (idle threads n) tr sys" "\<forall>s < n. \<not> was_shut_down (impl_of sys s)"
  shows "strand_run (idle threads n) (tr @ es) sys' \<and> (\<forall>s < n. \<not> was_shut_down (impl_of sys' s)) \<and> work sys' + length es \<le> work sys"
  using assms
proof (induction rule: drain_run.induct)
  case (more sys es sys' a i e sys'')
  then have r: "strand_run (idle threads n) (tr @ es) sys'" "\<forall>s < n. \<not> was_shut_down (impl_of sys' s)"
    "work sys' + length es \<le> work sys" by simp_all
  note ok = run_ok [OF r(1)]
  have e: "i < length (stacks sys')" "effect i e sys' sys''" using effect_step [OF _ more.hyps(3)] ok by simp_all
  have "\<forall>s < n. \<not> was_shut_down (impl_of sys'' s)"
    using effect_shut_down [OF e(2) drain_no_discard [OF more.hyps(2,3)]] r(2) ok by simp
  moreover have "work sys'' < work sys'"
    using drain_decreases [OF _ _ more.hyps(2,3), of "tr @ es"] ok r(2) by simp
  moreover have "strand_run (idle threads n) (tr @ es @ [e]) sys''" using strand_run.step [OF r(1) more.hyps(3)] by simp
  ultimately show ?case using r(3) by simp
qed simp

lemma drained:
  assumes "\<forall>i a e sys'. drains a \<longrightarrow> strand_step i a sys \<noteq> Some (e, sys')" "0 < length (stacks sys)"
  shows "list_all (\<lambda>st. st = []) (stacks sys)" "pending sys = {#}"
proof -
  have empty: "stacks sys ! i = []" if i: "i < length (stacks sys)" for i
  proof (rule ccontr)
    assume "stacks sys ! i \<noteq> []"
    then have "go i (stacks sys ! i) sys \<noteq> None"
      by (cases "(i, stacks sys ! i, sys)" rule: go.cases) (auto split: list.splits prod.splits)
    then have "strand_step i Go sys \<noteq> None" using i by (simp add: strand_step_def)
    then show False using assms(1) by force
  qed
  then show "list_all (\<lambda>st. st = []) (stacks sys)" by (simp add: list_all_length)
  show "pending sys = {#}"
  proof (rule ccontr)
    assume "pending sys \<noteq> {#}"
    then obtain s where "s \<in># pending sys" by blast
    then have "strand_step 0 (Take s) sys \<noteq> None" using empty assms(2) by (simp add: strand_step_def)
    then show False using assms(1) by force
  qed
qed

text \<open>
  C25: No handler is forgotten: from every state of every schedule, the steps of the threads that post nothing
  new come to an end, and whatever their order, when none is left every handler that a strand has accepted has begun and no strand
  is locked.
\<close>

theorem strand_runs_everything:
  assumes "strand_run (idle threads n) tr sys" "0 < threads" "\<forall>s < n. \<not> was_shut_down (impl_of sys s)" "drain_run sys es sys'"
  shows "length es \<le> work sys \<and>
    ((\<forall>i a e sys''. drains a \<longrightarrow> strand_step i a sys' \<noteq> Some (e, sys'')) \<longrightarrow>
     (\<forall>s < n. begun s (tr @ es) = accepted s (tr @ es) \<and> \<not> locked (impl_of sys' s)))"
proof -
  note d = drain_ok [OF assms(4,1,3)]
  then have ok: "length (stacks sys') = threads" "\<forall>s < n. strand_ok s (tr @ es) sys'"
    using run_ok [of threads n "tr @ es" sys'] by simp_all
  have "begun s (tr @ es) = accepted s (tr @ es) \<and> \<not> locked (impl_of sys' s)"
    if e: "\<forall>i a e sys''. drains a \<longrightarrow> strand_step i a sys' \<noteq> Some (e, sys'')" and s: "s < n" for s
  proof -
    note t = drained [OF e, unfolded ok(1), OF assms(2)]
    have "held s sys' = 0" "pushing s sys' = {#}"
      using total_idle [OF t(1), of "of_strand s"] total_idle [OF t(1), of "pushes s"] t(2) by (simp_all add: held_def pushing_def)
    then show ?thesis using ok(2) s d by (auto simp: strand_ok_def Let_def)
  qed
  then show ?thesis using d by simp
qed

lemma strand_runs_everything_witness:
  "let tr = [Accepted 0 7, Internal, Internal, Internal, Accepted 0 8, Began 0 7];
       es = [Internal, Internal, Internal, Internal, Internal, Began 0 8, Internal, Internal, Internal]
   in begun 0 (tr @ es) = accepted 0 (tr @ es)"
proof -
  let ?sys = "\<lparr>impls = [\<lparr>locked = True, was_shut_down = False, waiting_queue = [8], ready_queue = []\<rparr>],
      stacks = [[], [Code 7, Run_Ready 0]], pending = {#}\<rparr>"
  let ?final = "\<lparr>impls = [\<lparr>locked = False, was_shut_down = False, waiting_queue = [], ready_queue = []\<rparr>],
      stacks = [[], []], pending = {#}\<rparr>"
  let ?es = "[Internal, Internal, Internal, Internal, Internal, Began 0 8, Internal, Internal, Internal]"
  have "play [(1, Go), (1, Go), (1, Go), (1, Go), (0, Take 0), (0, Go), (0, Go), (0, Go), (0, Go)] ?sys = Some (?es, ?final)"
    by (simp add: strand_step_def impl_of_def put_strand_def put_stack_def push_waiting_to_ready_def Let_def)
  then have "drain_run ?sys ([] @ ?es) ?final" by (rule play_drain) (simp_all add: drain_run.none)
  then have d: "drain_run ?sys ?es ?final" by simp
  have "strand_step i a ?final \<noteq> Some (e, sys')" if "drains a" for i a e sys'
    using that by (cases a) (auto simp: strand_step_def less_Suc_eq)
  then show ?thesis
    using strand_runs_everything [OF strand_example _ _ d] unfolding Let_def by (simp add: impl_of_def)
qed

end
