(* ===== verification/Scheduler.thy ===== *)
theory Scheduler
  imports Prelude "HOL-Library.Multiset"
begin

text \<open>
  The scheduler of an \<open>io_context\<close> or a thread pool: \<open>detail/impl/scheduler.ipp\<close>, with the event its threads sleep on
  (\<open>detail/posix_event.hpp\<close>).  Threads call \<open>run\<close>, \<open>run_one\<close>, \<open>poll\<close>, \<open>poll_one\<close> and \<open>wait_one\<close>; the operations they
  execute post others.  A step is a section of the code that holds the mutex, an access to the atomic count
  of work, a signal, or a piece of code between them.  The task (the reactor) is the nondeterministic choice of
  the operations that complete.
\<close>

type_synonym operation = nat

subsection \<open>The event\<close>

text \<open>Bit 0 of \<open>state_\<close> says that the event is signalled, the rest counts the waiters twice.\<close>

definition set_signalled :: "nat \<Rightarrow> nat" where "set_signalled e = or e 1"

definition clear_event :: "nat \<Rightarrow> nat" where "clear_event e = unset_bit 0 e"

definition is_signalled :: "nat \<Rightarrow> bool" where "is_signalled e \<longleftrightarrow> and e 1 \<noteq> 0"

text \<open>Whether the condition variable is signalled, once the mutex is free.\<close>

definition unlock_and_signal_one :: "nat \<Rightarrow> bool \<times> nat" where
  "unlock_and_signal_one e = (let e = set_signalled e in (e > 1, e))"

text \<open>The result also says whether the mutex is free.\<close>

definition maybe_unlock_and_signal_one :: "nat \<Rightarrow> bool \<times> nat" where
  "maybe_unlock_and_signal_one e = (let e = set_signalled e in if e > 1 then (True, e) else (False, e))"

definition begin_wait :: "nat \<Rightarrow> nat" where "begin_wait e = e + 2"

definition end_wait :: "nat \<Rightarrow> nat" where "end_wait e = e - 2"

subsection \<open>The scheduler\<close>

text \<open>\<open>task_operation_\<close> is an entry of the queue that stands for the task.\<close>

datatype queue_entry = Task | Op operation

record scheduler =
  one_thread :: bool
  has_task :: bool
  task_interrupted :: bool
  outstanding_work :: int
  run_queue :: "queue_entry list"
  stopped :: bool
  is_shutdown :: bool
  event_state :: nat

definition new_scheduler :: "bool \<Rightarrow> scheduler" where
  "new_scheduler one =
     \<lparr>one_thread = one, has_task = False, task_interrupted = True, outstanding_work = 0, run_queue = [],
      stopped = False, is_shutdown = False, event_state = 0\<rparr>"

text \<open>What a section does besides changing the scheduler: it may have to signal one thread, or it wakes all.\<close>

datatype wake = Nobody | One | Everyone

definition interrupt_task :: "scheduler \<Rightarrow> scheduler" where
  "interrupt_task s = (if \<not> task_interrupted s \<and> has_task s then s\<lparr>task_interrupted := True\<rparr> else s)"

definition wake_one_thread_and_unlock :: "scheduler \<Rightarrow> wake \<times> scheduler" where
  "wake_one_thread_and_unlock s =
     (case maybe_unlock_and_signal_one (event_state s) of (b, e) \<Rightarrow>
        if b then (One, s\<lparr>event_state := e\<rparr>) else (Nobody, interrupt_task (s\<lparr>event_state := e\<rparr>)))"

definition stop_all_threads :: "scheduler \<Rightarrow> scheduler" where
  "stop_all_threads s = interrupt_task (s\<lparr>stopped := True, event_state := set_signalled (event_state s)\<rparr>)"

definition init_task :: "scheduler \<Rightarrow> wake \<times> scheduler" where
  "init_task s =
     (if \<not> is_shutdown s \<and> \<not> has_task s
      then wake_one_thread_and_unlock (s\<lparr>has_task := True, run_queue := run_queue s @ [Task]\<rparr>)
      else (Nobody, s))"

definition restart :: "scheduler \<Rightarrow> scheduler" where "restart s = s\<lparr>stopped := False\<rparr>"

text \<open>\<open>work_finished\<close> stops the scheduler when the count is zero.\<close>

definition work_started :: "nat \<Rightarrow> scheduler \<Rightarrow> scheduler" where
  "work_started n s = s\<lparr>outstanding_work := outstanding_work s + int n\<rparr>"

definition work_finished :: "scheduler \<Rightarrow> bool \<times> scheduler" where
  "work_finished s = (let w = outstanding_work s - 1 in (w = 0, s\<lparr>outstanding_work := w\<rparr>))"

text \<open>The section that makes operations available to all threads.\<close>

definition push_shared :: "operation list \<Rightarrow> scheduler \<Rightarrow> wake \<times> scheduler" where
  "push_shared ps s = wake_one_thread_and_unlock (s\<lparr>run_queue := run_queue s @ map Op ps\<rparr>)"

text \<open>The operations that \<open>shutdown\<close> destroys; its threads have been joined.\<close>

definition shutdown :: "scheduler \<Rightarrow> operation list \<times> scheduler" where
  "shutdown s =
     (concat (map (\<lambda>x. case x of Task \<Rightarrow> [] | Op p \<Rightarrow> [p]) (run_queue s)),
      s\<lparr>is_shutdown := True, run_queue := [], has_task := False\<rparr>)"

subsection \<open>Taking the next entry\<close>

text \<open>What a thread does after the section: return 0, run the task (which returns by itself if it may not block), run an operation, sleep.\<close>

datatype todo = Return_Zero | Run_Task bool | Run_Op operation | Sleep

definition run_op :: "operation \<Rightarrow> queue_entry list \<Rightarrow> scheduler \<Rightarrow> todo \<times> wake \<times> scheduler" where
  "run_op p q s =
     (let s = s\<lparr>run_queue := q\<rparr>; more_handlers = (q \<noteq> []) in
      if more_handlers \<and> \<not> one_thread s then (case wake_one_thread_and_unlock s of (w, s) \<Rightarrow> (Run_Op p, w, s))
      else (Run_Op p, Nobody, s))"

text \<open>\<open>poll\<close> is whether the task may not block even when there is nothing else to do.\<close>

definition run_task :: "bool \<Rightarrow> queue_entry list \<Rightarrow> scheduler \<Rightarrow> todo \<times> wake \<times> scheduler" where
  "run_task poll q s =
     (let more_handlers = (q \<noteq> []); s = s\<lparr>run_queue := q, task_interrupted := more_handlers\<rparr> in
      if more_handlers \<and> \<not> one_thread s then
        (case unlock_and_signal_one (event_state s) of (b, e) \<Rightarrow>
           (Run_Task (more_handlers \<or> poll), if b then One else Nobody, s\<lparr>event_state := e\<rparr>))
      else (Run_Task (more_handlers \<or> poll), Nobody, s))"

definition do_run_one :: "scheduler \<Rightarrow> todo \<times> wake \<times> scheduler" where
  "do_run_one s =
     (if stopped s then (Return_Zero, Nobody, s)
      else case run_queue s of
        Task # q \<Rightarrow> run_task False q s
      | Op p # q \<Rightarrow> run_op p q s
      | [] \<Rightarrow> (Sleep, Nobody, s\<lparr>event_state := begin_wait (clear_event (event_state s))\<rparr>))"

text \<open>\<open>do_wait_one\<close>: up to the wait, after the wait, after the task.  A task with a time limit returns by itself.\<close>

definition wait_front :: "scheduler \<Rightarrow> todo \<times> wake \<times> scheduler" where
  "wait_front s =
     (case run_queue s of
        Task # q \<Rightarrow> run_task True q s
      | Op p # q \<Rightarrow> run_op p q s
      | [] \<Rightarrow> (Return_Zero, Nobody, s))"

definition do_wait_one :: "scheduler \<Rightarrow> todo \<times> wake \<times> scheduler" where
  "do_wait_one s =
     (if stopped s then (Return_Zero, Nobody, s)
      else if run_queue s = [] then (Sleep, Nobody, s\<lparr>event_state := begin_wait (clear_event (event_state s))\<rparr>)
      else wait_front s)"

definition signal_another :: "scheduler \<Rightarrow> todo \<times> wake \<times> scheduler" where
  "signal_another s =
     (case maybe_unlock_and_signal_one (event_state s) of (b, e) \<Rightarrow>
        (Return_Zero, if b then One else Nobody, s\<lparr>event_state := e\<rparr>))"

definition wait_after_task :: "scheduler \<Rightarrow> todo \<times> wake \<times> scheduler" where
  "wait_after_task s =
     (case run_queue s of
        Task # q \<Rightarrow> if one_thread s then (Return_Zero, Nobody, s) else signal_another s
      | Op p # q \<Rightarrow> run_op p q s
      | [] \<Rightarrow> (Return_Zero, Nobody, s))"

definition do_poll_one :: "scheduler \<Rightarrow> todo \<times> wake \<times> scheduler" where
  "do_poll_one s =
     (if stopped s then (Return_Zero, Nobody, s)
      else case run_queue s of
        Task # q \<Rightarrow> (Run_Task True, Nobody, s\<lparr>run_queue := q\<rparr>)
      | Op p # q \<Rightarrow> run_op p q s
      | [] \<Rightarrow> (Return_Zero, Nobody, s))"

definition poll_after_task :: "scheduler \<Rightarrow> todo \<times> wake \<times> scheduler" where
  "poll_after_task s =
     (case run_queue s of
        Task # q \<Rightarrow> signal_another s
      | Op p # q \<Rightarrow> run_op p q s
      | [] \<Rightarrow> (Return_Zero, Nobody, s))"

subsection \<open>Threads\<close>

datatype mode = Run | Run_One | Poll | Poll_One | Wait_One

text \<open>
  Where a thread is: outside the scheduler; about to lock the mutex at the top of \<open>do_..._one\<close>; asleep; woken, but
  without the mutex; in the task; before \<open>task_cleanup\<close>; in the code of an operation; before \<open>work_cleanup\<close>;
  before the second part of it.  The others go on afterwards: about to lock the mutex in \<open>stop\<close>, to push operations,
  to signal the condition variable.
\<close>

datatype pc =
    Outside
  | Locking
  | Asleep
  | Woken
  | Tasking bool
  | Task_Done
  | Running operation
  | Finished
  | Pushing
  | Stopping pc
  | Posting "operation list" pc
  | Signalling pc

record thread =
  at :: pc
  mode_of :: mode
  unwinding :: bool
  private_queue :: "operation list"
  private_work :: int

text \<open>What is shared; \<open>in_flight\<close> are the asynchronous operations that have begun, \<open>guards\<close> counts the work guards.\<close>

record world =
  sched :: scheduler
  in_flight :: "operation multiset"
  guards :: nat

definition new_thread :: thread where
  "new_thread = \<lparr>at = Outside, mode_of = Run, unwinding = False, private_queue = [], private_work = 0\<rparr>"

definition in_user_code :: "pc \<Rightarrow> bool" where
  "in_user_code c \<longleftrightarrow> (case c of Outside \<Rightarrow> True | Running p \<Rightarrow> True | _ \<Rightarrow> False)"

text \<open>\<open>can_dispatch\<close>: the scheduler is on the call stack of the thread.\<close>

definition can_dispatch :: "pc \<Rightarrow> bool" where "can_dispatch c \<longleftrightarrow> c \<noteq> Outside"

text \<open>\<open>run\<close> and \<open>poll\<close> go on after an operation, unless it has thrown.\<close>

definition goes_on :: "thread \<Rightarrow> bool" where
  "goes_on t \<longleftrightarrow> (mode_of t = Run \<or> mode_of t = Poll) \<and> \<not> unwinding t"

definition then_signal :: "wake \<Rightarrow> pc \<Rightarrow> pc" where
  "then_signal w c = (if w = One then Signalling c else c)"

definition act_on :: "todo \<times> wake \<times> scheduler \<Rightarrow> thread \<Rightarrow> world \<Rightarrow> thread \<times> world" where
  "act_on r t x =
     (case r of (d, w, s) \<Rightarrow>
        (t\<lparr>at := then_signal w (case d of
             Return_Zero \<Rightarrow> Outside | Run_Task b \<Rightarrow> Tasking b | Run_Op p \<Rightarrow> Running p | Sleep \<Rightarrow> Asleep)\<rparr>,
         x\<lparr>sched := s\<rparr>))"

definition first_section :: "mode \<Rightarrow> scheduler \<Rightarrow> todo \<times> wake \<times> scheduler" where
  "first_section m s =
     (case m of Run \<Rightarrow> do_run_one s | Run_One \<Rightarrow> do_run_one s | Poll \<Rightarrow> do_poll_one s | Poll_One \<Rightarrow> do_poll_one s
      | Wait_One \<Rightarrow> do_wait_one s)"

definition section_after_task :: "mode \<Rightarrow> scheduler \<Rightarrow> todo \<times> wake \<times> scheduler" where
  "section_after_task m s =
     (case m of Run \<Rightarrow> do_run_one s | Run_One \<Rightarrow> do_run_one s | Poll \<Rightarrow> poll_after_task s | Poll_One \<Rightarrow> poll_after_task s
      | Wait_One \<Rightarrow> wait_after_task s)"

text \<open>The rest of \<open>wait\<close>, or of \<open>wait_for_usec\<close>, which does not look at the event again.\<close>

definition section_after_wait :: "mode \<Rightarrow> scheduler \<Rightarrow> todo \<times> wake \<times> scheduler" where
  "section_after_wait m s =
     (let s = s\<lparr>event_state := end_wait (event_state s)\<rparr> in
      if m = Wait_One then wait_front s
      else if is_signalled (event_state s) then do_run_one s
      else (Sleep, Nobody, s\<lparr>event_state := begin_wait (event_state s)\<rparr>))"

text \<open>\<open>task_cleanup\<close>, up to the section it opens.\<close>

definition task_cleanup :: "thread \<Rightarrow> world \<Rightarrow> thread \<times> world" where
  "task_cleanup t x =
     (let s = sched x;
          s = (if private_work t > 0 then s\<lparr>outstanding_work := outstanding_work s + private_work t\<rparr> else s);
          s = s\<lparr>task_interrupted := True, run_queue := run_queue s @ map Op (private_queue t) @ [Task]\<rparr>
      in (t\<lparr>private_work := 0, private_queue := []\<rparr>, x\<lparr>sched := s\<rparr>))"

text \<open>The first part of \<open>work_cleanup\<close>: the count; \<open>True\<close> if it is zero.\<close>

definition settle_work :: "thread \<Rightarrow> world \<Rightarrow> bool \<times> thread \<times> world" where
  "settle_work t x =
     (let s = sched x;
          (zero, s) = (if private_work t > 1 then (False, s\<lparr>outstanding_work := outstanding_work s + (private_work t - 1)\<rparr>)
             else if private_work t < 1 then work_finished s else (False, s))
      in (zero, t\<lparr>private_work := 0\<rparr>, x\<lparr>sched := s\<rparr>))"

subsection \<open>Steps\<close>

datatype sched_event =
    Posted "operation list" | Began operation | Ran_Out | Abandoned "operation list" | Silent

text \<open>
  The choices: what code outside and operations do, what the task returns, when a sleeping thread wakes by itself (or because its
  time is up), which thread a signal wakes.
\<close>

datatype sched_action =
    Enter mode
  | Post bool "operation list"
  | Start operation
  | Deliver "operation list"
  | Guard_On
  | Guard_Off
  | Stop
  | Init_Task
  | Return_Task "operation list"
  | Finish bool
  | Wake_Up
  | Signal nat
  | Go

text \<open>A call of \<open>post_immediate_completion(s)\<close> or \<open>do_dispatch\<close>.\<close>

definition post_immediate_completions :: "bool \<Rightarrow> operation list \<Rightarrow> thread \<Rightarrow> world \<Rightarrow> thread \<times> world" where
  "post_immediate_completions is_continuation ps t x =
     (if (one_thread (sched x) \<or> is_continuation) \<and> can_dispatch (at t)
      then (t\<lparr>private_work := private_work t + int (length ps), private_queue := private_queue t @ ps\<rparr>, x)
      else (t\<lparr>at := Posting ps (at t)\<rparr>, x\<lparr>sched := work_started (length ps) (sched x)\<rparr>))"

text \<open>Operations that complete outside the task have been counted when they began.\<close>

definition post_deferred_completions :: "operation list \<Rightarrow> thread \<Rightarrow> world \<Rightarrow> thread \<times> world" where
  "post_deferred_completions ps t x =
     (if ps = [] then (t, x)
      else if one_thread (sched x) \<and> can_dispatch (at t) then (t\<lparr>private_queue := private_queue t @ ps\<rparr>, x)
      else (t\<lparr>at := Posting ps (at t)\<rparr>, x))"

text \<open>\<open>run\<close> and its like, up to the loop: when there is no work, the scheduler is stopped.\<close>

definition enter :: "mode \<Rightarrow> thread \<Rightarrow> world \<Rightarrow> sched_event \<times> thread" where
  "enter m t x =
     (let t = t\<lparr>mode_of := m, unwinding := False\<rparr> in
      if outstanding_work (sched x) = 0 then (Ran_Out, t\<lparr>at := Stopping Outside\<rparr>)
      else (Silent, t\<lparr>at := Locking\<rparr>))"

text \<open>The second part of \<open>work_cleanup\<close>, and the next round of the loop if there is one.\<close>

definition push_private :: "world \<Rightarrow> thread \<Rightarrow> world" where
  "push_private x t = x\<lparr>sched := (sched x)\<lparr>run_queue := run_queue (sched x) @ map Op (private_queue t)\<rparr>\<rparr>"

text \<open>What the code calls.\<close>

definition call_step :: "sched_action \<Rightarrow> thread \<Rightarrow> world \<Rightarrow> (sched_event \<times> wake \<times> thread \<times> world) option" where
  "call_step a t x =
     (case a of
        Enter m \<Rightarrow>
          if at t = Outside then (case enter m t x of (e, t) \<Rightarrow> Some (e, Nobody, t, x)) else None
      | Post is_continuation ps \<Rightarrow>
          (case post_immediate_completions is_continuation ps t x of (t, x) \<Rightarrow> Some (Posted ps, Nobody, t, x))
      | Start p \<Rightarrow>
          Some (Posted [p], Nobody, t, x\<lparr>sched := work_started 1 (sched x), in_flight := add_mset p (in_flight x)\<rparr>)
      | Deliver ps \<Rightarrow>
          if mset ps \<subseteq># in_flight x then
            (case post_deferred_completions ps t (x\<lparr>in_flight := in_flight x - mset ps\<rparr>) of (t, x) \<Rightarrow>
               Some (Silent, Nobody, t, x))
          else None
      | Guard_On \<Rightarrow> Some (Silent, Nobody, t, x\<lparr>sched := work_started 1 (sched x), guards := guards x + 1\<rparr>)
      | Guard_Off \<Rightarrow>
          if guards x > 0 then
            (case work_finished (sched x) of (zero, s) \<Rightarrow>
               Some (if zero then Ran_Out else Silent, Nobody, if zero then t\<lparr>at := Stopping (at t)\<rparr> else t,
                 x\<lparr>sched := s, guards := guards x - 1\<rparr>))
          else None
      | Stop \<Rightarrow> Some (Silent, Nobody, t\<lparr>at := Stopping (at t)\<rparr>, x)
      | Init_Task \<Rightarrow>
          (case init_task (sched x) of (w, s) \<Rightarrow> Some (Silent, Nobody, t\<lparr>at := then_signal w (at t)\<rparr>, x\<lparr>sched := s\<rparr>))
      | _ \<Rightarrow> None)"

text \<open>What a thread does by itself.\<close>

definition go_step :: "thread \<Rightarrow> world \<Rightarrow> (sched_event \<times> wake \<times> thread \<times> world) option" where
  "go_step t x =
     (let result = (\<lambda>(t', x'). Some (case at t' of Running p \<Rightarrow> Began p | Signalling (Running p) \<Rightarrow> Began p | _ \<Rightarrow> Silent, Nobody, t', x')) in
      case at t of
        Locking \<Rightarrow> result (act_on (first_section (mode_of t) (sched x)) t x)
      | Woken \<Rightarrow> result (act_on (section_after_wait (mode_of t) (sched x)) t x)
      | Task_Done \<Rightarrow>
          (case task_cleanup t x of (t, x) \<Rightarrow> result (act_on (section_after_task (mode_of t) (sched x)) t x))
      | Finished \<Rightarrow>
          (case settle_work t x of (zero, t, x) \<Rightarrow>
             Some (if zero then Ran_Out else Silent, Nobody, t\<lparr>at := if zero then Stopping Pushing else Pushing\<rparr>, x))
      | Pushing \<Rightarrow>
          if private_queue t = [] then Some (Silent, Nobody, t\<lparr>at := if goes_on t then Locking else Outside\<rparr>, x)
          else
            let x = push_private x t in
            if goes_on t then result (act_on (first_section (mode_of t) (sched x)) (t\<lparr>private_queue := []\<rparr>) x)
            else Some (Abandoned (private_queue t), Nobody, t\<lparr>at := Outside, private_queue := []\<rparr>, x)
      | Stopping c \<Rightarrow> Some (Silent, Everyone, t\<lparr>at := c\<rparr>, x\<lparr>sched := stop_all_threads (sched x)\<rparr>)
      | Posting ps c \<Rightarrow>
          (case push_shared ps (sched x) of (w, s) \<Rightarrow> Some (Silent, Nobody, t\<lparr>at := then_signal w c\<rparr>, x\<lparr>sched := s\<rparr>))
      | _ \<Rightarrow> None)"

definition thread_step :: "sched_action \<Rightarrow> thread \<Rightarrow> world \<Rightarrow> (sched_event \<times> wake \<times> thread \<times> world) option" where
  "thread_step a t x =
     (case a of
        Return_Task ps \<Rightarrow>
          (case at t of
             Tasking returns \<Rightarrow>
               if mset ps \<subseteq># in_flight x \<and> (ps \<noteq> [] \<or> returns \<or> task_interrupted (sched x)) then
                 Some (Silent, Nobody, t\<lparr>at := Task_Done, private_queue := private_queue t @ ps\<rparr>,
                   x\<lparr>in_flight := in_flight x - mset ps\<rparr>)
               else None
           | _ \<Rightarrow> None)
      | Finish throws \<Rightarrow>
          (case at t of
             Running p \<Rightarrow> Some (Silent, Nobody, t\<lparr>at := Finished, unwinding := throws\<rparr>, x)
           | _ \<Rightarrow> None)
      | Wake_Up \<Rightarrow> if at t = Asleep then Some (Silent, Nobody, t\<lparr>at := Woken\<rparr>, x) else None
      | Signal j \<Rightarrow> (case at t of Signalling c \<Rightarrow> Some (Silent, One, t\<lparr>at := c\<rparr>, x) | _ \<Rightarrow> None)
      | Go \<Rightarrow> go_step t x
      | _ \<Rightarrow> if in_user_code (at t) then call_step a t x else None)"

text \<open>A signal wakes one of the sleeping threads, if there is one.\<close>

definition waken :: "thread \<Rightarrow> thread" where
  "waken t = (if at t = Asleep then t\<lparr>at := Woken\<rparr> else t)"

definition wake_up :: "wake \<Rightarrow> nat \<Rightarrow> thread list \<Rightarrow> thread list option" where
  "wake_up w j ts =
     (case w of
        Nobody \<Rightarrow> Some ts
      | Everyone \<Rightarrow> Some (map waken ts)
      | One \<Rightarrow>
          if j < length ts \<and> at (ts ! j) = Asleep then Some (ts[j := waken (ts ! j)])
          else if list_ex (\<lambda>t. at t = Asleep) ts then None
          else Some ts)"

definition sched_step :: "nat \<Rightarrow> sched_action \<Rightarrow> thread list \<times> world \<Rightarrow> (sched_event \<times> thread list \<times> world) option" where
  "sched_step i a sys =
     (case sys of (ts, x) \<Rightarrow>
        if i < length ts then
          (case thread_step a (ts ! i) x of
             None \<Rightarrow> None
           | Some (e, w, t, x) \<Rightarrow>
               map_option (\<lambda>ts. (e, ts, x)) (wake_up w (case a of Signal j \<Rightarrow> j | _ \<Rightarrow> 0) (ts[i := t])))
        else None)"

definition initial :: "bool \<Rightarrow> nat \<Rightarrow> thread list \<times> world" where
  "initial one n = (replicate n new_thread, \<lparr>sched = new_scheduler one, in_flight = {#}, guards = 0\<rparr>)"

inductive sched_run :: "thread list \<times> world \<Rightarrow> sched_event list \<Rightarrow> thread list \<times> world \<Rightarrow> bool" where
  start: "sched_run sys [] sys"
| step: "sched_run sys tr sys' \<Longrightarrow> sched_step i a sys' = Some (e, sys'') \<Longrightarrow> sched_run sys (tr @ [e]) sys''"

fun follow :: "(nat \<times> sched_action) list \<Rightarrow> thread list \<times> world \<Rightarrow> (sched_event list \<times> thread list \<times> world) option" where
  "follow [] sys = Some ([], sys)"
| "follow ((i, a) # as) sys =
     (case sched_step i a sys of
        None \<Rightarrow> None
      | Some (e, sys) \<Rightarrow> map_option (\<lambda>(es, sys). (e # es, sys)) (follow as sys))"

lemma follow_run: "follow as sys' = Some (es, sys'') \<Longrightarrow> sched_run sys tr sys' \<Longrightarrow> sched_run sys (tr @ es) sys''"
proof (induction as arbitrary: sys' es tr)
  case (Cons x as)
  obtain i a where x: "x = (i, a)" by fastforce
  obtain e sys1 es' where e: "sched_step i a sys' = Some (e, sys1)" "follow as sys1 = Some (es', sys'')" "es = e # es'"
    using Cons.prems(1) x by (auto split: option.splits)
  from Cons.IH [OF e(2) sched_run.step [OF Cons.prems(2) e(1)]] e(3) show ?case by simp
qed simp

end
