(* ===== verification/Scheduler_Properties.thy ===== *)
theory Scheduler_Properties
  imports Scheduler
begin

text \<open>
  What holds in every schedule of any number of threads: the count of work is right, so the scheduler stops by itself only when
  everything has been executed; \<open>stop\<close> reaches every thread; and no thread sleeps while there is work in the
  queue, except after a call that returns with operations in its private queue.
\<close>

subsection \<open>The sections\<close>

definition ops :: "queue_entry list \<Rightarrow> operation multiset" where
  "ops q = mset (concat (map (\<lambda>x. case x of Task \<Rightarrow> [] | Op p \<Rightarrow> [p]) q))"

lemma ops_simps [simp]:
  "ops [] = {#}" "ops (Task # q) = ops q" "ops (Op p # q) = add_mset p (ops q)" "ops (q @ r) = ops q + ops r"
  "ops (map Op ps) = mset ps"
  by (induction ps) (simp_all add: ops_def)

definition taken :: "todo \<Rightarrow> operation multiset" where
  "taken d = (case d of Run_Op p \<Rightarrow> {#p#} | _ \<Rightarrow> {#})"

lemma taken_simps [simp]:
  "taken (Run_Op p) = {#p#}" "taken Return_Zero = {#}" "taken (Run_Task b) = {#}" "taken Sleep = {#}"
  by (simp_all add: taken_def)

lemmas section_defs = do_run_one_def do_wait_one_def wait_front_def wait_after_task_def do_poll_one_def poll_after_task_def
  signal_another_def run_op_def run_task_def wake_one_thread_and_unlock_def maybe_unlock_and_signal_one_def
  unlock_and_signal_one_def interrupt_task_def Let_def

text \<open>What every section leaves alone.\<close>

definition takes_one :: "scheduler \<Rightarrow> todo \<times> wake \<times> scheduler \<Rightarrow> bool" where
  "takes_one s r \<longleftrightarrow> (case r of (d, w, s') \<Rightarrow>
     outstanding_work s' = outstanding_work s \<and> stopped s' = stopped s \<and> one_thread s' = one_thread s \<and>
     ops (run_queue s) = ops (run_queue s') + taken d \<and> w \<noteq> Everyone)"

lemma takes_one_run: "takes_one s (do_run_one s)"
  by (auto simp: takes_one_def section_defs split: list.splits queue_entry.splits)

lemma takes_one_wait: "takes_one s (wait_front s)" "takes_one s (wait_after_task s)" "takes_one s (do_wait_one s)"
  by (auto simp: takes_one_def section_defs split: list.splits queue_entry.splits)

lemma takes_one_poll: "takes_one s (do_poll_one s)" "takes_one s (poll_after_task s)"
  by (auto simp: takes_one_def section_defs split: list.splits queue_entry.splits)

lemma takes_one_section: "takes_one s (first_section m s)" "takes_one s (section_after_task m s)"
  by (cases m; simp add: first_section_def section_after_task_def takes_one_run takes_one_wait takes_one_poll)+

lemma takes_one_after_wait: "takes_one s (section_after_wait m s)"
proof -
  have e: "takes_one (s\<lparr>event_state := e\<rparr>) r \<Longrightarrow> takes_one s r" for e r by (simp add: takes_one_def split: prod.splits)
  let ?s = "s\<lparr>event_state := end_wait (event_state s)\<rparr>"
  have "takes_one ?s (section_after_wait m s)"
  proof (cases "m = Wait_One")
    case False
    then show ?thesis using takes_one_run [of ?s]
      by (cases "is_signalled (end_wait (event_state s))") (simp_all add: section_after_wait_def Let_def, simp add: takes_one_def)
  qed (use takes_one_wait(1) [of ?s] in \<open>simp add: section_after_wait_def\<close>)
  then show ?thesis by (rule e)
qed

subsection \<open>The count of work\<close>

text \<open>What a thread has in hand: the operation it runs and those it is about to push.\<close>

fun weight :: "pc \<Rightarrow> nat" where
  "weight (Running p) = 1"
| "weight Finished = 1"
| "weight (Posting ps c) = length ps + weight c"
| "weight (Stopping c) = weight c"
| "weight (Signalling c) = weight c"
| "weight _ = 0"

fun in_hand :: "pc \<Rightarrow> operation multiset" where
  "in_hand (Posting ps c) = mset ps + in_hand c"
| "in_hand (Stopping c) = in_hand c"
| "in_hand (Signalling c) = in_hand c"
| "in_hand _ = {#}"

text \<open>An operation of the thread has not ended yet.\<close>

fun inside :: "pc \<Rightarrow> bool" where
  "inside (Running p) = True"
| "inside Finished = True"
| "inside (Posting ps c) = inside c"
| "inside (Stopping c) = inside c"
| "inside (Signalling c) = inside c"
| "inside _ = False"

lemma inside_weight: "inside c \<Longrightarrow> 1 \<le> weight c"
  by (induction c) simp_all

definition cost :: "thread \<Rightarrow> int" where
  "cost t = int (length (private_queue t)) + int (weight (at t)) - private_work t"

definition balance :: "world \<Rightarrow> int" where
  "balance x = outstanding_work (sched x) - int (size (ops (run_queue (sched x)))) - int (size (in_flight x)) - int (guards x)"

definition thread_ok :: "thread \<Rightarrow> bool" where
  "thread_ok t \<longleftrightarrow> 0 \<le> private_work t \<and> private_work t \<le> int (length (private_queue t)) \<and>
     (private_work t > 0 \<longrightarrow> inside (at t))"

definition posted :: "sched_event \<Rightarrow> operation multiset" where
  "posted e = (case e of Posted ps \<Rightarrow> mset ps | _ \<Rightarrow> {#})"

definition begun_op :: "sched_event \<Rightarrow> operation multiset" where
  "begun_op e = (case e of Began p \<Rightarrow> {#p#} | _ \<Rightarrow> {#})"

definition shared_ops :: "world \<Rightarrow> operation multiset" where
  "shared_ops x = ops (run_queue (sched x)) + in_flight x"

definition own_ops :: "thread \<Rightarrow> operation multiset" where
  "own_ops t = mset (private_queue t) + in_hand (at t)"

text \<open>What one step does to the count and the operations.\<close>

definition counts :: "sched_event \<Rightarrow> thread \<Rightarrow> world \<Rightarrow> thread \<Rightarrow> world \<Rightarrow> bool" where
  "counts e t x t' x' \<longleftrightarrow> thread_ok t' \<and> balance x' - cost t' = balance x - cost t \<and>
     (e = Ran_Out \<longrightarrow> outstanding_work (sched x') = 0) \<and>
     (0 < outstanding_work (sched x) \<and> e \<noteq> Ran_Out \<longrightarrow> 0 < outstanding_work (sched x')) \<and>
     posted e + shared_ops x + own_ops t = begun_op e + shared_ops x' + own_ops t'"

lemma weight_then_signal [simp]: "weight (then_signal w c) = weight c" "in_hand (then_signal w c) = in_hand c"
  "inside (then_signal w c) = inside c"
  by (simp_all add: then_signal_def)

lemma counts_perform:
  assumes "takes_one (sched x) r" "act_on r t x = (t', x')" "weight (at t) = 0" "in_hand (at t) = {#}" "thread_ok t"
  shows "counts (case at t' of Running p \<Rightarrow> Began p | Signalling (Running p) \<Rightarrow> Began p | _ \<Rightarrow> Silent) t x t' x'"
proof -
  obtain d w s where r: "r = (d, w, s)" by (cases r)
  have s: "outstanding_work s = outstanding_work (sched x)" "ops (run_queue (sched x)) = ops (run_queue s) + taken d"
    using assms(1) by (auto simp: takes_one_def r)
  have p: "private_work t = 0" using assms(3,5) inside_weight [of "at t"] by (auto simp: thread_ok_def)
  have t': "x' = x\<lparr>sched := s\<rparr>" "private_queue t' = private_queue t" "private_work t' = private_work t"
    using assms(2) by (auto simp: act_on_def r)
  show ?thesis
    using assms(2-5) s p t'
    by (cases d) (auto simp: counts_def act_on_def r thread_ok_def balance_def cost_def posted_def begun_op_def
        shared_ops_def own_ops_def then_signal_def split: if_splits)
qed


lemma counts_call:
  assumes "call_step a t x = Some (e, w, t', x')" "in_user_code (at t)" "thread_ok t"
  shows "counts e t x t' x'"
proof -
  have u: "at t = Outside \<and> private_work t = 0 \<or> (\<exists>p. at t = Running p)"
    using assms(2,3) by (auto simp: in_user_code_def thread_ok_def split: pc.splits)
  have sub: "ps \<subseteq># in_flight x \<Longrightarrow> ps + (in_flight x - ps) = in_flight x" for ps by simp
  show ?thesis
  proof (cases a)
    case (Deliver ps)
    then have m: "mset ps \<subseteq># in_flight x" using assms(1) by (auto simp: call_step_def enter_def split: if_splits)
    have z: "int (size (in_flight x - mset ps)) = int (size (in_flight x)) - int (length ps)"
      using m size_mset_mono [OF m] by (simp add: size_Diff_submset of_nat_diff)
    have d: "post_deferred_completions ps t (x\<lparr>in_flight := in_flight x - mset ps\<rparr>) = (t', x')" "e = Silent"
      using assms(1) m Deliver by (auto simp: call_step_def enter_def split: prod.splits)
    show ?thesis using d u z sub [OF m] assms(3)
      by (auto simp: post_deferred_completions_def counts_def thread_ok_def balance_def cost_def posted_def begun_op_def
          shared_ops_def own_ops_def can_dispatch_def ac_simps split: if_splits)
  next
    case (Init_Task)
    then show ?thesis using assms(1,3) u
      by (auto simp: call_step_def enter_def init_task_def section_defs counts_def thread_ok_def balance_def cost_def posted_def
          begun_op_def shared_ops_def own_ops_def split: if_splits)
  next
    case (Post c ps)
    then show ?thesis using assms(1,3) u
      by (auto simp: call_step_def enter_def post_immediate_completions_def work_started_def can_dispatch_def counts_def thread_ok_def
          balance_def cost_def posted_def begun_op_def shared_ops_def own_ops_def split: if_splits)
  qed (use assms(1,3) u in \<open>auto simp: call_step_def enter_def work_started_def work_finished_def Let_def counts_def thread_ok_def
        balance_def cost_def posted_def begun_op_def shared_ops_def own_ops_def split: if_splits\<close>)
qed

lemma counts_go:
  assumes "go_step t x = Some (e, w, t', x')" "thread_ok t"
  shows "counts e t x t' x'"
proof (cases "at t")
  case Locking
  obtain t1 x1 where p: "act_on (first_section (mode_of t) (sched x)) t x = (t1, x1)" by fastforce
  then show ?thesis using counts_perform [OF takes_one_section(1) p] assms Locking by (auto simp: go_step_def push_private_def Let_def)
next
  case Woken
  obtain t1 x1 where p: "act_on (section_after_wait (mode_of t) (sched x)) t x = (t1, x1)" by fastforce
  then show ?thesis using counts_perform [OF takes_one_after_wait p] assms Woken by (auto simp: go_step_def push_private_def Let_def)
next
  case Task_Done
  obtain t1 x1 where c: "task_cleanup t x = (t1, x1)" by fastforce
  obtain t2 x2 where p: "act_on (section_after_task (mode_of t1) (sched x1)) t1 x1 = (t2, x2)" by fastforce
  have t1: "at t1 = Task_Done" "thread_ok t1" "private_work t = 0" using c Task_Done assms(2) by (auto simp: task_cleanup_def Let_def thread_ok_def)
  have "counts Silent t x t1 x1"
    using c t1 Task_Done by (auto simp: task_cleanup_def Let_def counts_def thread_ok_def balance_def cost_def posted_def begun_op_def
        shared_ops_def own_ops_def)
  moreover have "counts e t1 x1 t' x'"
    using counts_perform [OF takes_one_section(2) p] t1 assms(1) Task_Done c p by (auto simp: go_step_def push_private_def Let_def)
  ultimately show ?thesis by (auto simp: counts_def posted_def begun_op_def add.assoc split: sched_event.splits)
next
  case Finished
  then show ?thesis using assms
    by (auto simp: go_step_def push_private_def settle_work_def work_finished_def Let_def counts_def thread_ok_def balance_def cost_def posted_def
        begun_op_def shared_ops_def own_ops_def split: if_splits)
next
  case Pushing
  have z: "private_work t = 0" using Pushing assms(2) by (simp add: thread_ok_def)
  let ?x = "x\<lparr>sched := (sched x)\<lparr>run_queue := run_queue (sched x) @ map Op (private_queue t)\<rparr>\<rparr>"
    and ?t = "t\<lparr>private_queue := []\<rparr>"
  have c: "counts Silent t x ?t ?x"
    using z Pushing by (auto simp: counts_def thread_ok_def balance_def cost_def posted_def begun_op_def shared_ops_def own_ops_def)
  show ?thesis
  proof (cases "private_queue t \<noteq> [] \<and> goes_on t")
    case True
    obtain t2 x2 where p: "act_on (first_section (mode_of t) (sched ?x)) ?t ?x = (t2, x2)" by fastforce
    have "counts e ?t ?x t' x'"
      using counts_perform [OF takes_one_section(1) p] assms(1) Pushing True p z by (auto simp: go_step_def push_private_def Let_def thread_ok_def)
    then show ?thesis using c by (auto simp: counts_def posted_def begun_op_def add.assoc split: sched_event.splits)
  next
    case False
    then show ?thesis using assms(1) Pushing z c
      by (auto simp: go_step_def push_private_def Let_def counts_def thread_ok_def balance_def cost_def posted_def begun_op_def shared_ops_def
          own_ops_def split: if_splits)
  qed
qed (use assms in \<open>auto simp: go_step_def push_private_def push_shared_def stop_all_threads_def section_defs counts_def thread_ok_def
      balance_def cost_def posted_def begun_op_def shared_ops_def own_ops_def split: if_splits prod.splits\<close>)

lemma counts_step:
  assumes "thread_step a t x = Some (e, w, t', x')" "thread_ok t"
  shows "counts e t x t' x'"
proof (cases a)
  case (Return_Task ps)
  then obtain r where m: "at t = Tasking r" "mset ps \<subseteq># in_flight x" "e = Silent"
      "t' = t\<lparr>at := Task_Done, private_queue := private_queue t @ ps\<rparr>" "x' = x\<lparr>in_flight := in_flight x - mset ps\<rparr>"
    using assms(1) by (auto simp: thread_step_def split: pc.splits if_splits)
  have z: "int (size (in_flight x - mset ps)) = int (size (in_flight x)) - int (length ps)"
    using m(2) size_mset_mono [OF m(2)] by (simp add: size_Diff_submset of_nat_diff)
  obtain R where "in_flight x = R + mset ps" using m(2) by (metis subset_mset.diff_add)
  then have "shared_ops x + own_ops t = shared_ops x' + own_ops t'"
    using m(1,4,5) by (simp add: shared_ops_def own_ops_def)
  moreover have "private_work t = 0" using assms(2) m(1) by (auto simp: thread_ok_def)
  ultimately show ?thesis using m(1,3-5) z by (simp add: counts_def thread_ok_def balance_def cost_def posted_def begun_op_def)
qed (use assms counts_go counts_call in \<open>auto simp: thread_step_def counts_def thread_ok_def balance_def cost_def posted_def begun_op_def
    shared_ops_def own_ops_def split: pc.splits if_splits\<close>)


subsection \<open>All threads\<close>

lemma sched_step_elim:
  assumes "sched_step i a (ts, x) = Some (e, ts', x')"
  obtains w t j where "i < length ts" "thread_step a (ts ! i) x = Some (e, w, t, x')" "wake_up w j (ts[i := t]) = Some ts'"
  using assms by (auto simp: sched_step_def split: if_splits option.splits)

text \<open>A signal changes nothing that is the same for sleeping and woken threads.\<close>

lemma wake_up_same:
  assumes "wake_up w j ts = Some ts'" "\<And>t. f (waken t) = f t"
  shows "map f ts' = map f ts"
proof (cases w)
  case One
  have "map f (ts[j := waken (ts ! j)]) = map f ts" if "j < length ts"
    using that assms(2) by (intro nth_equalityI) (auto simp: nth_list_update)
  then show ?thesis using One assms(1) by (auto simp: wake_up_def split: if_splits)
qed (use assms in \<open>auto simp: wake_up_def\<close>)

lemma wake_up_all: "wake_up w j ts = Some ts' \<Longrightarrow> (\<And>t. P (waken t) = P t) \<Longrightarrow> list_all P ts' = list_all P ts"
proof -
  assume "wake_up w j ts = Some ts'" "\<And>t. P (waken t) = P t"
  then have "set (map P ts') = set (map P ts)" using wake_up_same [of w j ts ts' P] by simp
  then show "list_all P ts' = list_all P ts" unfolding list_all_iff by (simp add: image_def set_eq_iff) metis
qed

lemma waken_same: "cost (waken t) = cost t" "own_ops (waken t) = own_ops t" "thread_ok (waken t) = thread_ok t"
  by (auto simp: waken_def cost_def own_ops_def thread_ok_def)

definition work_ok :: "sched_event list \<Rightarrow> thread list \<times> world \<Rightarrow> bool" where
  "work_ok tr sys \<longleftrightarrow> (case sys of (ts, x) \<Rightarrow>
     list_all thread_ok ts \<and> balance x = sum_list (map cost ts) \<and>
     sum_list (map posted tr) = sum_list (map begun_op tr) + shared_ops x + sum_list (map own_ops ts))"

lemma work_ok_step:
  assumes "work_ok tr (ts, x)" "sched_step i a (ts, x) = Some (e, ts', x')"
  shows "work_ok (tr @ [e]) (ts', x') \<and> (e = Ran_Out \<longrightarrow> outstanding_work (sched x') = 0) \<and>
    (0 < outstanding_work (sched x) \<and> e \<noteq> Ran_Out \<longrightarrow> 0 < outstanding_work (sched x'))"
  using assms(2)
proof (rule sched_step_elim)
  fix w t j assume i: "i < length ts" and s: "thread_step a (ts ! i) x = Some (e, w, t, x')"
    and w: "wake_up w j (ts[i := t]) = Some ts'"
  have "thread_ok (ts ! i)" using assms(1) i by (simp add: work_ok_def list_all_length)
  note c = counts_step [OF s this, unfolded counts_def]
  have "list_all thread_ok (ts[i := t])"
    using assms(1) c set_update_subset_insert [of ts i t] by (auto simp: work_ok_def list_all_iff)
  then have all: "list_all thread_ok ts'" using wake_up_all [OF w, of thread_ok] waken_same by simp
  have "sum_list (map cost ts') = sum_list (map cost (ts[i := t]))" "sum_list (map own_ops ts') = sum_list (map own_ops (ts[i := t]))"
    using wake_up_same [OF w, of cost] wake_up_same [OF w, of own_ops] waken_same by simp_all
  then have "sum_list (map cost ts') + cost (ts ! i) = sum_list (map cost ts) + cost t"
    and own: "sum_list (map own_ops ts') + own_ops (ts ! i) = sum_list (map own_ops ts) + own_ops t"
    using sum_list_replace [OF i, of cost t] sum_list_replace [OF i, of own_ops t] by simp_all
  moreover have "posted e + shared_ops x + sum_list (map own_ops ts) = begun_op e + shared_ops x' + sum_list (map own_ops ts')"
  proof -
    have "own_ops (ts ! i) + (posted e + shared_ops x + sum_list (map own_ops ts)) =
        (posted e + shared_ops x + own_ops (ts ! i)) + sum_list (map own_ops ts)" by (simp only: ac_simps)
    also have "\<dots> = (begun_op e + shared_ops x') + (sum_list (map own_ops ts) + own_ops t)" using c by (simp only: ac_simps)
    also have "\<dots> = (begun_op e + shared_ops x') + (sum_list (map own_ops ts') + own_ops (ts ! i))" by (simp only: own)
    also have "\<dots> = own_ops (ts ! i) + (begun_op e + shared_ops x' + sum_list (map own_ops ts'))" by (simp only: ac_simps)
    finally show ?thesis by (simp only: add_left_cancel)
  qed
  ultimately show ?thesis using c all assms(1) by (simp add: work_ok_def ac_simps)
qed


lemma work_ok_run:
  assumes "sched_run (initial one n) tr sys"
  shows "work_ok tr sys"
  using assms
proof (induction "initial one n" tr sys rule: sched_run.induct)
  case start
  have "sum_list (map cost (replicate n new_thread)) = 0" "sum_list (map own_ops (replicate n new_thread)) = {#}"
    "list_all thread_ok (replicate n new_thread)"
    by (induction n) (simp_all add: new_thread_def cost_def own_ops_def thread_ok_def)
  then show ?case by (simp add: initial_def work_ok_def balance_def new_scheduler_def shared_ops_def)
next
  case (step tr sys i a e sys')
  then show ?case using work_ok_step [of tr "fst sys" "snd sys" i a e "fst sys'" "snd sys'"] by simp
qed

text \<open>The count is zero exactly when nothing is left anywhere.\<close>

lemma thread_ok_cost: "thread_ok t \<Longrightarrow> 0 \<le> cost t"
  by (auto simp: thread_ok_def cost_def)

lemma thread_ok_idle: "thread_ok t \<Longrightarrow> cost t = 0 \<Longrightarrow> weight (at t) = 0 \<and> private_queue t = []"
proof -
  assume t: "thread_ok t" "cost t = 0"
  have "\<not> 0 < private_work t"
  proof
    assume p: "0 < private_work t"
    then have "1 \<le> weight (at t)" "private_work t \<le> int (length (private_queue t))"
      using t(1) inside_weight by (auto simp: thread_ok_def)
    then show False using t(2) by (simp add: cost_def)
  qed
  then have "int (length (private_queue t)) + int (weight (at t)) \<le> 0" using t by (simp add: cost_def)
  then have "weight (at t) = 0" "length (private_queue t) = 0" by linarith+
  then show ?thesis by simp
qed

lemma weight_in_hand: "weight c = 0 \<Longrightarrow> in_hand c = {#}"
  by (induction c) simp_all

lemma sum_list_zero: "list_all P xs \<Longrightarrow> (\<And>x. P x \<Longrightarrow> 0 \<le> f x) \<Longrightarrow> 0 \<le> sum_list (map f xs) \<and>
    (sum_list (map f xs) = (0 :: int) \<longrightarrow> list_all (\<lambda>x. f x = 0) xs)"
proof (induction xs)
  case (Cons x xs)
  then have "0 \<le> f x" "0 \<le> sum_list (map f xs)" "sum_list (map f xs) = 0 \<longrightarrow> list_all (\<lambda>x. f x = 0) xs" by simp_all
  then show ?case by auto
qed simp

definition nothing_left :: "thread list \<Rightarrow> world \<Rightarrow> bool" where
  "nothing_left ts x \<longleftrightarrow>
     ops (run_queue (sched x)) = {#} \<and> in_flight x = {#} \<and> guards x = 0 \<and>
     list_all (\<lambda>t. weight (at t) = 0 \<and> private_queue t = []) ts"

lemma thread_idle: "thread_ok t \<Longrightarrow> weight (at t) = 0 \<Longrightarrow> private_queue t = [] \<Longrightarrow> cost t = 0 \<and> own_ops t = {#}"
  by (simp add: thread_ok_def cost_def own_ops_def weight_in_hand)

lemma threads_idle:
  assumes "list_all thread_ok ts" "list_all (\<lambda>t. weight (at t) = 0 \<and> private_queue t = []) ts"
  shows "sum_list (map cost ts) = 0" "sum_list (map own_ops ts) = {#}"
  using assms by (induction ts) (simp_all add: thread_idle)

lemma no_work_iff:
  assumes "work_ok tr (ts, x)"
  shows "0 \<le> outstanding_work (sched x)" "outstanding_work (sched x) = 0 \<longleftrightarrow> nothing_left ts x"
proof -
  have ok: "list_all thread_ok ts" and b: "balance x = sum_list (map cost ts)"
    using assms by (simp_all add: work_ok_def)
  note z = sum_list_zero [of thread_ok ts cost, OF ok thread_ok_cost]
  then have "0 \<le> balance x" using b by simp
  then show "0 \<le> outstanding_work (sched x)" unfolding balance_def by linarith
  show "outstanding_work (sched x) = 0 \<longleftrightarrow> nothing_left ts x"
  proof
    assume "outstanding_work (sched x) = 0"
    with \<open>0 \<le> balance x\<close> have "size (ops (run_queue (sched x))) = 0" "size (in_flight x) = 0" "guards x = 0" "balance x = 0"
      unfolding balance_def by linarith+
    moreover from this have "list_all (\<lambda>t. cost t = 0) ts" using z b by simp
    then have "list_all (\<lambda>t. weight (at t) = 0 \<and> private_queue t = []) ts"
      using ok thread_ok_idle by (auto simp: list_all_iff)
    ultimately show "nothing_left ts x" by (simp add: nothing_left_def)
  next
    assume "nothing_left ts x"
    with b threads_idle(1) [OF ok] show "outstanding_work (sched x) = 0" by (simp add: nothing_left_def balance_def)
  qed
qed

lemma nothing_left_begun:
  "work_ok tr (ts, x) \<Longrightarrow> nothing_left ts x \<Longrightarrow> sum_list (map posted tr) = sum_list (map begun_op tr)"
  by (simp add: work_ok_def nothing_left_def threads_idle shared_ops_def)

text \<open>
  C26: The scheduler stops by itself exactly when its work is done.  In every schedule the count of work is zero if and
  only if no operation is queued, in a private queue, in flight, running or about to be pushed and no guard is held; then every
  operation has begun as often as it was posted.  A step at which work is still to be done before and
  none afterwards is one that finds this out (and goes on to stop the scheduler), and nothing else finds it out.
\<close>

theorem scheduler_stops_when_done:
  assumes "sched_run (initial one n) tr (ts, x)" "sched_step i a (ts, x) = Some (e, ts', x')"
  shows "(outstanding_work (sched x) = 0 \<longleftrightarrow> nothing_left ts x) \<and>
    (nothing_left ts x \<longrightarrow> sum_list (map posted tr) = sum_list (map begun_op tr)) \<and>
    (e = Ran_Out \<longrightarrow> nothing_left ts' x') \<and>
    (\<not> nothing_left ts x \<and> nothing_left ts' x' \<longrightarrow> e = Ran_Out)"
proof -
  note now = work_ok_run [OF assms(1)]
  note later = work_ok_step [OF now assms(2)]
  have "0 < outstanding_work (sched x) \<longleftrightarrow> \<not> nothing_left ts x" using no_work_iff [OF now] by linarith
  then show ?thesis using no_work_iff(2) [OF now] no_work_iff(2) [of "tr @ [e]" ts' x'] nothing_left_begun [OF now] later by auto
qed

end
