(* ===== verification/Scheduler_Wakes.thy ===== *)
theory Scheduler_Wakes
  imports Scheduler_Properties
begin

text \<open>
  No thread of the scheduler sleeps when there is something to do: whoever makes work available or takes one of several entries
  wakes another thread.  The exception is a thread that leaves \<open>run_one\<close>, or any call by an exception,
  with operations in its private queue.
\<close>

subsection \<open>The event\<close>

lemma set_signalled_eq: "set_signalled e = e + of_bool (even e)"
  by (simp add: set_signalled_def or_Suc_0_eq)

lemma set_signalled_facts [simp]:
  "odd (set_signalled e)" "set_signalled e div 2 = e div 2" "set_signalled e < 2 \<longleftrightarrow> e < 2" "Suc 0 < set_signalled e \<longleftrightarrow> 2 \<le> e"
proof -
  show "odd (set_signalled e)" "set_signalled e div 2 = e div 2" by (auto simp: set_signalled_eq)
  show "set_signalled e < 2 \<longleftrightarrow> e < 2" by (auto simp: set_signalled_eq)
  show "Suc 0 < set_signalled e \<longleftrightarrow> 2 \<le> e" by (cases "e = 1") (auto simp: set_signalled_eq)
qed

lemma clear_event_facts [simp]: "even (clear_event e)" "clear_event e div 2 = e div 2"
  by (simp_all add: clear_event_def unset_bit_0)

lemma is_signalled_odd [simp]: "is_signalled e = odd e"
  by (simp add: is_signalled_def and_one_eq odd_iff_mod_2_eq_one)

lemma begin_wait_facts [simp]: "even (begin_wait e) = even e" "begin_wait e div 2 = e div 2 + 1"
  by (simp_all add: begin_wait_def)

lemma end_wait_facts: "2 \<le> e \<Longrightarrow> even (end_wait e) = even e \<and> end_wait e div 2 + 1 = e div 2 \<and> begin_wait (end_wait e) = e"
  by (auto simp: end_wait_def begin_wait_def elim!: evenE oddE)

subsection \<open>The sections\<close>

text \<open>
  A section that leaves entries in the queue has signalled the event, and a thread if one is waiting, or it has taken
  the task of \<open>poll\<close>, which comes back soon.  A thread goes to sleep only when the queue is empty.
\<close>

definition wakes :: "bool \<Rightarrow> scheduler \<Rightarrow> todo \<times> wake \<times> scheduler \<Rightarrow> bool" where
  "wakes polls s r \<longleftrightarrow> (case r of (d, w, s') \<Rightarrow>
     event_state s' div 2 = event_state s div 2 + of_bool (d = Sleep) \<and>
     (d = Sleep \<longrightarrow> run_queue s' = [] \<and> \<not> stopped s \<and> w = Nobody) \<and>
     (run_queue s' \<noteq> [] \<longrightarrow> odd (event_state s') \<and> (w = One \<or> event_state s' < 2 \<or> stopped s) \<or>
        polls \<and> d = Run_Task True \<and> w = Nobody) \<and>
     (odd (event_state s) \<and> d \<noteq> Sleep \<longrightarrow> odd (event_state s')))"

lemma wakes_run: "\<not> one_thread s \<Longrightarrow> stopped s \<longrightarrow> odd (event_state s) \<Longrightarrow> wakes polls s (do_run_one s)"
  by (auto simp: wakes_def section_defs split: list.splits queue_entry.splits)

lemma wakes_wait:
  "\<not> one_thread s \<Longrightarrow> wakes polls s (wait_front s)" "\<not> one_thread s \<Longrightarrow> wakes polls s (wait_after_task s)"
  "\<not> one_thread s \<Longrightarrow> stopped s \<longrightarrow> odd (event_state s) \<Longrightarrow> wakes polls s (do_wait_one s)"
  by (auto simp: wakes_def section_defs split: list.splits queue_entry.splits)

lemma wakes_poll:
  "\<not> one_thread s \<Longrightarrow> stopped s \<longrightarrow> odd (event_state s) \<Longrightarrow> wakes True s (do_poll_one s)"
  "\<not> one_thread s \<Longrightarrow> wakes polls s (poll_after_task s)"
  by (auto simp: wakes_def section_defs split: list.splits queue_entry.splits)

definition polling :: "mode \<Rightarrow> bool" where "polling m \<longleftrightarrow> m = Poll \<or> m = Poll_One"

lemma wakes_section:
  assumes "\<not> one_thread s" "stopped s \<longrightarrow> odd (event_state s)"
  shows "wakes (polling m) s (first_section m s)" "wakes False s (section_after_task m s)"
  using wakes_run [OF assms] wakes_wait [OF assms(1)] wakes_wait(3) [OF assms] wakes_poll(1) [OF assms] wakes_poll(2) [OF assms(1)]
  by (cases m; simp add: first_section_def section_after_task_def polling_def)+


subsection \<open>One step\<close>

definition sleeps :: "thread \<Rightarrow> nat" where "sleeps t = of_bool (at t = Asleep \<or> at t = Woken)"

text \<open>A thread that has taken the task without a signal, and one that will look into the queue or wake another.\<close>

definition returning :: "thread \<Rightarrow> bool" where
  "returning t \<longleftrightarrow> at t = Task_Done \<or> (\<exists>b. at t = Tasking b) \<and> polling (mode_of t)"

definition looking :: "thread \<Rightarrow> bool" where
  "looking t \<longleftrightarrow> at t = Locking \<or> at t = Woken \<or> (\<exists>c. at t = Signalling c) \<or> returning t"

text \<open>Where a thread goes on after \<open>stop\<close>, a post or a signal.\<close>

fun pc_ok :: "pc \<Rightarrow> bool" where
  "pc_ok (Stopping c) = (c \<noteq> Asleep \<and> c \<noteq> Woken \<and> pc_ok c)"
| "pc_ok (Posting ps c) = (c \<noteq> Asleep \<and> c \<noteq> Woken \<and> pc_ok c)"
| "pc_ok (Signalling c) = (c \<noteq> Asleep \<and> c \<noteq> Woken \<and> pc_ok c)"
| "pc_ok _ = True"

abbreviation queue_of :: "world \<Rightarrow> queue_entry list" where "queue_of x \<equiv> run_queue (sched x)"
abbreviation event_of :: "world \<Rightarrow> nat" where "event_of x \<equiv> event_state (sched x)"

definition alert :: "wake \<Rightarrow> thread \<Rightarrow> world \<Rightarrow> thread \<Rightarrow> world \<Rightarrow> bool" where
  "alert w t x t' x' \<longleftrightarrow>
     one_thread (sched x') = one_thread (sched x) \<and> pc_ok (at t') \<and>
     event_of x' div 2 + sleeps t = event_of x div 2 + sleeps t' \<and>
     (stopped (sched x') \<longrightarrow> odd (event_of x') \<and> at t' \<noteq> Asleep \<and> (stopped (sched x) \<or> w = Everyone)) \<and>
     (queue_of x' \<noteq> [] \<longrightarrow> odd (event_of x') \<or> returning t' \<or> queue_of x \<noteq> [] \<and> even (event_of x) \<and> \<not> returning t) \<and>
     (queue_of x' \<noteq> [] \<longrightarrow> looking t' \<or> event_of x' < 2 \<or> w \<noteq> Nobody \<or> stopped (sched x') \<or>
        queue_of x \<noteq> [] \<and> (\<not> looking t \<and> at t' \<noteq> Asleep \<or> even (event_of x) \<and> \<not> returning t))"

definition heard :: "world \<Rightarrow> bool" where
  "heard x \<longleftrightarrow> \<not> one_thread (sched x) \<and> (stopped (sched x) \<longrightarrow> odd (event_of x))"

lemma alert_perform:
  assumes "wakes (polling (mode_of t)) (sched x) r \<or> wakes False (sched x) r" "takes_one (sched x) r" "act_on r t x = (t', x')"
    "heard x" "event_of x0 div 2 = event_of x div 2 + sleeps t0" "even (event_of x0) = even (event_of x)"
    "stopped (sched x0) = stopped (sched x)" "one_thread (sched x0) = one_thread (sched x)"
  shows "alert w t0 x0 t' x'"
proof -
  obtain d w' s where r: "r = (d, w', s)" by (cases r)
  have x': "x' = x\<lparr>sched := s\<rparr>" "mode_of t' = mode_of t" using assms(3) by (auto simp: act_on_def r)
  have s: "one_thread s = one_thread (sched x)" "stopped s = stopped (sched x)" using assms(2) by (auto simp: takes_one_def r)
  have w: "event_of x' div 2 = event_of x div 2 + of_bool (d = Sleep)"
      "d = Sleep \<Longrightarrow> queue_of x' = [] \<and> \<not> stopped (sched x) \<and> w' = Nobody"
      "queue_of x' \<noteq> [] \<Longrightarrow> odd (event_of x') \<and> (w' = One \<or> event_of x' < 2 \<or> stopped (sched x)) \<or>
        polling (mode_of t) \<and> d = Run_Task True \<and> w' = Nobody"
      "odd (event_of x) \<Longrightarrow> d \<noteq> Sleep \<Longrightarrow> odd (event_of x')"
    using assms(1) x'(1) by (auto simp: wakes_def r)
  have at: "at t' = then_signal w' (case d of Return_Zero \<Rightarrow> Outside | Run_Task b \<Rightarrow> Tasking b | Run_Op p \<Rightarrow> Running p | Sleep \<Rightarrow> Asleep)"
    using assms(3) by (auto simp: act_on_def r)
  have asleep: "at t' = Asleep \<longleftrightarrow> d = Sleep" "sleeps t' = of_bool (d = Sleep)" "pc_ok (at t')"
    using at w(2) by (cases d; auto simp: then_signal_def sleeps_def)+
  have r1: "looking t'" if "w' = One" using at that by (auto simp: then_signal_def looking_def)
  have r2: "returning t'" "looking t'" if "polling (mode_of t)" "d = Run_Task True" "w' = Nobody"
    using at that x'(2) by (auto simp: then_signal_def looking_def returning_def)
  have st: "stopped (sched x') = stopped (sched x)" "stopped (sched x) \<longrightarrow> odd (event_of x')"
    using s x'(1) assms(4) w(2,4) by (auto simp: heard_def)
  show ?thesis
    unfolding alert_def
  proof (intro conjI)
    show "one_thread (sched x') = one_thread (sched x0)" using s x'(1) assms(8) by simp
    show "pc_ok (at t')" by (rule asleep(3))
    show "event_of x' div 2 + sleeps t0 = event_of x0 div 2 + sleeps t'" using w(1) asleep(2) assms(5) by simp
    show "stopped (sched x') \<longrightarrow> odd (event_of x') \<and> at t' \<noteq> Asleep \<and> (stopped (sched x0) \<or> w = Everyone)"
      using st w(2) asleep(1) assms(7) by blast
    show "queue_of x' \<noteq> [] \<longrightarrow> odd (event_of x') \<or> returning t' \<or> queue_of x0 \<noteq> [] \<and> even (event_of x0) \<and> \<not> returning t0"
      using w(3) r2(1) by blast
    show "queue_of x' \<noteq> [] \<longrightarrow> looking t' \<or> event_of x' < 2 \<or> w \<noteq> Nobody \<or> stopped (sched x') \<or>
        queue_of x0 \<noteq> [] \<and> (\<not> looking t0 \<and> at t' \<noteq> Asleep \<or> even (event_of x0) \<and> \<not> returning t0)"
      using w(3) r1 r2(2) st(1) by blast
  qed
qed

text \<open>\<open>wake_one_thread_and_unlock\<close> after a push.\<close>

lemma wake_one_facts:
  assumes "wake_one_thread_and_unlock s = (w, s')"
  shows "odd (event_state s')" "event_state s' div 2 = event_state s div 2" "w = One \<or> w = Nobody \<and> event_state s' < 2"
    "stopped s' = stopped s" "one_thread s' = one_thread s" "run_queue s' = run_queue s"
  using assms by (auto simp: section_defs split: if_splits)

lemma alert_push:
  assumes "wake_one_thread_and_unlock (sched x\<lparr>has_task := h, run_queue := q\<rparr>) = (w', s)" "heard x" "pc_ok (at t)" "sleeps t = 0"
    "t' = t\<lparr>at := then_signal w' c\<rparr>" "x' = x\<lparr>sched := s\<rparr>" "c \<noteq> Asleep \<and> c \<noteq> Woken \<and> pc_ok c"
  shows "alert w t x t' x'"
proof -
  note f = wake_one_facts [OF assms(1)]
  have "sleeps t' = 0" "at t' \<noteq> Asleep" "pc_ok (at t')" "w' = One \<Longrightarrow> looking t'"
    using assms(5,7) by (auto simp: then_signal_def sleeps_def looking_def)
  then show ?thesis using f assms(2,4,6) unfolding alert_def heard_def by auto
qed

lemmas alert_defs = alert_def sleeps_def looking_def returning_def heard_def

lemma alert_same: "in_user_code (at t) \<Longrightarrow> heard x \<Longrightarrow> alert w t x t x"
  by (auto simp: alert_defs in_user_code_def split: pc.splits)

lemma alert_quiet:
  assumes "in_user_code (at t)" "heard x" "sleeps t' = 0" "pc_ok (at t')" "queue_of x' = queue_of x" "event_of x' = event_of x"
    "stopped (sched x') = stopped (sched x)" "one_thread (sched x') = one_thread (sched x)"
  shows "alert w t x t' x'"
proof -
  have "sleeps t = 0" "\<not> looking t" "\<not> returning t"
    using assms(1) by (auto simp: in_user_code_def sleeps_def looking_def returning_def split: pc.splits)
  then show ?thesis using assms(2-) by (auto simp: alert_def heard_def sleeps_def)
qed

lemma alert_call:
  assumes "call_step a t x = Some (e, w, t', x')" "in_user_code (at t)" "heard x"
  shows "alert w t x t' x'"
proof -
  have u: "at t = Outside \<or> (\<exists>p. at t = Running p)" using assms(2) by (auto simp: in_user_code_def split: pc.splits)
  show ?thesis
  proof (cases a)
    case Init_Task
    show ?thesis
    proof (cases "\<not> is_shutdown (sched x) \<and> \<not> has_task (sched x)")
      case True
      obtain w' s where p: "wake_one_thread_and_unlock (sched x\<lparr>has_task := True, run_queue := queue_of x @ [Task]\<rparr>) = (w', s)"
        by fastforce
      then have "t' = t\<lparr>at := then_signal w' (at t)\<rparr>" "x' = x\<lparr>sched := s\<rparr>"
        using True assms(1) Init_Task by (auto simp: call_step_def enter_def init_task_def)
      then show ?thesis using alert_push [OF p assms(3)] u by (auto simp: sleeps_def)
    next
      case False
      then have "init_task (sched x) = (Nobody, sched x)" by (auto simp: init_task_def)
      then have "t' = t" "x' = x" using assms(1) Init_Task by (auto simp: call_step_def enter_def then_signal_def)
      then show ?thesis using alert_same [OF assms(2,3)] by simp
    qed
  next
    case (Deliver ps)
    then show ?thesis using assms(1) u
      by (intro alert_quiet [OF assms(2,3)]) (auto simp: call_step_def enter_def post_deferred_completions_def sleeps_def split: if_splits)
  next
    case (Post c ps)
    then show ?thesis using assms(1) u
      by (intro alert_quiet [OF assms(2,3)])
        (auto simp: call_step_def enter_def post_immediate_completions_def work_started_def sleeps_def split: if_splits)
  next
    case (Enter m)
    then have "at t' = Locking \<or> at t' = Stopping Outside" "x' = x"
      using assms(1) by (auto simp: call_step_def enter_def Let_def split: if_splits)
    then show ?thesis by (intro alert_quiet [OF assms(2,3)]) (auto simp: sleeps_def)
  next
    case Guard_Off
    then have "at t' = at t \<or> at t' = Stopping (at t)" "sched x' = snd (work_finished (sched x))"
      using assms(1) by (auto simp: call_step_def enter_def split: if_splits prod.splits)
    then show ?thesis using u by (intro alert_quiet [OF assms(2,3)]) (auto simp: work_finished_def Let_def sleeps_def)
  next
    case (Start p)
    then show ?thesis using assms(1) u
      by (intro alert_quiet [OF assms(2,3)]) (auto simp: call_step_def enter_def work_started_def sleeps_def)
  next
    case Guard_On
    then show ?thesis using assms(1) u
      by (intro alert_quiet [OF assms(2,3)]) (auto simp: call_step_def enter_def work_started_def sleeps_def)
  next
    case Stop
    then show ?thesis using assms(1) u by (intro alert_quiet [OF assms(2,3)]) (auto simp: call_step_def enter_def sleeps_def)
  qed (use assms(1) in \<open>auto simp: call_step_def enter_def\<close>)
qed

lemma alert_after_wait:
  assumes "act_on (section_after_wait (mode_of t) (sched x)) t x = (t', x')" "at t = Woken" "2 \<le> event_of x" "heard x"
  shows "alert w t x t' x'"
proof -
  let ?s = "(sched x)\<lparr>event_state := end_wait (event_of x)\<rparr>"
  let ?x = "x\<lparr>sched := ?s\<rparr>"
  note e = end_wait_facts [OF assms(3)]
  show ?thesis
  proof (cases "mode_of t \<noteq> Wait_One \<and> even (event_of x)")
    case True
    then have "t' = t\<lparr>at := Asleep\<rparr>" "x' = x\<lparr>sched := (sched x)\<lparr>event_state := event_of x\<rparr>\<rparr>"
      using assms(1) e by (auto simp: section_after_wait_def act_on_def then_signal_def)
    then show ?thesis using True assms(2,4) by (auto simp: alert_defs)
  next
    case False
    let ?r = "if mode_of t = Wait_One then wait_front ?s else do_run_one ?s"
    have h: "heard ?x" using assms(4) e by (simp add: heard_def)
    have r: "section_after_wait (mode_of t) (sched x) = ?r" using False e by (auto simp: section_after_wait_def Let_def)
    have "wakes False ?s ?r" "takes_one ?s ?r"
      using wakes_run [of ?s False] wakes_wait(1) [of ?s False] takes_one_run [of ?s] takes_one_wait(1) [of ?s] h
      by (auto simp: heard_def)
    moreover have "act_on ?r t ?x = (t', x')" using assms(1) unfolding r by (auto simp: act_on_def split: prod.splits)
    ultimately show ?thesis using alert_perform [of t ?x ?r t' x' x t w] h e assms(2) by (simp add: sleeps_def)
  qed
qed


lemma alert_go:
  assumes "go_step t x = Some (e, w, t', x')" "heard x" "pc_ok (at t)" "at t = Woken \<longrightarrow> 2 \<le> event_of x" "\<forall>ps. e \<noteq> Abandoned ps"
  shows "alert w t x t' x'"
proof (cases "at t")
  case Locking
  then have "act_on (first_section (mode_of t) (sched x)) t x = (t', x')" using assms(1) by (auto simp: go_step_def push_private_def split: prod.splits)
  moreover have "wakes (polling (mode_of t)) (sched x) (first_section (mode_of t) (sched x))"
    using assms(2) by (intro wakes_section(1)) (simp_all add: heard_def)
  ultimately show ?thesis
    using alert_perform [of t x "first_section (mode_of t) (sched x)" t' x' x t w] takes_one_section(1) [of "sched x" "mode_of t"]
      assms(2) Locking by (simp add: sleeps_def)
next
  case Woken
  then have "act_on (section_after_wait (mode_of t) (sched x)) t x = (t', x')" using assms(1) by (auto simp: go_step_def push_private_def split: prod.splits)
  then show ?thesis using alert_after_wait Woken assms(2,4) by simp
next
  case Task_Done
  obtain t1 x1 where c: "task_cleanup t x = (t1, x1)" by fastforce
  have t1: "mode_of t1 = mode_of t" "event_of x1 = event_of x" "stopped (sched x1) = stopped (sched x)"
    "one_thread (sched x1) = one_thread (sched x)"
    using c by (cases "0 < private_work t"; auto simp: task_cleanup_def Let_def)+
  have "act_on (section_after_task (mode_of t1) (sched x1)) t1 x1 = (t', x')"
    using assms(1) Task_Done c by (auto simp: go_step_def push_private_def split: prod.splits)
  moreover have h: "heard x1" using assms(2) t1 by (simp add: heard_def)
  moreover have "wakes False (sched x1) (section_after_task (mode_of t1) (sched x1))"
    using h by (intro wakes_section(2)) (simp_all add: heard_def)
  ultimately have "event_of x div 2 = event_of x1 div 2 + sleeps t \<Longrightarrow> alert w t x t' x'"
    by (intro alert_perform [of t1 x1 "section_after_task (mode_of t1) (sched x1)" t' x' x t w]) (simp_all add: t1 takes_one_section(2))
  then show ?thesis using Task_Done t1 by (simp add: sleeps_def)
next
  case Pushing
  show ?thesis
  proof (cases "private_queue t \<noteq> [] \<and> goes_on t")
    case True
    let ?x = "x\<lparr>sched := (sched x)\<lparr>run_queue := queue_of x @ map Op (private_queue t)\<rparr>\<rparr>" and ?t = "t\<lparr>private_queue := []\<rparr>"
    have "act_on (first_section (mode_of ?t) (sched ?x)) ?t ?x = (t', x')"
      using assms(1) Pushing True by (auto simp: go_step_def push_private_def Let_def split: prod.splits)
    moreover have h: "heard ?x" using assms(2) by (simp add: heard_def)
    moreover have "wakes (polling (mode_of ?t)) (sched ?x) (first_section (mode_of ?t) (sched ?x))"
      using h by (intro wakes_section(1)) (simp_all add: heard_def)
    ultimately show ?thesis
      using alert_perform [of ?t ?x "first_section (mode_of ?t) (sched ?x)" t' x' x t w] takes_one_section(1) [of "sched ?x" "mode_of ?t"]
        Pushing by (simp add: sleeps_def)
  next
    case False
    then have "t' = t\<lparr>at := if goes_on t then Locking else Outside\<rparr>" "x' = x"
      using assms(1,5) Pushing by (auto simp: go_step_def push_private_def Let_def split: if_splits)
    then show ?thesis using Pushing assms(2) by (auto simp: alert_defs)
  qed
next
  case (Posting ps c)
  obtain w' s where p: "wake_one_thread_and_unlock ((sched x)\<lparr>has_task := has_task (sched x), run_queue := queue_of x @ map Op ps\<rparr>) = (w', s)"
    by fastforce
  then have "t' = t\<lparr>at := then_signal w' c\<rparr>" "x' = x\<lparr>sched := s\<rparr>" using assms(1) Posting by (auto simp: go_step_def push_private_def push_shared_def)
  then show ?thesis using alert_push [OF p assms(2,3)] Posting assms(3) by (simp add: sleeps_def)
next
  case (Stopping c)
  then have "t' = t\<lparr>at := c\<rparr>" "x' = x\<lparr>sched := stop_all_threads (sched x)\<rparr>" "w = Everyone" using assms(1) by (auto simp: go_step_def push_private_def)
  moreover have "odd (event_state (stop_all_threads s))" "event_state (stop_all_threads s) div 2 = event_state s div 2"
    "one_thread (stop_all_threads s) = one_thread s" for s
    by (simp_all add: stop_all_threads_def interrupt_task_def)
  ultimately show ?thesis using Stopping assms(3) by (auto simp: alert_defs)
next
  case Finished
  then obtain zero t1 x1 where "settle_work t x = (zero, t1, x1)" by (metis prod_cases3)
  moreover from this have "sched x1 = (sched x)\<lparr>outstanding_work := outstanding_work (sched x1)\<rparr>"
    by (auto simp: settle_work_def work_finished_def Let_def split: if_splits)
  ultimately show ?thesis using Finished assms(1,2)
    by (cases "sched x1") (auto simp: go_step_def push_private_def alert_defs split: if_splits)
qed (use assms(1) in \<open>auto simp: go_step_def push_private_def\<close>)

lemma alert_step:
  assumes "thread_step a t x = Some (e, w, t', x')" "heard x" "pc_ok (at t)" "at t = Woken \<longrightarrow> 2 \<le> event_of x" "\<forall>ps. e \<noteq> Abandoned ps"
  shows "alert w t x t' x'"
proof (cases a)
  case Go
  then show ?thesis using assms alert_go by (simp add: thread_step_def)
next
  case (Return_Task ps)
  then show ?thesis using assms by (auto simp: thread_step_def alert_defs split: pc.splits if_splits)
next
  case (Finish throws)
  then show ?thesis using assms by (auto simp: thread_step_def alert_defs split: pc.splits if_splits)
next
  case Wake_Up
  then show ?thesis using assms by (auto simp: thread_step_def alert_defs split: pc.splits if_splits)
next
  case (Signal j)
  then show ?thesis using assms by (auto simp: thread_step_def alert_defs split: pc.splits if_splits)
qed (use assms alert_call in \<open>auto simp: thread_step_def split: if_splits\<close>)


subsection \<open>All threads\<close>

definition wake_ok :: "thread list \<times> world \<Rightarrow> bool" where
  "wake_ok sys \<longleftrightarrow> (case sys of (ts, x) \<Rightarrow>
     \<not> one_thread (sched x) \<and> list_all (\<lambda>t. pc_ok (at t)) ts \<and>
     event_of x div 2 = sum_list (map sleeps ts) \<and>
     (stopped (sched x) \<longrightarrow> odd (event_of x) \<and> list_all (\<lambda>t. at t \<noteq> Asleep) ts) \<and>
     (queue_of x \<noteq> [] \<longrightarrow> odd (event_of x) \<or> list_ex returning ts) \<and>
     (queue_of x \<noteq> [] \<and> list_ex (\<lambda>t. at t = Asleep) ts \<longrightarrow> list_ex looking ts))"

lemma waken_facts [simp]:
  "sleeps (waken t) = sleeps t" "returning (waken t) = returning t" "at (waken t) \<noteq> Asleep" "looking t \<Longrightarrow> looking (waken t)"
  "pc_ok (at (waken t)) = pc_ok (at t)"
  by (auto simp: waken_def sleeps_def returning_def looking_def)

lemma wake_up_nth:
  assumes "wake_up w j ts = Some ts'"
  shows "length ts' = length ts" "k < length ts \<Longrightarrow> ts' ! k = ts ! k \<or> ts' ! k = waken (ts ! k)"
  using assms by (cases w; auto simp: wake_up_def nth_list_update split: if_splits)+

lemma wake_up_sleepers:
  assumes "wake_up w j ts = Some ts'"
  shows "w = Everyone \<Longrightarrow> list_all (\<lambda>t. at t \<noteq> Asleep) ts'"
    "w = One \<Longrightarrow> list_ex (\<lambda>t. at t = Asleep) ts' \<Longrightarrow> list_ex looking ts'"
    "list_ex (\<lambda>t. at t = Asleep) ts' \<Longrightarrow> list_ex (\<lambda>t. at t = Asleep) ts" "list_ex looking ts \<Longrightarrow> list_ex looking ts'"
proof -
  show "w = Everyone \<Longrightarrow> list_all (\<lambda>t. at t \<noteq> Asleep) ts'"
    using assms by (auto simp: wake_up_def list_all_iff)
  show "list_ex (\<lambda>t. at t = Asleep) ts' \<Longrightarrow> list_ex (\<lambda>t. at t = Asleep) ts"
    using wake_up_nth [OF assms] by (fastforce simp: list_ex_length)
  show "list_ex looking ts \<Longrightarrow> list_ex looking ts'"
  proof -
    assume "list_ex looking ts"
    then obtain k where k: "k < length ts" "looking (ts ! k)" by (auto simp: list_ex_length)
    then have "looking (ts' ! k)" using wake_up_nth(2) [OF assms k(1)] waken_facts(4) by metis
    then show "list_ex looking ts'" using k(1) wake_up_nth(1) [OF assms] by (auto simp: list_ex_length)
  qed
  assume w: "w = One" "list_ex (\<lambda>t. at t = Asleep) ts'"
  then have j: "j < length ts" "at (ts ! j) = Asleep" "ts' = ts[j := waken (ts ! j)]"
    using assms by (simp_all add: wake_up_def split: if_splits)
  then have "looking (ts' ! j)" by (simp add: waken_def looking_def)
  moreover have "j < length ts'" using j by simp
  ultimately show "list_ex looking ts'" unfolding list_ex_length by blast
qed

lemma this_thread: "i < length ts \<Longrightarrow> P t \<Longrightarrow> list_ex P (ts[i := t])"
  unfolding list_ex_length by (intro exI [of _ i]) simp

lemma other_thread: "list_ex P ts \<Longrightarrow> i < length ts \<Longrightarrow> \<not> P (ts ! i) \<Longrightarrow> list_ex P (ts[i := t])"
proof -
  assume "list_ex P ts" "i < length ts" "\<not> P (ts ! i)"
  then obtain k where "k < length ts" "P (ts ! k)" "k \<noteq> i" by (auto simp: list_ex_length)
  then show "list_ex P (ts[i := t])" by (auto simp: list_ex_length intro!: exI [of _ k])
qed

lemma wake_ok_step:
  assumes "wake_ok (ts, x)" "sched_step i a (ts, x) = Some (e, ts', x')" "\<forall>ps. e \<noteq> Abandoned ps"
  shows "wake_ok (ts', x')"
  using assms(2)
proof (rule sched_step_elim)
  fix w t j assume i: "i < length ts" and s: "thread_step a (ts ! i) x = Some (e, w, t, x')"
    and w: "wake_up w j (ts[i := t]) = Some ts'"
  let ?t = "ts ! i" and ?u = "ts[i := t]"
  have inv: "\<not> one_thread (sched x)" "list_all (\<lambda>t. pc_ok (at t)) ts" "event_of x div 2 = sum_list (map sleeps ts)"
     "stopped (sched x) \<longrightarrow> odd (event_of x) \<and> list_all (\<lambda>t. at t \<noteq> Asleep) ts"
     "queue_of x \<noteq> [] \<longrightarrow> odd (event_of x) \<or> list_ex returning ts"
     "queue_of x \<noteq> [] \<and> list_ex (\<lambda>t. at t = Asleep) ts \<longrightarrow> list_ex looking ts"
    using assms(1) by (simp_all add: wake_ok_def)
  have le: "sleeps ?t \<le> sum_list (map sleeps ts)" using i by (intro member_le_sum_list) auto
  have "at ?t = Woken \<longrightarrow> 2 \<le> event_of x" using le inv(3) by (auto simp: sleeps_def)
  then have al: "alert w ?t x t x'"
    using alert_step [OF s] inv(1,2,4) i assms(3) by (simp add: heard_def list_all_length)
  note al = al [unfolded alert_def]
  have sum: "event_of x' div 2 = sum_list (map sleeps ts')"
    using sum_list_replace [OF i, of sleeps t] al inv(3) wake_up_same [OF w, of sleeps] by simp
  have pcs: "list_all (\<lambda>t. pc_ok (at t)) ts'"
    using al inv(2) set_update_subset_insert [of ts i t] wake_up_all [OF w, of "\<lambda>t. pc_ok (at t)"] by (auto simp: list_all_iff)
  have st: "list_all (\<lambda>t. at t \<noteq> Asleep) ts'" if "stopped (sched x')"
  proof (cases "w = Everyone")
    case False
    then have "list_all (\<lambda>t. at t \<noteq> Asleep) ?u"
      using al inv(4) that set_update_subset_insert [of ts i t] by (auto simp: list_all_iff)
    then show ?thesis using wake_up_sleepers(3) [OF w] by (auto simp: list_all_iff list_ex_iff)
  qed (use wake_up_sleepers(1) [OF w] in simp)
  have same_ret: "list_ex returning ts' = list_ex returning ?u"
    using wake_up_all [OF w, of "\<lambda>t. \<not> returning t"] by (auto simp: list_all_iff list_ex_iff)
  have ret: "list_ex returning ts'" if q: "queue_of x' \<noteq> []" "\<not> odd (event_of x')"
  proof -
    consider "returning t" | "queue_of x \<noteq> []" "even (event_of x)" "\<not> returning ?t" using al q by blast
    then have "list_ex returning ?u"
    proof cases
      case 1
      then show ?thesis using this_thread [OF i, of returning t] by simp
    next
      case 2
      then show ?thesis using inv(5) other_thread [of returning, OF _ i] by simp
    qed
    then show ?thesis using same_ret by simp
  qed
  have look: "list_ex looking ts'" if q: "queue_of x' \<noteq> []" and a: "list_ex (\<lambda>t. at t = Asleep) ts'"
  proof -
    have u: "list_ex (\<lambda>t. at t = Asleep) ?u" using wake_up_sleepers(3) [OF w a] .
    have ns: "\<not> stopped (sched x')" "w \<noteq> Everyone" using st a wake_up_sleepers(1) [OF w] by (auto simp: list_all_iff list_ex_iff)
    have "\<not> event_of x' < 2"
    proof
      assume "event_of x' < 2"
      then have "sum_list (map sleeps ts') = 0" using sum by simp
      moreover have "sum_list (map sleeps ts') \<noteq> 0" using a by (auto simp: list_ex_iff sleeps_def)
      ultimately show False by simp
    qed
    then consider "looking t" | "w = One" | "queue_of x \<noteq> []" "\<not> looking ?t" "at t \<noteq> Asleep"
      | "queue_of x \<noteq> []" "even (event_of x)" "\<not> returning ?t"
      using al q ns by (cases w) auto
    then show ?thesis
    proof cases
      case 1
      then have "list_ex looking ?u" by (rule this_thread [OF i])
      then show ?thesis by (rule wake_up_sleepers(4) [OF w])
    next
      case 2
      then show ?thesis using wake_up_sleepers(2) [OF w] a by simp
    next
      case 3
      then have "list_ex (\<lambda>t. at t = Asleep) ts" using u set_update_subset_insert [of ts i t] by (auto simp: list_ex_iff)
      then show ?thesis using 3 inv(6) other_thread [of looking, OF _ i] wake_up_sleepers(4) [OF w] by simp
    next
      case 4
      then have "list_ex returning ?u" using inv(5) other_thread [of returning, OF _ i] by simp
      then show ?thesis using wake_up_sleepers(4) [OF w] by (auto simp: list_ex_iff looking_def)
    qed
  qed
  show "wake_ok (ts', x')" using inv(1) al sum pcs st ret look by (simp add: wake_ok_def)
qed

lemma wake_ok_run:
  assumes "sched_run (initial False n) tr sys" "\<forall>ps. Abandoned ps \<notin> set tr"
  shows "wake_ok sys"
  using assms
proof (induction "initial False n" tr sys rule: sched_run.induct)
  case start
  have "sum_list (map sleeps (replicate n new_thread)) = 0" "list_all (\<lambda>t. pc_ok (at t)) (replicate n new_thread)"
    by (induction n) (simp_all add: new_thread_def sleeps_def)
  then show ?case by (simp add: initial_def wake_ok_def new_scheduler_def)
next
  case (step tr sys i a e sys')
  then show ?case using wake_ok_step [of "fst sys" "snd sys" i a e "fst sys'" "snd sys'"] by auto
qed



lemmas step_defs = sched_step_def thread_step_def call_step_def enter_def go_step_def push_private_def wake_up_def waken_def in_user_code_def initial_def
  new_thread_def new_scheduler_def work_started_def work_finished_def post_immediate_completions_def can_dispatch_def
  push_shared_def act_on_def then_signal_def first_section_def section_after_wait_def settle_work_def goes_on_def
  begin_wait_def end_wait_def set_signalled_eq clear_event_def unset_bit_0 section_defs

lemma scheduler_example:
  "sched_run (initial False 2) [Silent, Silent, Silent, Posted [7], Silent]
     ([\<lparr>at = Asleep, mode_of = Run, unwinding = False, private_queue = [], private_work = 0\<rparr>,
       \<lparr>at = Signalling Outside, mode_of = Run, unwinding = False, private_queue = [], private_work = 0\<rparr>],
      \<lparr>sched = \<lparr>one_thread = False, has_task = False, task_interrupted = True, outstanding_work = 2, run_queue = [Op 7],
         stopped = False, is_shutdown = False, event_state = 3\<rparr>, in_flight = {#}, guards = 1\<rparr>)"
  (is "sched_run _ ?tr ?sys")
proof -
  have "follow [(1, Guard_On), (0, Enter Run), (0, Go), (1, Post False [7]), (1, Go)] (initial False 2) = Some (?tr, ?sys)"
    by (simp add: step_defs numeral_2_eq_2 numeral_3_eq_3)
  from follow_run [OF this sched_run.start] show ?thesis by simp
qed


text \<open>The steps that a thread makes by itself; the others are calls and a sleeper that wakes without being woken.\<close>

fun own_step :: "sched_action \<Rightarrow> bool" where
  "own_step Go = True"
| "own_step (Finish throws) = True"
| "own_step (Return_Task ps) = True"
| "own_step (Signal j) = True"
| "own_step _ = False"

text \<open>
  C40: A wakeup can be lost: there is a schedule in which a thread that has called \<open>run_one\<close> leaves an operation in the shared
  queue, posted as a continuation by the operation it ran, while the thread in \<open>run\<close> sleeps and no thread can go on by
  itself, although the scheduler is not stopped.
\<close>

theorem run_one_loses_wakeup:
  "\<exists>tr ts x. sched_run (initial False 2) tr (ts, x) \<and> run_queue (sched x) = [Op 8] \<and> \<not> stopped (sched x) \<and>
     map at ts = [Asleep, Outside] \<and> map mode_of ts = [Run, Run_One] \<and>
     \<not> (\<exists>i a. own_step a \<and> sched_step i a (ts, x) \<noteq> None)"
proof -
  let ?ts = "[\<lparr>at = Asleep, mode_of = Run, unwinding = False, private_queue = [], private_work = 0\<rparr>,
      \<lparr>at = Outside, mode_of = Run_One, unwinding = False, private_queue = [], private_work = 0\<rparr>]"
  let ?x = "\<lparr>sched = \<lparr>one_thread = False, has_task = False, task_interrupted = True, outstanding_work = 2, run_queue = [Op 8],
      stopped = False, is_shutdown = False, event_state = 2\<rparr>, in_flight = {#}, guards = 1\<rparr>"
  let ?start = "([\<lparr>at = Asleep, mode_of = Run, unwinding = False, private_queue = [], private_work = 0\<rparr>,
       \<lparr>at = Signalling Outside, mode_of = Run, unwinding = False, private_queue = [], private_work = 0\<rparr>],
      \<lparr>sched = \<lparr>one_thread = False, has_task = False, task_interrupted = True, outstanding_work = 2, run_queue = [Op 7],
         stopped = False, is_shutdown = False, event_state = 3\<rparr>, in_flight = {#}, guards = 1\<rparr>)"
  have "follow [(1, Signal 0), (1, Enter Run_One), (1, Go), (0, Go), (1, Post True [8]), (1, Finish False), (1, Go), (1, Go)] ?start =
      Some ([Silent, Silent, Began 7, Silent, Posted [8], Silent, Silent, Abandoned [8]], ?ts, ?x)"
    by (simp add: step_defs)
  from follow_run [OF this scheduler_example] obtain tr where "sched_run (initial False 2) tr (?ts, ?x)" by blast
  moreover have "sched_step i a (?ts, ?x) = None" if "own_step a" for i a
    using that by (cases a) (auto simp: step_defs less_Suc_eq)
  ultimately show ?thesis by (intro exI [of _ tr], intro exI [of _ ?ts], intro exI [of _ ?x]) auto
qed

lemma scheduler_stops_when_done_witness:
  "nothing_left [\<lparr>at = Stopping Pushing, mode_of = Run, unwinding = False, private_queue = [], private_work = 0\<rparr>]
     \<lparr>sched = \<lparr>one_thread = False, has_task = False, task_interrupted = True, outstanding_work = 0, run_queue = [],
        stopped = False, is_shutdown = False, event_state = 1\<rparr>, in_flight = {#}, guards = 0\<rparr>"
  (is "nothing_left ?ts ?x")
proof -
  let ?t = "\<lparr>at = Finished, mode_of = Run, unwinding = False, private_queue = [], private_work = 0\<rparr>"
    and ?y = "\<lparr>sched = \<lparr>one_thread = False, has_task = False, task_interrupted = True, outstanding_work = 1, run_queue = [],
         stopped = False, is_shutdown = False, event_state = 1\<rparr>, in_flight = {#}, guards = 0\<rparr>"
  have "follow [(0, Post False [7]), (0, Go), (0, Enter Run), (0, Go), (0, Finish False)] (initial False 1) =
      Some ([Posted [7], Silent, Silent, Began 7, Silent], [?t], ?y)"
    by (simp add: step_defs)
  from follow_run [OF this sched_run.start] have r: "sched_run (initial False 1) [Posted [7], Silent, Silent, Began 7, Silent] ([?t], ?y)"
    by simp
  have "sched_step 0 Go ([?t], ?y) = Some (Ran_Out, ?ts, ?x)" by (simp add: step_defs)
  from scheduler_stops_when_done [OF r this] show ?thesis by simp
qed

end
