(* ===== verification/Buffers.thy ===== *)
theory Buffers
  imports Prelude
begin

text \<open>
  Buffers and sequences of buffers: \<open>buffer.hpp\<close> and \<open>buffers_iterator.hpp\<close>.  A buffer is an address and a
  size in a memory; that it may be written is the only difference between \<open>mutable_buffer\<close> and \<open>const_buffer\<close>.  \<open>buffer_copy\<close>
  is shown to copy between the sequences as if each were one piece of memory, and an iterator to be
  an index into that piece.
\<close>

type_synonym memory = "nat \<Rightarrow> byte"

subsection \<open>Buffers\<close>

record buffer =
  buf_data :: nat
  buf_size :: nat

text \<open>\<open>operator+\<close> and \<open>operator+=\<close>, and \<open>buffer(b, max_size)\<close>.\<close>

definition offset_buffer :: "buffer \<Rightarrow> nat \<Rightarrow> buffer" where
  "offset_buffer b n =
     (let offset = (if n < buf_size b then n else buf_size b) in
      \<lparr>buf_data = buf_data b + offset, buf_size = buf_size b - offset\<rparr>)"

definition first_bytes :: "buffer \<Rightarrow> nat \<Rightarrow> buffer" where
  "first_bytes b max_size_in_bytes =
     \<lparr>buf_data = buf_data b, buf_size = (if buf_size b < max_size_in_bytes then buf_size b else max_size_in_bytes)\<rparr>"

fun size_loop :: "buffer list \<Rightarrow> nat \<Rightarrow> nat" where
  "size_loop [] total_buffer_size = total_buffer_size"
| "size_loop (b # iter) total_buffer_size = size_loop iter (total_buffer_size + buf_size b)"

definition buffer_size :: "buffer list \<Rightarrow> nat" where "buffer_size bs = size_loop bs 0"

subsection \<open>Copying\<close>

text \<open>\<open>memcpy\<close> between regions that overlap is undefined: \<open>None\<close>.\<close>

definition memcpy :: "nat \<Rightarrow> nat \<Rightarrow> nat \<Rightarrow> memory \<Rightarrow> memory option" where
  "memcpy to from n m =
     (if to < from + n \<and> from < to + n then None
      else Some (\<lambda>a. if to \<le> a \<and> a < to + n then m (from + (a - to)) else m a))"

definition buffer_copy_1 :: "buffer \<Rightarrow> buffer \<Rightarrow> memory \<Rightarrow> (nat \<times> memory) option" where
  "buffer_copy_1 target source m =
     (let target_size = buf_size target; source_size = buf_size source;
          n = (if target_size < source_size then target_size else source_size)
      in if n > 0 then map_option (Pair n) (memcpy (buf_data target) (buf_data source) n m) else Some (0, m))"

definition copy_one_one :: "nat \<Rightarrow> buffer \<Rightarrow> buffer \<Rightarrow> memory \<Rightarrow> (nat \<times> memory) option" where
  "copy_one_one max_bytes_to_copy target source m = buffer_copy_1 target (first_bytes source max_bytes_to_copy) m"

text \<open>From a sequence into one buffer, and from one buffer into a sequence.\<close>

fun gather_loop :: "buffer \<Rightarrow> buffer list \<Rightarrow> nat \<Rightarrow> memory \<Rightarrow> (nat \<times> memory) option" where
  "gather_loop target_buffer [] total_bytes_copied m = Some (total_bytes_copied, m)"
| "gather_loop target_buffer (source_buffer # source_iter) total_bytes_copied m =
     (if buf_size target_buffer = 0 then Some (total_bytes_copied, m)
      else case buffer_copy_1 target_buffer source_buffer m of
        None \<Rightarrow> None
      | Some (bytes_copied, m) \<Rightarrow>
          gather_loop (offset_buffer target_buffer bytes_copied) source_iter (total_bytes_copied + bytes_copied) m)"

definition copy_one_many :: "nat \<Rightarrow> buffer \<Rightarrow> buffer list \<Rightarrow> memory \<Rightarrow> (nat \<times> memory) option" where
  "copy_one_many max_bytes_to_copy target source m = gather_loop (first_bytes target max_bytes_to_copy) source 0 m"

fun scatter_loop :: "buffer \<Rightarrow> buffer list \<Rightarrow> nat \<Rightarrow> memory \<Rightarrow> (nat \<times> memory) option" where
  "scatter_loop source_buffer [] total_bytes_copied m = Some (total_bytes_copied, m)"
| "scatter_loop source_buffer (target_buffer # target_iter) total_bytes_copied m =
     (if buf_size source_buffer = 0 then Some (total_bytes_copied, m)
      else case buffer_copy_1 target_buffer source_buffer m of
        None \<Rightarrow> None
      | Some (bytes_copied, m) \<Rightarrow>
          scatter_loop (offset_buffer source_buffer bytes_copied) target_iter (total_bytes_copied + bytes_copied) m)"

definition copy_many_one :: "nat \<Rightarrow> buffer list \<Rightarrow> buffer \<Rightarrow> memory \<Rightarrow> (nat \<times> memory) option" where
  "copy_many_one max_bytes_to_copy target source m = scatter_loop (first_bytes source max_bytes_to_copy) target 0 m"

text \<open>Between sequences; the limit is \<open>None\<close> in the overload without one.  An iterator is what it has still to visit.\<close>

definition within_limit :: "nat option \<Rightarrow> nat \<Rightarrow> buffer \<Rightarrow> buffer" where
  "within_limit limit total_bytes_copied b =
     (case limit of None \<Rightarrow> b | Some max_bytes_to_copy \<Rightarrow> first_bytes b (max_bytes_to_copy - total_bytes_copied))"

partial_function (option) copy_loop ::
  "nat option \<Rightarrow> buffer list \<Rightarrow> nat \<Rightarrow> buffer list \<Rightarrow> nat \<Rightarrow> nat \<Rightarrow> memory \<Rightarrow> (nat \<times> memory) option" where
  "copy_loop limit target_iter target_offset source_iter source_offset total_bytes_copied m =
     (if limit = Some total_bytes_copied \<or> target_iter = [] \<or> source_iter = [] then Some (total_bytes_copied, m)
      else
        let target_buffer = offset_buffer (hd target_iter) target_offset;
            source_buffer = offset_buffer (hd source_iter) source_offset
        in case buffer_copy_1 target_buffer (within_limit limit total_bytes_copied source_buffer) m of
          None \<Rightarrow> None
        | Some (bytes_copied, m) \<Rightarrow>
            let target_done = (bytes_copied = buf_size target_buffer);
                source_done = (bytes_copied = buf_size source_buffer)
            in copy_loop limit
                 (if target_done then tl target_iter else target_iter) (if target_done then 0 else target_offset + bytes_copied)
                 (if source_done then tl source_iter else source_iter) (if source_done then 0 else source_offset + bytes_copied)
                 (total_bytes_copied + bytes_copied) m)"

definition copy_many_many :: "nat option \<Rightarrow> buffer list \<Rightarrow> buffer list \<Rightarrow> memory \<Rightarrow> (nat \<times> memory) option" where
  "copy_many_many limit target source m = copy_loop limit target 0 source 0 0 m"

subsection \<open>What is copied\<close>

definition region :: "buffer \<Rightarrow> nat list" where
  "region b = [buf_data b ..< buf_data b + buf_size b]"

definition addresses :: "buffer list \<Rightarrow> nat list" where "addresses bs = concat (map region bs)"

definition bytes_in :: "memory \<Rightarrow> buffer list \<Rightarrow> byte list" where "bytes_in m bs = map m (addresses bs)"

lemma addresses_simps [simp]:
  "addresses [] = []" "addresses (b # bs) = region b @ addresses bs"
  by (simp_all add: addresses_def)

lemma region_simps [simp]:
  "length (region b) = buf_size b" "distinct (region b)" "region b = [] \<longleftrightarrow> buf_size b = 0"
  by (auto simp: region_def)

lemma size_loop_total: "size_loop bs n = n + length (addresses bs)"
  by (induction bs arbitrary: n) simp_all

lemma buffer_size_length: "buffer_size bs = length (addresses bs)"
  by (simp add: buffer_size_def size_loop_total)

text \<open>The memory after the bytes at \<open>from\<close> have been written to \<open>to\<close>.\<close>

definition moved :: "nat list \<Rightarrow> nat list \<Rightarrow> memory \<Rightarrow> memory" where
  "moved to from m = (\<lambda>a. case map_of (zip to from) a of None \<Rightarrow> m a | Some b \<Rightarrow> m b)"

lemma moved_Nil [simp]: "moved [] from m = m" "moved to [] m = m"
  by (simp_all add: moved_def)

lemma moved_other: "a \<notin> set to \<Longrightarrow> moved to from m a = m a"
  by (auto simp: moved_def dest: map_of_SomeD set_zip_leftD split: option.splits)

text \<open>Copying in two parts.\<close>

lemma moved_append:
  assumes "length to = length from" "distinct (to @ to')" "set (to @ to') \<inter> set (from @ from') = {}"
  shows "moved to' from' (moved to from m) = moved (to @ to') (from @ from') m"
proof
  fix a
  have o: "moved to from m b = m b" if "b \<in> set from'" for b using that assms(3) by (intro moved_other) auto
  have n: "map_of (zip to from) a = None" if "a \<in> set to'"
    using that assms(1,2) by (auto simp: map_of_zip_is_None)
  show "moved to' from' (moved to from m) a = moved (to @ to') (from @ from') m a"
  proof (cases "map_of (zip to' from') a")
    case None
    then show ?thesis using assms(1) by (auto simp: moved_def map_add_def dest: map_of_SomeD set_zip_leftD split: option.split)
  next
    case (Some b)
    then have "b \<in> set from'" "a \<in> set to'" by (auto dest: map_of_SomeD set_zip_rightD set_zip_leftD)
    with Some n have "map_of (zip (to @ to') (from @ from')) a = Some b"
      using assms(1) by (simp add: map_add_def del: map_of_zip_is_None)
    then show ?thesis using Some o [OF \<open>b \<in> set from'\<close>] by (simp add: moved_def [of to'] moved_def [of "to @ to'"])
  qed
qed

text \<open>One call of \<open>memcpy\<close>.\<close>

lemma region_offset [simp]: "region (offset_buffer b n) = drop n (region b)"
  by (simp add: offset_buffer_def Let_def drop_upt region_def)

lemma region_first [simp]: "region (first_bytes b n) = take n (region b)"
  by (simp add: first_bytes_def take_upt min_def region_def)

lemma offset_size [simp]: "buf_size (offset_buffer b n) = buf_size b - n"
  by (simp add: offset_buffer_def Let_def)

lemma first_size [simp]: "buf_size (first_bytes b n) = min n (buf_size b)"
  by (simp add: first_bytes_def min_def)

lemma moved_upt:
  "moved [to ..< to + n] [from ..< from + n] m = (\<lambda>a. if to \<le> a \<and> a < to + n then m (from + (a - to)) else m a)"
proof
  fix a
  show "moved [to ..< to + n] [from ..< from + n] m a = (if to \<le> a \<and> a < to + n then m (from + (a - to)) else m a)"
  proof (cases "to \<le> a \<and> a < to + n")
    case True
    then have "zip [to ..< to + n] [from ..< from + n] ! (a - to) = (a, from + (a - to))"
      and "a - to < length (zip [to ..< to + n] [from ..< from + n])" by auto
    then have "(a, from + (a - to)) \<in> set (zip [to ..< to + n] [from ..< from + n])" by (metis nth_mem)
    then have "map_of (zip [to ..< to + n] [from ..< from + n]) a = Some (from + (a - to))" by (simp add: map_of_is_SomeI)
    then show ?thesis using True by (simp add: moved_def)
  next
    case False
    then show ?thesis by (subst moved_other) auto
  qed
qed

lemma copy_1_moves:
  assumes "set (region target) \<inter> set (region source) = {}" "n = min (buf_size target) (buf_size source)"
  shows "buffer_copy_1 target source m = Some (n, moved (take n (region target)) (take n (region source)) m)"
proof (cases "n = 0")
  case False
  have t: "take n (region target) = [buf_data target ..< buf_data target + n]"
    "take n (region source) = [buf_data source ..< buf_data source + n]" using assms(2) by (simp_all add: take_upt region_def)
  have "\<not> (buf_data target < buf_data source + n \<and> buf_data source < buf_data target + n)"
  proof
    assume o: "buf_data target < buf_data source + n \<and> buf_data source < buf_data target + n"
    then have "max (buf_data target) (buf_data source) \<in> set (region target) \<inter> set (region source)" using assms(2) False by (auto simp: region_def)
    then show False using assms(1) by simp
  qed
  then have "memcpy (buf_data target) (buf_data source) n m = Some (moved (take n (region target)) (take n (region source)) m)"
    by (simp add: memcpy_def t moved_upt)
  then show ?thesis using assms(2) False by (auto simp: buffer_copy_1_def Let_def min_def)
qed (use assms(2) in \<open>auto simp: buffer_copy_1_def Let_def min_def split: if_splits\<close>)

text \<open>The first \<open>k\<close> bytes of \<open>from\<close> are copied to \<open>to\<close>, in one or in two parts.\<close>

definition copied :: "nat \<Rightarrow> nat list \<Rightarrow> nat list \<Rightarrow> memory \<Rightarrow> memory" where
  "copied k to from = moved (take k to) (take k from)"

lemma copied_parts:
  assumes "n \<le> length to" "n \<le> length from" "distinct to" "set to \<inter> set from = {}" "n \<le> k"
  shows "copied (k - n) (drop n to) (drop n from) (copied n to from m) = copied k to from m"
proof -
  have s: "take k xs = take n xs @ take (k - n) (drop n xs)" for xs :: "nat list"
    using assms(5) by (metis le_add_diff_inverse take_add)
  have sub: "set (take k to) \<inter> set (take k from) = {}" using assms(4) by (meson disjoint_iff in_set_takeD)
  have "distinct (take k to)" using assms(3) by simp
  with sub show ?thesis using assms(1,2) moved_append [of "take n to" "take n from"] by (simp add: s copied_def)
qed

lemma copy_1_copies:
  assumes "region target = take p to" "region source = take q from" "set to \<inter> set from = {}" "n = min (buf_size target) (buf_size source)"
  shows "buffer_copy_1 target source m = Some (n, copied n to from m)" "n \<le> length to" "n \<le> length from"
proof -
  have l: "buf_size target = min p (length to)" "buf_size source = min q (length from)"
    using arg_cong [OF assms(1), of length] arg_cong [OF assms(2), of length] by (simp_all add: min.commute)
  then have n: "min n p = n" "min n q = n" using assms(4) by simp_all
  have "set (region target) \<inter> set (region source) = {}"
    using assms(1-3) by (auto dest: in_set_takeD)
  from copy_1_moves [OF this assms(4)] show "buffer_copy_1 target source m = Some (n, copied n to from m)"
    using n by (simp add: copied_def assms(1,2))
  show "n \<le> length to" "n \<le> length from" using l assms(4) by simp_all
qed

subsection \<open>The loops\<close>

lemma gather_copies:
  assumes "distinct (region target)" "set (region target) \<inter> set (addresses ss) = {}"
  shows "gather_loop target ss c m = (let k = min (buf_size target) (length (addresses ss)) in
    Some (c + k, copied k (region target) (addresses ss) m))"
  using assms
proof (induction ss arbitrary: target c m)
  case Nil
  then show ?case by (simp add: copied_def)
next
  case (Cons s ss)
  let ?t = "region target" and ?s = "addresses (s # ss)"
  let ?n = "min (buf_size target) (buf_size s)" and ?k = "min (buf_size target) (length ?s)"
  have c: "buffer_copy_1 target s m = Some (?n, copied ?n ?t ?s m)" "?n \<le> length ?t" "?n \<le> length ?s"
    using copy_1_copies [of target "buf_size target" ?t s "buf_size s" ?s ?n] Cons.prems(2) by simp_all
  have r: "gather_loop (offset_buffer target ?n) ss (c + ?n) (copied ?n ?t ?s m) =
      Some (c + ?k, copied (?k - ?n) (drop ?n ?t) (drop ?n ?s) (copied ?n ?t ?s m))"
  proof (cases "buf_size s \<le> buf_size target")
    case True
    have "set (addresses ss) \<subseteq> set ?s" by simp
    then have "set (drop ?n ?t) \<inter> set (addresses ss) = {}" using Cons.prems(2) set_drop_subset [of ?n ?t] by blast
    from Cons.IH [of "offset_buffer target ?n" "c + ?n" "copied ?n ?t ?s m"] this
    have "gather_loop (offset_buffer target ?n) ss (c + ?n) (copied ?n ?t ?s m) =
        (let k = min (buf_size target - ?n) (length (addresses ss)) in
         Some (c + ?n + k, copied k (drop ?n ?t) (addresses ss) (copied ?n ?t ?s m)))" by simp
    moreover have "min (buf_size target - ?n) (length (addresses ss)) = ?k - ?n" "c + ?n + (?k - ?n) = c + ?k" "addresses ss = drop ?n ?s"
      using True by auto
    ultimately show ?thesis by (simp only: Let_def)
  next
    case False
    then show ?thesis
      by (cases ss) (simp_all add: copied_def)
  qed
  show ?case
  proof (cases "buf_size target = 0")
    case False
    then show ?thesis using c r copied_parts [OF c(2,3), of ?k m] Cons.prems by (simp add: Let_def)
  qed (simp add: copied_def)
qed

lemma scatter_copies:
  assumes "distinct (addresses ts)" "set (addresses ts) \<inter> set (region source) = {}"
  shows "scatter_loop source ts c m = (let k = min (length (addresses ts)) (buf_size source) in
    Some (c + k, copied k (addresses ts) (region source) m))"
  using assms
proof (induction ts arbitrary: source c m)
  case Nil
  then show ?case by (simp add: copied_def)
next
  case (Cons t ts)
  let ?t = "addresses (t # ts)" and ?s = "region source"
  let ?n = "min (buf_size t) (buf_size source)" and ?k = "min (length ?t) (buf_size source)"
  have c: "buffer_copy_1 t source m = Some (?n, copied ?n ?t ?s m)" "?n \<le> length ?t" "?n \<le> length ?s"
    using copy_1_copies [of t "buf_size t" ?t source "buf_size source" ?s ?n] Cons.prems(2) by simp_all
  have r: "scatter_loop (offset_buffer source ?n) ts (c + ?n) (copied ?n ?t ?s m) =
      Some (c + ?k, copied (?k - ?n) (drop ?n ?t) (drop ?n ?s) (copied ?n ?t ?s m))"
  proof (cases "buf_size t \<le> buf_size source")
    case True
    have "set (addresses ts) \<subseteq> set ?t" by simp
    then have "set (addresses ts) \<inter> set (drop ?n ?s) = {}" using Cons.prems(2) set_drop_subset [of ?n ?s] by blast
    from Cons.IH [of "offset_buffer source ?n" "c + ?n" "copied ?n ?t ?s m"] this Cons.prems(1)
    have "scatter_loop (offset_buffer source ?n) ts (c + ?n) (copied ?n ?t ?s m) =
        (let k = min (length (addresses ts)) (buf_size source - ?n) in
         Some (c + ?n + k, copied k (addresses ts) (drop ?n ?s) (copied ?n ?t ?s m)))" by simp
    moreover have "min (length (addresses ts)) (buf_size source - ?n) = ?k - ?n" "c + ?n + (?k - ?n) = c + ?k" "addresses ts = drop ?n ?t"
      using True by auto
    ultimately show ?thesis by (simp only: Let_def)
  next
    case False
    then show ?thesis
      by (cases ts) (simp_all add: copied_def)
  qed
  show ?case
  proof (cases "buf_size source = 0")
    case False
    then show ?thesis using c r copied_parts [OF c(2,3), of ?k m] Cons.prems by (simp add: Let_def)
  qed (simp add: copied_def)
qed

text \<open>What is remaining of a sequence, and what may still be copied.\<close>

definition remaining :: "nat \<Rightarrow> buffer list \<Rightarrow> nat list" where
  "remaining offset bs = drop offset (addresses bs)"

definition room :: "nat option \<Rightarrow> nat \<Rightarrow> nat \<Rightarrow> nat" where
  "room limit c n = (case limit of None \<Rightarrow> n | Some max_bytes \<Rightarrow> min (max_bytes - c) n)"

lemma room_simps [simp]: "room None c n = n" "room (Some x) c n = min (x - c) n"
  by (simp_all add: room_def)

lemma room_drop: "room limit (c + n) (min (a - n) (b - n)) = room limit c (min a b) - n"
  by (cases limit) auto

lemma room_le: "min a (room limit c b) \<le> x \<Longrightarrow> min a (room limit c b) \<le> room limit c x"
  by (cases limit) auto

definition inside :: "nat \<Rightarrow> buffer list \<Rightarrow> bool" where
  "inside offset bs \<longleftrightarrow> (case bs of [] \<Rightarrow> offset = 0 | b # bs \<Rightarrow> offset \<le> buf_size b)"

lemma remaining_region: "inside offset (b # bs) \<Longrightarrow> region (offset_buffer b offset) = take (buf_size b - offset) (remaining offset (b # bs))"
  by (simp add: remaining_def inside_def)

text \<open>One buffer after \<open>n\<close> bytes: the next one if it is done.\<close>

lemma remaining_advances:
  assumes "inside offset (b # bs)" "n \<le> buf_size b - offset"
  shows "inside (if n = buf_size b - offset then 0 else offset + n) (if n = buf_size b - offset then bs else b # bs)"
    "remaining (if n = buf_size b - offset then 0 else offset + n) (if n = buf_size b - offset then bs else b # bs) =
       drop n (remaining offset (b # bs))"
  using assms by (auto simp: inside_def remaining_def add.commute split: list.splits)

lemma within_limit_region: "region (within_limit limit c b) = take (room limit c (buf_size b)) (region b)"
  by (auto simp: within_limit_def min_def split: option.split)

lemma within_limit_size: "buf_size (within_limit limit c b) = room limit c (buf_size b)"
  by (simp add: within_limit_def split: option.split)

lemma copy_loop_copies:
  assumes "inside i ts" "inside j ss" "distinct (remaining i ts)" "set (remaining i ts) \<inter> set (remaining j ss) = {}"
    "\<And>x. limit = Some x \<Longrightarrow> c \<le> x"
  shows "copy_loop limit ts i ss j c m =
    (let k = room limit c (min (length (remaining i ts)) (length (remaining j ss))) in Some (c + k, copied k (remaining i ts) (remaining j ss) m))"
  using assms
proof (induction "length ts + length ss + (case limit of None \<Rightarrow> 0 | Some x \<Rightarrow> x - c)" arbitrary: ts i ss j c m rule: less_induct)
  case less
  show ?case
  proof (cases "limit = Some c \<or> ts = [] \<or> ss = []")
    case True
    then have "room limit c (min (length (remaining i ts)) (length (remaining j ss))) = 0" by (auto simp: remaining_def room_def split: option.split)
    then show ?thesis using True by (subst copy_loop.simps) (simp add: copied_def)
  next
    case False
    then obtain t ts' s ss' where e: "ts = t # ts'" "ss = s # ss'" and open_limit: "limit \<noteq> Some c" by (cases ts; cases ss) auto
    let ?t = "remaining i ts" and ?s = "remaining j ss" and ?k = "room limit c (min (length (remaining i ts)) (length (remaining j ss)))"
    let ?b = "within_limit limit c (offset_buffer s j)"
    define n where "n = min (buf_size t - i) (room limit c (buf_size s - j))"
    have sizes: "n \<le> buf_size t - i" "n \<le> buf_size s - j" by (auto simp: n_def room_def split: option.splits)
    have rt: "region (offset_buffer t i) = take (buf_size t - i) ?t" using less.prems(1) by (simp only: e remaining_region)
    have "region (offset_buffer s j) = take (buf_size s - j) ?s" using less.prems(2) by (simp only: e remaining_region)
    then have rs: "region ?b = take (min (room limit c (buf_size s - j)) (buf_size s - j)) ?s"
      by (simp only: within_limit_region offset_size take_take)
    have "n = min (buf_size (offset_buffer t i)) (buf_size ?b)" by (simp add: n_def within_limit_size)
    note c = copy_1_copies [OF rt rs less.prems(4) this]
    let ?ts = "if n = buf_size t - i then ts' else ts" and ?i = "if n = buf_size t - i then 0 else i + n"
    let ?ss = "if n = buf_size s - j then ss' else ss" and ?j = "if n = buf_size s - j then 0 else j + n"
    note at = remaining_advances [OF less.prems(1) [unfolded e(1)] sizes(1), folded e(1)]
    note as = remaining_advances [OF less.prems(2) [unfolded e(2)] sizes(2), folded e(2)]
    have open': "x - (c + n) < x - c" if "limit = Some x" "n \<noteq> buf_size t - i" "n \<noteq> buf_size s - j" for x
      using that less.prems(5) [OF that(1)] open_limit sizes by (auto simp: n_def min_def split: if_splits)
    have step: "copy_loop limit ts i ss j c m = copy_loop limit ?ts ?i ?ss ?j (c + n) (copied n ?t ?s m)"
      using c(1) open_limit by (subst copy_loop.simps) (simp add: e Let_def)
    have "copy_loop limit ?ts ?i ?ss ?j (c + n) (copied n ?t ?s m) =
      (let k = room limit (c + n) (min (length (remaining ?i ?ts)) (length (remaining ?j ?ss))) in
       Some (c + n + k, copied k (remaining ?i ?ts) (remaining ?j ?ss) (copied n ?t ?s m)))"
    proof (rule less.hyps)
      show "length ?ts + length ?ss + (case limit of None \<Rightarrow> 0 | Some x \<Rightarrow> x - (c + n)) <
          length ts + length ss + (case limit of None \<Rightarrow> 0 | Some x \<Rightarrow> x - c)"
      proof (cases "n = buf_size t - i \<or> n = buf_size s - j")
        case True
        then have "length ?ts + length ?ss < length ts + length ss" by (elim disjE) (simp_all add: e)
        moreover have "(case limit of None \<Rightarrow> 0 | Some x \<Rightarrow> x - (c + n)) \<le> (case limit of None \<Rightarrow> 0 | Some x \<Rightarrow> x - c)"
          by (cases limit) simp_all
        ultimately show ?thesis by (rule add_less_le_mono)
      next
        case False
        then obtain x where "limit = Some x" using n_def by (cases limit) (auto simp: min_def split: if_splits)
        then show ?thesis using open' False by simp
      qed
      show "set (remaining ?i ?ts) \<inter> set (remaining ?j ?ss) = {}"
        using less.prems(4) set_drop_subset [of n ?t] set_drop_subset [of n ?s] unfolding at(2) as(2) by blast
      show "c + n \<le> x" if "limit = Some x" for x
        using that less.prems(5) [OF that] by (simp add: n_def)
    qed (use at as less.prems(3) in simp_all)
    moreover have "room limit (c + n) (min (length (remaining ?i ?ts)) (length (remaining ?j ?ss))) = ?k - n"
      unfolding at(2) as(2) length_drop by (rule room_drop)
    moreover have "n \<le> ?k" using c(2,3) by (simp add: n_def room_le)
    moreover from this have "c + n + (?k - n) = c + ?k" by simp
    ultimately show ?thesis
      using step copied_parts [OF c(2,3) less.prems(3,4), of ?k m] unfolding at(2) as(2) Let_def by simp
  qed
qed

subsection \<open>What every overload does\<close>

text \<open>\<open>r\<close> has copied the first \<open>k\<close> bytes of \<open>source\<close> to the front of \<open>target\<close> and changed nothing else.\<close>

definition copies :: "nat \<Rightarrow> buffer list \<Rightarrow> buffer list \<Rightarrow> memory \<Rightarrow> (nat \<times> memory) option \<Rightarrow> bool" where
  "copies k target source m r \<longleftrightarrow> (case r of None \<Rightarrow> False | Some (n, m') \<Rightarrow>
     n = k \<and> bytes_in m' target = take k (bytes_in m source) @ drop k (bytes_in m target) \<and>
     (\<forall>a. m' a \<noteq> m a \<longrightarrow> a \<in> set (addresses target)))"

lemma moved_target:
  assumes "length to = length from" "distinct to"
  shows "map (moved to from m) to = map m from"
proof (rule nth_equalityI)
  fix i assume "i < length (map (moved to from m) to)"
  then have "map_of (zip to from) (to ! i) = Some (from ! i)" using assms by (simp add: map_of_zip_nth)
  then show "map (moved to from m) to ! i = map m from ! i" using \<open>i < _\<close> assms(1) by (simp add: moved_def)
qed (use assms in simp)

lemma copied_copies:
  assumes "distinct (addresses ts)" "k \<le> length (addresses ts)" "k \<le> length (addresses ss)"
  shows "copies k ts ss m (Some (k, copied k (addresses ts) (addresses ss) m))"
proof -
  let ?to = "take k (addresses ts)" and ?m = "copied k (addresses ts) (addresses ss) m"
  have "distinct (?to @ drop k (addresses ts))" using assms(1) by simp
  then have "set ?to \<inter> set (drop k (addresses ts)) = {}" by (simp only: distinct_append)
  then have "map ?m (drop k (addresses ts)) = map m (drop k (addresses ts))"
    unfolding copied_def by (intro map_cong refl moved_other) blast
  moreover have "map ?m ?to = map m (take k (addresses ss))"
    unfolding copied_def using assms by (intro moved_target) simp_all
  moreover have "map ?m (addresses ts) = map ?m ?to @ map ?m (drop k (addresses ts))" by (metis append_take_drop_id map_append)
  ultimately have b: "map ?m (addresses ts) = take k (map m (addresses ss)) @ drop k (map m (addresses ts))"
    by (simp only: take_map drop_map)
  have "a \<in> set (addresses ts)" if "?m a \<noteq> m a" for a
  proof (rule ccontr)
    assume "a \<notin> set (addresses ts)"
    then have "a \<notin> set ?to" by (meson in_set_takeD)
    then show False using that by (simp add: copied_def moved_other)
  qed
  then show ?thesis using b by (simp add: copies_def bytes_in_def)
qed

lemma copied_take: "k \<le> n \<Longrightarrow> copied k (take n to) from = copied k to from" "k \<le> n \<Longrightarrow> copied k to (take n from) = copied k to from"
  by (simp_all add: copied_def min_absorb1)

text \<open>
  C29: \<open>buffer_copy\<close> copies between two sequences of buffers as if each were one piece of memory, however they are cut into buffers:
  every overload copies as many bytes as both sequences have, up to the limit, in order, returns this number, changes no other byte of the memory, and ends.
\<close>

theorem buffer_copy_copies:
  assumes "distinct (addresses ts)" "set (addresses ts) \<inter> set (addresses ss) = {}"
  shows "copies (min (buffer_size ts) (buffer_size ss)) ts ss m (copy_many_many None ts ss m) \<and>
    copies (min n (min (buffer_size ts) (buffer_size ss))) ts ss m (copy_many_many (Some n) ts ss m) \<and>
    (\<forall>t. ts = [t] \<longrightarrow> copies (min n (min (buffer_size ts) (buffer_size ss))) ts ss m (copy_one_many n t ss m)) \<and>
    (\<forall>s. ss = [s] \<longrightarrow> copies (min n (min (buffer_size ts) (buffer_size ss))) ts ss m (copy_many_one n ts s m)) \<and>
    (\<forall>t s. ts = [t] \<and> ss = [s] \<longrightarrow> copies (min n (min (buffer_size ts) (buffer_size ss))) ts ss m (copy_one_one n t s m))"
    (is "?unlimited \<and> ?limited \<and> ?gather \<and> ?scatter \<and> ?one")
proof (intro conjI allI impI)
  have loop: "copy_many_many limit ts ss m = (let k = room limit 0 (min (length (addresses ts)) (length (addresses ss))) in
      Some (k, copied k (addresses ts) (addresses ss) m))" for limit
    using copy_loop_copies [of 0 ts 0 ss limit 0 m] assms by (simp add: copy_many_many_def remaining_def inside_def split: list.split)
  let ?k = "min n (min (length (addresses ts)) (length (addresses ss)))"
  have k: "copies ?k ts ss m (Some (?k, copied ?k (addresses ts) (addresses ss) m))" using assms(1) by (intro copied_copies) simp_all
  show ?unlimited using loop assms(1) copied_copies [of ts "min (length (addresses ts)) (length (addresses ss))" ss m]
    by (simp add: buffer_size_length Let_def)
  show ?limited using loop [of "Some n"] k by (simp add: buffer_size_length Let_def)
  fix t
  have sub: "set (take n (region t)) \<subseteq> set (region t)" for t by (rule set_take_subset)
  show "copies (min n (min (buffer_size ts) (buffer_size ss))) ts ss m (copy_one_many n t ss m)" if "ts = [t]"
  proof -
    have "gather_loop (first_bytes t n) ss 0 m = Some (?k, copied ?k (addresses ts) (addresses ss) m)"
      using gather_copies [of "first_bytes t n" ss 0 m] assms sub [of t] that by (auto simp: Let_def copied_take min.assoc)
    then show ?thesis using k by (simp add: copy_one_many_def buffer_size_length)
  qed
  show "copies (min n (min (buffer_size ts) (buffer_size ss))) ts ss m (copy_many_one n ts s m)" if "ss = [s]" for s
  proof -
    have "scatter_loop (first_bytes s n) ts 0 m = Some (?k, copied ?k (addresses ts) (addresses ss) m)"
      using scatter_copies [of ts "first_bytes s n" 0 m] assms sub [of s] that
      by (auto simp: Let_def copied_take min.left_commute)
    then show ?thesis using k by (simp add: copy_many_one_def buffer_size_length)
  qed
  show "copies (min n (min (buffer_size ts) (buffer_size ss))) ts ss m (copy_one_one n t s m)" if "ts = [t] \<and> ss = [s]" for s
  proof -
    have "buffer_copy_1 t (first_bytes s n) m = Some (?k, copied ?k (addresses ts) (addresses ss) m)"
      using copy_1_copies(1) [of t "buf_size t" "addresses ts" "first_bytes s n" n "addresses ss" ?k m] assms that
      by (simp add: min.left_commute)
    then show ?thesis using k by (simp add: copy_one_one_def buffer_size_length)
  qed
qed

lemma buffer_copy_copies_witness:
  "copies 3 [\<lparr>buf_data = 0, buf_size = 2\<rparr>, \<lparr>buf_data = 10, buf_size = 3\<rparr>]
     [\<lparr>buf_data = 20, buf_size = 1\<rparr>, \<lparr>buf_data = 30, buf_size = 0\<rparr>, \<lparr>buf_data = 30, buf_size = 2\<rparr>] of_nat
     (copy_many_many None [\<lparr>buf_data = 0, buf_size = 2\<rparr>, \<lparr>buf_data = 10, buf_size = 3\<rparr>]
        [\<lparr>buf_data = 20, buf_size = 1\<rparr>, \<lparr>buf_data = 30, buf_size = 0\<rparr>, \<lparr>buf_data = 30, buf_size = 2\<rparr>] of_nat)"
  using buffer_copy_copies [of "[\<lparr>buf_data = 0, buf_size = 2\<rparr>, \<lparr>buf_data = 10, buf_size = 3\<rparr>]"
      "[\<lparr>buf_data = 20, buf_size = 1\<rparr>, \<lparr>buf_data = 30, buf_size = 0\<rparr>, \<lparr>buf_data = 30, buf_size = 2\<rparr>]" of_nat 7]
  by (simp add: region_def buffer_size_length numeral_3_eq_3)

end
