(* ===== verification/Buffers_Iterator.thy ===== *)
theory Buffers_Iterator
  imports Buffers
begin

text \<open>
  \<open>buffers_iterator.hpp\<close>: an iterator over the bytes of a sequence of buffers.  It keeps a copy of the current buffer and the
  position in it, skips empty buffers, and is shown to be an index into the bytes of the
  sequence.  The iterators of the sequence, \<open>begin_\<close>, \<open>current_\<close> and \<open>end_\<close>, are indices; an assertion that
  fails is the error \<open>Out_Of_Bounds\<close>.
\<close>

subsection \<open>The operations\<close>

record biter =
  current_buffer :: buffer
  current_buffer_position :: nat
  buffers :: "buffer list"
  current :: nat
  position :: nat

definition no_buffer :: buffer where "no_buffer = \<lparr>buf_data = 0, buf_size = 0\<rparr>"

definition new_iter :: "buffer list \<Rightarrow> biter" where
  "new_iter bs = \<lparr>current_buffer = no_buffer, current_buffer_position = 0, buffers = bs, current = 0, position = 0\<rparr>"

text \<open>The loop that looks for the next buffer that is not empty, from the current one on.\<close>

function skip_empty :: "biter \<Rightarrow> biter" where
  "skip_empty it =
     (if current it < length (buffers it) then
        let it = it\<lparr>current_buffer := buffers it ! current it\<rparr> in
        if buf_size (current_buffer it) > 0 then it else skip_empty (it\<lparr>current := current it + 1\<rparr>)
      else it)"
  by pat_completeness auto
termination by (relation "measure (\<lambda>it. length (buffers it) - current it)") auto

declare skip_empty.simps [simp del]

definition buffers_begin :: "buffer list \<Rightarrow> biter" where
  "buffers_begin bs = skip_empty (new_iter bs)"

fun end_loop :: "buffer list \<Rightarrow> biter \<Rightarrow> biter" where
  "end_loop [] it = it"
| "end_loop (b # bs) it = end_loop bs (it\<lparr>position := position it + buf_size b, current := current it + 1\<rparr>)"

definition buffers_end :: "buffer list \<Rightarrow> biter" where
  "buffers_end bs = end_loop bs (new_iter bs)"

definition dereference :: "memory \<Rightarrow> biter \<Rightarrow> error + byte" where
  "dereference m it =
     (if current_buffer_position it < buf_size (current_buffer it)
      then Inr (m (buf_data (current_buffer it) + current_buffer_position it)) else Inl Out_Of_Bounds)"

definition equal_iter :: "biter \<Rightarrow> biter \<Rightarrow> bool" where
  "equal_iter it other \<longleftrightarrow> position it = position other"

definition increment :: "biter \<Rightarrow> error + biter" where
  "increment it =
     (if current it = length (buffers it) then Inl Out_Of_Bounds
      else
        let it = it\<lparr>position := position it + 1, current_buffer_position := current_buffer_position it + 1\<rparr> in
        if current_buffer_position it \<noteq> buf_size (current_buffer it) then Inr it
        else Inr (skip_empty (it\<lparr>current := current it + 1, current_buffer_position := 0\<rparr>)))"

text \<open>The previous buffer that is not empty, if there is one.\<close>

fun previous :: "buffer list \<Rightarrow> nat \<Rightarrow> nat option" where
  "previous bs 0 = None"
| "previous bs (Suc iter) = (if buf_size (bs ! iter) > 0 then Some iter else previous bs iter)"

definition decrement :: "biter \<Rightarrow> error + biter" where
  "decrement it =
     (if position it = 0 then Inl Out_Of_Bounds
      else
        let it = it\<lparr>position := position it - 1\<rparr> in
        if current_buffer_position it \<noteq> 0
        then Inr (it\<lparr>current_buffer_position := current_buffer_position it - 1\<rparr>)
        else case previous (buffers it) (current it) of
          None \<Rightarrow> Inr it
        | Some iter \<Rightarrow>
            Inr (it\<lparr>current := iter, current_buffer := buffers it ! iter,
              current_buffer_position := buf_size (buffers it ! iter) - 1\<rparr>))"

text \<open>The two loops of \<open>advance\<close>.\<close>

partial_function (option) forward :: "nat \<Rightarrow> biter \<Rightarrow> (error + biter) option" where
  "forward n it =
     (let current_buffer_balance = buf_size (current_buffer it) - current_buffer_position it in
      if current_buffer_balance > n then
        Some (Inr (it\<lparr>position := position it + n, current_buffer_position := current_buffer_position it + n\<rparr>))
      else
        let n = n - current_buffer_balance;
            it = it\<lparr>position := position it + current_buffer_balance, current := current it + 1\<rparr>
        in if current it = length (buffers it) then
             if n = 0 then Some (Inr (it\<lparr>current_buffer := no_buffer, current_buffer_position := 0\<rparr>))
             else Some (Inl Out_Of_Bounds)
           else forward n (it\<lparr>current_buffer := buffers it ! current it, current_buffer_position := 0\<rparr>))"

partial_function (option) backward :: "nat \<Rightarrow> biter \<Rightarrow> (error + biter) option" where
  "backward abs_n it =
     (if current_buffer_position it \<ge> abs_n then
        Some (Inr (it\<lparr>position := position it - abs_n, current_buffer_position := current_buffer_position it - abs_n\<rparr>))
      else
        let abs_n = abs_n - current_buffer_position it;
            it = it\<lparr>position := position it - current_buffer_position it\<rparr>
        in if current it = 0 then
             if abs_n = 0 then Some (Inr (it\<lparr>current_buffer_position := 0\<rparr>)) else Some (Inl Out_Of_Bounds)
           else case previous (buffers it) (current it) of
             None \<Rightarrow> backward abs_n it
           | Some iter \<Rightarrow>
               backward abs_n (it\<lparr>current := iter, current_buffer := buffers it ! iter,
                 current_buffer_position := buf_size (buffers it ! iter)\<rparr>))"

definition advance :: "int \<Rightarrow> biter \<Rightarrow> (error + biter) option" where
  "advance n it =
     (if n > 0 then
        if current it = length (buffers it) then Some (Inl Out_Of_Bounds) else forward (nat n) it
      else if n < 0 then
        let abs_n = nat (- n) in
        if position it < abs_n then Some (Inl Out_Of_Bounds) else backward abs_n it
      else Some (Inr it))"

definition distance_to :: "biter \<Rightarrow> biter \<Rightarrow> int" where
  "distance_to it other = int (position other) - int (position it)"

definition less_iter :: "biter \<Rightarrow> biter \<Rightarrow> bool" where
  "less_iter a b \<longleftrightarrow> distance_to a b > 0"

subsection \<open>The index of an iterator\<close>

definition before :: "buffer list \<Rightarrow> nat \<Rightarrow> nat" where "before bs i = length (addresses (take i bs))"

lemma before_0 [simp]: "before bs 0 = 0"
  by (simp add: before_def)

lemma before_all [simp]: "before bs (length bs) = length (addresses bs)"
  by (simp add: before_def)

lemma addresses_append [simp]: "addresses (as @ bs) = addresses as @ addresses bs"
  by (simp add: addresses_def)

lemma before_Suc: "i < length bs \<Longrightarrow> before bs (Suc i) = before bs i + buf_size (bs ! i)"
  by (simp add: before_def take_Suc_conv_app_nth)

lemma before_mono: "i \<le> j \<Longrightarrow> before bs i \<le> before bs j"
proof -
  assume "i \<le> j"
  then have "take j bs = take i bs @ take (j - i) (drop i bs)" by (metis le_add_diff_inverse take_add)
  then show ?thesis by (simp add: before_def)
qed

lemma before_le: "before bs i \<le> length (addresses bs)"
  using before_mono [of i "max i (length bs)" bs] by (simp add: before_def max_def split: if_splits)

text \<open>\<open>stands bs k it\<close>: the iterator stands at the byte with index \<open>k\<close>, or at the end.\<close>

definition stands :: "buffer list \<Rightarrow> nat \<Rightarrow> biter \<Rightarrow> bool" where
  "stands bs k it \<longleftrightarrow> buffers it = bs \<and> position it = k \<and> k = before bs (current it) + current_buffer_position it \<and>
     (if current it < length bs
      then current_buffer it = bs ! current it \<and> current_buffer_position it < buf_size (current_buffer it)
      else current it = length bs \<and> current_buffer_position it = 0)"

lemma stands_end: "stands bs k it \<Longrightarrow> current it = length bs \<longleftrightarrow> k = length (addresses bs)"
  using before_mono [of "Suc (current it)" "length bs" bs] by (auto simp: stands_def before_Suc split: if_splits)

lemma stands_le: "stands bs k it \<Longrightarrow> k \<le> length (addresses bs)"
  using before_mono [of "Suc (current it)" "length bs" bs] by (auto simp: stands_def before_Suc split: if_splits)

lemma skip_empty_stands:
  "buffers it = bs \<Longrightarrow> current it \<le> length bs \<Longrightarrow> current_buffer_position it = 0 \<Longrightarrow> position it = before bs (current it) \<Longrightarrow>
   stands bs (position it) (skip_empty it)"
proof (induction it rule: skip_empty.induct)
  case (1 it)
  show ?case
  proof (cases "current it < length (buffers it) \<and> buf_size (bs ! current it) = 0")
    case True
    let ?it = "it\<lparr>current_buffer := buffers it ! current it\<rparr>"
    have "stands bs (position (?it\<lparr>current := current ?it + 1\<rparr>)) (skip_empty (?it\<lparr>current := current ?it + 1\<rparr>))"
      using True 1(2-5) by (intro 1(1) [OF _ refl]) (simp_all add: before_Suc)
    then show ?thesis using True 1(2) by (simp add: skip_empty.simps [of it])
  next
    case False
    then show ?thesis using 1(2-5) by (auto simp: skip_empty.simps [of it] stands_def)
  qed
qed

lemma begin_stands: "stands bs 0 (buffers_begin bs)"
  using skip_empty_stands [of "new_iter bs" bs] by (simp add: buffers_begin_def new_iter_def)

lemma end_stands: "stands bs (length (addresses bs)) (buffers_end bs)"
proof -
  have "end_loop cs it = it\<lparr>position := position it + length (addresses cs), current := current it + length cs\<rparr>" for cs it
    by (induction cs arbitrary: it) simp_all
  then show ?thesis by (simp add: buffers_end_def new_iter_def stands_def)
qed

subsection \<open>Moving\<close>

lemma increment_stands:
  assumes "stands bs k it"
  shows "if k < length (addresses bs) then \<exists>it'. increment it = Inr it' \<and> stands bs (k + 1) it' else increment it = Inl Out_Of_Bounds"
proof (cases "current it = length bs")
  case True
  then have "\<not> k < length (addresses bs)" using stands_end [OF assms] by simp
  moreover have "buffers it = bs" using assms by (simp add: stands_def)
  ultimately show ?thesis using True by (simp add: increment_def)
next
  case False
  then have k: "k < length (addresses bs)" using stands_end [OF assms] stands_le [OF assms] by simp
  let ?it = "it\<lparr>position := position it + 1, current_buffer_position := current_buffer_position it + 1\<rparr>"
  let ?next = "?it\<lparr>current := current it + 1, current_buffer_position := 0\<rparr>"
  have it: "current it < length bs" "buffers it = bs" using assms False by (auto simp: stands_def split: if_splits)
  show ?thesis
  proof (cases "current_buffer_position it + 1 = buf_size (current_buffer it)")
    case True
    have "position ?next = before bs (current ?next)" using assms it True by (simp add: stands_def before_Suc)
    then have "stands bs (position ?next) (skip_empty ?next)" using it by (intro skip_empty_stands) simp_all
    moreover have "increment it = Inr (skip_empty ?next)" using it True by (simp add: increment_def Let_def)
    moreover have "position ?next = k + 1" using assms by (simp add: stands_def)
    ultimately show ?thesis using k by auto
  next
    case False
    then show ?thesis using k it assms by (auto simp: increment_def Let_def stands_def)
  qed
qed

lemma previous_Some:
  assumes "i \<le> length bs" "0 < before bs i"
  shows "\<exists>j. previous bs i = Some j \<and> j < i \<and> 0 < buf_size (bs ! j) \<and> before bs j + buf_size (bs ! j) = before bs i"
  using assms
proof (induction i)
  case (Suc i)
  then show ?case
  proof (cases "buf_size (bs ! i) > 0")
    case False
    then have "before bs (Suc i) = before bs i" using Suc.prems(1) by (simp add: before_Suc)
    then show ?thesis using Suc False by (auto intro: less_SucI)
  qed (simp add: before_Suc)
qed simp

lemma decrement_stands:
  assumes "stands bs k it"
  shows "if 0 < k then \<exists>it'. decrement it = Inr it' \<and> stands bs (k - 1) it' else decrement it = Inl Out_Of_Bounds"
proof (cases "0 < k \<and> current_buffer_position it = 0")
  case True
  then have "current it \<le> length bs" "0 < before bs (current it)" using assms by (auto simp: stands_def split: if_splits)
  from previous_Some [OF this] obtain j where "previous bs (current it) = Some j" "j < current it" "0 < buf_size (bs ! j)"
    "before bs j + buf_size (bs ! j) = before bs (current it)" by blast
  then show ?thesis using True assms \<open>current it \<le> length bs\<close> by (simp add: decrement_def Let_def stands_def)
next
  case False
  then show ?thesis using assms by (auto simp: decrement_def Let_def stands_def split: if_splits)
qed

text \<open>Inside \<open>advance\<close> an iterator may stand on an empty buffer, or one past the last byte of one.\<close>

definition leans :: "buffer list \<Rightarrow> nat \<Rightarrow> biter \<Rightarrow> bool" where
  "leans bs k it \<longleftrightarrow> buffers it = bs \<and> position it = k \<and> k = before bs (current it) + current_buffer_position it \<and>
     current it < length bs \<and> current_buffer it = bs ! current it \<and> current_buffer_position it \<le> buf_size (current_buffer it)"

lemma forward_stands:
  assumes "leans bs k it"
  shows "if k + n \<le> length (addresses bs) then \<exists>it'. forward n it = Some (Inr it') \<and> stands bs (k + n) it'
    else forward n it = Some (Inl Out_Of_Bounds)"
  using assms
proof (induction "length bs - current it" arbitrary: it k n rule: less_induct)
  case less
  let ?bal = "buf_size (current_buffer it) - current_buffer_position it"
  have it: "current it < length bs" "buffers it = bs" "before bs (Suc (current it)) = k + ?bal"
    using less.prems by (auto simp: leans_def before_Suc)
  note le = before_le [of bs "Suc (current it)", unfolded it(3)]
  consider "n < ?bal" | "?bal \<le> n" "Suc (current it) = length bs" | "?bal \<le> n" "Suc (current it) < length bs"
    using it(1) by linarith
  then show ?case
  proof cases
    case 1
    then have "forward n it =
        Some (Inr (it\<lparr>position := position it + n, current_buffer_position := current_buffer_position it + n\<rparr>))"
      by (subst forward.simps) simp
    moreover have "k + n \<le> length (addresses bs)" using 1 le by linarith
    ultimately show ?thesis using less.prems 1 by (auto simp: leans_def stands_def)
  next
    case 2
    then have all: "k + ?bal = length (addresses bs)" using it(3) by simp
    then show ?thesis using 2 it by (subst (1 2) forward.simps) (auto simp: Let_def stands_def less.prems [unfolded leans_def])
  next
    case 3
    let ?it = "it\<lparr>position := position it + ?bal, current := current it + 1, current_buffer := bs ! (current it + 1), current_buffer_position := 0\<rparr>"
    have l: "leans bs (k + ?bal) ?it" using 3 less.prems it(3) by (simp add: leans_def)
    have d: "length bs - current ?it < length bs - current it" using it(1) by simp
    have "forward n it = forward (n - ?bal) ?it" using 3 it(2) by (subst forward.simps) (simp add: Let_def)
    moreover have "k + ?bal + (n - ?bal) = k + n" using 3(1) by simp
    ultimately show ?thesis using less.hyps [OF d l, of "n - ?bal"] by (simp only:)
  qed
qed

lemma backward_stands:
  assumes "buffers it = bs" "position it = k" "k = before bs (current it) + current_buffer_position it" "0 < n" "n \<le> k"
    "if current it < length bs then current_buffer it = bs ! current it \<and> current_buffer_position it \<le> buf_size (current_buffer it)
     else current it = length bs \<and> current_buffer_position it = 0"
  shows "\<exists>it'. backward n it = Some (Inr it') \<and> stands bs (k - n) it'"
  using assms
proof (induction "current it" arbitrary: it k n rule: less_induct)
  case less
  show ?case
  proof (cases "n \<le> current_buffer_position it")
    case True
    then show ?thesis using less.prems by (subst backward.simps) (auto simp: stands_def split: if_splits)
  next
    case False
    let ?p = "current_buffer_position it"
    have b: "current it \<le> length bs" "0 < before bs (current it)" using False less.prems by (auto split: if_splits)
    from previous_Some [OF this] obtain j where j: "previous bs (current it) = Some j" "j < current it" "0 < buf_size (bs ! j)"
      "before bs j + buf_size (bs ! j) = before bs (current it)" by blast
    let ?it = "it\<lparr>position := position it - ?p, current := j, current_buffer := bs ! j, current_buffer_position := buf_size (bs ! j)\<rparr>"
    have "\<exists>it'. backward (n - ?p) ?it = Some (Inr it') \<and> stands bs (k - ?p - (n - ?p)) it'"
      using less.prems j b False by (intro less.hyps) simp_all
    moreover have "backward n it = backward (n - ?p) ?it"
      using False j b less.prems(1) by (subst backward.simps) (auto simp: Let_def)
    ultimately show ?thesis using False by simp
  qed
qed

lemma advance_stands:
  assumes "stands bs k it"
  shows "if 0 \<le> int k + n \<and> int k + n \<le> int (length (addresses bs))
    then \<exists>it'. advance n it = Some (Inr it') \<and> stands bs (nat (int k + n)) it' else advance n it = Some (Inl Out_Of_Bounds)"
proof -
  have it: "buffers it = bs" "position it = k" using assms by (simp_all add: stands_def)
  consider "n = 0" | "0 < n" "current it = length bs" | "0 < n" "current it \<noteq> length bs" | "n < 0" "k < nat (- n)" | "n < 0" "nat (- n) \<le> k"
    by linarith
  then show ?thesis
  proof cases
    case 1
    then show ?thesis using assms stands_le [OF assms] by (simp add: advance_def)
  next
    case 2
    then show ?thesis using stands_end [OF assms] it by (simp add: advance_def)
  next
    case 3
    then have "leans bs k it" using assms by (auto simp: leans_def stands_def split: if_splits)
    note forward_stands [OF this, of "nat n"]
    moreover have "nat (int k + n) = k + nat n" "k + nat n \<le> length (addresses bs) \<longleftrightarrow> int k + n \<le> int (length (addresses bs))" using 3 by linarith+
    ultimately show ?thesis using 3 it by (simp add: advance_def)
  next
    case 4
    then have "\<not> 0 \<le> int k + n" by linarith
    then show ?thesis using 4 it by (simp add: advance_def)
  next
    case 5
    then have "\<exists>it'. backward (nat (- n)) it = Some (Inr it') \<and> stands bs (k - nat (- n)) it'"
      using assms by (intro backward_stands) (auto simp: stands_def split: if_splits)
    moreover have "nat (int k + n) = k - nat (- n)" "int k + n \<le> int (length (addresses bs))" "0 \<le> int k + n" using 5 stands_le [OF assms] by linarith+
    ultimately show ?thesis using 5 it by (simp add: advance_def)
  qed
qed

lemma dereference_byte:
  assumes "stands bs k it" "k < length (addresses bs)"
  shows "dereference m it = Inr (bytes_in m bs ! k)"
proof -
  have c: "current it < length bs" using assms stands_end [OF assms(1)] by (auto simp: stands_def split: if_splits)
  let ?p = "current_buffer_position it"
  have it: "k = before bs (current it) + ?p" "current_buffer it = bs ! current it" "?p < buf_size (bs ! current it)"
    using assms(1) c by (auto simp: stands_def)
  have "addresses bs = addresses (take (current it) bs) @ region (bs ! current it) @ addresses (drop (Suc (current it)) bs)"
    using id_take_nth_drop [OF c] by (metis addresses_append addresses_simps(2))
  then have "addresses bs ! k = (region (bs ! current it)) ! ?p" using it(1,3) by (simp add: nth_append before_def)
  then show ?thesis using it assms(2) by (simp add: dereference_def bytes_in_def region_def)
qed

text \<open>
  C30: An iterator over a sequence of buffers is an index into its bytes, whatever empty buffers there are: it can be
  moved to every index from 0 to the end and no further, forwards and backwards by one or by any distance, each loop ends,
  it reads the byte at its index, and iterators are compared as their indices.
\<close>

theorem iterator_is_index:
  "stands bs 0 (buffers_begin bs) \<and> stands bs (buffer_size bs) (buffers_end bs) \<and>
   (\<forall>k it. stands bs k it \<longrightarrow> k \<le> buffer_size bs \<and>
     (k < buffer_size bs \<longrightarrow> dereference m it = Inr (bytes_in m bs ! k)) \<and>
     (if k < buffer_size bs then \<exists>it'. increment it = Inr it' \<and> stands bs (k + 1) it' else increment it = Inl Out_Of_Bounds) \<and>
     (if 0 < k then \<exists>it'. decrement it = Inr it' \<and> stands bs (k - 1) it' else decrement it = Inl Out_Of_Bounds) \<and>
     (if 0 \<le> int k + n \<and> int k + n \<le> int (buffer_size bs)
      then \<exists>it'. advance n it = Some (Inr it') \<and> stands bs (nat (int k + n)) it' else advance n it = Some (Inl Out_Of_Bounds)) \<and>
     (\<forall>l other. stands bs l other \<longrightarrow>
       (equal_iter it other \<longleftrightarrow> k = l) \<and> distance_to it other = int l - int k \<and> (less_iter it other \<longleftrightarrow> k < l)))"
  unfolding buffer_size_length
  by (intro conjI allI impI begin_stands end_stands stands_le dereference_byte increment_stands decrement_stands advance_stands)
    (auto simp: equal_iter_def distance_to_def less_iter_def stands_def)

lemma iterator_is_index_witness:
  "let bs = [\<lparr>buf_data = 9, buf_size = 0\<rparr>, \<lparr>buf_data = 20, buf_size = 2\<rparr>, \<lparr>buf_data = 9, buf_size = 0\<rparr>, \<lparr>buf_data = 40, buf_size = 1\<rparr>]
   in \<exists>it. advance 2 (buffers_begin bs) = Some (Inr it) \<and> stands bs 2 it"
proof -
  let ?bs = "[\<lparr>buf_data = 9, buf_size = 0\<rparr>, \<lparr>buf_data = 20, buf_size = 2\<rparr>, \<lparr>buf_data = 9, buf_size = 0\<rparr>, \<lparr>buf_data = 40, buf_size = 1\<rparr>]"
  have l: "buffer_size ?bs = 3" by (simp add: buffer_size_length)
  have first: "stands ?bs 0 (buffers_begin ?bs)" using iterator_is_index [of ?bs] by blast
  then have "if 0 \<le> int 0 + 2 \<and> int 0 + 2 \<le> int (buffer_size ?bs)
      then \<exists>it'. advance 2 (buffers_begin ?bs) = Some (Inr it') \<and> stands ?bs (nat (int 0 + 2)) it'
      else advance 2 (buffers_begin ?bs) = Some (Inl Out_Of_Bounds)"
    using iterator_is_index [of ?bs _ 2] by blast
  then show ?thesis unfolding l Let_def by simp
qed

end
