(* ===== verification/Dynamic_Buffer.thy ===== *)
theory Dynamic_Buffer
  imports Read_Until Asio
begin

text \<open>
  The dynamic buffers of \<open>buffer.hpp\<close>, which adapt a string or a vector of bytes, and \<open>asio::read\<close> (\<open>impl/read.hpp\<close>) and
  \<open>read_until\<close> into them.  They have two interfaces: \<open>prepare\<close>, \<open>commit\<close>, \<open>consume\<close> (version 1), whose first \<open>prepare\<close> sets
  the size, and \<open>grow\<close>, \<open>shrink\<close>, \<open>consume\<close> (version 2).  Against the bytes they hold both are a bounded queue; what
  \<open>read\<close> has to know of a buffer is the interface \<open>sink\<close>, which the stream buffer provides as well.
\<close>

record dynamic_buffer =
  storage :: "byte list"
  size_v1 :: nat
  maximum :: nat

text \<open>The largest \<open>size_t\<close>: a size that has not been set.\<close>

definition no_size :: nat where "no_size = 2 ^ 64 - 1"

definition new_dynamic :: "byte list \<Rightarrow> nat \<Rightarrow> dynamic_buffer" where
  "new_dynamic s maximum_size = \<lparr>storage = s, size_v1 = no_size, maximum = maximum_size\<rparr>"

definition dyn_size :: "dynamic_buffer \<Rightarrow> nat" where
  "dyn_size b = (if size_v1 b \<noteq> no_size then size_v1 b else min (length (storage b)) (maximum b))"

definition dyn_capacity :: "(dynamic_buffer \<Rightarrow> nat) \<Rightarrow> dynamic_buffer \<Rightarrow> nat" where
  "dyn_capacity capacity_of b = min (capacity_of b) (maximum b)"

text \<open>The bytes to read, in version 1 and from \<open>pos\<close> in version 2.\<close>

definition dyn_data :: "dynamic_buffer \<Rightarrow> byte list" where
  "dyn_data b = take (size_v1 b) (storage b)"

definition dyn_data_at :: "nat \<Rightarrow> nat \<Rightarrow> dynamic_buffer \<Rightarrow> byte list" where
  "dyn_data_at pos n b = take n (drop pos (take (maximum b) (storage b)))"

text \<open>The result of \<open>dyn_prepare\<close> is the place to write to.\<close>

definition dyn_prepare :: "nat \<Rightarrow> dynamic_buffer \<Rightarrow> error + nat \<times> dynamic_buffer" where
  "dyn_prepare n b =
     (if dyn_size b > maximum b \<or> maximum b - dyn_size b < n then Inl Length_Error
      else
        let b = (if size_v1 b = no_size then b\<lparr>size_v1 := length (storage b)\<rparr> else b)
        in Inr (size_v1 b, b\<lparr>storage := resize (storage b) (size_v1 b + n)\<rparr>))"

text \<open>The arithmetic of \<open>size_t\<close> wraps: without a \<open>prepare\<close> the size is \<open>no_size\<close>.\<close>

definition dyn_commit :: "nat \<Rightarrow> dynamic_buffer \<Rightarrow> dynamic_buffer" where
  "dyn_commit n b =
     (let left = (length (storage b) + 2 ^ 64 - size_v1 b) mod 2 ^ 64;
          size = (size_v1 b + min n left) mod 2 ^ 64
      in b\<lparr>size_v1 := size, storage := resize (storage b) size\<rparr>)"

definition grow :: "nat \<Rightarrow> dynamic_buffer \<Rightarrow> error + dynamic_buffer" where
  "grow n b =
     (if dyn_size b > maximum b \<or> maximum b - dyn_size b < n then Inl Length_Error
      else Inr (b\<lparr>storage := resize (storage b) (dyn_size b + n)\<rparr>))"

definition shrink :: "nat \<Rightarrow> dynamic_buffer \<Rightarrow> dynamic_buffer" where
  "shrink n b = b\<lparr>storage := resize (storage b) (if n > dyn_size b then 0 else dyn_size b - n)\<rparr>"

definition string_consume :: "nat \<Rightarrow> dynamic_buffer \<Rightarrow> dynamic_buffer" where
  "string_consume n b =
     (if size_v1 b \<noteq> no_size then
        let consume_length = min n (size_v1 b) in
        b\<lparr>storage := drop consume_length (storage b), size_v1 := size_v1 b - consume_length\<rparr>
      else b\<lparr>storage := drop n (storage b)\<rparr>)"

definition vector_consume :: "nat \<Rightarrow> dynamic_buffer \<Rightarrow> dynamic_buffer" where
  "vector_consume n b =
     (if size_v1 b \<noteq> no_size then
        let consume_length = min n (size_v1 b) in
        b\<lparr>storage := drop consume_length (storage b), size_v1 := size_v1 b - consume_length\<rparr>
      else b\<lparr>storage := drop (min (dyn_size b) n) (storage b)\<rparr>)"

text \<open>Bytes that a stream writes.\<close>

definition put_bytes :: "nat \<Rightarrow> byte list \<Rightarrow> dynamic_buffer \<Rightarrow> dynamic_buffer" where
  "put_bytes i bs b = b\<lparr>storage := take i (storage b) @ bs @ drop (i + length bs) (storage b)\<rparr>"

subsection \<open>A bounded queue of bytes\<close>

text \<open>The invariant; a string has less than \<open>2 ^ 63\<close> bytes.\<close>

definition dyn_ok :: "bool \<Rightarrow> dynamic_buffer \<Rightarrow> bool" where
  "dyn_ok v1 b \<longleftrightarrow> length (storage b) < 2 ^ 63 \<and> length (storage b) \<le> maximum b \<and> maximum b < 2 ^ 63 \<and>
     (if v1 then size_v1 b \<le> length (storage b) else size_v1 b = no_size)"

definition dyn_bytes :: "dynamic_buffer \<Rightarrow> byte list" where
  "dyn_bytes b = take (dyn_size b) (storage b)"

lemma dyn_size_v1: "dyn_ok True b \<Longrightarrow> dyn_size b = size_v1 b \<and> size_v1 b \<noteq> no_size"
  by (auto simp: dyn_ok_def dyn_size_def no_size_def)

lemma dyn_size_v2: "dyn_ok False b \<Longrightarrow> dyn_size b = length (storage b)"
  by (auto simp: dyn_ok_def dyn_size_def)

lemma dyn_bytes_v1: "dyn_ok True b \<Longrightarrow> dyn_bytes b = dyn_data b"
  by (simp add: dyn_bytes_def dyn_data_def dyn_size_v1)

lemma dyn_bytes_v2: "dyn_ok False b \<Longrightarrow> dyn_bytes b = storage b"
  by (simp add: dyn_bytes_def dyn_size_v2)

lemma length_dyn_bytes: "dyn_ok v b \<Longrightarrow> length (dyn_bytes b) = dyn_size b"
  by (cases v) (auto simp: dyn_bytes_v2 dyn_size_v2 dyn_bytes_def dyn_size_v1 dyn_ok_def)

lemma dyn_size_max: "dyn_ok v b \<Longrightarrow> dyn_size b \<le> maximum b"
  by (cases v) (auto simp: dyn_size_v2 dyn_size_v1, auto simp: dyn_ok_def)

text \<open>Version 1: the first \<open>prepare\<close> may be of a buffer as it was made.\<close>

lemma dyn_data_at_all: "dyn_ok v b \<Longrightarrow> dyn_data_at 0 (dyn_size b) b = dyn_bytes b"
  by (cases v) (auto simp: dyn_data_at_def dyn_bytes_def dyn_size_v1 dyn_size_v2 dyn_ok_def min_def)

lemma prepare_iff: "dyn_ok v b \<Longrightarrow> dyn_prepare n b = Inl Length_Error \<longleftrightarrow> maximum b < length (dyn_bytes b) + n"
  using length_dyn_bytes [of v b] dyn_size_max [of v b] by (auto simp: dyn_prepare_def Let_def)

lemma prepared:
  assumes "dyn_ok v b" "dyn_prepare n b = Inr (i, b')"
  shows "dyn_ok True b'" "dyn_bytes b' = dyn_bytes b" "maximum b' = maximum b" "i = length (dyn_bytes b)"
    "length (storage b') = i + n" "size_v1 b' = i"
proof -
  let ?b = "if size_v1 b = no_size then b\<lparr>size_v1 := length (storage b)\<rparr> else b"
  have i: "size_v1 ?b = dyn_size b" "dyn_size b \<le> length (storage b)"
    using assms(1) by (cases v; auto simp: dyn_size_v1 dyn_size_v2; auto simp: dyn_ok_def)+
  have n: "dyn_size b + n \<le> maximum b" and b': "i = dyn_size b" "b' = ?b\<lparr>storage := resize (storage b) (dyn_size b + n)\<rparr>"
    using assms(2) i(1) dyn_size_max [OF assms(1)] by (auto simp: dyn_prepare_def Let_def split: if_splits)
  then show *: "dyn_ok True b'" "maximum b' = maximum b" "length (storage b') = i + n" "size_v1 b' = i"
    using assms(1) i by (auto simp: dyn_ok_def)
  show "i = length (dyn_bytes b)" using b' length_dyn_bytes [OF assms(1)] by simp
  have "dyn_bytes b' = take (dyn_size b) (resize (storage b) (dyn_size b + n))"
    using * b' by (simp add: dyn_bytes_def dyn_size_v1)
  then show "dyn_bytes b' = dyn_bytes b" using i(2) by (simp add: take_resize dyn_bytes_def)
qed

lemma committed:
  assumes "dyn_ok True b" "n \<le> length (storage b) - size_v1 b"
  shows "dyn_ok True (dyn_commit n b)" "dyn_bytes (dyn_commit n b) = take (size_v1 b + n) (storage b)"
    "maximum (dyn_commit n b) = maximum b"
proof -
  have s: "size_v1 b \<le> length (storage b)" "length (storage b) < 2 ^ 63" using assms(1) by (auto simp: dyn_ok_def)
  then have "(length (storage b) + 2 ^ 64 - size_v1 b) mod 2 ^ 64 = length (storage b) - size_v1 b"
    by (simp add: mod_if)
  then have "dyn_commit n b = b\<lparr>size_v1 := size_v1 b + n, storage := take (size_v1 b + n) (storage b)\<rparr>"
    using s assms(2) by (simp add: dyn_commit_def Let_def resize_shrink)
  then show "dyn_ok True (dyn_commit n b)" "dyn_bytes (dyn_commit n b) = take (size_v1 b + n) (storage b)"
    "maximum (dyn_commit n b) = maximum b"
    using assms s by (auto simp: dyn_ok_def dyn_bytes_def dyn_size_def)
qed

lemma put_bytes_simps [simp]:
  "size_v1 (put_bytes i bs b) = size_v1 b" "maximum (put_bytes i bs b) = maximum b"
  "i + length bs \<le> length (storage b) \<Longrightarrow> length (storage (put_bytes i bs b)) = length (storage b)"
  "i \<le> length (storage b) \<Longrightarrow> take (i + length bs) (storage (put_bytes i bs b)) = take i (storage b) @ bs"
  by (simp_all add: put_bytes_def)

lemma prepare_put_commit:
  assumes "dyn_ok v b" "dyn_prepare n b = Inr (i, b1)" "length bs \<le> n"
  defines "b' \<equiv> dyn_commit (length bs) (put_bytes i bs b1)"
  shows "dyn_ok True b' \<and> dyn_bytes b' = dyn_bytes b @ bs \<and> maximum b' = maximum b"
proof -
  note p = prepared [OF assms(1,2)]
  have "dyn_ok True (put_bytes i bs b1)" using p assms(3) by (simp add: dyn_ok_def)
  note c = committed [OF this, of "length bs"]
  have "take (size_v1 b1) (storage b1) = dyn_bytes b" using p dyn_bytes_v1 [OF p(1)] by (simp add: dyn_data_def)
  then show ?thesis using c p assms(3) by (simp add: b'_def)
qed

lemma grow_put_shrink:
  assumes "dyn_ok False b" "grow n b = Inr b1" "length bs \<le> n"
  defines "b' \<equiv> shrink (n - length bs) (put_bytes (dyn_size b) bs b1)"
  shows "dyn_ok False b' \<and> dyn_bytes b' = dyn_bytes b @ bs \<and> maximum b' = maximum b"
proof -
  have b1: "b1 = b\<lparr>storage := resize (storage b) (length (storage b) + n)\<rparr>" "length (storage b) + n \<le> maximum b"
    using assms(2) dyn_size_max [OF assms(1)] by (auto simp: grow_def dyn_size_v2 [OF assms(1)] split: if_splits)
  let ?p = "put_bytes (dyn_size b) bs b1"
  have "dyn_ok False ?p" using b1 assms(1,3) by (simp add: dyn_ok_def dyn_size_v2)
  note s = dyn_size_v2 [OF this]
  have l: "length (storage ?p) = length (storage b) + n" using b1 assms(1,3) by (simp add: dyn_size_v2)
  have "storage b' = take (length (storage b) + length bs) (storage ?p)"
    using s l assms(3) by (auto simp: b'_def shrink_def resize_shrink)
  also have "\<dots> = take (length (storage b)) (storage b1) @ bs"
    using b1 put_bytes_simps(4) [of "length (storage b)" b1 bs] by (simp add: dyn_size_v2 [OF assms(1)])
  also have "\<dots> = storage b @ bs" using b1 by (simp add: take_resize)
  finally have t: "storage b' = storage b @ bs" .
  moreover have "size_v1 b' = size_v1 b" "maximum b' = maximum b" using b1 by (simp_all add: b'_def shrink_def)
  ultimately have "dyn_ok False b'" using assms(1,3) b1(2) by (simp add: dyn_ok_def)
  then show ?thesis using t assms(1) \<open>maximum b' = maximum b\<close> by (simp add: dyn_bytes_v2)
qed

lemma grow_iff: "dyn_ok v b \<Longrightarrow> grow n b = Inl Length_Error \<longleftrightarrow> maximum b < length (dyn_bytes b) + n"
  using length_dyn_bytes [of v b] dyn_size_max [of v b] by (auto simp: grow_def)

lemma grow_Inr: "dyn_ok v b \<Longrightarrow> length (dyn_bytes b) + n \<le> maximum b \<Longrightarrow> \<exists>b'. grow n b = Inr b'"
  using length_dyn_bytes [of v b] by (auto simp: grow_def)

lemma prepare_Inr: "dyn_ok v b \<Longrightarrow> length (dyn_bytes b) + n \<le> maximum b \<Longrightarrow> \<exists>i b'. dyn_prepare n b = Inr (i, b')"
  using length_dyn_bytes [of v b] by (auto simp: dyn_prepare_def Let_def)

lemma grown:
  assumes "dyn_ok False b" "grow n b = Inr b'"
  shows "dyn_ok False b' \<and> dyn_bytes b' = dyn_bytes b @ replicate n 0 \<and> maximum b' = maximum b"
proof -
  have b': "b' = b\<lparr>storage := storage b @ replicate n 0\<rparr>" "length (storage b) + n \<le> maximum b"
    using assms dyn_size_max [OF assms(1)] by (auto simp: grow_def dyn_size_v2 resize_grow split: if_splits)
  then have "dyn_ok False b'" using assms(1) by (simp add: dyn_ok_def)
  then show ?thesis using b' assms(1) by (simp add: dyn_bytes_v2)
qed

lemma shrunk:
  assumes "dyn_ok False b"
  shows "dyn_ok False (shrink n b) \<and> dyn_bytes (shrink n b) = take (length (dyn_bytes b) - n) (dyn_bytes b) \<and>
    maximum (shrink n b) = maximum b"
proof -
  have b: "shrink n b = b\<lparr>storage := take (length (storage b) - n) (storage b)\<rparr>"
    using assms by (auto simp: shrink_def dyn_size_v2 resize_shrink)
  then have "dyn_ok False (shrink n b)" using assms by (auto simp: dyn_ok_def)
  then show ?thesis using b assms by (simp add: dyn_bytes_v2)
qed

lemma consumed:
  assumes "dyn_ok v b"
  shows "dyn_ok v (string_consume n b) \<and> dyn_bytes (string_consume n b) = drop n (dyn_bytes b) \<and>
    vector_consume n b = string_consume n b \<and> maximum (string_consume n b) = maximum b"
proof (cases v)
  case True
  have s: "size_v1 b \<noteq> no_size" "size_v1 b \<le> length (storage b)" using assms True dyn_size_v1 by (auto simp: dyn_ok_def)
  let ?n = "min n (size_v1 b)"
  have b: "string_consume n b = b\<lparr>storage := drop ?n (storage b), size_v1 := size_v1 b - ?n\<rparr>"
    using s(1) by (simp add: string_consume_def Let_def)
  then have ok: "dyn_ok True (string_consume n b)" using assms True s(2) by (auto simp: dyn_ok_def)
  have "dyn_bytes (string_consume n b) = take (size_v1 b - ?n) (drop ?n (storage b))"
    using dyn_bytes_v1 [OF ok] b by (simp add: dyn_data_def)
  also have "\<dots> = drop n (take (size_v1 b) (storage b))" using s(2) by (simp add: drop_take min_def)
  finally show ?thesis using ok True b s(1) dyn_bytes_v1 [of b] assms
    by (simp add: dyn_data_def vector_consume_def Let_def)
next
  case False
  then have s: "size_v1 b = no_size" using assms by (simp add: dyn_ok_def)
  then have b: "string_consume n b = b\<lparr>storage := drop n (storage b)\<rparr>" by (simp add: string_consume_def)
  then have ok: "dyn_ok False (string_consume n b)" using assms False by (auto simp: dyn_ok_def)
  have "drop (min (length (storage b)) n) (storage b) = drop n (storage b)" by (simp add: min_def)
  then show ?thesis using ok b s False assms by (simp add: dyn_bytes_v2 vector_consume_def dyn_size_v2)
qed

lemma new_dynamic_ok:
  "length s \<le> m \<Longrightarrow> m < 2 ^ 63 \<Longrightarrow> dyn_ok False (new_dynamic s m) \<and> dyn_bytes (new_dynamic s m) = s \<and> maximum (new_dynamic s m) = m"
  by (auto simp: dyn_ok_def new_dynamic_def dyn_bytes_def dyn_size_def)

text \<open>
  C31: A dynamic buffer is a bounded queue of bytes, in either version of its interface: \<open>prepare\<close> and \<open>grow\<close> fail exactly when the
  maximum would be exceeded and otherwise keep the bytes, what is then written and committed (or not taken
  back by \<open>shrink\<close>) is appended, and \<open>consume\<close> drops from the front, of a string and of a vector alike.
\<close>

theorem dynamic_buffer_is_queue:
  assumes "dyn_ok v b" "length bs \<le> n"
  shows "(case dyn_prepare n b of
       Inl e \<Rightarrow> e = Length_Error \<and> maximum b < length (dyn_bytes b) + n
     | Inr (i, b1) \<Rightarrow> length (dyn_bytes b) + n \<le> maximum b \<and> dyn_ok True b1 \<and> dyn_data b1 = dyn_bytes b \<and>
         (let b' = dyn_commit (length bs) (put_bytes i bs b1) in dyn_ok True b' \<and> dyn_data b' = dyn_bytes b @ bs)) \<and>
    (\<not> v \<longrightarrow> (case grow n b of
       Inl e \<Rightarrow> e = Length_Error \<and> maximum b < length (dyn_bytes b) + n
     | Inr b1 \<Rightarrow> length (dyn_bytes b) + n \<le> maximum b \<and> dyn_ok False b1 \<and> dyn_bytes b1 = dyn_bytes b @ replicate n 0 \<and>
         (let b' = shrink (n - length bs) (put_bytes (dyn_size b) bs b1) in dyn_ok False b' \<and> dyn_bytes b' = dyn_bytes b @ bs)) \<and>
       dyn_ok False (shrink n b) \<and> dyn_bytes (shrink n b) = take (length (dyn_bytes b) - n) (dyn_bytes b)) \<and>
    dyn_ok v (string_consume n b) \<and> dyn_bytes (string_consume n b) = drop n (dyn_bytes b) \<and> vector_consume n b = string_consume n b"
    (is "?prepare \<and> ?grow \<and> ?consume")
proof (intro conjI)
  show ?prepare
  proof (cases "dyn_prepare n b")
    case (Inl e)
    then have "e = Length_Error" by (auto simp: dyn_prepare_def Let_def split: if_splits)
    then show ?thesis using Inl prepare_iff [OF assms(1), of n] by simp
  next
    case (Inr r)
    obtain i b1 where r: "r = (i, b1)" by fastforce
    note p = Inr [unfolded r]
    have "length (dyn_bytes b) + n \<le> maximum b" using p prepare_iff [OF assms(1), of n] by (simp add: not_less)
    then show ?thesis using p prepared(1,2) [OF assms(1) p] prepare_put_commit [OF assms(1) p assms(2)]
      by (simp add: dyn_bytes_v1 [symmetric] Let_def)
  qed
  show ?grow
  proof (intro impI conjI)
    assume "\<not> v"
    then have ok: "dyn_ok False b" using assms(1) by simp
    show "dyn_ok False (shrink n b)" "dyn_bytes (shrink n b) = take (length (dyn_bytes b) - n) (dyn_bytes b)"
      using shrunk [OF ok] by simp_all
    show "case grow n b of
       Inl e \<Rightarrow> e = Length_Error \<and> maximum b < length (dyn_bytes b) + n
     | Inr b1 \<Rightarrow> length (dyn_bytes b) + n \<le> maximum b \<and> dyn_ok False b1 \<and> dyn_bytes b1 = dyn_bytes b @ replicate n 0 \<and>
         (let b' = shrink (n - length bs) (put_bytes (dyn_size b) bs b1) in dyn_ok False b' \<and> dyn_bytes b' = dyn_bytes b @ bs)"
    proof (cases "grow n b")
      case (Inl e)
      then have "e = Length_Error" by (auto simp: grow_def split: if_splits)
      then show ?thesis using Inl grow_iff [OF ok, of n] by simp
    next
      case (Inr b1)
      then have "length (dyn_bytes b) + n \<le> maximum b" using grow_iff [OF ok, of n] by (simp add: not_less)
      then show ?thesis using Inr grown [OF ok Inr] grow_put_shrink [OF ok Inr assms(2)] by (simp add: Let_def)
    qed
  qed
qed (use consumed [OF assms(1)] in simp_all)

lemma dynamic_buffer_is_queue_witness:
  "case dyn_prepare 3 (new_dynamic [7, 8] 5) of
     Inl e \<Rightarrow> False
   | Inr (i, b1) \<Rightarrow> dyn_data (dyn_commit 1 (put_bytes i [9] b1)) = [7, 8, 9]"
proof -
  have n: "dyn_ok False (new_dynamic [7, 8] 5)" "dyn_bytes (new_dynamic [7, 8] 5) = [7, 8]" "maximum (new_dynamic [7, 8] 5) = 5"
    using new_dynamic_ok [of "[7, 8]" 5] by simp_all
  have "length [9 :: byte] \<le> 3" by simp
  from dynamic_buffer_is_queue [OF n(1) this] show ?thesis unfolding n
    by (auto simp: Let_def split: sum.splits)
qed

subsection \<open>Reading\<close>

text \<open>
  One \<open>read_some\<close> of up to \<open>n\<close> bytes into a buffer: in version 1, which the overloads take for the stream buffer,
  and in version 2, which they take for strings and vectors.  The result has the number of bytes.
\<close>

definition take_streambuf :: "nat \<Rightarrow> 's stream \<Rightarrow> streambuf \<Rightarrow> 's \<Rightarrow> error + nat \<times> asio_error option \<times> streambuf \<times> 's" where
  "take_streambuf n rd b s =
     (case prepare n b of
        (Inl e, _) \<Rightarrow> Inl e
      | (Inr (i, n), b) \<Rightarrow>
          (case rd s n of (bs, ec, s) \<Rightarrow>
             ebind (commit (length bs) (write_at i bs b)) (\<lambda>b. Inr (length bs, ec, b, s))))"

definition take_v2 :: "nat \<Rightarrow> 's stream \<Rightarrow> dynamic_buffer \<Rightarrow> 's \<Rightarrow> error + nat \<times> asio_error option \<times> dynamic_buffer \<times> 's" where
  "take_v2 n rd b s =
     (let pos = dyn_size b in
      case grow n b of
        Inl e \<Rightarrow> Inl e
      | Inr b \<Rightarrow>
          (case rd s n of (bs, ec, s) \<Rightarrow> Inr (length bs, ec, shrink (n - length bs) (put_bytes pos bs b), s)))"

text \<open>
  \<open>asio::read\<close> into a dynamic buffer, for any of them: \<open>size_of\<close>, \<open>max_of\<close> and \<open>capacity\<close> are its members, \<open>take_in\<close> is
  the body of the loop up to the completion condition.
\<close>

partial_function (option) read_loop ::
  "('b \<Rightarrow> nat) \<Rightarrow> ('b \<Rightarrow> nat) \<Rightarrow> ('b \<Rightarrow> nat) \<Rightarrow>
   (nat \<Rightarrow> 's stream \<Rightarrow> 'b \<Rightarrow> 's \<Rightarrow> error + nat \<times> asio_error option \<times> 'b \<times> 's) \<Rightarrow>
   (asio_error option \<Rightarrow> nat \<Rightarrow> nat) \<Rightarrow> 's stream \<Rightarrow> asio_error option \<Rightarrow> nat \<Rightarrow> 'b \<Rightarrow> 's \<Rightarrow>
   (error + nat \<times> asio_error option \<times> 'b \<times> 's) option" where
  "read_loop size_of max_of capacity take_in completion_condition rd ec total_transferred b s =
     (let max_size = completion_condition ec total_transferred;
          bytes_available = min (max 512 (capacity b - size_of b)) (min max_size (max_of b - size_of b))
      in if bytes_available > 0 then
           (case take_in bytes_available rd b s of
              Inl e \<Rightarrow> Some (Inl e)
            | Inr (bytes_transferred, ec, b, s) \<Rightarrow>
                read_loop size_of max_of capacity take_in completion_condition rd ec
                  (total_transferred + bytes_transferred) b s)
         else Some (Inr (total_transferred, ec, b, s)))"

definition read_streambuf where
  "read_streambuf capacity completion_condition rd b s =
     read_loop sb_size max_size_sb capacity take_streambuf completion_condition rd None 0 b s"

definition read_v2 where
  "read_v2 capacity_of completion_condition rd b s =
     read_loop dyn_size maximum (dyn_capacity capacity_of) take_v2 completion_condition rd None 0 b s"

text \<open>The completion conditions besides \<open>transfer_all\<close>.\<close>

definition transfer_at_least :: "nat \<Rightarrow> asio_error option \<Rightarrow> nat \<Rightarrow> nat" where
  "transfer_at_least minimum err bytes_transferred =
     (if err \<noteq> None \<or> bytes_transferred \<ge> minimum then 0 else default_max_transfer_size)"

definition transfer_exactly :: "nat \<Rightarrow> asio_error option \<Rightarrow> nat \<Rightarrow> nat" where
  "transfer_exactly exact_size err bytes_transferred =
     (if err \<noteq> None \<or> bytes_transferred \<ge> exact_size then 0
      else if exact_size - bytes_transferred < default_max_transfer_size then exact_size - bytes_transferred else default_max_transfer_size)"

text \<open>The interface: what \<open>read\<close> relies on.\<close>

locale sink =
  fixes size_of max_of :: "'b \<Rightarrow> nat" and bytes_of :: "'b \<Rightarrow> byte list" and ok :: "'b \<Rightarrow> bool"
    and take_in :: "nat \<Rightarrow> 's stream \<Rightarrow> 'b \<Rightarrow> 's \<Rightarrow> error + nat \<times> asio_error option \<times> 'b \<times> 's"
  assumes size: "ok b \<Longrightarrow> size_of b = length (bytes_of b) \<and> size_of b \<le> max_of b"
    and take_in: "ok b \<Longrightarrow> size_of b + n \<le> max_of b \<Longrightarrow> n < 2 ^ 31 \<Longrightarrow> rd s n = (bs, ec, s') \<Longrightarrow> length bs \<le> n \<Longrightarrow>
      \<exists>b'. take_in n rd b s = Inr (length bs, ec, b', s') \<and> ok b' \<and> bytes_of b' = bytes_of b @ bs \<and> max_of b' = max_of b"

text \<open>A condition of the library: it is at most 65536, and 0 after an error.\<close>

definition condition :: "(asio_error option \<Rightarrow> nat \<Rightarrow> nat) \<Rightarrow> bool" where
  "condition cond \<longleftrightarrow> (\<forall>e n. cond e n \<le> default_max_transfer_size \<and> (e \<noteq> None \<longrightarrow> cond e n = 0))"

lemma conditions: "condition transfer_all" "condition (transfer_at_least k)" "condition (transfer_exactly k)"
  by (auto simp: condition_def transfer_all_def transfer_at_least_def transfer_exactly_def)

context sink begin

lemma read_loop_reads:
  "ok b \<Longrightarrow> delivers rd \<Longrightarrow> condition cond \<Longrightarrow>
   \<exists>d ec' b' s'. read_loop size_of max_of capacity take_in cond rd ec c b s = Some (Inr (c + length d, ec', b', s')) \<and> ok b' \<and>
     bytes_of b' = bytes_of b @ d \<and> max_of b' = max_of b \<and>
     (cond ec' (c + length d) = 0 \<or> size_of b' = max_of b') \<and>
     (\<forall>k. cond = transfer_exactly k \<and> c \<le> k \<longrightarrow> c + length d \<le> k)"
proof (induction "max_of b - size_of b" arbitrary: ec c b s rule: less_induct)
  case less
  let ?n = "min (max 512 (capacity b - size_of b)) (min (cond ec c) (max_of b - size_of b))"
  note b = size [OF less.prems(1)]
  show ?case
  proof (cases "0 < ?n")
    case False
    then have "read_loop size_of max_of capacity take_in cond rd ec c b s = Some (Inr (c + length ([] :: byte list), ec, b, s))"
      by (subst read_loop.simps) (auto simp: Let_def)
    moreover have "cond ec (c + length ([] :: byte list)) = 0 \<or> size_of b = max_of b" using False b by auto
    ultimately show ?thesis using less.prems(1) by (intro exI [of _ "[]"]) auto
  next
    case True
    obtain bs ec1 s1 where r: "rd s ?n = (bs, ec1, s1)" by (metis prod_cases3)
    have d: "length bs \<le> ?n" "ec1 = None \<longleftrightarrow> bs \<noteq> []"
    proof -
      note less.prems(2) [unfolded delivers_def, rule_format, OF True, of s, unfolded r prod.case]
      then show "length bs \<le> ?n" "ec1 = None \<longleftrightarrow> bs \<noteq> []" by (rule conjunct1, rule conjunct2)
    qed
    have "cond ec c \<le> 65536" using less.prems(3) by (simp add: condition_def default_max_transfer_size_def)
    then have n: "size_of b + ?n \<le> max_of b" "?n < 2 ^ 31" using b by auto
    obtain b1 where t: "take_in ?n rd b s = Inr (length bs, ec1, b1, s1)" "ok b1" "bytes_of b1 = bytes_of b @ bs" "max_of b1 = max_of b"
      using take_in [of b ?n rd s bs ec1 s1, OF less.prems(1) n r d(1)] by blast
    have step: "read_loop size_of max_of capacity take_in cond rd ec c b s =
        read_loop size_of max_of capacity take_in cond rd ec1 (c + length bs) b1 s1"
      using True t(1) by (subst read_loop.simps) (simp add: Let_def)
    have small: "c + length bs \<le> k" if "cond = transfer_exactly k" "c \<le> k" for k
      using that d(1) by (auto simp: transfer_exactly_def split: if_splits)
    show ?thesis
    proof (cases ec1)
      case (Some e)
      then have z: "cond ec1 (c + length bs) = 0" using less.prems(3) by (simp add: condition_def)
      then have "read_loop size_of max_of capacity take_in cond rd ec1 (c + length bs) b1 s1 = Some (Inr (c + length bs, ec1, b1, s1))"
        by (subst read_loop.simps) (simp add: Let_def)
      then show ?thesis using step t(2-4) z small by (intro exI [of _ bs] exI [of _ ec1]) auto
    next
      case None
      then have "max_of b1 - size_of b1 < max_of b - size_of b"
      proof -
        have "0 < length bs" using None d(2) by simp
        moreover have "size_of b1 = size_of b + length bs" using size [OF t(2)] b t(3) by simp
        ultimately show ?thesis using t(4) d(1) n(1) by linarith
      qed
      from less.hyps [OF this t(2) less.prems(2,3), of ec1 "c + length bs" s1]
      obtain d' ec' b' s' where i: "read_loop size_of max_of capacity take_in cond rd ec1 (c + length bs) b1 s1 =
          Some (Inr (c + length bs + length d', ec', b', s'))" "ok b'" "bytes_of b' = bytes_of b1 @ d'" "max_of b' = max_of b1"
        "cond ec' (c + length bs + length d') = 0 \<or> size_of b' = max_of b'"
        "\<forall>k. cond = transfer_exactly k \<and> c + length bs \<le> k \<longrightarrow> c + length bs + length d' \<le> k"
        by blast
      show ?thesis using step i t(3,4) small
        by (intro exI [of _ "bs @ d'"] exI [of _ ec'] exI [of _ b'] exI [of _ s']) (auto simp: add.assoc)
    qed
  qed
qed

end

interpretation sb_sink: sink sb_size max_size_sb sb_data sb_ok take_streambuf
proof
  fix b assume "sb_ok b"
  then show "sb_size b = length (sb_data b) \<and> sb_size b \<le> max_size_sb b"
    using length_sb_data [of b] by (auto simp: sb_ok_def sb_size_def)
next
  fix b n and rd :: "'a stream" and s bs ec s'
  assume b: "sb_ok b" and n: "sb_size b + n \<le> max_size_sb b" "n < 2 ^ 31" and r: "rd s n = (bs, ec, s')" "length bs \<le> n"
  obtain b1 where "reserve n b = (None, b1)" using reserve_fails_iff [OF b, of n] n(1) by (cases "reserve n b") auto
  then have p: "prepare n b = (Inr (pnext b1, n), b1)" by (simp add: prepare_def)
  then show "\<exists>b'. take_streambuf n rd b s = Inr (length bs, ec, b', s') \<and> sb_ok b' \<and> sb_data b' = sb_data b @ bs \<and>
      max_size_sb b' = max_size_sb b"
    using prepare_write_commit [OF b p r(2)] r n(2) by (auto simp: take_streambuf_def)
qed

interpretation v2_sink: sink dyn_size maximum dyn_bytes "dyn_ok False" take_v2
proof
  fix b assume "dyn_ok False b"
  then show "dyn_size b = length (dyn_bytes b) \<and> dyn_size b \<le> maximum b" using length_dyn_bytes dyn_size_max by auto
next
  fix b n and rd :: "'a stream" and s bs ec s'
  assume b: "dyn_ok False b" and n: "dyn_size b + n \<le> maximum b" and r: "rd s n = (bs, ec, s')" "length bs \<le> n"
  obtain b1 where p: "grow n b = Inr b1" using grow_Inr [OF b, of n] n length_dyn_bytes [OF b] by auto
  then show "\<exists>b'. take_v2 n rd b s = Inr (length bs, ec, b', s') \<and> dyn_ok False b' \<and> dyn_bytes b' = dyn_bytes b @ bs \<and>
      maximum b' = maximum b"
    using grow_put_shrink [OF b p r(2)] r by (auto simp: take_v2_def Let_def)
qed

text \<open>What the result \<open>r\<close> of a \<open>read\<close> says and leaves in a buffer that held \<open>old\<close> and can hold \<open>full\<close> bytes.\<close>

definition read_all_of :: "(asio_error option \<Rightarrow> nat \<Rightarrow> nat) \<Rightarrow> byte list \<Rightarrow> nat \<Rightarrow>
    ('b \<Rightarrow> byte list) \<Rightarrow> (error + nat \<times> asio_error option \<times> 'b \<times> 's) option \<Rightarrow> bool" where
  "read_all_of cond old full bytes r \<longleftrightarrow> (\<exists>d ec b s. r = Some (Inr (length d, ec, b, s)) \<and> bytes b = old @ d \<and>
     (cond ec (length d) = 0 \<or> length (bytes b) = full) \<and> (\<forall>k. cond = transfer_exactly k \<longrightarrow> length d \<le> k))"



subsection \<open>Reading until a delimiter\<close>

text \<open>The end of a round of \<open>read_until\<close> in version 2, and the overloads.\<close>

definition read_more_v2 :: "(dynamic_buffer \<Rightarrow> nat) \<Rightarrow> 's stream \<Rightarrow> dynamic_buffer \<Rightarrow> 's \<Rightarrow>
    error + asio_error option \<times> dynamic_buffer \<times> 's" where
  "read_more_v2 capacity_of rd b s =
     (if dyn_size b = maximum b then Inr (Some not_found, b, s)
      else
        let bytes_to_read = min (max 512 (dyn_capacity capacity_of b - dyn_size b)) (min 65536 (maximum b - dyn_size b)) in
        case take_v2 bytes_to_read rd b s of
          Inl e \<Rightarrow> Inl e
        | Inr (_, ec, b, s) \<Rightarrow> Inr (ec, b, s))"

definition searched_v2 :: "dynamic_buffer \<Rightarrow> byte list" where
  "searched_v2 b = dyn_data_at 0 (dyn_size b) b"

definition read_until_char_v2 where
  "read_until_char_v2 capacity_of rd delim b s =
     until_loop (char_step delim) searched_v2 (read_more_v2 capacity_of rd) 0 b s"

definition read_until_string_v2 where
  "read_until_string_v2 capacity_of rd delim b s =
     until_loop (string_step delim) searched_v2 (read_more_v2 capacity_of rd) 0 b s"

definition read_until_match_v2 where
  "read_until_match_v2 capacity_of rd match_condition b s =
     until_loop (match_step match_condition) searched_v2 (read_more_v2 capacity_of rd) 0 b s"

definition read_until_char_v2_throw where
  "read_until_char_v2_throw capacity_of rd delim b s = throw_ec (read_until_char_v2 capacity_of rd delim b s)"

definition read_until_string_v2_throw where
  "read_until_string_v2_throw capacity_of rd delim b s = throw_ec (read_until_string_v2 capacity_of rd delim b s)"

definition read_until_match_v2_throw where
  "read_until_match_v2_throw capacity_of rd match_condition b s =
     throw_ec (read_until_match_v2 capacity_of rd match_condition b s)"

interpretation v2_filling: filling searched_v2 "read_more_v2 cap" "dyn_ok False" "\<lambda>b. maximum b - dyn_size b" for cap
proof
  fix b and rd :: "'a stream" and s
  assume b: "dyn_ok False b" and rd: "delivers rd"
  show "\<exists>ec b' s' new. read_more_v2 cap rd b s = Inr (ec, b', s') \<and> dyn_ok False b' \<and> searched_v2 b' = searched_v2 b @ new \<and>
    (ec = None \<longleftrightarrow> new \<noteq> []) \<and> maximum b' - dyn_size b' + length new = maximum b - dyn_size b"
  proof (cases "dyn_size b = maximum b")
    case True
    then show ?thesis using b by (simp add: read_more_v2_def)
  next
    case False
    let ?n = "min (max 512 (dyn_capacity cap b - dyn_size b)) (min 65536 (maximum b - dyn_size b))"
    have n: "0 < ?n" "dyn_size b + ?n \<le> maximum b" "?n < 2 ^ 31" using False dyn_size_max [OF b] by auto
    obtain bs ec s' where r: "rd s ?n = (bs, ec, s')" by (metis prod_cases3)
    note d = rd [unfolded delivers_def, rule_format, OF n(1), of s, unfolded r prod.case]
    obtain b' where t: "take_v2 ?n rd b s = Inr (length bs, ec, b', s')" "dyn_ok False b'" "dyn_bytes b' = dyn_bytes b @ bs"
      "maximum b' = maximum b"
      using v2_sink.take_in [of b ?n rd s bs ec s', OF b n(2,3) r] d by blast
    have "dyn_size b' = dyn_size b + length bs" using length_dyn_bytes [OF t(2)] length_dyn_bytes [OF b] t(3) by simp
    moreover have "dyn_size b' \<le> maximum b'" by (rule dyn_size_max [OF t(2)])
    ultimately have "maximum b' - dyn_size b' + length bs = maximum b - dyn_size b" using t(4) by linarith
    then show ?thesis using False t d dyn_data_at_all [OF b] dyn_data_at_all [OF t(2)]
      by (intro exI [of _ ec] exI [of _ b'] exI [of _ s'] exI [of _ bs]) (simp add: read_more_v2_def searched_v2_def Let_def)
  qed
qed

interpretation str_v2: searching "string_step delim" delim searched_v2 "read_more_v2 cap" "dyn_ok False" "\<lambda>b. maximum b - dyn_size b"
  for delim cap ..

interpretation chr_v2: searching "char_step c" "[c]" searched_v2 "read_more_v2 cap" "dyn_ok False" "\<lambda>b. maximum b - dyn_size b"
  for c cap ..

text \<open>\<open>read_until\<close> into a string or a vector finds the first occurrence as well.\<close>

theorem read_until_v2_finds_first:
  assumes "dyn_ok False b" "delivers rd"
  shows "(\<exists>n ec b' s' new. read_until_string_v2 cap rd delim b s = Some (Inr (n, ec, b', s')) \<and> dyn_ok False b' \<and>
      storage b' = storage b @ new \<and> first_or_none delim n ec (storage b'))
    \<and> (\<exists>n ec b' s' new. read_until_char_v2 cap rd c b s = Some (Inr (n, ec, b', s')) \<and> dyn_ok False b' \<and>
      storage b' = storage b @ new \<and> first_or_none [c] n ec (storage b'))"
proof -
  have st: "searched_v2 x = storage x" if "dyn_ok False x" for x :: dynamic_buffer
    using dyn_data_at_all [OF that] dyn_bytes_v2 [OF that] by (simp add: searched_v2_def)
  show ?thesis
    using str_v2.until_loop_finds [OF assms, of 0 delim cap s] chr_v2.until_loop_finds [OF assms, of 0 c cap s]
    unfolding read_until_string_v2_def read_until_char_v2_def by (simp add: st [OF assms(1)]) (metis st)
qed

end
