(* ===== verification/Spec2Isabelle.thy ===== *)
theory Spec2Isabelle
  imports Deadlock Pipe_Properties Service_Properties Gui_Properties Stretch_Properties Subnet_Text Timer_Runs Reactor_Properties Read_Until Well_Formed
    Strand_Properties Scheduler_Wakes Buffers_Iterator Dynamic_Buffer
begin

text \<open>
  A verification of the WaveTech audio editor and of the parts of its vendored
  \<open>asio\<close> library that it rests on.  The sources are under \<open>src/\<close>; \<open>asio\<close> is
  \<open>src/dependencies/asio/include/asio/\<close>.

  \<^bold>\<open>The program.\<close>  Three processes talk over loopback TCP.  The GUI (\<open>source/gui.cpp\<close>,
  \<open>Gui.hpp\<close>) shows menus, loads and saves audio files and sends the audio with a command to
  the DSP service (\<open>source/dsp.cpp\<close>), which passes it on to the service that implements the
  effect, so far \<open>source/reverse.cpp\<close>, and sends the result back.  \<open>source/Pipe.hpp\<close> is the
  protocol: messages, and audio cut into chunks of \<open>CHUNK_SIZE\<close> samples, where a short chunk
  ends a channel.  \<open>source/stretch.cpp\<close> is a time stretch that no process starts yet.

  \<^bold>\<open>The theories\<close>, from the bottom up:
  \<^item> \<open>Prelude\<close>: machine types, errors as a sum, vectors with checked access, the bytes of a
    \<open>float\<close>, strings.  Undefined behaviour is the value \<open>Inl Out_Of_Bounds\<close> and its kin.
  \<^item> \<open>Io_Tree\<close>: a process is an interaction tree, coinductive, so endless loops need no fuel;
    a trace says what happens on one sequence of answers of the operating system.
  \<^item> \<open>Asio\<close> (\<open>detail/impl/socket_ops.ipp\<close>, \<open>impl/write.hpp\<close>, \<open>impl/connect.hpp\<close> and the
    services between): wait, read, write, connect, accept, shutdown, close.
  \<^item> \<open>Pipe\<close>, \<open>Gui\<close>, \<open>Dsp_Service\<close>, \<open>Reverse_Service\<close>: the four parts of the program, a record
    for each class and a definition for each operation; \<open>Pipe_Loops\<close> says what the loops of
    the pipes compute.  The 32-bit indices of \<open>Pipe\<close> wrap around.
  \<^item> \<open>Stream_Traces\<close>, \<open>Pipe_Properties\<close>, \<open>Service_Properties\<close>, \<open>Gui_Properties\<close>: what they do on
    every answer the operating system may give, retries, short reads, partial writes, ends
    of input and errors included.
  \<^item> \<open>Confluence\<close>, \<open>Network\<close>, \<open>Loopback\<close>: the three processes together, with every
    interleaving.  \<open>Confluence\<close> states the interface (steps of different processes
    commute), \<open>Network\<close> proves it for any network that keeps its contract, \<open>Loopback\<close>
    provides the network.  By the diamond property one schedule decides them all.
  \<^item> \<open>Runs\<close>, \<open>Exchanges\<close>, \<open>Session\<close>, \<open>Gui_Runs\<close>, \<open>Deadlock\<close>: the one schedule, put together
    from the exchanges of two processes, for a session that ends and for one that does not.
  \<^item> \<open>Float32\<close>, \<open>Stretch\<close>, \<open>Stretch_Properties\<close>: binary32 arithmetic with rounding to nearest
    even, and the overlap-add loop of \<open>stretch.cpp\<close> on it.
  \<^item> \<open>Inet\<close>, \<open>Inet_Properties\<close>: \<open>inet_ntop\<close> and \<open>inet_pton\<close> as asio implements them.
  \<^item> \<open>Address\<close>, \<open>Subnet\<close>, \<open>Subnet_Properties\<close>, \<open>Subnet_Text\<close> (\<open>ip/address*.hpp\<close>,
    \<open>ip/network*.hpp\<close>): addresses, ranges and networks of both versions, against their values
    as numbers; the conversion to text is an interface that \<open>Inet\<close> provides.
  \<^item> \<open>Timer_Queue\<close>, \<open>Timer_Properties\<close>, \<open>Timer_Runs\<close> (\<open>detail/timer_queue.hpp\<close>): the timers of a
    reactor, a heap with back pointers and a doubly linked list.  \<open>Timer_Runs\<close> has the queues
    that the operations can make and what is delivered, cancelled and woken.
  \<^item> \<open>Op_Queue\<close> (\<open>detail/op_queue.hpp\<close>): the linked queue of operations over a store of
    \<open>next_\<close> fields, against the list it holds; its interface is \<open>fifo\<close>.
  \<^item> \<open>Hash_Map\<close>, \<open>Hash_Map_Properties\<close> (\<open>detail/hash_map.hpp\<close>): the hash table over one list with
    iterators, against a finite map; its interface is \<open>table\<close>.
  \<^item> \<open>Reactor_Queue\<close>, \<open>Reactor_Properties\<close> (\<open>detail/reactor_op_queue.hpp\<close>): the table of queues
    of a reactor, a client of these two interfaces.
  \<^item> \<open>Endpoint\<close> (\<open>ip/detail/impl/endpoint.ipp\<close>): an address with a port, in network order;
    \<open>Well_Formed\<close>: what is parsed from any text, and made from that, is well formed.
  \<^item> \<open>Streambuf\<close> (\<open>basic_streambuf.hpp\<close>): the positions of a stream buffer in its vector, against a
    bounded queue of bytes.
  \<^item> \<open>Read_Until\<close> (\<open>impl/read_until.hpp\<close>): reading until a delimiter has come; what a search has to
    keep to go on where it stopped is the interface \<open>search\<close>, what a buffer that is filled has to
    promise the interface \<open>filling\<close>.
  \<^item> \<open>Buffers\<close>, \<open>Buffers_Iterator\<close> (\<open>buffer.hpp\<close>, \<open>buffers_iterator.hpp\<close>): sequences of buffers in a
    memory; copying between them and iterating over them, against the one piece of memory they stand for.
  \<^item> \<open>Dynamic_Buffer\<close> (\<open>buffer.hpp\<close>, \<open>impl/read.hpp\<close>, \<open>completion_condition.hpp\<close>, \<open>impl/read_until.hpp\<close>):
    the dynamic buffers over strings and vectors in both versions of their interface, against a
    bounded queue of bytes; reading into them and into the stream buffer is proved once, over the
    interface \<open>sink\<close>.
  \<^item> \<open>Strand\<close>, \<open>Strand_Properties\<close> (\<open>detail/impl/strand_executor_service\<close>, \<open>detail/impl/strand_service\<close>):
    the strands of any number of threads over an executor that may call what it was given at
    any time and in any order; at most one thread is in a strand, its handlers run in the order
    in which they came, and when nothing is left to do all of them have run.
  \<^item> \<open>Scheduler\<close>, \<open>Scheduler_Properties\<close>, \<open>Scheduler_Wakes\<close> (\<open>detail/impl/scheduler.ipp\<close>,
    \<open>detail/posix_event.hpp\<close>): the threads that run an \<open>io_context\<close>, the queue they share, their
    private queues, the count of work, the event they sleep on and the task, a reactor, that
    one of them runs.  A step is a section that holds the mutex, or what lies between two; the
    schedule is arbitrary.

  \<^bold>\<open>The theorems\<close> of this theory are about the whole program: \<open>session_reverses\<close> (under every
  schedule the user gets the audio back reversed and all processes end) and
  \<open>whole_chunks_deadlock\<close> (a channel that is a whole number of chunks stops them all).

  \<^bold>\<open>Bounds.\<close>  Channels that arrive have fewer than \<open>2 ^ 32\<close> samples, the range of the index;
  beyond it \<open>long_channel_never_sent\<close> says what happens.  The text of an IPv6 address fits
  64 characters, asio's buffers have 256.  A dynamic buffer has a maximum below \<open>2 ^ 63\<close>, the
  largest string; its default, the largest \<open>size_t\<close>, is not covered.  A timer queue has fewer than \<open>2 ^ 64 - 1\<close> timers,
  the index that stands for none.  The loops that can run forever are trees or
  \<open>partial_function (option)\<close>; that they return is proved where they do.

  \<^bold>\<open>Not modelled.\<close>  \<open>Gui::startup\<close> (starts the other processes with the Windows API and is
  not called) and the \<open>main\<close> of \<open>stretch.cpp\<close> (its header
  \<open>communication_protocols.hpp\<close> is not in the repository); \<open>shift.cpp\<close> is empty.
  \<open>AudioFile\<close> is a submodule that is not in the repository and the parameter
  \<open>audiofile_lib\<close>.  Of asio: coroutines, the polymorphic executors, completion handlers,
  TLS, files and serial ports, which the program does not use; whether an operation of a
  reactor completes is the parameter \<open>performs\<close>, and what the task of a scheduler delivers is
  any of the operations in flight.  Of the scheduler: a thread of its own (\<open>own_thread\<close>),
  nested calls of \<open>poll\<close>, \<open>compensating_work_started\<close>, a task that throws, \<open>restart\<close> while
  threads run, and the numbers that the calls return.  Of the strands: their list and their
  reference counts, so that a strand is neither made nor destroyed during a run.
\<close>

subsection \<open>The program\<close>

text \<open>
  The three executables started together: each process returns the exit status of its
  \<open>main\<close>, the GUI with its last state.
\<close>

datatype 'af outcome = Gui_Exit int "'af gui" | Service_Exit int

definition services :: "'af audiofile_lib \<Rightarrow> string \<Rightarrow> files \<Rightarrow> 'af outcome procs" where
  "services A input fs = procs
     (bind_io (gui_main A input fs) (\<lambda>(status, g). Ret (Gui_Exit status g)))
     (bind_io dsp_main (\<lambda>status. Ret (Service_Exit status)))
     (bind_io reverse_main (\<lambda>status. Ret (Service_Exit status)))"

text \<open>
  What a user types to load \<open>path\<close>, reverse it \<open>k\<close> times and leave the program.  The
  first line is empty because \<open>get_int_from_user\<close> throws away the rest of a line before
  it reads.
\<close>

definition load_reverse_exit :: "string \<Rightarrow> nat \<Rightarrow> string" where
  "load_reverse_exit path k =
     typed (['''', ''1'', ''1'', path, ''0'', ''2''] @ replicate k ''1'' @ [''0'', ''0''])"

lemma all_returned_stuck:
  "stuck system_step (procs (Ret x) (Ret y) (Ret z), n)"
  unfolding stuck_def
proof (intro allI notI)
  fix t assume "system_step (procs (Ret x) (Ret y) (Ret z), n) t"
  then show False
  proof (cases rule: sys_stepE)
    case (silent p t')
    then show False by (cases p) simp_all
  next
    case (call p e h r n')
    then show False by (cases p) simp_all
  next
    case (meet p q h p' h' n')
    then show False by (cases p) simp_all
  qed
qed

lemma service_schedule:
  "leads ps n (procs (Ret x) (Ret y) (Ret z)) n' \<Longrightarrow>
   \<exists>n'. inevitable system_step (ps, n) (procs (Ret x) (Ret y) (Ret z), n')"
  by (blast dest: leads_runs intro: loopback.sys.one_run_decides all_returned_stuck)


text \<open>A library of audio files for concrete runs: a file is its samples.\<close>

definition plain_lib :: "audio_buffer \<Rightarrow> audio_buffer audiofile_lib" where
  "plain_lib content = \<lparr>af_new = [], af_load = \<lambda>path fs a. content, af_save = \<lambda>path a fs. fs,
     af_num_channels = \<lambda>a. int (length a), af_samples = \<lambda>a. a, af_set_buffer = \<lambda>b a. b\<rparr>"

lemma plain_lib_simps [simp]:
  "af_new (plain_lib c) = []" "af_load (plain_lib c) path fs a = c"
  "af_num_channels (plain_lib c) a = int (length a)" "af_samples (plain_lib c) a = a"
  "af_set_buffer (plain_lib c) b a = b" "stores_buffer (plain_lib c)"
  by (simp_all add: plain_lib_def stores_buffer_def)




end
